(* ===== verification/Prelude.thy ===== *)
theory Prelude imports Complex_Main "HOL-Library.AList" begin

text \<open>
  Shared material of the development: the model's types (clock readings, JSON-like payloads,
  events, effects), ordered dictionaries, the few Python primitives the sources use (slices,
  rounding, stable sorting, truthiness of optional numbers), runs of operations, and the two
  interfaces every component shares, each stated as a locale: a keyed store and an operation
  system with an invariant.
\<close>

section \<open>Collections of facts\<close>

named_theorems dict_simps \<open>lookup after update and delete on ordered dictionaries\<close>
named_theorems wf_intros \<open>operations keep the well-formedness of a component\<close>

section \<open>Values\<close>

text \<open>
  A clock reading (\<open>time.time()\<close>, \<open>time.monotonic()\<close>) and every other Python float is an exact
  rational: rounding of binary floating point is not modelled. Python integers are \<open>int\<close>.
\<close>

type_synonym time = rat

text \<open>A dictionary keeps insertion order: Python's \<open>dict\<close>, as an association list.\<close>

type_synonym ('k, 'v) dict = "('k \<times> 'v) list"

text \<open>The JSON-like values that event payloads and message contents are made of.\<close>

datatype pyval =
    PNone
  | PBool bool
  | PInt int
  | PFlt rat
  | PStr string
  | PList "pyval list"
  | PDict "(string \<times> pyval) list"

type_synonym payload = "(string, pyval) dict"

fun py_opt_str :: "string option \<Rightarrow> pyval" where
  "py_opt_str None = PNone"
| "py_opt_str (Some s) = PStr s"

fun py_opt_flt :: "rat option \<Rightarrow> pyval" where
  "py_opt_flt None = PNone"
| "py_opt_flt (Some x) = PFlt x"

definition py_strs :: "string list \<Rightarrow> pyval" where
  "py_strs xs = PList (map PStr xs)"

text \<open>
  What a component asks of the communication layer: \<open>events.emit(type, source, payload)\<close> and
  \<open>bus.send(from_id, to_id, content, msg_type)\<close>. Components return these requests in program
  order; the theory Comms carries them out.
\<close>

datatype eff =
    Emit string string payload
  | Send string string payload string

text \<open>A line break.\<close>

definition nl :: string where
  "nl = [char_of (10 :: nat)]"

text \<open>The em dash of some of the sources' messages, as its UTF-8 bytes.\<close>

definition em_dash :: string where
  "em_dash = [CHR 0xE2, CHR 0x80, CHR 0x94]"

text \<open>Errors the sources raise.\<close>

datatype py_error =
    ValueError string
  | KeyError string
  | RuntimeError string

section \<open>Ordered dictionaries\<close>

text \<open>
  \<open>d[k] = v\<close> replaces in place or appends at the end, which is what \<open>AList.update\<close> does;
  \<open>del d[k]\<close> and \<open>d.pop(k, None)\<close> are \<open>AList.delete\<close>; \<open>d.get(k)\<close> is \<open>map_of\<close>.
\<close>

abbreviation dict_get :: "('k, 'v) dict \<Rightarrow> 'k \<Rightarrow> 'v option" where
  "dict_get d k \<equiv> map_of d k"

abbreviation dict_set :: "'k \<Rightarrow> 'v \<Rightarrow> ('k, 'v) dict \<Rightarrow> ('k, 'v) dict" where
  "dict_set k v d \<equiv> AList.update k v d"

abbreviation dict_del :: "'k \<Rightarrow> ('k, 'v) dict \<Rightarrow> ('k, 'v) dict" where
  "dict_del k d \<equiv> AList.delete k d"

abbreviation keys :: "('k, 'v) dict \<Rightarrow> 'k list" where
  "keys d \<equiv> map fst d"

abbreviation vals :: "('k, 'v) dict \<Rightarrow> 'v list" where
  "vals d \<equiv> map snd d"

definition wf_dict :: "('k, 'v) dict \<Rightarrow> bool" where
  "wf_dict d = distinct (keys d)"

text \<open>\<open>d.get(k, default)\<close>\<close>

definition dict_get_or :: "'v \<Rightarrow> ('k, 'v) dict \<Rightarrow> 'k \<Rightarrow> 'v" where
  "dict_get_or v d k = (case dict_get d k of None \<Rightarrow> v | Some w \<Rightarrow> w)"

text \<open>Mutating the object stored under a key in place: the order is kept, an absent key is ignored.\<close>

definition dict_upd :: "'k \<Rightarrow> ('v \<Rightarrow> 'v) \<Rightarrow> ('k, 'v) dict \<Rightarrow> ('k, 'v) dict" where
  "dict_upd k f d = map (\<lambda>(k', v). (k', if k' = k then f v else v)) d"

text \<open>Mutating every object stored in the dictionary, in order.\<close>

definition dict_map :: "('k \<Rightarrow> 'v \<Rightarrow> 'w) \<Rightarrow> ('k, 'v) dict \<Rightarrow> ('k, 'w) dict" where
  "dict_map f d = map (\<lambda>(k, v). (k, f k v)) d"

lemma dict_get_set [simp, dict_simps]:
  "dict_get (dict_set k v d) k' = (if k' = k then Some v else dict_get d k')"
  by (simp add: update_conv')

lemma dict_get_del [simp, dict_simps]:
  "dict_get (dict_del k d) k' = (if k' = k then None else dict_get d k')"
  by (simp add: delete_conv')

lemma dict_get_upd [simp, dict_simps]:
  "dict_get (dict_upd k f d) k' = (if k' = k then map_option f (dict_get d k) else dict_get d k')"
  by (induction d) (auto simp: dict_upd_def)

lemma dict_get_map [simp, dict_simps]:
  "dict_get (dict_map f d) k = map_option (f k) (dict_get d k)"
  by (induction d) (auto simp: dict_map_def)

lemma dict_get_or_set [simp, dict_simps]:
  "dict_get_or v (dict_set k w d) k' = (if k' = k then w else dict_get_or v d k')"
  by (simp add: dict_get_or_def)

lemma keys_set: "keys (dict_set k v d) = (if k \<in> set (keys d) then keys d else keys d @ [k])"
  by (simp add: update_keys)

lemma dict_set_new: "k \<notin> set (keys d) \<Longrightarrow> dict_set k v d = d @ [(k, v)]"
  by (induction d) auto

lemma keys_upd [simp]: "keys (dict_upd k f d) = keys d"
  by (induction d) (auto simp: dict_upd_def)

lemma keys_map [simp]: "keys (dict_map f d) = keys d"
  by (induction d) (auto simp: dict_map_def)

lemma keys_del: "set (keys (dict_del k d)) = set (keys d) - {k}"
  by (auto simp: delete_keys)

lemma list_ex_vals_map: "list_ex P (vals (dict_map f d)) = list_ex (\<lambda>(k, v). P (f k v)) d"
  by (induction d) (auto simp: dict_map_def)

lemma in_dict_set: "x \<in> set (dict_set k v d) \<Longrightarrow> x = (k, v) \<or> x \<in> set d"
  by (induction d) (auto split: if_splits)

lemma wf_dict_Nil [simp, intro]: "wf_dict []"
  by (simp add: wf_dict_def)

lemma wf_dict_set [simp, intro]: "wf_dict d \<Longrightarrow> wf_dict (dict_set k v d)"
  by (simp add: wf_dict_def distinct_update)

lemma wf_dict_del [simp, intro]: "wf_dict d \<Longrightarrow> wf_dict (dict_del k d)"
  by (simp add: wf_dict_def distinct_delete)

lemma wf_dict_upd [simp]: "wf_dict (dict_upd k f d) = wf_dict d"
  by (simp add: wf_dict_def)

lemma wf_dict_map [simp]: "wf_dict (dict_map f d) = wf_dict d"
  by (simp add: wf_dict_def)

lemma wf_dict_filter [simp, intro]: "wf_dict d \<Longrightarrow> wf_dict (filter P d)"
  by (simp add: wf_dict_def distinct_map_filter)

lemma dict_get_in: "dict_get d k = Some v \<Longrightarrow> (k, v) \<in> set d"
  by (rule map_of_SomeD)

lemma in_dict_get: "wf_dict d \<Longrightarrow> (k, v) \<in> set d \<Longrightarrow> dict_get d k = Some v"
  by (simp add: wf_dict_def)

lemma dict_get_None: "dict_get d k = None \<longleftrightarrow> k \<notin> set (keys d)"
  by (simp add: map_of_eq_None_iff)

lemma dict_get_or_cases [case_names absent present]:
  assumes "dict_get d k = None \<Longrightarrow> dict_get_or v d k = v \<Longrightarrow> k \<notin> set (keys d) \<Longrightarrow> P"
    and "\<And>w. dict_get d k = Some w \<Longrightarrow> dict_get_or v d k = w \<Longrightarrow> (k, w) \<in> set d \<Longrightarrow> k \<in> set (keys d) \<Longrightarrow> P"
  shows P
proof (cases "dict_get d k")
  case None
  then show ?thesis by (intro assms(1)) (use None in \<open>auto simp: dict_get_or_def map_of_eq_None_iff [symmetric]\<close>)
next
  case (Some w)
  show ?thesis
    by (rule assms(2) [OF Some]) (use Some in \<open>auto simp: dict_get_or_def dest: map_of_SomeD intro: rev_image_eqI\<close>)
qed

lemma dict_get_filter:
  "wf_dict d \<Longrightarrow> dict_get (filter P d) k =
     (case dict_get d k of None \<Rightarrow> None | Some v \<Rightarrow> if P (k, v) then Some v else None)"
proof (induction d)
  case Nil
  show ?case by simp
next
  case (Cons p d)
  obtain k' v' where p: "p = (k', v')" by (cases p)
  from Cons.prems have wf: "wf_dict d" and new: "k' \<notin> set (keys d)"
    by (auto simp: wf_dict_def p)
  from new have "dict_get d k' = None" by (simp add: dict_get_None)
  with Cons.IH [OF wf] show ?case
    by (auto simp: p split: option.splits)
qed

lemma set_dict_set: "wf_dict d \<Longrightarrow> (k', v') \<in> set (dict_set k v d) \<longleftrightarrow>
    (if k' = k then v' = v else (k', v') \<in> set d)"
  by (metis dict_get_in dict_get_set in_dict_get option.inject wf_dict_set)

lemma foldl_dict_del:
  "foldl (\<lambda>d k. dict_del k d) d ks = filter (\<lambda>(k, v). k \<notin> set ks) d"
proof (induction ks arbitrary: d)
  case Nil
  then show ?case by simp
next
  case (Cons k ks)
  have "foldl (\<lambda>d k. dict_del k d) d (k # ks) = filter (\<lambda>(k, v). k \<notin> set ks) (dict_del k d)"
    using Cons.IH by simp
  also have "\<dots> = filter (\<lambda>(k', v). k' \<notin> set (k # ks)) d"
    by (simp add: AList.delete_eq) (rule filter_cong, auto)
  finally show ?case .
qed

text \<open>A dictionary comprehension \<open>{k(x): v(x) for x in xs}\<close>: a later element replaces the value of an earlier one.\<close>

definition dict_build :: "('a \<Rightarrow> 'k) \<Rightarrow> ('a \<Rightarrow> 'v) \<Rightarrow> 'a list \<Rightarrow> ('k, 'v) dict" where
  "dict_build k v xs = foldl (\<lambda>d x. dict_set (k x) (v x) d) [] xs"

lemma dict_build_acc:
  "distinct (keys d @ map k xs) \<Longrightarrow> foldl (\<lambda>d x. dict_set (k x) (v x) d) d xs = d @ map (\<lambda>x. (k x, v x)) xs"
proof (induction xs arbitrary: d)
  case (Cons x xs)
  then have "dict_set (k x) (v x) d = d @ [(k x, v x)]" by (intro dict_set_new) simp
  with Cons.IH [of "d @ [(k x, v x)]"] Cons.prems show ?case by simp
qed simp

lemma dict_build_distinct: "distinct (map k xs) \<Longrightarrow> dict_build k v xs = map (\<lambda>x. (k x, v x)) xs"
  using dict_build_acc [of "[]" k xs v] by (simp add: dict_build_def)

lemma wf_dict_build [simp, intro]: "wf_dict (dict_build k v xs)"
proof -
  have "wf_dict d \<Longrightarrow> wf_dict (foldl (\<lambda>d x. dict_set (k x) (v x) d) d xs)" for d
    by (induction xs arbitrary: d) auto
  then show ?thesis by (simp add: dict_build_def)
qed

text \<open>Deleting, one by one, the keys of the entries that satisfy a condition.\<close>

lemma drop_keys_filter:
  assumes "wf_dict d"
  shows "foldl (\<lambda>d k. dict_del k d) d (map fst (filter (\<lambda>(k, v). P v) d)) = filter (\<lambda>(k, v). \<not> P v) d"
proof -
  have "k \<in> set (map fst (filter (\<lambda>(k, v). P v) d)) \<longleftrightarrow> P v" if kv: "(k, v) \<in> set d" for k v
  proof -
    have uniq: "v' = v" if "(k, v') \<in> set d" for v'
      using in_dict_get [OF assms kv] in_dict_get [OF assms that] by simp
    have "k \<in> set (map fst (filter (\<lambda>(k, v). P v) d)) \<longleftrightarrow> (\<exists>v'. (k, v') \<in> set d \<and> P v')"
      by (auto intro: rev_image_eqI)
    with kv uniq show ?thesis by blast
  qed
  then show ?thesis
    unfolding foldl_dict_del by (intro filter_cong) auto
qed

text \<open>The positions of the rows of a list, by their distinct keys.\<close>

lemma position_lookup:
  "distinct (map f gs) \<Longrightarrow>
    dict_get (map (\<lambda>(n, g). (f g, n)) (enumerate k gs)) i = Some m \<longleftrightarrow> k \<le> m \<and> m < k + length gs \<and> f (gs ! (m - k)) = i"
proof (induction gs arbitrary: k)
  case (Cons g gs)
  show ?case
  proof (cases "f g = i")
    case True
    then have "f (gs ! j) \<noteq> i" if "j < length gs" for j using Cons.prems nth_mem [OF that] by (metis distinct.simps(2) image_eqI list.map(2) list.set_map)
    then show ?thesis using True by (auto simp: nth_Cons' intro: le_antisym)
  next
    case False
    then show ?thesis using Cons by (auto simp: nth_Cons' not_le)
  qed
qed simp

section \<open>Python primitives\<close>

text \<open>\<open>xs[:n]\<close>: a negative bound counts from the end.\<close>

definition py_take :: "int \<Rightarrow> 'a list \<Rightarrow> 'a list" where
  "py_take n xs = (if 0 \<le> n then take (nat n) xs else take (length xs - nat (- n)) xs)"

lemma py_take_nonneg [simp]: "0 \<le> n \<Longrightarrow> py_take n xs = take (nat n) xs"
  by (simp add: py_take_def)

lemma set_py_take: "set (py_take n xs) \<subseteq> set xs"
  by (auto simp: py_take_def dest: in_set_takeD)

text \<open>\<open>round(x)\<close>: to the nearest integer, ties to the even one.\<close>

definition py_round :: "rat \<Rightarrow> int" where
  "py_round x =
     (let f = \<lfloor>x\<rfloor>; r = x - of_int f
      in if r < 1/2 then f else if 1/2 < r then f + 1 else if even f then f else f + 1)"

text \<open>\<open>round(x, n)\<close>\<close>

definition py_round_dig :: "nat \<Rightarrow> rat \<Rightarrow> rat" where
  "py_round_dig n x = of_int (py_round (x * 10 ^ n)) / 10 ^ n"

text \<open>\<open>int(x)\<close> truncates towards zero.\<close>

definition py_int :: "rat \<Rightarrow> int" where
  "py_int x = (if 0 \<le> x then \<lfloor>x\<rfloor> else \<lceil>x\<rceil>)"

text \<open>\<open>s.split()\<close>, \<open>s.strip()\<close> and \<open>sep.join(words)\<close>, for ASCII white space.\<close>

definition is_space :: "char \<Rightarrow> bool" where
  "is_space c = (let n = of_char c :: nat in 9 \<le> n \<and> n \<le> 13 \<or> 28 \<le> n \<and> n \<le> 32)"

fun split_acc :: "string \<Rightarrow> string \<Rightarrow> string list" where
  "split_acc acc [] = (if acc = [] then [] else [rev acc])"
| "split_acc acc (c # cs) =
     (if is_space c then (if acc = [] then split_acc [] cs else rev acc # split_acc [] cs)
      else split_acc (c # acc) cs)"

definition py_split :: "string \<Rightarrow> string list" where
  "py_split s = split_acc [] s"

definition py_strip :: "string \<Rightarrow> string" where
  "py_strip s = rev (dropWhile is_space (rev (dropWhile is_space s)))"

fun py_join :: "string \<Rightarrow> string list \<Rightarrow> string" where
  "py_join sep [] = []"
| "py_join sep [w] = w"
| "py_join sep (w # ws) = w @ sep @ py_join sep ws"

text \<open>\<open>str(n)\<close> of an integer, as the sources' format strings use it.\<close>

fun nat_str :: "nat \<Rightarrow> string" where
  "nat_str n = (if n < 10 then [char_of (48 + n)] else nat_str (n div 10) @ [char_of (48 + n mod 10)])"

declare nat_str.simps [simp del]

definition int_str :: "int \<Rightarrow> string" where
  "int_str n = (if n < 0 then ''-'' @ nat_str (nat (- n)) else nat_str (nat n))"

text \<open>\<open>f"{x:.2f}"\<close> and its like: \<open>n\<close> decimals (at least one), ties to even.\<close>

definition fmt_dec :: "nat \<Rightarrow> rat \<Rightarrow> string" where
  "fmt_dec n x =
     (let k = py_round (x * 10 ^ n); a = nat \<bar>k\<bar>; f = nat_str (a mod 10 ^ n)
      in (if x < 0 then ''-'' else []) @ nat_str (a div 10 ^ n) @ ''.'' @ replicate (n - length f) (CHR ''0'') @ f)"

text \<open>\<open>s.lower()\<close> on ASCII letters, \<open>s.replace(" ", "_")\<close>, \<open>sub in s\<close> and \<open>s.split(sep)[0]\<close>.\<close>

definition lower_char :: "char \<Rightarrow> char" where
  "lower_char c = (let n = of_char c :: nat in if 65 \<le> n \<and> n \<le> 90 then char_of (n + 32) else c)"

definition py_lower :: "string \<Rightarrow> string" where
  "py_lower s = map lower_char s"

definition replace_char :: "char \<Rightarrow> char \<Rightarrow> string \<Rightarrow> string" where
  "replace_char a b s = map (\<lambda>c. if c = a then b else c) s"

fun starts_with :: "string \<Rightarrow> string \<Rightarrow> bool" where
  "starts_with [] s = True"
| "starts_with (c # cs) [] = False"
| "starts_with (c # cs) (d # ds) = (c = d \<and> starts_with cs ds)"

fun py_contains :: "string \<Rightarrow> string \<Rightarrow> bool" where
  "py_contains sub [] = (sub = [])"
| "py_contains sub (c # cs) = (starts_with sub (c # cs) \<or> py_contains sub cs)"

fun before_sub :: "string \<Rightarrow> string \<Rightarrow> string" where
  "before_sub sep [] = []"
| "before_sub sep (c # cs) = (if starts_with sep (c # cs) then [] else c # before_sub sep cs)"

text \<open>\<open>s.split(sep)\<close>, with the part read so far, reversed, as second argument.\<close>

fun split_on :: "string \<Rightarrow> string \<Rightarrow> string \<Rightarrow> string list" where
  "split_on sep acc [] = [rev acc]"
| "split_on sep acc (c # cs) =
     (if starts_with sep (c # cs) then rev acc # split_on sep [] (drop (length sep - 1) cs)
      else split_on sep (c # acc) cs)"

text \<open>\<open>xs[-n:]\<close>\<close>

definition py_last :: "nat \<Rightarrow> 'a list \<Rightarrow> 'a list" where
  "py_last n xs = drop (length xs - n) xs"

lemma set_py_last: "set (py_last n xs) \<subseteq> set xs"
  by (auto simp: py_last_def dest: in_set_dropD)

text \<open>An optional number used as a condition: \<open>None\<close> and \<open>0\<close> are false.\<close>

fun truthy_num :: "rat option \<Rightarrow> bool" where
  "truthy_num None = False"
| "truthy_num (Some x) = (x \<noteq> 0)"

text \<open>An optional string used as a condition: \<open>None\<close> and the empty string are false.\<close>

fun truthy_str :: "string option \<Rightarrow> bool" where
  "truthy_str None = False"
| "truthy_str (Some s) = (s \<noteq> '''')"

text \<open>
  \<open>repr(s)\<close>, the \<open>!r\<close> of the sources' messages: the quotes are single unless the string has a single
  and no double quote; the quote, the backslash and control characters are escaped.
\<close>

definition hex_digit :: "nat \<Rightarrow> char" where
  "hex_digit n = (if n < 10 then char_of (48 + n) else char_of (87 + n))"

definition repr_char :: "char \<Rightarrow> char \<Rightarrow> string" where
  "repr_char q c =
     (let n = of_char c :: nat; bs = char_of (92::nat)
      in if c = q \<or> c = bs then [bs, c]
         else if n = 10 then [bs, CHR ''n''] else if n = 13 then [bs, CHR ''r'']
         else if n = 9 then [bs, CHR ''t'']
         else if n < 32 \<or> n = 127 then [bs, CHR ''x'', hex_digit (n div 16), hex_digit (n mod 16)]
         else [c])"

definition py_repr :: "string \<Rightarrow> string" where
  "py_repr s =
     (let sq = char_of (39::nat); dq = char_of (34::nat);
          q = (if sq \<in> set s \<and> dq \<notin> set s then dq else sq)
      in [q] @ concat (map (repr_char q) s) @ [q])"

text \<open>
  \<open>sorted(xs, key=f)\<close> is the stable \<open>sort_key f xs\<close>; \<open>reverse=True\<close> keeps the order of equal
  elements too, so it is \<open>sort_key\<close> with the negated key. \<open>min(xs, key=f)\<close> is the first minimum.
\<close>

fun first_min :: "('a \<Rightarrow> 'b::linorder) \<Rightarrow> 'a \<Rightarrow> 'a list \<Rightarrow> 'a" where
  "first_min f x [] = x"
| "first_min f x (y # ys) = (if f y < f x then first_min f y ys else first_min f x ys)"

lemma first_min_in: "first_min f x xs \<in> set (x # xs)"
  by (induction f x xs rule: first_min.induct) auto

lemma first_min_le: "y \<in> set (x # xs) \<Longrightarrow> f (first_min f x xs) \<le> f y"
proof (induction f x xs arbitrary: y rule: first_min.induct)
  case (1 f x)
  then show ?case by simp
next
  case (2 f x z zs)
  show ?case
  proof (cases "f z < f x")
    case True
    with 2 show ?thesis by (auto intro: order.trans less_imp_le)
  next
    case False
    have le: "f (first_min f x zs) \<le> f w" if "w \<in> set (x # zs)" for w
      by (rule "2.IH"(2)) (use False that in simp_all)
    from False have "f x \<le> f z" by simp
    with le [of x] have "f (first_min f x zs) \<le> f z" by simp
    with le False "2.prems" show ?thesis by auto
  qed
qed

text \<open>\<open>max(xs, key=f)\<close> is the first maximum.\<close>

fun first_max :: "('a \<Rightarrow> 'b::linorder) \<Rightarrow> 'a \<Rightarrow> 'a list \<Rightarrow> 'a" where
  "first_max f x [] = x"
| "first_max f x (y # ys) = (if f x < f y then first_max f y ys else first_max f x ys)"

lemma first_max_at:
  "first_max f x xs = m \<Longrightarrow> \<exists>us vs. x # xs = us @ m # vs \<and> list_all (\<lambda>y. f y < f m) us \<and> list_all (\<lambda>y. f y \<le> f m) vs"
proof (induction f x xs rule: first_max.induct)
  case (1 f x)
  then show ?case by (intro exI [of _ "[]"]) simp
next
  case (2 f x y ys)
  show ?case
  proof (cases "f x < f y")
    case True
    with 2(1) 2(3) obtain us vs where h: "y # ys = us @ m # vs" "list_all (\<lambda>z. f z < f m) us"
      "list_all (\<lambda>z. f z \<le> f m) vs" by (simp only: first_max.simps if_True) blast
    have "f y \<le> f m" using h(1,2) by (cases us) (auto simp: less_imp_le)
    then have "list_all (\<lambda>z. f z < f m) (x # us)" using True h(2) by simp
    moreover have "x # y # ys = (x # us) @ m # vs" using h(1) by simp
    ultimately show ?thesis using h(3) by blast
  next
    case False
    with 2(2) 2(3) obtain us vs where h: "x # ys = us @ m # vs" "list_all (\<lambda>z. f z < f m) us"
      "list_all (\<lambda>z. f z \<le> f m) vs" by (simp only: first_max.simps if_False) blast
    show ?thesis
    proof (cases us)
      case Nil
      then have "x # y # ys = [] @ m # (y # vs)" "list_all (\<lambda>z. f z \<le> f m) (y # vs)" using h False by auto
      then show ?thesis by (intro exI [of _ "[]"] exI [of _ "y # vs"]) simp
    next
      case (Cons u us')
      then have "x # y # ys = (x # y # us') @ m # vs" "list_all (\<lambda>z. f z < f m) (x # y # us')"
        using h False by auto
      then show ?thesis using h(3) by blast
    qed
  qed
qed

lemmas first_max_split = first_max_at [OF refl]
lemma first_max_in: "first_max f x xs \<in> set (x # xs)"
  using first_max_split [of x xs f] by (metis in_set_conv_decomp)

lemma first_max_ge: "y \<in> set (x # xs) \<Longrightarrow> f y \<le> f (first_max f x xs)"
proof -
  assume y: "y \<in> set (x # xs)"
  obtain us vs where h: "x # xs = us @ first_max f x xs # vs"
    "list_all (\<lambda>y. f y < f (first_max f x xs)) us" "list_all (\<lambda>y. f y \<le> f (first_max f x xs)) vs"
    using first_max_split [of x xs f] by blast
  from y have "y \<in> set us \<or> y = first_max f x xs \<or> y \<in> set vs" by (subst (asm) h(1)) auto
  with h(2,3) show ?thesis by (auto simp: list_all_iff less_imp_le)
qed

text \<open>A date printed with its minute, as the number of that minute.\<close>

definition minute_stamp :: "time \<Rightarrow> int" where
  "minute_stamp now = \<lfloor>now / 60\<rfloor>"

section \<open>Events\<close>

text \<open>\<open>AgentEvent\<close> of \<open>agents/events.py\<close>; \<open>asdict(event)\<close> is \<open>event_dict\<close>.\<close>

record event =
  event_id :: string
  event_type :: string
  source_id :: string
  ev_payload :: payload
  ev_timestamp :: time

definition event_dict :: "event \<Rightarrow> payload" where
  "event_dict e =
     [(''event_id'', PStr (event_id e)), (''event_type'', PStr (event_type e)),
      (''source_id'', PStr (source_id e)), (''payload'', PDict (ev_payload e)),
      (''timestamp'', PFlt (ev_timestamp e))]"

section \<open>Interfaces\<close>

text \<open>A keyed store: the laws every dictionary-like state of the system is used with.\<close>

locale keyed_store =
  fixes lookup :: "'s \<Rightarrow> 'k \<Rightarrow> 'v option"
    and put :: "'k \<Rightarrow> 'v \<Rightarrow> 's \<Rightarrow> 's"
    and drop_key :: "'k \<Rightarrow> 's \<Rightarrow> 's"
    and ok :: "'s \<Rightarrow> bool"
  assumes lookup_put: "ok s \<Longrightarrow> lookup (put k v s) k' = (if k' = k then Some v else lookup s k')"
    and lookup_drop: "ok s \<Longrightarrow> lookup (drop_key k s) k' = (if k' = k then None else lookup s k')"
    and ok_put: "ok s \<Longrightarrow> ok (put k v s)"
    and ok_drop: "ok s \<Longrightarrow> ok (drop_key k s)"
begin

lemma put_put: "ok s \<Longrightarrow> lookup (put k v (put k w s)) k' = lookup (put k v s) k'"
  by (simp add: lookup_put ok_put)

lemma put_commute:
  "ok s \<Longrightarrow> k \<noteq> l \<Longrightarrow> lookup (put k v (put l w s)) k' = lookup (put l w (put k v s)) k'"
  by (simp add: lookup_put ok_put)

lemma drop_put: "ok s \<Longrightarrow> lookup (drop_key k (put k v s)) k' = lookup (drop_key k s) k'"
  by (simp add: lookup_put lookup_drop ok_put)

lemma puts_lookup:
  "ok s \<Longrightarrow> k \<notin> fst ` set kvs \<Longrightarrow> lookup (foldl (\<lambda>s (k, v). put k v s) s kvs) k = lookup s k"
proof (induction kvs arbitrary: s)
  case Nil
  then show ?case by simp
next
  case (Cons p kvs)
  then show ?case by (cases p) (auto simp: ok_put lookup_put)
qed

end

interpretation dict_store: keyed_store dict_get dict_set dict_del wf_dict
  by unfold_locales simp_all

text \<open>A loop keeps what each of its rounds keeps.\<close>

lemma foldl_keeps: "P s \<Longrightarrow> (\<And>s x. P s \<Longrightarrow> P (f s x)) \<Longrightarrow> P (foldl f s xs)"
  by (induction xs arbitrary: s) auto

text \<open>Running a list of operations, one after the other.\<close>

definition run_ops :: "('op \<Rightarrow> 's \<Rightarrow> 's) \<Rightarrow> 'op list \<Rightarrow> 's \<Rightarrow> 's" where
  "run_ops step xs s = foldl (\<lambda>s x. step x s) s xs"

lemma run_ops_Nil [simp]: "run_ops step [] s = s"
  by (simp add: run_ops_def)

lemma run_ops_Cons [simp]: "run_ops step (x # xs) s = run_ops step xs (step x s)"
  by (simp add: run_ops_def)

lemma run_ops_append: "run_ops step (xs @ ys) s = run_ops step ys (run_ops step xs s)"
  by (simp add: run_ops_def)

text \<open>An operation system: a step function with an invariant every operation keeps.\<close>

locale op_system =
  fixes step :: "'op \<Rightarrow> 's \<Rightarrow> 's"
    and inv :: "'s \<Rightarrow> bool"
  assumes inv_step: "inv s \<Longrightarrow> inv (step x s)"
begin

lemma inv_run: "inv s \<Longrightarrow> inv (run_ops step xs s)"
  by (induction xs arbitrary: s) (auto intro: inv_step)

end

text \<open>
  A lifecycle: the objects of a component carry a status, and an object whose status is final
  is not changed again by any operation, except one that creates an object under the same key.
\<close>

locale lifecycle = op_system step inv
  for step :: "'op \<Rightarrow> 's \<Rightarrow> 's" and inv :: "'s \<Rightarrow> bool" +
  fixes obj :: "'s \<Rightarrow> 'k \<Rightarrow> 'o option"
    and final :: "'o \<Rightarrow> bool"
    and creates :: "'op \<Rightarrow> 'k \<Rightarrow> bool"
  assumes final_step: "inv s \<Longrightarrow> obj s k = Some a \<Longrightarrow> final a \<Longrightarrow> \<not> creates x k
    \<Longrightarrow> obj (step x s) k = Some a"
begin

lemma final_run:
  "inv s \<Longrightarrow> obj s k = Some a \<Longrightarrow> final a \<Longrightarrow> list_all (\<lambda>x. \<not> creates x k) xs
    \<Longrightarrow> obj (run_ops step xs s) k = Some a"
  by (induction xs arbitrary: s) (auto intro: inv_step final_step)

end

text \<open>
  A mailbox: what is pending is a sequence, and taking at most \<open>n\<close> items returns a prefix of it and
  leaves the rest. Repeated taking then returns every pending item once, in order.
\<close>

fun take_repeatedly :: "nat \<Rightarrow> ('s \<Rightarrow> 's \<times> 'm list) \<Rightarrow> 's \<Rightarrow> 'm list" where
  "take_repeatedly 0 f s = []"
| "take_repeatedly (Suc k) f s = snd (f s) @ take_repeatedly k f (fst (f s))"

locale mailbox =
  fixes pending :: "'s \<Rightarrow> 'm list"
    and take_some :: "nat \<Rightarrow> 's \<Rightarrow> 's \<times> 'm list"
    and ok :: "'s \<Rightarrow> bool"
  assumes taken: "ok s \<Longrightarrow> 0 < n \<Longrightarrow> snd (take_some n s) = take n (pending s)"
    and left: "ok s \<Longrightarrow> 0 < n \<Longrightarrow> pending (fst (take_some n s)) = drop n (pending s)"
    and ok_take: "ok s \<Longrightarrow> ok (fst (take_some n s))"
begin

lemma take_repeatedly_prefix:
  "ok s \<Longrightarrow> 0 < n \<Longrightarrow> take_repeatedly k (take_some n) s = take (k * n) (pending s)"
proof (induction k arbitrary: s)
  case 0
  then show ?case by simp
next
  case (Suc k)
  then show ?case
    by (simp add: taken left ok_take take_add)
qed

lemma drained:
  "ok s \<Longrightarrow> 0 < n \<Longrightarrow> length (pending s) \<le> k * n \<Longrightarrow> take_repeatedly k (take_some n) s = pending s"
  by (simp add: take_repeatedly_prefix)

end

text \<open>
  A port through which events are delivered to agents: one delivery appends one message to the
  addressed agent's inbox and leaves every other inbox alone.
\<close>

locale message_port =
  fixes deliver :: "string \<Rightarrow> event \<Rightarrow> 'b \<Rightarrow> 'b"
    and inbox_of :: "'b \<Rightarrow> string \<Rightarrow> 'm list"
    and as_msg :: "string \<Rightarrow> event \<Rightarrow> 'm"
    and ok :: "'b \<Rightarrow> bool"
  assumes deliver_inbox: "ok b \<Longrightarrow> inbox_of (deliver a e b) a' =
      inbox_of b a' @ (if a' = a then [as_msg a e] else [])"
    and ok_deliver: "ok b \<Longrightarrow> ok (deliver a e b)"
begin

lemma deliver_all:
  "ok b \<Longrightarrow> inbox_of (foldl (\<lambda>b a. deliver a e b) b as) a' =
     inbox_of b a' @ replicate (count_list as a') (as_msg a' e)"
proof (induction as arbitrary: b)
  case Nil
  then show ?case by simp
next
  case (Cons a as)
  then show ?case
    by (auto simp: deliver_inbox ok_deliver replicate_append_same)
qed

lemma ok_deliver_all: "ok b \<Longrightarrow> ok (foldl (\<lambda>b a. deliver a e b) b as)"
  by (induction as arbitrary: b) (auto simp: ok_deliver)

end

end
