(* ===== verification/Message_Bus.thy ===== *)
theory Message_Bus imports Prelude begin

text \<open>
  The inter-agent message bus, \<open>agents/bus.py\<close>. The code keeps \<open>Message\<close> objects in one queue per
  recipient and in an index by message id, and the same object can sit in several places: a broadcast
  appends one object to every existing queue. The model therefore keeps an explicit store of objects
  (\<open>b_objs\<close>, an object is its position) and queues of references. What \<open>_save\<close> writes to disk is the
  field \<open>b_disk\<close>. The events the bus emits are returned as effects.

  The lemmas give the mailbox contract (a receive returns the next unread messages in order, once),
  frame properties of sending, the round trip through the disk image, and what sharing one object
  among the queues of a broadcast does to the unread flag.
\<close>

section \<open>State\<close>

record message =
  m_id :: string
  m_from :: string
  m_to :: string
  m_type :: string
  m_content :: payload
  m_timestamp :: time
  m_read :: bool
  m_reply_to :: "string option"
  m_ttl :: "time option"

definition msg_types :: "string list" where
  "msg_types = [''task'', ''result'', ''alert'', ''data'', ''ping'', ''log'', ''event'', ''signal'']"

record bus =
  b_objs :: "message list"
  b_queues :: "(string, nat list) dict"
  b_all :: "(string, nat) dict"
  b_event_bus :: bool
  b_disk :: "(string, message list) dict option"

definition bus_empty :: bus where
  "bus_empty = \<lparr>b_objs = [], b_queues = [], b_all = [], b_event_bus = False, b_disk = None\<rparr>"

definition bus_set_event_bus :: "bus \<Rightarrow> bus" where
  "bus_set_event_bus b = b\<lparr>b_event_bus := True\<rparr>"

abbreviation bus_refs :: "bus \<Rightarrow> string \<Rightarrow> nat list" where
  "bus_refs b a \<equiv> dict_get_or [] (b_queues b) a"

definition inbox :: "bus \<Rightarrow> string \<Rightarrow> message list" where
  "inbox b a = map ((!) (b_objs b)) (bus_refs b a)"

section \<open>Persistence\<close>

definition bus_save :: "bus \<Rightarrow> bus" where
  "bus_save b = b\<lparr>b_disk := Some (dict_map (\<lambda>_ rs. map ((!) (b_objs b)) rs) (b_queues b))\<rparr>"

text \<open>\<open>_load\<close>: one new object per stored message, so queues no longer share objects.\<close>

definition bus_load_queue :: "bus \<Rightarrow> string \<times> message list \<Rightarrow> bus" where
  "bus_load_queue b q =
     (let refs = [length (b_objs b) ..< length (b_objs b) + length (snd q)]
      in b\<lparr>b_objs := b_objs b @ snd q,
           b_queues := dict_set (fst q) refs (b_queues b),
           b_all := foldl (\<lambda>al (m, r). dict_set (m_id m) r al) (b_all b) (zip (snd q) refs)\<rparr>)"

definition bus_load :: "(string, message list) dict option \<Rightarrow> bus" where
  "bus_load disk =
     (case disk of
        None \<Rightarrow> bus_empty
      | Some qs \<Rightarrow> (foldl bus_load_queue bus_empty qs)\<lparr>b_disk := Some qs\<rparr>)"

section \<open>Operations\<close>

text \<open>
  \<open>send\<close>: \<open>mid\<close> is the fresh id (\<open>uuid4\<close>), \<open>t1\<close> and \<open>t2\<close> the two clock readings. The new object is
  placed in the store, indexed, and appended to the recipient's queue or, for a broadcast, to every
  queue that exists.
\<close>

definition bus_send :: "string \<Rightarrow> time \<Rightarrow> time \<Rightarrow> string \<Rightarrow> string \<Rightarrow> payload \<Rightarrow> string
    \<Rightarrow> string option \<Rightarrow> rat option \<Rightarrow> bus \<Rightarrow> bus \<times> eff list \<times> string" where
  "bus_send mid t1 t2 from_id to_id content msg_type reply_to ttl_seconds b =
     (let mt = (if msg_type \<in> set msg_types then msg_type else ''data'');
          msg = \<lparr>m_id = mid, m_from = from_id, m_to = to_id, m_type = mt, m_content = content,
                 m_timestamp = t1, m_read = False, m_reply_to = reply_to,
                 m_ttl = (if truthy_num ttl_seconds then map_option ((+) t2) ttl_seconds else None)\<rparr>;
          r = length (b_objs b);
          queues = (if to_id = ''broadcast''
                    then dict_map (\<lambda>_ q. q @ [r]) (b_queues b)
                    else dict_set to_id (bus_refs b to_id @ [r]) (b_queues b));
          b2 = b\<lparr>b_objs := b_objs b @ [msg], b_queues := queues,
                 b_all := dict_set mid r (b_all b)\<rparr>;
          effs = (if mt \<notin> {''event'', ''signal''} \<and> b_event_bus b
                  then [Emit ''message.received'' from_id
                          [(''msg_id'', PStr mid), (''to_id'', PStr to_id),
                           (''from_id'', PStr from_id), (''msg_type'', PStr mt)]]
                  else [])
      in (bus_save b2, effs, mid))"

text \<open>\<open>_deliver_event\<close>: the path the event bus uses; it emits nothing.\<close>

definition bus_deliver_event :: "string \<Rightarrow> event \<Rightarrow> bus \<Rightarrow> bus" where
  "bus_deliver_event agent_id e b =
     (let msg = \<lparr>m_id = ''ev-'' @ event_id e, m_from = ''events'', m_to = agent_id,
                 m_type = ''event'', m_content = event_dict e, m_timestamp = ev_timestamp e,
                 m_read = False, m_reply_to = None, m_ttl = None\<rparr>;
          r = length (b_objs b)
      in bus_save (b\<lparr>b_objs := b_objs b @ [msg],
                     b_queues := dict_set agent_id (bus_refs b agent_id @ [r]) (b_queues b),
                     b_all := dict_set (m_id msg) r (b_all b)\<rparr>))"

definition msg_live :: "time \<Rightarrow> message \<Rightarrow> bool" where
  "msg_live now m = (case m_ttl m of None \<Rightarrow> True | Some t \<Rightarrow> now < t)"

definition mark_read :: "message \<Rightarrow> message" where
  "mark_read m = m\<lparr>m_read := True\<rparr>"

text \<open>
  The loop of \<open>receive\<close>: skip what is read (when only unread messages are wanted), mark the others
  and collect them, and stop as soon as the limit is reached, which is checked after the append.
\<close>

fun recv_loop :: "bool \<Rightarrow> int \<Rightarrow> nat list \<Rightarrow> message list \<Rightarrow> message list
    \<Rightarrow> message list \<times> message list" where
  "recv_loop unread_only limit [] objs res = (objs, res)"
| "recv_loop unread_only limit (r # rs) objs res =
     (if unread_only \<and> m_read (objs ! r) then recv_loop unread_only limit rs objs res
      else
        let objs' = objs[r := mark_read (objs ! r)]; res' = res @ [objs' ! r]
        in if limit \<le> int (length res') then (objs', res')
           else recv_loop unread_only limit rs objs' res')"

definition bus_receive :: "time \<Rightarrow> string \<Rightarrow> bool \<Rightarrow> int \<Rightarrow> bus \<Rightarrow> bus \<times> message list" where
  "bus_receive now agent_id unread_only limit b =
     (let q = filter (\<lambda>r. msg_live now (b_objs b ! r)) (bus_refs b agent_id);
          b1 = b\<lparr>b_queues := dict_set agent_id q (b_queues b)\<rparr>;
          (objs', results) = recv_loop unread_only limit q (b_objs b1) [];
          b2 = b1\<lparr>b_objs := objs'\<rparr>
      in (if results \<noteq> [] then bus_save b2 else b2, results))"

definition bus_get_thread :: "string \<Rightarrow> bus \<Rightarrow> message list" where
  "bus_get_thread msg_id b =
     (case dict_get (b_all b) msg_id of
        None \<Rightarrow> []
      | Some rt \<Rightarrow>
          sort_key m_timestamp
            (b_objs b ! rt #
             filter (\<lambda>m. m_reply_to m = Some msg_id) (map ((!) (b_objs b)) (vals (b_all b)))))"

definition bus_stats :: "string \<Rightarrow> bus \<Rightarrow> nat \<times> nat" where
  "bus_stats agent_id b =
     (length (inbox b agent_id), length (filter (\<lambda>m. \<not> m_read m) (inbox b agent_id)))"

section \<open>Well-formedness\<close>

text \<open>References point into the store, a queue holds no reference twice, the index agrees with ids.\<close>

definition bus_wf :: "bus \<Rightarrow> bool" where
  "bus_wf b \<longleftrightarrow> wf_dict (b_queues b) \<and> wf_dict (b_all b)
     \<and> (\<forall>(a, rs) \<in> set (b_queues b). distinct rs \<and> (\<forall>r \<in> set rs. r < length (b_objs b)))
     \<and> (\<forall>(i, r) \<in> set (b_all b). r < length (b_objs b) \<and> m_id (b_objs b ! r) = i)"

lemma bus_wfI [intro?]:
  assumes "wf_dict (b_queues b)" and "wf_dict (b_all b)"
    and "\<And>a rs. (a, rs) \<in> set (b_queues b) \<Longrightarrow> distinct rs"
    and "\<And>a rs r. (a, rs) \<in> set (b_queues b) \<Longrightarrow> r \<in> set rs \<Longrightarrow> r < length (b_objs b)"
    and "\<And>i r. (i, r) \<in> set (b_all b) \<Longrightarrow> r < length (b_objs b) \<and> m_id (b_objs b ! r) = i"
  shows "bus_wf b"
  using assms by (fastforce simp: bus_wf_def)

lemma bus_wfD:
  assumes "bus_wf b"
  shows "wf_dict (b_queues b)" and "wf_dict (b_all b)"
    and "(a, rs) \<in> set (b_queues b) \<Longrightarrow> distinct rs"
    and "(a, rs) \<in> set (b_queues b) \<Longrightarrow> r \<in> set rs \<Longrightarrow> r < length (b_objs b)"
    and "(i, r) \<in> set (b_all b) \<Longrightarrow> r < length (b_objs b)"
    and "(i, r) \<in> set (b_all b) \<Longrightarrow> m_id (b_objs b ! r) = i"
  using assms by (auto simp: bus_wf_def)

lemma bus_refs_wf:
  assumes "bus_wf b"
  shows "distinct (bus_refs b a)" and "r \<in> set (bus_refs b a) \<Longrightarrow> r < length (b_objs b)"
  by (cases rule: dict_get_or_cases [of "b_queues b" a "[]"];
      use bus_wfD(3,4) [OF assms] in auto)+

lemma bus_save_simps [simp]:
  "b_objs (bus_save b) = b_objs b" "b_queues (bus_save b) = b_queues b"
  "b_all (bus_save b) = b_all b" "b_event_bus (bus_save b) = b_event_bus b"
  by (simp_all add: bus_save_def)

lemma bus_wf_save [simp]: "bus_wf (bus_save b) = bus_wf b"
  by (simp add: bus_wf_def)

lemma inbox_save [simp]: "inbox (bus_save b) a = inbox b a"
  by (simp add: inbox_def)

section \<open>Sending\<close>

text \<open>Adding one object at the end of the store.\<close>

lemma bus_refs_dict [simp]:
  "dict_get_or [] (dict_map (\<lambda>_ q. q @ [r]) d) a =
     (case dict_get d a of None \<Rightarrow> [] | Some q \<Rightarrow> q @ [r])"
  by (simp add: dict_get_or_def split: option.splits)

lemma map_nth_append:
  "\<forall>r \<in> set rs. r < length xs \<Longrightarrow> map ((!) (xs @ ys)) rs = map ((!) xs) rs"
  by (auto simp: nth_append)

definition sent_msg :: "string \<Rightarrow> time \<Rightarrow> time \<Rightarrow> string \<Rightarrow> string \<Rightarrow> payload \<Rightarrow> string
    \<Rightarrow> string option \<Rightarrow> rat option \<Rightarrow> message" where
  "sent_msg mid t1 t2 from_id to_id content msg_type reply_to ttl_seconds =
     \<lparr>m_id = mid, m_from = from_id, m_to = to_id,
      m_type = (if msg_type \<in> set msg_types then msg_type else ''data''), m_content = content,
      m_timestamp = t1, m_read = False, m_reply_to = reply_to,
      m_ttl = (if truthy_num ttl_seconds then map_option ((+) t2) ttl_seconds else None)\<rparr>"

lemma bus_send_state:
  "fst (bus_send mid t1 t2 f to_id c mt rt ttl b) =
     bus_save (b\<lparr>b_objs := b_objs b @ [sent_msg mid t1 t2 f to_id c mt rt ttl],
                b_queues := (if to_id = ''broadcast''
                   then dict_map (\<lambda>_ q. q @ [length (b_objs b)]) (b_queues b)
                   else dict_set to_id (bus_refs b to_id @ [length (b_objs b)]) (b_queues b)),
                b_all := dict_set mid (length (b_objs b)) (b_all b)\<rparr>)"
  by (simp add: bus_send_def Let_def sent_msg_def)

text \<open>A direct message reaches exactly its recipient, after everything already queued.\<close>

lemma inbox_send_direct:
  assumes "bus_wf b" and "to_id \<noteq> ''broadcast''"
  shows "inbox (fst (bus_send mid t1 t2 f to_id c mt rt ttl b)) a =
     inbox b a @ (if a = to_id then [sent_msg mid t1 t2 f to_id c mt rt ttl] else [])"
  using bus_refs_wf(2) [OF assms(1)] assms(2)
  by (auto simp: inbox_def bus_send_state map_nth_append nth_append)

text \<open>A broadcast reaches every agent that already has a queue, and nobody else.\<close>

lemma inbox_send_broadcast:
  assumes "bus_wf b"
  shows "inbox (fst (bus_send mid t1 t2 f ''broadcast'' c mt rt ttl b)) a =
     inbox b a @ (if a \<in> set (keys (b_queues b))
                  then [sent_msg mid t1 t2 f ''broadcast'' c mt rt ttl] else [])"
proof (cases rule: dict_get_or_cases [of "b_queues b" a "[]"])
  case absent
  then show ?thesis by (simp add: inbox_def bus_send_state)
next
  case (present q)
  have "\<forall>r \<in> set q. r < length (b_objs b)"
    using bus_refs_wf(2) [OF assms, of _ a] present by simp
  with present show ?thesis
    by (simp add: inbox_def bus_send_state map_nth_append)
qed

lemma inbox_deliver_event:
  assumes "bus_wf b"
  shows "inbox (bus_deliver_event a e b) a' =
     inbox b a' @ (if a' = a
       then [\<lparr>m_id = ''ev-'' @ event_id e, m_from = ''events'', m_to = a, m_type = ''event'',
              m_content = event_dict e, m_timestamp = ev_timestamp e, m_read = False,
              m_reply_to = None, m_ttl = None\<rparr>] else [])"
  using bus_refs_wf(2) [OF assms]
  by (auto simp: inbox_def bus_deliver_event_def Let_def map_nth_append nth_append)

lemma bus_wf_empty [simp, wf_intros]: "bus_wf bus_empty"
  by (simp add: bus_wf_def bus_empty_def wf_dict_def)

lemma bus_wf_append:
  assumes wf: "bus_wf b" and "wf_dict q"
    and q: "\<And>a rs. (a, rs) \<in> set q \<Longrightarrow> (a, rs) \<in> set (b_queues b) \<or>
       (\<exists>rs'. rs = rs' @ [length (b_objs b)] \<and> (rs' = [] \<or> (a, rs') \<in> set (b_queues b)))"
    and mid: "m_id m = mid"
  shows "bus_wf (b\<lparr>b_objs := b_objs b @ [m], b_queues := q,
                   b_all := dict_set mid (length (b_objs b)) (b_all b)\<rparr>)"
proof
  fix a rs
  assume *: "(a, rs) \<in> set (b_queues (b\<lparr>b_objs := b_objs b @ [m], b_queues := q,
                   b_all := dict_set mid (length (b_objs b)) (b_all b)\<rparr>))"
  with q bus_wfD(3,4) [OF wf] show "distinct rs" by fastforce
  show "r < length (b_objs (b\<lparr>b_objs := b_objs b @ [m], b_queues := q,
                   b_all := dict_set mid (length (b_objs b)) (b_all b)\<rparr>))" if "r \<in> set rs" for r
    using * that q bus_wfD(4) [OF wf] by fastforce
next
  fix i r
  assume "(i, r) \<in> set (b_all (b\<lparr>b_objs := b_objs b @ [m], b_queues := q,
                   b_all := dict_set mid (length (b_objs b)) (b_all b)\<rparr>))"
  with set_dict_set [OF bus_wfD(2) [OF wf]] bus_wfD(5,6) [OF wf] mid
  show "r < length (b_objs (b\<lparr>b_objs := b_objs b @ [m], b_queues := q,
                   b_all := dict_set mid (length (b_objs b)) (b_all b)\<rparr>)) \<and>
        m_id (b_objs (b\<lparr>b_objs := b_objs b @ [m], b_queues := q,
                   b_all := dict_set mid (length (b_objs b)) (b_all b)\<rparr>) ! r) = i"
    by (auto simp: nth_append split: if_splits)
qed (use assms bus_wfD [OF wf] in auto)

lemma bus_wf_send [simp, wf_intros]:
  assumes wf: "bus_wf b"
  shows "bus_wf (fst (bus_send mid t1 t2 f to_id c mt rt ttl b))"
  unfolding bus_send_state bus_wf_save
proof (rule bus_wf_append [OF wf])
  show "wf_dict (if to_id = ''broadcast''
                   then dict_map (\<lambda>_ q. q @ [length (b_objs b)]) (b_queues b)
                   else dict_set to_id (bus_refs b to_id @ [length (b_objs b)]) (b_queues b))"
    using bus_wfD(1) [OF wf] by simp
  show "m_id (sent_msg mid t1 t2 f to_id c mt rt ttl) = mid"
    by (simp add: sent_msg_def)
next
  fix a rs
  assume "(a, rs) \<in> set (if to_id = ''broadcast''
                   then dict_map (\<lambda>_ q. q @ [length (b_objs b)]) (b_queues b)
                   else dict_set to_id (bus_refs b to_id @ [length (b_objs b)]) (b_queues b))"
  then show "(a, rs) \<in> set (b_queues b) \<or>
       (\<exists>rs'. rs = rs' @ [length (b_objs b)] \<and> (rs' = [] \<or> (a, rs') \<in> set (b_queues b)))"
    by (cases "to_id = ''broadcast''")
      (auto simp: dict_map_def set_dict_set [OF bus_wfD(1) [OF wf]] dict_get_or_def
        split: if_splits option.splits dest: dict_get_in)
qed

lemma bus_wf_deliver_event [simp, wf_intros]:
  assumes wf: "bus_wf b"
  shows "bus_wf (bus_deliver_event a e b)"
  unfolding bus_deliver_event_def Let_def bus_wf_save
  by (rule bus_wf_append [OF wf])
    (use bus_wfD(1) [OF wf] in \<open>auto simp: set_dict_set [OF bus_wfD(1) [OF wf]] dict_get_or_def
        split: if_splits option.splits dest: dict_get_in\<close>)

section \<open>Receiving\<close>

definition mark_refs :: "message list \<Rightarrow> nat list \<Rightarrow> message list" where
  "mark_refs objs rs = foldl (\<lambda>os r. os[r := mark_read (os ! r)]) objs rs"

lemma length_mark_refs [simp]: "length (mark_refs objs rs) = length objs"
  by (induction rs arbitrary: objs) (simp_all add: mark_refs_def)

lemma mark_read_simps [simp]:
  "mark_read (mark_read m) = mark_read m" "m_read (mark_read m)" "m_id (mark_read m) = m_id m"
  "m_ttl (mark_read m) = m_ttl m" "m_type (mark_read m) = m_type m"
  "msg_live now (mark_read m) = msg_live now m"
  by (simp_all add: mark_read_def msg_live_def)

lemma nth_mark_refs:
  "\<forall>r \<in> set rs. r < length objs \<Longrightarrow> i < length objs \<Longrightarrow>
     mark_refs objs rs ! i = (if i \<in> set rs then mark_read (objs ! i) else objs ! i)"
proof (induction rs arbitrary: objs)
  case Nil
  then show ?case by (simp add: mark_refs_def)
next
  case (Cons r rs)
  have "mark_refs objs (r # rs) = mark_refs (objs[r := mark_read (objs ! r)]) rs"
    by (simp add: mark_refs_def)
  with Cons show ?case by (auto simp: nth_list_update)
qed

abbreviation wanted :: "bool \<Rightarrow> message list \<Rightarrow> nat \<Rightarrow> bool" where
  "wanted unread_only objs r \<equiv> \<not> (unread_only \<and> m_read (objs ! r))"

lemma nth_upd_other: "x \<in> set rs \<Longrightarrow> r \<notin> set rs \<Longrightarrow> objs[r := v] ! x = objs ! x"
  by (metis nth_list_update_neq)

lemma recv_loop_spec:
  assumes "distinct rs" and "\<forall>r \<in> set rs. r < length objs"
  shows "recv_loop u limit rs objs res =
     (let picked = take (nat (max 1 (limit - int (length res)))) (filter (wanted u objs) rs)
      in (mark_refs objs picked, res @ map (\<lambda>r. mark_read (objs ! r)) picked))"
  using assms
proof (induction rs arbitrary: objs res)
  case Nil
  then show ?case by (simp add: mark_refs_def)
next
  case (Cons r rs)
  show ?case
  proof (cases "wanted u objs r")
    case False
    with Cons show ?thesis by simp
  next
    case True
    let ?objs = "objs[r := mark_read (objs ! r)]"
    let ?m = "mark_read (objs ! r)"
    have same: "filter (wanted u ?objs) rs = filter (wanted u objs) rs"
      using Cons.prems by (intro filter_cong) (simp_all add: nth_upd_other)
    have maps: "map (\<lambda>r. mark_read (?objs ! r)) (take k (filter (wanted u objs) rs))
        = map (\<lambda>r. mark_read (objs ! r)) (take k (filter (wanted u objs) rs))" for k
      using Cons.prems by (auto dest!: in_set_takeD simp: nth_upd_other)
    show ?thesis
    proof (cases "limit \<le> int (length (res @ [?m]))")
      case stop: True
      then have "nat (max 1 (limit - int (length res))) = 1" by simp
      with stop True Cons.prems show ?thesis
        by (auto simp: Let_def mark_refs_def)
    next
      case go: False
      then have n: "nat (max 1 (limit - int (length res)))
          = Suc (nat (max 1 (limit - int (length (res @ [?m])))))"
        by simp
      have "recv_loop u limit rs ?objs (res @ [?m]) =
         (let picked = take (nat (max 1 (limit - int (length (res @ [?m])))))
                (filter (wanted u ?objs) rs)
          in (mark_refs ?objs picked, (res @ [?m]) @ map (\<lambda>r. mark_read (?objs ! r)) picked))"
        by (rule Cons.IH) (use Cons.prems in auto)
      with go True Cons.prems show ?thesis
        unfolding n same Let_def maps
        by (auto simp: mark_refs_def)
    qed
  qed
qed

text \<open>What an agent has left to read at a time.\<close>

definition bus_pending :: "time \<Rightarrow> bool \<Rightarrow> bus \<Rightarrow> string \<Rightarrow> message list" where
  "bus_pending now unread_only b a =
     filter (\<lambda>m. msg_live now m \<and> \<not> (unread_only \<and> m_read m)) (inbox b a)"

definition recv_refs :: "time \<Rightarrow> string \<Rightarrow> bool \<Rightarrow> int \<Rightarrow> bus \<Rightarrow> nat list" where
  "recv_refs now a u limit b =
     take (nat (max 1 limit))
       (filter (\<lambda>r. msg_live now (b_objs b ! r) \<and> wanted u (b_objs b) r) (bus_refs b a))"

lemma bus_receive_state:
  assumes "bus_wf b"
  shows "b_objs (fst (bus_receive now a u limit b)) = mark_refs (b_objs b) (recv_refs now a u limit b)"
    and "b_queues (fst (bus_receive now a u limit b)) =
           dict_set a (filter (\<lambda>r. msg_live now (b_objs b ! r)) (bus_refs b a)) (b_queues b)"
    and "b_all (fst (bus_receive now a u limit b)) = b_all b"
    and "snd (bus_receive now a u limit b) =
           map (\<lambda>r. mark_read (b_objs b ! r)) (recv_refs now a u limit b)"
  using bus_refs_wf(1) [OF assms, of a] bus_refs_wf(2) [OF assms, of _ a]
  by (simp_all add: bus_receive_def recv_loop_spec Let_def recv_refs_def split_def
      conj_commute)

lemma recv_refs_sub: "set (recv_refs now a u limit b) \<subseteq> set (bus_refs b a)"
  by (auto simp: recv_refs_def dest: in_set_takeD)

lemma bus_receive_result:
  assumes "bus_wf b"
  shows "snd (bus_receive now a u limit b) =
     map mark_read (take (nat (max 1 limit)) (bus_pending now u b a))"
  using bus_receive_state(4) [OF assms]
  by (simp add: recv_refs_def bus_pending_def inbox_def filter_map o_def take_map)

lemma bus_wf_receive [simp, wf_intros]:
  assumes wf: "bus_wf b"
  shows "bus_wf (fst (bus_receive now a u limit b))"
proof -
  note st = bus_receive_state(1-3) [OF wf, of now a u limit]
  have sub: "\<forall>r \<in> set (recv_refs now a u limit b). r < length (b_objs b)"
    using recv_refs_sub bus_refs_wf(2) [OF wf] by blast
  show ?thesis
  proof
    fix a' rs
    assume *: "(a', rs) \<in> set (b_queues (fst (bus_receive now a u limit b)))"
    then show "distinct rs"
      using bus_refs_wf(1) [OF wf] bus_wfD(3) [OF wf]
      by (auto simp: st set_dict_set [OF bus_wfD(1) [OF wf]] split: if_splits)
    show "r < length (b_objs (fst (bus_receive now a u limit b)))" if "r \<in> set rs" for r
      using * that bus_refs_wf(2) [OF wf] bus_wfD(4) [OF wf]
      by (auto simp: st set_dict_set [OF bus_wfD(1) [OF wf]] split: if_splits)
  next
    fix i r
    assume "(i, r) \<in> set (b_all (fst (bus_receive now a u limit b)))"
    with bus_wfD(5,6) [OF wf] show "r < length (b_objs (fst (bus_receive now a u limit b))) \<and>
        m_id (b_objs (fst (bus_receive now a u limit b)) ! r) = i"
      by (auto simp: st nth_mark_refs [OF sub])
  qed (use bus_wfD(1,2) [OF wf] in \<open>auto simp: st\<close>)
qed

lemma filter_not_taken:
  "distinct xs \<Longrightarrow> filter (\<lambda>x. x \<notin> set (take n xs)) xs = drop n xs"
proof (induction xs arbitrary: n)
  case (Cons x xs)
  show ?case
  proof (cases n)
    case 0
    then show ?thesis by simp
  next
    case (Suc k)
    have "filter (\<lambda>y. y \<noteq> x \<and> y \<notin> set (take k xs)) xs = filter (\<lambda>y. y \<notin> set (take k xs)) xs"
      using Cons.prems by (intro filter_cong) auto
    with Suc Cons show ?thesis by simp
  qed
qed simp

lemma bus_pending_receive:
  assumes wf: "bus_wf b"
  shows "bus_pending now True (fst (bus_receive now a True limit b)) a =
     drop (nat (max 1 limit)) (bus_pending now True b a)"
proof -
  let ?R = "recv_refs now a True limit b" and ?o = "b_objs b"
  let ?W = "filter (\<lambda>r. msg_live now (?o ! r) \<and> wanted True ?o r) (bus_refs b a)"
  let ?L = "filter (\<lambda>r. msg_live now (?o ! r)) (bus_refs b a)"
  note st = bus_receive_state(1-3) [OF wf, of now a True limit]
  have sub: "\<forall>r \<in> set ?R. r < length ?o"
    using recv_refs_sub bus_refs_wf(2) [OF wf] by blast
  have inb: "\<And>r. r \<in> set (bus_refs b a) \<Longrightarrow> r < length ?o"
    using bus_refs_wf(2) [OF wf] by blast
  have R: "?R = take (nat (max 1 limit)) ?W" by (simp add: recv_refs_def)
  have "bus_pending now True (fst (bus_receive now a True limit b)) a =
      map ((!) (mark_refs ?o ?R)) (filter (\<lambda>r. msg_live now (mark_refs ?o ?R ! r)
          \<and> \<not> m_read (mark_refs ?o ?R ! r)) ?L)"
    by (simp add: bus_pending_def inbox_def st filter_map o_def)
  also have "filter (\<lambda>r. msg_live now (mark_refs ?o ?R ! r) \<and> \<not> m_read (mark_refs ?o ?R ! r)) ?L
      = filter (\<lambda>r. r \<notin> set ?R) ?W"
    unfolding filter_filter
    by (intro filter_cong) (auto simp: nth_mark_refs [OF sub inb])
  also have "\<dots> = drop (nat (max 1 limit)) ?W"
    unfolding R using bus_refs_wf(1) [OF wf] by (intro filter_not_taken) simp
  also have "map ((!) (mark_refs ?o ?R)) (drop (nat (max 1 limit)) ?W)
      = map ((!) ?o) (drop (nat (max 1 limit)) ?W)"
  proof (rule map_cong)
    fix r
    assume r: "r \<in> set (drop (nat (max 1 limit)) ?W)"
    have "set (take (nat (max 1 limit)) ?W) \<inter> set (drop (nat (max 1 limit)) ?W) = {}"
      using bus_refs_wf(1) [OF wf] by (intro set_take_disj_set_drop_if_distinct) auto
    with r R have "r \<notin> set ?R" by auto
    moreover from r have "r < length ?o" by (auto dest!: in_set_dropD intro: inb)
    ultimately show "mark_refs ?o ?R ! r = ?o ! r" by (simp add: nth_mark_refs [OF sub])
  qed simp
  also have "\<dots> = drop (nat (max 1 limit)) (bus_pending now True b a)"
    by (simp add: bus_pending_def inbox_def filter_map o_def drop_map)
  finally show ?thesis .
qed

section \<open>The bus as a mailbox and as an event port\<close>

interpretation mb: mailbox
  "\<lambda>b. map mark_read (bus_pending now True b a)"
  "\<lambda>n. bus_receive now a True (int n)"
  bus_wf
  for now a
  by unfold_locales (simp_all add: bus_receive_result bus_pending_receive take_map drop_map max_def)

definition event_msg :: "string \<Rightarrow> event \<Rightarrow> message" where
  "event_msg a e =
     \<lparr>m_id = ''ev-'' @ event_id e, m_from = ''events'', m_to = a, m_type = ''event'',
      m_content = event_dict e, m_timestamp = ev_timestamp e, m_read = False,
      m_reply_to = None, m_ttl = None\<rparr>"

interpretation bus_port: message_port bus_deliver_event inbox event_msg bus_wf
  by unfold_locales (simp_all add: inbox_deliver_event event_msg_def)

section \<open>Loading from disk\<close>

lemma foldl_index_in:
  "(i, r) \<in> set (foldl (\<lambda>al (m, r). dict_set (m_id m) r al) al ps) \<Longrightarrow> wf_dict al \<Longrightarrow>
     (i, r) \<in> set al \<or> (\<exists>m. (m, r) \<in> set ps \<and> m_id m = i)"
proof (induction ps arbitrary: al)
  case Nil
  then show ?case by simp
next
  case (Cons p ps)
  obtain m r' where p: "p = (m, r')" by (cases p)
  with Cons show ?case
    by (fastforce simp: set_dict_set split: if_splits)
qed

lemma foldl_index_wf:
  "wf_dict al \<Longrightarrow> wf_dict (foldl (\<lambda>al (m, r). dict_set (m_id m) r al) al ps)"
  by (induction ps arbitrary: al) (auto split: prod.splits)

lemma map_nth_upt_append: "map ((!) (xs @ ys)) [length xs ..< length xs + length ys] = ys"
  by (rule nth_equalityI) auto

lemma bus_wf_load_queue:
  assumes wf: "bus_wf b"
  shows "bus_wf (bus_load_queue b q)"
proof
  let ?b = "bus_load_queue b q"
  show "wf_dict (b_queues ?b)" and "wf_dict (b_all ?b)"
    using bus_wfD [OF wf] by (simp_all add: bus_load_queue_def Let_def foldl_index_wf)
  fix a rs
  assume *: "(a, rs) \<in> set (b_queues ?b)"
  then show "distinct rs"
    using bus_wfD(3) [OF wf]
    by (auto simp: bus_load_queue_def Let_def set_dict_set [OF bus_wfD(1) [OF wf]] split: if_splits)
  show "r < length (b_objs ?b)" if "r \<in> set rs" for r
    using * that bus_wfD(4) [OF wf, of a rs r]
    by (auto simp: bus_load_queue_def Let_def set_dict_set [OF bus_wfD(1) [OF wf]] split: if_splits)
next
  fix i r
  let ?refs = "[length (b_objs b) ..< length (b_objs b) + length (snd q)]"
  assume "(i, r) \<in> set (b_all (bus_load_queue b q))"
  then have "(i, r) \<in> set (b_all b) \<or> (\<exists>m. (m, r) \<in> set (zip (snd q) ?refs) \<and> m_id m = i)"
    using foldl_index_in [OF _ bus_wfD(2) [OF wf]] by (simp add: bus_load_queue_def Let_def)
  then show "r < length (b_objs (bus_load_queue b q)) \<and> m_id (b_objs (bus_load_queue b q) ! r) = i"
  proof
    assume "(i, r) \<in> set (b_all b)"
    with bus_wfD(5,6) [OF wf, of i r] show ?thesis
      by (simp add: bus_load_queue_def Let_def nth_append trans_less_add1)
  next
    assume "\<exists>m. (m, r) \<in> set (zip (snd q) ?refs) \<and> m_id m = i"
    then show ?thesis
      by (auto simp: set_zip bus_load_queue_def Let_def nth_append)
  qed
qed

lemma inbox_load_queue:
  assumes "bus_wf b"
  shows "inbox (bus_load_queue b q) a = (if a = fst q then snd q else inbox b a)"
  using bus_refs_wf(2) [OF assms]
  by (simp add: inbox_def bus_load_queue_def Let_def map_nth_upt_append map_nth_append)

lemma inbox_load_queues:
  "bus_wf b \<Longrightarrow> wf_dict qs \<Longrightarrow>
     inbox (foldl bus_load_queue b qs) a = dict_get_or (inbox b a) qs a"
proof (induction qs arbitrary: b)
  case Nil
  then show ?case by (simp add: dict_get_or_def)
next
  case (Cons q qs)
  obtain k ms where q: "q = (k, ms)" by (cases q)
  have wf: "wf_dict qs" and "k \<notin> set (keys qs)"
    using Cons.prems(2) by (simp_all add: wf_dict_def q)
  then have "dict_get qs k = None" by (simp add: map_of_eq_None_iff)
  moreover have "inbox (foldl bus_load_queue b (q # qs)) a =
      dict_get_or (inbox (bus_load_queue b q) a) qs a"
    using Cons.IH [OF bus_wf_load_queue [OF Cons.prems(1), of q] wf] by simp
  ultimately show ?case
    by (simp add: inbox_load_queue [OF Cons.prems(1)] dict_get_or_def q)
qed

lemma bus_wf_load: "bus_wf (bus_load d)"
proof -
  have "bus_wf (foldl bus_load_queue b qs)" if "bus_wf b" for b qs
    using that by (induction qs arbitrary: b) (auto simp: bus_wf_load_queue)
  from this [OF bus_wf_empty] have "bus_wf ((foldl bus_load_queue bus_empty qs)\<lparr>b_disk := Some qs\<rparr>)"
    for qs by (simp add: bus_wf_def)
  then show ?thesis by (auto simp: bus_load_def split: option.splits)
qed

lemma inbox_load: "wf_dict qs \<Longrightarrow> inbox (bus_load (Some qs)) a = dict_get_or [] qs a"
proof -
  assume "wf_dict qs"
  then have "inbox (foldl bus_load_queue bus_empty qs) a = dict_get_or [] qs a"
    by (simp add: inbox_load_queues) (simp add: inbox_def bus_empty_def dict_get_or_def)
  then show ?thesis by (simp add: bus_load_def inbox_def)
qed

text \<open>What was saved comes back.\<close>

lemma inbox_load_save:
  assumes "bus_wf b"
  shows "inbox (bus_load (b_disk (bus_save b))) a = inbox b a"
proof -
  have "wf_dict (dict_map (\<lambda>_ rs. map ((!) (b_objs b)) rs) (b_queues b))"
    using bus_wfD(1) [OF assms] by simp
  from inbox_load [OF this] show ?thesis
    by (simp add: bus_save_def inbox_def dict_get_or_def split: option.splits)
qed

section \<open>Reachable states\<close>

datatype bus_op =
    BSend string time time string string payload string "string option" "rat option"
  | BDeliver string event
  | BReceive time string bool int
  | BReload

fun bus_step :: "bus_op \<Rightarrow> bus \<Rightarrow> bus" where
  "bus_step (BSend mid t1 t2 f to_id c mt rt ttl) b = fst (bus_send mid t1 t2 f to_id c mt rt ttl b)"
| "bus_step (BDeliver a e) b = bus_deliver_event a e b"
| "bus_step (BReceive now a u limit) b = fst (bus_receive now a u limit b)"
| "bus_step BReload b = (bus_load (b_disk b))\<lparr>b_event_bus := b_event_bus b\<rparr>"

definition bus_after :: "bus_op list \<Rightarrow> bus" where
  "bus_after ops = run_ops bus_step ops bus_empty"

interpretation bus_sys: op_system bus_step bus_wf
proof
  fix b x
  assume wf: "bus_wf b"
  have "bus_wf ((bus_load d)\<lparr>b_event_bus := v\<rparr>)" for d v
    using bus_wf_load [of d] by (simp add: bus_wf_def)
  with wf show "bus_wf (bus_step x b)" by (cases x) simp_all
qed

lemma bus_wf_after [simp]: "bus_wf (bus_after ops)"
  unfolding bus_after_def by (rule bus_sys.inv_run) simp

section \<open>Threads\<close>

lemma bus_get_thread_sorted: "sorted (map m_timestamp (bus_get_thread i b))"
  by (simp add: bus_get_thread_def sorted_insort_key split: option.splits)

lemma bus_get_thread_set:
  assumes "dict_get (b_all b) i = Some r"
  shows "m \<in> set (bus_get_thread i b) \<longleftrightarrow>
     m = b_objs b ! r \<or> (\<exists>j r'. (j, r') \<in> set (b_all b) \<and> m = b_objs b ! r' \<and> m_reply_to m = Some i)"
  using assms by (simp add: bus_get_thread_def set_insort_key) force

section \<open>Properties\<close>

text \<open>In every reachable state of the message bus, sending a message appends exactly that message, unread
  and with the coerced type, at the end of the inbox of its recipient - or, for a broadcast, of every
  agent that already has a queue - and leaves every other inbox unchanged.\<close>

theorem bus_send_delivery:
  "inbox (fst (bus_send mid t1 t2 f to_id c mt rt ttl (bus_after ops))) a =
     inbox (bus_after ops) a @
       (if (if to_id = ''broadcast'' then a \<in> set (keys (b_queues (bus_after ops))) else a = to_id)
        then [sent_msg mid t1 t2 f to_id c mt rt ttl] else [])"
  by (cases "to_id = ''broadcast''")
    (simp_all add: inbox_send_broadcast inbox_send_direct del: set_map)

text \<open>C1: Exactly-once, in-order reading: in every reachable state, k successive unread-only receives of
  up to n+1 messages return, concatenated, the first k*(n+1) unread unexpired messages of the agent in queue
  order, each once and marked read.\<close>

theorem bus_receive_exactly_once:
  "take_repeatedly k (bus_receive now a True (int (Suc n))) (bus_after ops) =
     map mark_read (take (k * Suc n) (bus_pending now True (bus_after ops) a))"
  by (simp only: mb.take_repeatedly_prefix [OF bus_wf_after zero_less_Suc] take_map)

text \<open>Persistence round trip: restarting the bus from what a send has written to disk gives back
  the inbox of every agent.\<close>

theorem bus_reload_roundtrip:
  "inbox (bus_step BReload (fst (bus_send mid t1 t2 f to_id c mt rt ttl (bus_after ops)))) a =
     inbox (fst (bus_send mid t1 t2 f to_id c mt rt ttl (bus_after ops))) a"
proof -
  let ?b = "fst (bus_send mid t1 t2 f to_id c mt rt ttl (bus_after ops))"
  have saved: "b_disk ?b = b_disk (bus_save ?b)"
    by (simp add: bus_send_state bus_save_def)
  have "inbox (bus_step BReload ?b) a = inbox (bus_load (b_disk ?b)) a"
    by (simp add: inbox_def)
  also have "\<dots> = inbox ?b a"
    unfolding saved by (rule inbox_load_save) simp
  finally show ?thesis .
qed

text \<open>A broadcast is one shared object: in a reachable state where agents a and c both have a queue,
  once a has read everything after a broadcast, the broadcast in c's inbox is already marked read, so c's
  unread-only receive will never return it.\<close>

theorem bus_broadcast_shared_read:
  assumes "a \<in> set (keys (b_queues (bus_after ops)))" and "c \<in> set (keys (b_queues (bus_after ops)))"
    and "length (inbox (bus_after ops) a) < n"
  shows "\<exists>ms m. inbox (fst (bus_receive now a True (int n)
            (fst (bus_send mid t1 t2 f ''broadcast'' p mt rt None (bus_after ops))))) c = ms @ [m]
          \<and> m_id m = mid \<and> m_read m"
proof -
  let ?b = "bus_after ops"
  let ?s = "fst (bus_send mid t1 t2 f ''broadcast'' p mt rt None ?b)"
  let ?s' = "fst (bus_receive now a True (int n) ?s)"
  let ?r = "length (b_objs ?b)"
  have wf: "bus_wf ?s" by simp
  note st = bus_receive_state(1,2) [OF wf, of now a True "int n"]
  have refs: "bus_refs ?s x = bus_refs ?b x @ [?r]" if "x \<in> set (keys (b_queues ?b))" for x
    using that
    by (cases rule: dict_get_or_cases [of "b_queues ?b" x "[]"])
      (simp_all add: bus_send_state del: set_map)
  have obj: "b_objs ?s ! ?r = sent_msg mid t1 t2 f ''broadcast'' p mt rt None"
    by (simp add: bus_send_state)
  have fresh: "msg_live now (b_objs ?s ! ?r)" "\<not> m_read (b_objs ?s ! ?r)"
    by (simp_all add: obj sent_msg_def msg_live_def)
  let ?W = "filter (\<lambda>r. msg_live now (b_objs ?s ! r) \<and> wanted True (b_objs ?s) r) (bus_refs ?s a)"
  have "length ?W \<le> length (bus_refs ?s a)" by (rule length_filter_le)
  also have "\<dots> \<le> n" using assms(3) refs [OF assms(1)] by (simp add: inbox_def)
  finally have "recv_refs now a True (int n) ?s = ?W" by (simp add: recv_refs_def)
  then have picked: "?r \<in> set (recv_refs now a True (int n) ?s)"
    using fresh refs [OF assms(1)] by simp
  have valid: "\<forall>r \<in> set (recv_refs now a True (int n) ?s). r < length (b_objs ?s)"
    using recv_refs_sub bus_refs_wf(2) [OF wf] by blast
  have len: "?r < length (b_objs ?s)" by (simp add: bus_send_state)
  have "\<exists>rs. bus_refs ?s' c = rs @ [?r]"
    using refs [OF assms(1)] refs [OF assms(2)] fresh by (simp add: st)
  then obtain rs where "bus_refs ?s' c = rs @ [?r]" by blast
  moreover have "b_objs ?s' ! ?r = mark_read (sent_msg mid t1 t2 f ''broadcast'' p mt rt None)"
    using picked by (simp add: st nth_mark_refs [OF valid len] obj)
  ultimately show ?thesis
    by (simp add: inbox_def sent_msg_def)
qed

lemma bus_broadcast_shared_read_witness:
  "\<exists>ops ms m. inbox (fst (bus_receive 5 ''a'' True 9
            (fst (bus_send ''m3'' 3 3 ''root'' ''broadcast'' [] ''alert'' None None (bus_after ops)))))
          ''c'' = ms @ [m] \<and> m_id m = ''m3'' \<and> m_read m"
proof -
  let ?ops = "[BSend ''m1'' 1 1 ''root'' ''a'' [] ''data'' None None,
               BSend ''m2'' 2 2 ''root'' ''c'' [] ''data'' None None]"
  have q: "b_queues (bus_after ?ops) = [(''a'', [0]), (''c'', [1])]"
    by (simp add: bus_after_def bus_send_state bus_empty_def dict_get_or_def)
  have n: "length (inbox (bus_after ?ops) ''a'') < 9"
    by (simp add: inbox_def q dict_get_or_def)
  show ?thesis
    using bus_broadcast_shared_read [of "''a''" ?ops "''c''" 9 5 "''m3''" 3 3 "''root''" "[]" "''alert''" None]
    by (simp add: q n) blast
qed

end
