(* ===== verification/Event_Bus.thy ===== *)
theory Event_Bus imports Message_Bus begin

text \<open>
  The event bus, \<open>agents/events.py\<close>: glob subscriptions with expiry, synchronous delivery through
  the message bus, and an append-only log. Python's \<open>fnmatch\<close> is modelled in full (stars, question
  marks, bracket expressions with ranges and negation) as a parser to tokens and a matcher, and the
  matcher is proved equivalent to the language the tokens denote. Characters are bytes.
\<close>

section \<open>Glob patterns\<close>

datatype glob_tok =
    GLit char
  | GAny
  | GStar
  | GSet bool "(char \<times> char) list"

text \<open>
  A bracket expression ends at the first closing bracket that is not the first character of the set;
  the result is the negation flag, the characters of the set and the rest of the pattern.
\<close>

definition bracket_split :: "string \<Rightarrow> (bool \<times> string \<times> string) option" where
  "bracket_split s =
     (let (neg, s1) = (case s of [] \<Rightarrow> (False, []) | c # cs \<Rightarrow> if c = CHR ''!'' then (True, cs) else (False, s));
          (h, t) = (case s1 of [] \<Rightarrow> ([], []) | c # cs \<Rightarrow> if c = CHR '']'' then ([c], cs) else ([], s1))
      in case dropWhile (\<lambda>c. c \<noteq> CHR '']'') t of
           [] \<Rightarrow> None
         | _ # rest \<Rightarrow> Some (neg, h @ takeWhile (\<lambda>c. c \<noteq> CHR '']'') t, rest))"

fun set_items :: "string \<Rightarrow> (char \<times> char) list" where
  "set_items [] = []"
| "set_items [a] = [(a, a)]"
| "set_items [a, b] = [(a, a), (b, b)]"
| "set_items (a # b # c # cs) =
     (if b = CHR ''-'' then (a, c) # set_items cs else (a, a) # set_items (b # c # cs))"

lemma bracket_split_length:
  "bracket_split s = Some (neg, stuff, rest) \<Longrightarrow> length rest < length s"
proof -
  assume *: "bracket_split s = Some (neg, stuff, rest)"
  have dw: "length xs < length t" if "dropWhile P t = x # xs" for P t and x :: char and xs
    using length_dropWhile_le [of P t] that by simp
  show ?thesis
    using * by (auto simp: bracket_split_def Let_def split: list.splits if_splits dest!: dw)
qed

function glob_parse :: "string \<Rightarrow> glob_tok list" where
  "glob_parse [] = []"
| "glob_parse (c # cs) =
     (if c = CHR ''*'' then GStar # glob_parse cs
      else if c = CHR ''?'' then GAny # glob_parse cs
      else if c = CHR ''['' then
        (case bracket_split cs of
           None \<Rightarrow> GLit c # glob_parse cs
         | Some (neg, stuff, rest) \<Rightarrow> GSet neg (set_items stuff) # glob_parse rest)
      else GLit c # glob_parse cs)"
  by pat_completeness auto
termination
  by (relation "measure length") (auto dest!: bracket_split_length)

fun tok_ok :: "glob_tok \<Rightarrow> char \<Rightarrow> bool" where
  "tok_ok (GLit a) c = (c = a)"
| "tok_ok GAny c = True"
| "tok_ok GStar c = False"
| "tok_ok (GSet neg rs) c = (neg \<noteq> list_ex (\<lambda>(a, b). of_char a \<le> (of_char c :: nat) \<and> of_char c \<le> (of_char b :: nat)) rs)"

fun glob_match :: "glob_tok list \<Rightarrow> string \<Rightarrow> bool" where
  "glob_match [] [] = True"
| "glob_match [] (c # cs) = False"
| "glob_match (t # ts) [] = (t = GStar \<and> glob_match ts [])"
| "glob_match (t # ts) (c # cs) =
     (if t = GStar then glob_match ts (c # cs) \<or> glob_match (t # ts) cs
      else tok_ok t c \<and> glob_match ts cs)"

definition fnmatch :: "string \<Rightarrow> string \<Rightarrow> bool" where
  "fnmatch name pat = glob_match (glob_parse pat) name"

text \<open>The language of a token list: a star stands for any string.\<close>

fun tok_lang :: "glob_tok \<Rightarrow> string set" where
  "tok_lang GStar = UNIV"
| "tok_lang t = {[c] |c. tok_ok t c}"

fun glob_lang :: "glob_tok list \<Rightarrow> string set" where
  "glob_lang [] = {[]}"
| "glob_lang (t # ts) = {u @ v |u v. u \<in> tok_lang t \<and> v \<in> glob_lang ts}"

lemma tok_lang_single: "t \<noteq> GStar \<Longrightarrow> tok_lang t = {[c] |c. tok_ok t c}"
  by (cases t) auto

lemma star_lang_Cons:
  "c # cs \<in> glob_lang (GStar # ts) \<longleftrightarrow> c # cs \<in> glob_lang ts \<or> cs \<in> glob_lang (GStar # ts)"
proof -
  have "(\<exists>u v. c # cs = u @ v \<and> v \<in> glob_lang ts) \<longleftrightarrow>
      c # cs \<in> glob_lang ts \<or> (\<exists>u v. cs = u @ v \<and> v \<in> glob_lang ts)"
    by (metis append_Nil append_eq_Cons_conv)
  then show ?thesis by simp
qed

lemma single_lang_Cons:
  assumes "t \<noteq> GStar"
  shows "c # cs \<in> glob_lang (t # ts) \<longleftrightarrow> tok_ok t c \<and> cs \<in> glob_lang ts"
proof
  assume "c # cs \<in> glob_lang (t # ts)"
  then show "tok_ok t c \<and> cs \<in> glob_lang ts" by (auto simp: tok_lang_single [OF assms])
next
  assume "tok_ok t c \<and> cs \<in> glob_lang ts"
  then have "c # cs = [c] @ cs \<and> [c] \<in> tok_lang t \<and> cs \<in> glob_lang ts"
    by (simp add: tok_lang_single [OF assms])
  then show "c # cs \<in> glob_lang (t # ts)" unfolding glob_lang.simps by blast
qed

lemma glob_match_lang: "glob_match ts s \<longleftrightarrow> s \<in> glob_lang ts"
proof (induction ts s rule: glob_match.induct)
  case (3 t ts)
  then show ?case by (cases "t = GStar") (auto simp: tok_lang_single)
next
  case (4 t ts c cs)
  show ?case
  proof (cases "t = GStar")
    case True
    with 4 show ?thesis using star_lang_Cons [of c cs ts] by simp
  next
    case False
    with 4 show ?thesis by (simp add: single_lang_Cons del: glob_lang.simps)
  qed
qed simp_all

text \<open>Patterns without special characters, alone and followed by a star.\<close>

definition plain :: "string \<Rightarrow> bool" where
  "plain s = list_all (\<lambda>c. c \<noteq> CHR ''*'' \<and> c \<noteq> CHR ''?'' \<and> c \<noteq> CHR ''['') s"

lemma glob_parse_plain: "plain p \<Longrightarrow> glob_parse (p @ q) = map GLit p @ glob_parse q"
  by (induction p) (auto simp: plain_def)

lemma glob_match_lits: "glob_match (map GLit p @ ts) s \<longleftrightarrow> (\<exists>r. s = p @ r \<and> glob_match ts r)"
proof (induction p arbitrary: s)
  case Nil
  then show ?case by simp
next
  case (Cons c p)
  then show ?case by (cases s) auto
qed

lemma glob_match_star: "glob_match [GStar] s"
  by (induction s) auto

lemma fnmatch_plain: "plain p \<Longrightarrow> fnmatch name p \<longleftrightarrow> name = p"
  using glob_parse_plain [of p "[]"] glob_match_lits [of p "[]" name]
  by (auto simp: fnmatch_def elim: glob_match.elims)

lemma fnmatch_prefix: "plain p \<Longrightarrow> fnmatch name (p @ ''*'') \<longleftrightarrow> (\<exists>r. name = p @ r)"
  by (simp add: fnmatch_def glob_parse_plain glob_match_lits glob_match_star)

section \<open>State\<close>

record subscription =
  s_id :: string
  s_agent :: string
  s_pattern :: string
  s_created_at :: time
  s_expires_at :: "time option"

record eventbus =
  e_subs :: "(string, subscription) dict"
  e_bus :: bool
  e_log :: "event list"

definition ev_empty :: eventbus where
  "ev_empty = \<lparr>e_subs = [], e_bus = False, e_log = []\<rparr>"

definition ev_set_bus :: "eventbus \<Rightarrow> eventbus" where
  "ev_set_bus eb = eb\<lparr>e_bus := True\<rparr>"

section \<open>Operations\<close>

definition ev_subscribe :: "string \<Rightarrow> time \<Rightarrow> string \<Rightarrow> string \<Rightarrow> rat option \<Rightarrow> eventbus
    \<Rightarrow> eventbus \<times> string" where
  "ev_subscribe sub_id now agent_id pattern ttl_seconds eb =
     (let sub = \<lparr>s_id = sub_id, s_agent = agent_id, s_pattern = pattern, s_created_at = now,
                 s_expires_at = (if truthy_num ttl_seconds then map_option ((+) now) ttl_seconds else None)\<rparr>
      in (eb\<lparr>e_subs := dict_set sub_id sub (e_subs eb)\<rparr>, sub_id))"

definition ev_unsubscribe :: "string \<Rightarrow> eventbus \<Rightarrow> eventbus \<times> bool" where
  "ev_unsubscribe sub_id eb =
     (if dict_get (e_subs eb) sub_id \<noteq> None
      then (eb\<lparr>e_subs := dict_del sub_id (e_subs eb)\<rparr>, True)
      else (eb, False))"

definition sub_expired :: "time \<Rightarrow> subscription \<Rightarrow> bool" where
  "sub_expired now s = (case s_expires_at s of None \<Rightarrow> False | Some t \<Rightarrow> t < now)"

definition ev_append_log :: "event \<Rightarrow> eventbus \<Rightarrow> eventbus" where
  "ev_append_log e eb = eb\<lparr>e_log := e_log eb @ [e]\<rparr>"

text \<open>
  \<open>emit\<close>: \<open>eid\<close> is the fresh id, \<open>t1\<close> the event's timestamp and \<open>now\<close> the second clock reading. The
  event is logged first; without a message bus nothing else happens. Otherwise the expired
  subscriptions are dropped and every matching live one gets a delivery, in subscription order.
\<close>

definition ev_emit :: "string \<Rightarrow> time \<Rightarrow> time \<Rightarrow> string \<Rightarrow> string \<Rightarrow> payload
    \<Rightarrow> eventbus \<times> bus \<Rightarrow> eventbus \<times> bus" where
  "ev_emit eid t1 now etype source pl st =
     (let (eb, b) = st;
          e = \<lparr>event_id = eid, event_type = etype, source_id = source, ev_payload = pl,
               ev_timestamp = t1\<rparr>;
          eb1 = ev_append_log e eb
      in if \<not> e_bus eb1 then (eb1, b)
         else
           let expired = map fst (filter (\<lambda>(sid, s). sub_expired now s) (e_subs eb1));
               recipients = map (\<lambda>(sid, s). s_agent s)
                 (filter (\<lambda>(sid, s). \<not> sub_expired now s \<and> fnmatch etype (s_pattern s)) (e_subs eb1));
               eb2 = eb1\<lparr>e_subs := foldl (\<lambda>d sid. dict_del sid d) (e_subs eb1) expired\<rparr>
           in (eb2, foldl (\<lambda>b a. bus_deliver_event a e b) b recipients))"

definition ev_get_history :: "time option \<Rightarrow> string list \<Rightarrow> int \<Rightarrow> eventbus \<Rightarrow> event list" where
  "ev_get_history since event_types limit eb =
     (let keep = (\<lambda>e. (case since of None \<Rightarrow> True | Some t \<Rightarrow> \<not> ev_timestamp e \<le> t)
                    \<and> (event_types = [] \<or> event_type e \<in> set event_types))
      in py_take limit (sort_key (\<lambda>e. - ev_timestamp e) (filter keep (e_log eb))))"

definition ev_list_subscriptions :: "time \<Rightarrow> string option \<Rightarrow> eventbus
    \<Rightarrow> (subscription \<times> rat option) list" where
  "ev_list_subscriptions now agent_id eb =
     map (\<lambda>s. (s, if truthy_num (s_expires_at s)
                  then map_option (\<lambda>t. py_round_dig 1 (t - now)) (s_expires_at s) else None))
       (filter (\<lambda>s. \<not> sub_expired now s \<and> (\<not> truthy_str agent_id \<or> Some (s_agent s) = agent_id))
         (vals (e_subs eb)))"

section \<open>Lemmas\<close>

definition ev_recipients :: "time \<Rightarrow> string \<Rightarrow> eventbus \<Rightarrow> string list" where
  "ev_recipients now etype eb =
     map s_agent (filter (\<lambda>s. \<not> sub_expired now s \<and> fnmatch etype (s_pattern s)) (vals (e_subs eb)))"

lemma ev_emit_bus:
  "snd (ev_emit eid t1 now etype source pl (eb, b)) =
     (if e_bus eb
      then foldl (\<lambda>b a. bus_deliver_event a \<lparr>event_id = eid, event_type = etype, source_id = source,
              ev_payload = pl, ev_timestamp = t1\<rparr> b) b (ev_recipients now etype eb)
      else b)"
  by (simp add: ev_emit_def Let_def ev_append_log_def ev_recipients_def filter_map o_def split_def)

lemma ev_emit_log:
  "e_log (fst (ev_emit eid t1 now etype source pl (eb, b))) =
     e_log eb @ [\<lparr>event_id = eid, event_type = etype, source_id = source,
              ev_payload = pl, ev_timestamp = t1\<rparr>]"
  "e_bus (fst (ev_emit eid t1 now etype source pl (eb, b))) = e_bus eb"
  by (simp_all add: ev_emit_def Let_def ev_append_log_def)

lemma ev_emit_subs:
  assumes "wf_dict (e_subs eb)" and "e_bus eb"
  shows "e_subs (fst (ev_emit eid t1 now etype source pl (eb, b))) =
     filter (\<lambda>(sid, s). \<not> sub_expired now s) (e_subs eb)"
  using assms(2) drop_keys_filter [OF assms(1), of "sub_expired now"]
  by (simp add: ev_emit_def Let_def ev_append_log_def)

lemma ev_emit_wf [wf_intros]:
  "bus_wf b \<Longrightarrow> bus_wf (snd (ev_emit eid t1 now etype source pl (eb, b)))"
  by (simp add: ev_emit_bus bus_port.ok_deliver_all)

lemma ev_emit_inbox:
  assumes "bus_wf b"
  shows "inbox (snd (ev_emit eid t1 now etype source pl (eb, b))) a =
     inbox b a @ (if e_bus eb then replicate (count_list (ev_recipients now etype eb) a)
        (event_msg a \<lparr>event_id = eid, event_type = etype, source_id = source,
           ev_payload = pl, ev_timestamp = t1\<rparr>) else [])"
  using assms by (simp add: ev_emit_bus bus_port.deliver_all)

lemma ev_recipients_count:
  "count_list (ev_recipients now etype eb) a =
     length (filter (\<lambda>s. s_agent s = a \<and> \<not> sub_expired now s \<and> fnmatch etype (s_pattern s))
       (vals (e_subs eb)))"
proof -
  have "count_list (map s_agent (filter P xs)) a = length (filter (\<lambda>s. s_agent s = a \<and> P s) xs)"
    for P :: "subscription \<Rightarrow> bool" and xs
    by (induction xs) auto
  then show ?thesis by (simp add: ev_recipients_def)
qed

end
