(* ===== verification/Comms.thy ===== *)
theory Comms imports Event_Bus begin

text \<open>
  The communication layer as the server wires it: \<open>MessageBus.send\<close> of \<open>agents/bus.py\<close> reports each
  message to the event bus as a \<open>message.received\<close> event, and \<open>EventBus.emit\<close> of \<open>agents/events.py\<close>
  delivers events through the message bus. Fresh ids and clock readings come from an environment; a
  counter says how many have been drawn. Other components hand their requests over as effects, which
  \<open>run_effs\<close> carries out in order.
\<close>

section \<open>Environment and state\<close>

record env =
  uuid :: "nat \<Rightarrow> string"
  clock :: "nat \<Rightarrow> time"

record comms =
  c_bus :: bus
  c_events :: eventbus
  c_tick :: nat

definition comms_init :: comms where
  "comms_init = \<lparr>c_bus = bus_set_event_bus bus_empty, c_events = ev_set_bus ev_empty, c_tick = 0\<rparr>"

section \<open>Operations\<close>

definition comms_emit :: "env \<Rightarrow> string \<Rightarrow> string \<Rightarrow> payload \<Rightarrow> comms \<Rightarrow> comms" where
  "comms_emit env etype source pl c =
     (let n = c_tick c;
          (eb, b) = ev_emit (uuid env n) (clock env n) (clock env (Suc n)) etype source pl
                      (c_events c, c_bus c)
      in \<lparr>c_bus = b, c_events = eb, c_tick = n + 2\<rparr>)"

fun comms_emit_eff :: "env \<Rightarrow> comms \<Rightarrow> eff \<Rightarrow> comms" where
  "comms_emit_eff env c (Emit etype source pl) = comms_emit env etype source pl c"
| "comms_emit_eff env c (Send f t p m) = c"

text \<open>\<open>MessageBus.send\<close> with its event: the bus asks for at most one emission and never for a send.\<close>

definition comms_send :: "env \<Rightarrow> string \<Rightarrow> string \<Rightarrow> payload \<Rightarrow> string \<Rightarrow> string option
    \<Rightarrow> rat option \<Rightarrow> comms \<Rightarrow> comms \<times> string" where
  "comms_send env from_id to_id content msg_type reply_to ttl c =
     (let n = c_tick c;
          (b, effs, mid) = bus_send (uuid env n) (clock env n) (clock env (Suc n)) from_id to_id
                             content msg_type reply_to ttl (c_bus c)
      in (foldl (comms_emit_eff env) (c\<lparr>c_bus := b, c_tick := n + 2\<rparr>) effs, mid))"

fun run_eff :: "env \<Rightarrow> comms \<Rightarrow> eff \<Rightarrow> comms" where
  "run_eff env c (Emit etype source pl) = comms_emit env etype source pl c"
| "run_eff env c (Send f t p m) = fst (comms_send env f t p m None None c)"

definition run_effs :: "env \<Rightarrow> eff list \<Rightarrow> comms \<Rightarrow> comms" where
  "run_effs env effs c = foldl (run_eff env) c effs"

datatype comms_op =
    CEff eff
  | CSend string string payload string "string option" "rat option"
  | CSubscribe string string "rat option"
  | CUnsubscribe string
  | CReceive string bool int

fun comms_step :: "env \<Rightarrow> comms_op \<Rightarrow> comms \<Rightarrow> comms" where
  "comms_step env (CEff e) c = run_eff env c e"
| "comms_step env (CSend f t p m rt ttl) c = fst (comms_send env f t p m rt ttl c)"
| "comms_step env (CSubscribe a pat ttl) c =
     c\<lparr>c_events := fst (ev_subscribe (uuid env (c_tick c)) (clock env (c_tick c)) a pat ttl (c_events c)),
       c_tick := Suc (c_tick c)\<rparr>"
| "comms_step env (CUnsubscribe sid) c = c\<lparr>c_events := fst (ev_unsubscribe sid (c_events c))\<rparr>"
| "comms_step env (CReceive a u limit) c =
     c\<lparr>c_bus := fst (bus_receive (clock env (c_tick c)) a u limit (c_bus c)), c_tick := Suc (c_tick c)\<rparr>"

definition comms_after :: "env \<Rightarrow> comms_op list \<Rightarrow> comms" where
  "comms_after env ops = run_ops (comms_step env) ops comms_init"

section \<open>Invariant\<close>

definition comms_wf :: "comms \<Rightarrow> bool" where
  "comms_wf c \<longleftrightarrow> bus_wf (c_bus c) \<and> wf_dict (e_subs (c_events c))
     \<and> e_bus (c_events c) \<and> b_event_bus (c_bus c)"

lemma wf_dict_foldl_del: "wf_dict d \<Longrightarrow> wf_dict (foldl (\<lambda>d k. dict_del k d) d ks)"
  by (induction ks arbitrary: d) auto

lemma ev_emit_subs_wf:
  "wf_dict (e_subs eb) \<Longrightarrow> wf_dict (e_subs (fst (ev_emit eid t1 now et src pl (eb, b))))"
  by (simp add: ev_emit_def Let_def ev_append_log_def wf_dict_foldl_del)

lemma bus_flag_deliver_all:
  "b_event_bus (foldl (\<lambda>b a. bus_deliver_event a e b) b as) = b_event_bus b"
  by (induction as arbitrary: b) (simp_all add: bus_deliver_event_def Let_def)

lemma bus_flag_send [simp]: "b_event_bus (fst (bus_send m t1 t2 f t c mt rt ttl b)) = b_event_bus b"
  by (simp add: bus_send_state)

lemma bus_flag_receive [simp]: "b_event_bus (fst (bus_receive now a u limit b)) = b_event_bus b"
  by (simp add: bus_receive_def Let_def split_def)

lemma comms_emit_fields:
  "c_bus (comms_emit env et src pl c) = snd (ev_emit (uuid env (c_tick c)) (clock env (c_tick c))
     (clock env (Suc (c_tick c))) et src pl (c_events c, c_bus c))"
  "c_events (comms_emit env et src pl c) = fst (ev_emit (uuid env (c_tick c)) (clock env (c_tick c))
     (clock env (Suc (c_tick c))) et src pl (c_events c, c_bus c))"
  by (simp_all add: comms_emit_def Let_def split_def)

lemma comms_wf_emit: "comms_wf c \<Longrightarrow> comms_wf (comms_emit env et src pl c)"
  by (simp add: comms_wf_def comms_emit_fields ev_emit_wf ev_emit_subs_wf ev_emit_log
      ev_emit_bus bus_flag_deliver_all bus_port.ok_deliver_all)

text \<open>Whether a send is reported, and with which payload.\<close>

abbreviation coerced :: "string \<Rightarrow> string" where
  "coerced mt \<equiv> (if mt \<in> set msg_types then mt else ''data'')"

definition received_payload :: "string \<Rightarrow> string \<Rightarrow> string \<Rightarrow> string \<Rightarrow> payload" where
  "received_payload mid from_id to_id msg_type =
     [(''msg_id'', PStr mid), (''to_id'', PStr to_id), (''from_id'', PStr from_id),
      (''msg_type'', PStr (coerced msg_type))]"

lemma comms_send_eq:
  "fst (comms_send env f t p mt rt ttl c) =
     (let c1 = c\<lparr>c_bus := fst (bus_send (uuid env (c_tick c)) (clock env (c_tick c))
                    (clock env (Suc (c_tick c))) f t p mt rt ttl (c_bus c)), c_tick := c_tick c + 2\<rparr>
      in if coerced mt \<notin> {''event'', ''signal''} \<and> b_event_bus (c_bus c)
         then comms_emit env ''message.received'' f (received_payload (uuid env (c_tick c)) f t mt) c1
         else c1)"
  by (simp add: comms_send_def bus_send_def Let_def received_payload_def)

lemma comms_wf_send:
  assumes "comms_wf c"
  shows "comms_wf (fst (comms_send env f t p mt rt ttl c))"
proof -
  let ?c1 = "c\<lparr>c_bus := fst (bus_send (uuid env (c_tick c)) (clock env (c_tick c))
                    (clock env (Suc (c_tick c))) f t p mt rt ttl (c_bus c)), c_tick := c_tick c + 2\<rparr>"
  have "comms_wf ?c1" using assms by (simp add: comms_wf_def)
  then show ?thesis
    unfolding comms_send_eq Let_def by (simp only: comms_wf_emit split: if_split) blast
qed

lemma comms_wf_run_eff: "comms_wf c \<Longrightarrow> comms_wf (run_eff env c e)"
  by (cases e) (simp_all add: comms_wf_emit comms_wf_send)

interpretation comms_sys: op_system "comms_step env" comms_wf for env
proof
  fix c x
  assume "comms_wf c"
  then show "comms_wf (comms_step env x c)"
  proof (cases x)
    case (CEff e)
    with \<open>comms_wf c\<close> show ?thesis by (simp add: comms_wf_run_eff)
  next
    case (CSend f t p mt rt ttl)
    with \<open>comms_wf c\<close> show ?thesis by (simp add: comms_wf_send)
  next
    case (CUnsubscribe sid)
    with \<open>comms_wf c\<close> show ?thesis by (auto simp: comms_wf_def ev_unsubscribe_def)
  qed (auto simp: comms_wf_def ev_subscribe_def Let_def)
qed

lemma comms_wf_init [simp]: "comms_wf comms_init"
  by (simp add: comms_wf_def comms_init_def bus_set_event_bus_def ev_set_bus_def ev_empty_def
      bus_empty_def bus_wf_def)

lemma comms_wf_after [simp]: "comms_wf (comms_after env ops)"
  unfolding comms_after_def by (rule comms_sys.inv_run) simp

lemma comms_wf_run_effs: "comms_wf c \<Longrightarrow> comms_wf (run_effs env effs c)"
  unfolding run_effs_def by (induction effs arbitrary: c) (simp_all add: comms_wf_run_eff)

section \<open>The log\<close>

lemma comms_emit_log:
  "e_log (c_events (comms_emit env et src pl c)) = e_log (c_events c) @
     [\<lparr>event_id = uuid env (c_tick c), event_type = et, source_id = src, ev_payload = pl,
       ev_timestamp = clock env (c_tick c)\<rparr>]"
  by (simp add: comms_emit_fields ev_emit_log)

text \<open>How many events a request adds to the log.\<close>

fun eff_events :: "eff \<Rightarrow> nat" where
  "eff_events (Emit et src pl) = 1"
| "eff_events (Send f t p mt) = (if coerced mt \<in> {''event'', ''signal''} then 0 else 1)"

lemma run_eff_log:
  assumes "comms_wf c"
  shows "\<exists>new. e_log (c_events (run_eff env c e)) = e_log (c_events c) @ new \<and> length new = eff_events e"
proof (cases e)
  case (Emit et src pl)
  then show ?thesis by (simp add: comms_emit_log)
next
  case (Send f t p mt)
  with assms show ?thesis
    by (cases "coerced mt \<in> {''event'', ''signal''}")
      (simp_all only: run_eff.simps comms_send_eq Let_def comms_wf_def comms_emit_log eff_events.simps
        if_True if_False simp_thms comms.simps if_cancel, auto simp: comms_emit_log)
qed

lemma run_effs_log:
  "comms_wf c \<Longrightarrow> \<exists>new. e_log (c_events (run_effs env effs c)) = e_log (c_events c) @ new
     \<and> length new = sum_list (map eff_events effs)"
proof (induction effs arbitrary: c)
  case Nil
  then show ?case by (simp add: run_effs_def)
next
  case (Cons e effs)
  from run_eff_log [OF Cons.prems, of env e] Cons.IH [OF comms_wf_run_eff [OF Cons.prems], of env e]
  show ?case by (auto simp: run_effs_def)
qed

section \<open>Properties\<close>

text \<open>The glob matcher is correct: an event type matches a subscription pattern exactly when it is
  a word of the language the parsed pattern denotes, where a star stands for any string, a question mark for
  any character and a bracket expression for its (possibly negated) ranges; and a pattern made of a plain
  prefix and a star matches exactly the types with that prefix.\<close>

theorem fnmatch_correct:
  "(fnmatch name pat \<longleftrightarrow> name \<in> glob_lang (glob_parse pat)) \<and>
   (plain p \<longrightarrow> fnmatch name (p @ ''*'') = (\<exists>r. name = p @ r))"
  by (simp add: fnmatch_prefix) (simp add: fnmatch_def glob_match_lang)

lemma fnmatch_correct_witness:
  "plain ''task.'' \<and> fnmatch ''task.done'' (''task.'' @ ''*'')"
proof -
  have p: "plain ''task.''" by (simp add: plain_def)
  have "fnmatch ''task.done'' (''task.'' @ ''*'') = (\<exists>r. ''task.done'' = ''task.'' @ r)"
    using fnmatch_correct [of "''task.done''" "''x''" "''task.''"] p by blast
  moreover have "\<exists>r. ''task.done'' = ''task.'' @ r" by (rule exI [of _ "''done''"]) simp
  ultimately show ?thesis using p by blast
qed

text \<open>C9: Emitting an event in any reachable state of the communication layer logs it, drops the expired
  subscriptions and nothing else, and appends to every agent's inbox one copy of the event per live
  subscription of that agent whose pattern matches the type.\<close>

theorem comms_emit_delivers:
  fixes env ops et src pl a
  defines "c \<equiv> comms_after env ops"
  defines "now \<equiv> clock env (Suc (c_tick c))"
  defines "e \<equiv> \<lparr>event_id = uuid env (c_tick c), event_type = et, source_id = src, ev_payload = pl,
                ev_timestamp = clock env (c_tick c)\<rparr>"
  defines "c' \<equiv> comms_emit env et src pl c"
  shows "e_log (c_events c') = e_log (c_events c) @ [e] \<and>
     e_subs (c_events c') = filter (\<lambda>(sid, s). \<not> sub_expired now s) (e_subs (c_events c)) \<and>
     inbox (c_bus c') a = inbox (c_bus c) a @
       replicate (length (filter (\<lambda>s. s_agent s = a \<and> \<not> sub_expired now s \<and> fnmatch et (s_pattern s))
                   (vals (e_subs (c_events c))))) (event_msg a e)"
proof -
  have "comms_wf c" by (simp add: c_def)
  then show ?thesis
    unfolding c'_def e_def now_def comms_wf_def
    by (simp add: comms_emit_fields ev_emit_log ev_emit_subs ev_emit_inbox ev_recipients_count)
qed

text \<open>Event delivery never cascades and the log is append-only: carrying out any list of requests
  extends the event log by exactly one event per emission and per message that is not of type event or
  signal, in any reachable state.\<close>

theorem comms_no_cascade:
  "\<exists>new. e_log (c_events (run_effs env effs (comms_after env ops))) =
       e_log (c_events (comms_after env ops)) @ new \<and>
     length new = sum_list (map eff_events effs)"
  by (rule run_effs_log) simp

text \<open>A circuit-break notice does not keep its type: the message types the bus knows do not contain
  decision, so a message sent with that type is queued as data.\<close>

theorem comms_decision_coerced:
  "inbox (c_bus (fst (comms_send env f t p ''decision'' None None comms_init))) t =
     (if t = ''broadcast'' then [] else
        [sent_msg (uuid env 0) (clock env 0) (clock env 1) f t p ''data'' None None])"
proof -
  have "bus_wf (bus_set_event_bus bus_empty)"
    by (simp add: bus_set_event_bus_def bus_empty_def bus_wf_def)
  moreover have "sent_msg m t1 t2 f t p ''decision'' None None = sent_msg m t1 t2 f t p ''data'' None None"
    for m t1 t2 by (simp add: sent_msg_def msg_types_def)
  ultimately show ?thesis
    by (simp add: comms_send_eq Let_def comms_init_def comms_emit_fields ev_emit_bus ev_set_bus_def
        ev_empty_def ev_recipients_def inbox_send_direct inbox_send_broadcast)
      (simp add: inbox_def bus_set_event_bus_def bus_empty_def dict_get_or_def)
qed

end
