(* ===== verification/Registry.thy ===== *)
theory Registry imports Prelude begin

text \<open>
  The agent registry, \<open>agents/registry.py\<close>: identities, tokens, capabilities, budgets, named locks,
  process groups and termination. The keyed digests (\<open>hmac\<close> and \<open>sha256\<close>) are parameters of the
  model, collected in \<open>keying\<close>. Every operation returns the new registry and the events it emits;
  what \<open>_save\<close> writes is the field \<open>r_disk\<close>, tombstone files are the field \<open>r_tombs\<close>.

  The lemmas cover authentication, the spawn-depth bound, mutual exclusion of named locks with expiry,
  orphan adoption on termination, budget events, the ancestor chain, and reloading.
\<close>

section \<open>Constants\<close>

definition all_caps :: "string list" where
  "all_caps = [''shell'', ''shell_root'', ''fs_read'', ''fs_write'', ''fs_edit'', ''fs_root'',
               ''ollama'', ''spawn'', ''message'', ''semantic'', ''admin'']"

definition role_defaults :: "(string, string list) dict" where
  "role_defaults =
     [(''root'', all_caps),
      (''orchestrator'', [''shell'', ''fs_read'', ''fs_write'', ''fs_edit'', ''ollama'', ''spawn'', ''message'', ''semantic'']),
      (''worker'', [''shell'', ''fs_read'', ''fs_write'', ''fs_edit'', ''ollama'', ''message'', ''semantic'']),
      (''readonly'', [''fs_read'', ''semantic'', ''message'']),
      (''coder'', [''shell'', ''fs_read'', ''fs_write'', ''fs_edit'', ''ollama'', ''message'', ''semantic'']),
      (''reasoner'', [''fs_read'', ''ollama'', ''message'', ''semantic'']),
      (''custom'', [''fs_read'', ''message''])]"

definition role_budgets :: "(string, (string, int) dict) dict" where
  "role_budgets =
     [(''root'', [(''shell_calls'', 10000), (''tokens_in'', 10000000), (''tokens_out'', 10000000)]),
      (''orchestrator'', [(''shell_calls'', 1000), (''tokens_in'', 500000), (''tokens_out'', 500000)]),
      (''worker'', [(''shell_calls'', 200), (''tokens_in'', 100000), (''tokens_out'', 100000)]),
      (''readonly'', [(''shell_calls'', 0), (''tokens_in'', 50000), (''tokens_out'', 0)]),
      (''coder'', [(''shell_calls'', 500), (''tokens_in'', 200000), (''tokens_out'', 200000)]),
      (''reasoner'', [(''shell_calls'', 10), (''tokens_in'', 200000), (''tokens_out'', 200000)]),
      (''custom'', [(''shell_calls'', 50), (''tokens_in'', 50000), (''tokens_out'', 50000)])]"

definition max_spawn_depth :: nat where
  "max_spawn_depth = 5"

section \<open>State\<close>

datatype agent_status = Registered | Active | Suspended | Terminated

fun status_str :: "agent_status \<Rightarrow> string" where
  "status_str Registered = ''registered''"
| "status_str Active = ''active''"
| "status_str Suspended = ''suspended''"
| "status_str Terminated = ''terminated''"

record agent_lock =
  l_acquired_at :: time
  l_expires_at :: time

record agent =
  a_id :: string
  a_name :: string
  a_role :: string
  a_caps :: "string list"
  a_token_hash :: string
  a_workspace :: string
  a_status :: agent_status
  a_budget :: "(string, int) dict"
  a_usage :: "(string, int) dict"
  a_created_at :: time
  a_parent :: "string option"
  a_depth :: nat
  a_task :: "string option"
  a_metadata :: payload
  a_locks :: "(string, agent_lock) dict"
  a_policies :: "(string, string list) dict"
  a_group :: "string option"
  a_tombstone :: "string option"
  a_parent_task :: "string option"

record keying =
  token_for :: "string \<Rightarrow> string \<Rightarrow> string"
  hash_token :: "string \<Rightarrow> string"

record registry =
  r_agents :: "(string, agent) dict"
  r_index :: "(string, string) dict"
  r_master :: string
  r_root_dir :: string
  r_events :: bool
  r_warned :: "string list"
  r_exhausted :: "string list"
  r_disk :: "(string, agent) dict option"
  r_tombs :: "(string, payload) dict"

definition has_cap :: "agent \<Rightarrow> string \<Rightarrow> bool" where
  "has_cap a cap = (cap \<in> set (a_caps a))"

text \<open>\<open>over_budget\<close>: the first resource at or over its limit.\<close>

definition over_budget :: "agent \<Rightarrow> string option" where
  "over_budget a =
     map_option fst (find (\<lambda>(key, limit). limit \<le> dict_get_or 0 (a_usage a) key) (a_budget a))"

definition reg_save :: "registry \<Rightarrow> registry" where
  "reg_save r = r\<lparr>r_disk := Some (r_agents r)\<rparr>"

definition zero_usage :: "(string, int) dict" where
  "zero_usage = [(''shell_calls'', 0), (''tokens_in'', 0), (''tokens_out'', 0)]"

section \<open>Start-up\<close>

definition ensure_root :: "keying \<Rightarrow> time \<Rightarrow> registry \<Rightarrow> registry" where
  "ensure_root kg now r =
     (if dict_get (r_agents r) ''root'' \<noteq> None then r
      else
        let h = hash_token kg (r_master r);
            rt = \<lparr>a_id = ''root'', a_name = ''root'', a_role = ''root'', a_caps = all_caps,
                  a_token_hash = h, a_workspace = r_root_dir r @ ''/root'', a_status = Active,
                  a_budget = dict_get_or [] role_budgets ''root'', a_usage = zero_usage,
                  a_created_at = now, a_parent = None, a_depth = 0, a_task = None,
                  a_metadata = [], a_locks = [], a_policies = [], a_group = None,
                  a_tombstone = None, a_parent_task = None\<rparr>
        in reg_save (r\<lparr>r_agents := dict_set ''root'' rt (r_agents r),
                       r_index := dict_set h ''root'' (r_index r)\<rparr>))"

text \<open>The core agents: id, display name, role and description.\<close>

definition core_agents :: "(string \<times> string \<times> string \<times> string) list" where
  "core_agents =
     [(''scout'', ''Scout'', ''orchestrator'', ''Scout '' @ em_dash @ '' discovers and maps the codebase''),
      (''analyst'', ''Analyst'', ''coder'', ''Analyst '' @ em_dash @ '' identifies issues and proposes fixes''),
      (''builder'', ''Builder'', ''coder'', ''Builder '' @ em_dash @ '' implements code changes and new capabilities'')]"

definition ensure_core_agent :: "keying \<Rightarrow> time \<Rightarrow> registry \<times> bool
    \<Rightarrow> string \<times> string \<times> string \<times> string \<Rightarrow> registry \<times> bool" where
  "ensure_core_agent kg now st spec =
     (let (r, changed) = st; (agent_id, display, role, description) = spec
      in case dict_get (r_agents r) agent_id of
           Some a \<Rightarrow>
             if a_status a \<noteq> Active
             then (r\<lparr>r_agents := dict_upd agent_id (\<lambda>a. a\<lparr>a_status := Active\<rparr>) (r_agents r)\<rparr>, True)
             else (r, changed)
         | None \<Rightarrow>
             let h = hash_token kg (token_for kg (r_master r) agent_id);
                 a = \<lparr>a_id = agent_id, a_name = display, a_role = role,
                      a_caps = dict_get_or (dict_get_or [] role_defaults ''worker'') role_defaults role,
                      a_token_hash = h, a_workspace = r_root_dir r @ ''/'' @ agent_id,
                      a_status = Active,
                      a_budget = dict_get_or (dict_get_or [] role_budgets ''worker'') role_budgets role,
                      a_usage = zero_usage, a_created_at = now, a_parent = None, a_depth = 1,
                      a_task = None,
                      a_metadata = [(''description'', PStr description), (''core'', PBool True)],
                      a_locks = [], a_policies = [], a_group = None, a_tombstone = None,
                      a_parent_task = None\<rparr>
             in (r\<lparr>r_agents := dict_set agent_id a (r_agents r),
                   r_index := dict_set h agent_id (r_index r)\<rparr>, True))"

definition ensure_core_agents :: "keying \<Rightarrow> time \<Rightarrow> registry \<Rightarrow> registry" where
  "ensure_core_agents kg now r =
     (let (r', changed) = foldl (ensure_core_agent kg now) (r, False) core_agents
      in if changed then reg_save r' else r')"

text \<open>\<open>_load\<close>: every stored record is restored, only active agents get a token index entry.\<close>

definition reg_load_one :: "registry \<Rightarrow> string \<times> agent \<Rightarrow> registry" where
  "reg_load_one r p =
     (let a = snd p
      in r\<lparr>r_agents := dict_set (a_id a) a (r_agents r),
           r_index := (if a_status a = Active then dict_set (a_token_hash a) (a_id a) (r_index r)
                       else r_index r)\<rparr>)"

definition reg_load :: "(string, agent) dict option \<Rightarrow> registry \<Rightarrow> registry" where
  "reg_load disk r = (case disk of None \<Rightarrow> r | Some d \<Rightarrow> foldl reg_load_one r d)"

definition reg_init :: "keying \<Rightarrow> time \<Rightarrow> string \<Rightarrow> string \<Rightarrow> (string, agent) dict option
    \<Rightarrow> registry" where
  "reg_init kg now master root_dir disk =
     ensure_core_agents kg now (ensure_root kg now (reg_load disk
       \<lparr>r_agents = [], r_index = [], r_master = master, r_root_dir = root_dir, r_events = False,
        r_warned = [], r_exhausted = [], r_disk = disk, r_tombs = []\<rparr>))"

section \<open>Registration and authentication\<close>

record reg_request =
  q_name :: string
  q_role :: string
  q_caps :: "string list"
  q_budget :: "(string, int) dict"
  q_parent :: "string option"
  q_metadata :: payload
  q_policies :: "(string, string list) dict"
  q_group :: "string option"
  q_parent_task :: "string option"

text \<open>
  \<open>register\<close>: the optional arguments \<open>capabilities\<close>, \<open>budget\<close>, \<open>metadata\<close> and \<open>model_policies\<close> are
  used with \<open>or\<close>, so an absent value and an empty one are the same.
\<close>

definition reg_parent :: "registry \<Rightarrow> string option \<Rightarrow> agent option" where
  "reg_parent r p =
     (case p of None \<Rightarrow> None | Some pid \<Rightarrow> if pid = '''' then None else dict_get (r_agents r) pid)"

definition reg_register :: "keying \<Rightarrow> string \<Rightarrow> time \<Rightarrow> reg_request \<Rightarrow> registry
    \<Rightarrow> registry \<times> eff list \<times> (py_error + agent \<times> string)" where
  "reg_register kg agent_id now q r =
     (let role = (if dict_get role_defaults (q_role q) \<noteq> None then q_role q else ''custom'');
          allowed = dict_get_or [] role_defaults role;
          caps = (if q_caps q \<noteq> [] then filter (\<lambda>c. c \<in> set (q_caps q)) allowed else allowed);
          raw_token = token_for kg (r_master r) agent_id;
          h = hash_token kg raw_token;
          depth = (case reg_parent r (q_parent q) of None \<Rightarrow> 0 | Some p \<Rightarrow> a_depth p + 1)
      in if max_spawn_depth < depth
         then (r, [], Inl (ValueError (''Spawn depth limit (5) exceeded '' @ em_dash @ '' infinite recursion guard'')))
         else
           let a = \<lparr>a_id = agent_id, a_name = q_name q, a_role = role, a_caps = caps,
                    a_token_hash = h, a_workspace = r_root_dir r @ ''/'' @ agent_id,
                    a_status = Active,
                    a_budget = (if q_budget q \<noteq> [] then q_budget q
                       else dict_get_or (dict_get_or [] role_budgets ''custom'') role_budgets role),
                    a_usage = zero_usage, a_created_at = now, a_parent = q_parent q, a_depth = depth,
                    a_task = None, a_metadata = q_metadata q, a_locks = [],
                    a_policies = q_policies q, a_group = q_group q, a_tombstone = None,
                    a_parent_task = q_parent_task q\<rparr>;
               r' = reg_save (r\<lparr>r_agents := dict_set agent_id a (r_agents r),
                                r_index := dict_set h agent_id (r_index r)\<rparr>);
               effs = (if r_events r
                 then [Emit ''agent.registered'' agent_id
                         [(''agent_id'', PStr agent_id), (''name'', PStr (q_name q)),
                          (''role'', PStr role), (''parent_id'', py_opt_str (q_parent q)),
                          (''spawn_depth'', PInt (int depth)), (''group_id'', py_opt_str (q_group q))]]
                 else [])
           in (r', effs, Inr (a, raw_token)))"

definition reg_authenticate :: "keying \<Rightarrow> string \<Rightarrow> registry \<Rightarrow> agent option" where
  "reg_authenticate kg token r =
     (if token = r_master r then dict_get (r_agents r) ''root''
      else case dict_get (r_index r) (hash_token kg token) of
             None \<Rightarrow> None
           | Some aid \<Rightarrow>
               if aid = '''' then None
               else (case dict_get (r_agents r) aid of
                       None \<Rightarrow> None
                     | Some a \<Rightarrow> if a_status a = Active then Some a else None))"

text \<open>
  \<open>get_lineage\<close>: the loop over \<open>current_id\<close> with the set of ids seen; each round visits a new
  registered agent, so it ends.
\<close>

lemma lineage_unseen_less:
  assumes "i \<notin> set seen" and "dict_get agents i = Some a"
  shows "card (fst ` set agents - insert i (set seen)) < card (fst ` set agents - set seen)"
proof (rule psubset_card_mono)
  have "i \<in> fst ` set agents" using assms(2) by (auto dest!: map_of_SomeD intro: rev_image_eqI)
  with assms(1) show "fst ` set agents - insert i (set seen) \<subset> fst ` set agents - set seen" by auto
qed simp

function lineage_loop :: "(string, agent) dict \<Rightarrow> string option \<Rightarrow> string list \<Rightarrow> agent list" where
  "lineage_loop agents cur seen =
     (case cur of
        None \<Rightarrow> []
      | Some i \<Rightarrow>
          if i = '''' \<or> i \<in> set seen then []
          else (case dict_get agents i of
                  None \<Rightarrow> []
                | Some a \<Rightarrow> a # lineage_loop agents (a_parent a) (i # seen)))"
  by pat_completeness auto
termination
  by (relation "measure (\<lambda>(agents, cur, seen). card (fst ` set agents - set seen))")
    (auto simp: lineage_unseen_less)

declare lineage_loop.simps [simp del]

definition reg_get_lineage :: "string \<Rightarrow> registry \<Rightarrow> agent list" where
  "reg_get_lineage agent_id r = lineage_loop (r_agents r) (Some agent_id) []"

section \<open>Usage and budgets\<close>

text \<open>
  One round of the loop of \<open>update_usage\<close> over the agent's budget: \<open>pct\<close> is usage over limit; the
  exhausted notice is given once, otherwise the 80\% warning once.
\<close>

definition budget_round :: "string \<Rightarrow> (string, int) dict \<Rightarrow> registry \<times> eff list \<Rightarrow> string \<times> int
    \<Rightarrow> registry \<times> eff list" where
  "budget_round agent_id usage st kl =
     (let (r, effs) = st; (key, limit) = kl
      in if limit \<le> 0 then (r, effs)
         else
           let current = dict_get_or 0 usage key;
               pct = rat_of_int current / rat_of_int limit;
               wkey = agent_id @ '':'' @ key;
               base = [(''agent_id'', PStr agent_id), (''resource'', PStr key),
                       (''usage'', PInt current), (''budget'', PInt limit)]
           in if 1 \<le> pct \<and> wkey \<notin> set (r_exhausted r)
              then (r\<lparr>r_exhausted := wkey # r_exhausted r\<rparr>,
                    effs @ [Emit ''budget.exhausted'' agent_id base])
              else if 4 / 5 \<le> pct \<and> wkey \<notin> set (r_warned r)
              then (r\<lparr>r_warned := wkey # r_warned r\<rparr>,
                    effs @ [Emit ''budget.warning'' agent_id
                              (base @ [(''pct_used'', PFlt (py_round_dig 1 (pct * 100)))])])
              else (r, effs))"

definition add_usage :: "string \<Rightarrow> int \<Rightarrow> (string, int) dict \<Rightarrow> (string, int) dict" where
  "add_usage key n usage = dict_set key (dict_get_or 0 usage key + n) usage"

definition reg_update_usage :: "string \<Rightarrow> int \<Rightarrow> int \<Rightarrow> int \<Rightarrow> registry \<Rightarrow> registry \<times> eff list" where
  "reg_update_usage agent_id shell_calls tokens_in tokens_out r =
     (case dict_get (r_agents r) agent_id of
        None \<Rightarrow> (r, [])
      | Some a \<Rightarrow>
          let usage = add_usage ''tokens_out'' tokens_out (add_usage ''tokens_in'' tokens_in
                        (add_usage ''shell_calls'' shell_calls (a_usage a)));
              r1 = r\<lparr>r_agents := dict_upd agent_id (\<lambda>a. a\<lparr>a_usage := usage\<rparr>) (r_agents r)\<rparr>;
              (r2, effs) = foldl (budget_round agent_id usage) (r1, []) (a_budget a)
          in (reg_save r2, if r_events r then effs else []))"

definition reg_set_task :: "string \<Rightarrow> string option \<Rightarrow> registry \<Rightarrow> registry" where
  "reg_set_task agent_id task r =
     (if dict_get (r_agents r) agent_id = None then r
      else reg_save (r\<lparr>r_agents := dict_upd agent_id (\<lambda>a. a\<lparr>a_task := task\<rparr>) (r_agents r)\<rparr>))"

section \<open>Termination\<close>

definition usage_val :: "(string, int) dict \<Rightarrow> pyval" where
  "usage_val u = PDict (dict_map (\<lambda>_ n. PInt n) u)"

definition reg_write_tombstone :: "string \<Rightarrow> string \<Rightarrow> string \<Rightarrow> string \<Rightarrow> registry
    \<Rightarrow> registry \<times> string" where
  "reg_write_tombstone stamp agent_id reason terminated_by r =
     (case dict_get (r_agents r) agent_id of
        None \<Rightarrow> (r, [])
      | Some a \<Rightarrow>
          let children = map fst (filter (\<lambda>(aid, c). a_parent c = Some agent_id) (r_agents r));
              tombstone =
                [(''agent_id'', PStr agent_id), (''name'', PStr (a_name a)), (''role'', PStr (a_role a)),
                 (''terminated_at'', PStr stamp), (''terminated_by'', PStr terminated_by),
                 (''reason'', PStr reason), (''final_usage'', usage_val (a_usage a)),
                 (''current_task_at_termination'', py_opt_str (a_task a)),
                 (''children'', py_strs children), (''parent_id'', py_opt_str (a_parent a)),
                 (''group_id'', py_opt_str (a_group a))];
              path = a_workspace a @ ''/tombstone.json'';
              agents = dict_upd agent_id (\<lambda>b. b\<lparr>a_tombstone := Some path\<rparr>) (r_agents r)
          in (reg_save (r\<lparr>r_agents := agents, r_tombs := dict_set path tombstone (r_tombs r)\<rparr>), path))"

text \<open>
  \<open>terminate\<close>: the tombstone captures the live state, children that still run are adopted by root,
  the status changes and the token index entry goes away.
\<close>

definition adopt_orphans :: "string \<Rightarrow> (string, agent) dict \<Rightarrow> (string, agent) dict" where
  "adopt_orphans agent_id agents =
     dict_map (\<lambda>_ c. if a_parent c = Some agent_id \<and> a_status c \<noteq> Terminated
                     then c\<lparr>a_parent := Some ''root''\<rparr> else c) agents"

definition reg_terminate :: "string \<Rightarrow> string \<Rightarrow> string \<Rightarrow> string \<Rightarrow> registry
    \<Rightarrow> py_error + registry \<times> eff list" where
  "reg_terminate stamp agent_id reason terminated_by r =
     (if agent_id = ''root'' then Inl (ValueError ''Cannot terminate root agent'')
      else
        let r0 = fst (reg_write_tombstone stamp agent_id reason terminated_by r);
            adopted = adopt_orphans agent_id (r_agents r0)
        in case dict_get adopted agent_id of
             None \<Rightarrow> Inr (r0, [])
           | Some a \<Rightarrow>
               let payload = [(''agent_id'', PStr agent_id), (''name'', PStr (a_name a)),
                              (''role'', PStr (a_role a)), (''parent_id'', py_opt_str (a_parent a)),
                              (''final_usage'', usage_val (a_usage a)), (''reason'', PStr reason),
                              (''terminated_by'', PStr terminated_by)];
                   agents = dict_upd agent_id (\<lambda>a. a\<lparr>a_status := Terminated\<rparr>) adopted
               in Inr (reg_save (r0\<lparr>r_agents := agents,
                                    r_index := dict_del (a_token_hash a) (r_index r0)\<rparr>),
                       if r_events r0 then [Emit ''agent.terminated'' agent_id payload] else []))"

definition reg_force_terminate :: "string \<Rightarrow> string \<Rightarrow> string \<Rightarrow> string \<Rightarrow> registry
    \<Rightarrow> registry \<times> eff list" where
  "reg_force_terminate stamp agent_id reason terminated_by r =
     (if agent_id = ''root'' then (r, [])
      else case reg_terminate stamp agent_id reason terminated_by r of
             Inl e \<Rightarrow> (r, []) | Inr st \<Rightarrow> st)"

definition group_members :: "string \<Rightarrow> registry \<Rightarrow> string list" where
  "group_members group_id r =
     map a_id (filter (\<lambda>a. a_group a = Some group_id \<and> a_status a \<noteq> Terminated) (vals (r_agents r)))"

text \<open>\<open>terminate_group\<close> without a signal function; the one with \<open>signal_dispatch\<close> is in Signals.\<close>

definition reg_terminate_group :: "string \<Rightarrow> string \<Rightarrow> string \<Rightarrow> registry
    \<Rightarrow> registry \<times> eff list \<times> string list" where
  "reg_terminate_group stamp group_id sent_by r =
     (let members = group_members group_id r;
          (r', effs) = foldl (\<lambda>(r, effs) mid.
             let (r', e) = reg_force_terminate stamp mid ''group_terminate'' sent_by r
             in (r', effs @ e)) (r, []) members
      in (r', effs, members))"

section \<open>Suspension\<close>

definition reg_suspend :: "string \<Rightarrow> registry \<Rightarrow> registry \<times> eff list" where
  "reg_suspend agent_id r =
     (case dict_get (r_agents r) agent_id of
        None \<Rightarrow> (r, [])
      | Some a \<Rightarrow>
          if a_status a = Active
          then (reg_save (r\<lparr>r_agents := dict_upd agent_id (\<lambda>a. a\<lparr>a_status := Suspended\<rparr>) (r_agents r)\<rparr>),
                if r_events r then [Emit ''agent.suspended'' agent_id [(''agent_id'', PStr agent_id)]] else [])
          else (r, []))"

definition reg_resume :: "string \<Rightarrow> registry \<Rightarrow> registry \<times> eff list" where
  "reg_resume agent_id r =
     (case dict_get (r_agents r) agent_id of
        None \<Rightarrow> (r, [])
      | Some a \<Rightarrow>
          if a_status a = Suspended
          then (reg_save (r\<lparr>r_agents := dict_upd agent_id (\<lambda>a. a\<lparr>a_status := Active\<rparr>) (r_agents r)\<rparr>),
                if r_events r then [Emit ''agent.resumed'' agent_id [(''agent_id'', PStr agent_id)]] else [])
          else (r, []))"

section \<open>Named locks\<close>

definition purge_locks :: "time \<Rightarrow> agent \<Rightarrow> agent" where
  "purge_locks now a = a\<lparr>a_locks := filter (\<lambda>(n, l). \<not> l_expires_at l < now) (a_locks a)\<rparr>"

definition reg_acquire_lock :: "time \<Rightarrow> string \<Rightarrow> string \<Rightarrow> rat \<Rightarrow> registry \<Rightarrow> registry \<times> bool" where
  "reg_acquire_lock now agent_id lock_name ttl r =
     (let agents = dict_map (\<lambda>_ a. purge_locks now a) (r_agents r);
          r1 = r\<lparr>r_agents := agents\<rparr>
      in if list_ex (\<lambda>a. a_id a \<noteq> agent_id \<and> dict_get (a_locks a) lock_name \<noteq> None) (vals agents)
         then (r1, False)
         else if dict_get agents agent_id = None then (r1, False)
         else (reg_save (r1\<lparr>r_agents := dict_upd agent_id
                 (\<lambda>a. a\<lparr>a_locks := dict_set lock_name
                          \<lparr>l_acquired_at = now, l_expires_at = now + ttl\<rparr> (a_locks a)\<rparr>) agents\<rparr>), True))"

definition reg_release_lock :: "string \<Rightarrow> string \<Rightarrow> registry \<Rightarrow> registry \<times> bool" where
  "reg_release_lock agent_id lock_name r =
     (case dict_get (r_agents r) agent_id of
        None \<Rightarrow> (r, False)
      | Some a \<Rightarrow>
          if dict_get (a_locks a) lock_name = None then (r, False)
          else (reg_save (r\<lparr>r_agents := dict_upd agent_id
                  (\<lambda>a. a\<lparr>a_locks := dict_del lock_name (a_locks a)\<rparr>) (r_agents r)\<rparr>), True))"

definition reg_get_locks :: "time \<Rightarrow> string \<Rightarrow> registry \<Rightarrow> (string, agent_lock \<times> rat) dict" where
  "reg_get_locks now agent_id r =
     (case dict_get (r_agents r) agent_id of
        None \<Rightarrow> []
      | Some a \<Rightarrow> dict_map (\<lambda>_ l. (l, max 0 (l_expires_at l - now)))
                   (filter (\<lambda>(n, l). now < l_expires_at l) (a_locks a)))"

section \<open>Model policies\<close>

definition reg_check_model_policy :: "string \<Rightarrow> string \<Rightarrow> string \<Rightarrow> registry \<Rightarrow> bool" where
  "reg_check_model_policy agent_id model required_cap r =
     (case dict_get (r_agents r) agent_id of
        None \<Rightarrow> True
      | Some a \<Rightarrow>
          if a_policies a = [] then True
          else (case (case dict_get (a_policies a) model of
                        None \<Rightarrow> dict_get (a_policies a) ''*'' | Some p \<Rightarrow> Some p) of
                  None \<Rightarrow> True
                | Some p \<Rightarrow> required_cap \<in> set p))"

section \<open>Operations\<close>

datatype reg_op =
    RegRegister string time reg_request
  | RegUsage string int int int
  | RegTask string "string option"
  | RegTerminate string string string string
  | RegForce string string string string
  | RegGroup string string string
  | RegSuspend string
  | RegResume string
  | RegAcquire time string string rat
  | RegRelease string string
  | RegEventBus
  | RegRestart time

text \<open>
  One request to the registry. \<open>RegEventBus\<close> is \<open>set_event_bus\<close>; \<open>RegRestart\<close> builds a new
  \<open>AgentRegistry\<close> from what the old one had saved.
\<close>

fun reg_step :: "keying \<Rightarrow> reg_op \<Rightarrow> registry \<Rightarrow> registry" where
  "reg_step kg (RegRegister i now q) r = fst (reg_register kg i now q r)"
| "reg_step kg (RegUsage i n m k) r = fst (reg_update_usage i n m k r)"
| "reg_step kg (RegTask i t) r = reg_set_task i t r"
| "reg_step kg (RegTerminate d i reason by) r =
     (case reg_terminate d i reason by r of Inl e \<Rightarrow> r | Inr st \<Rightarrow> fst st)"
| "reg_step kg (RegForce d i reason by) r = fst (reg_force_terminate d i reason by r)"
| "reg_step kg (RegGroup d g by) r = fst (reg_terminate_group d g by r)"
| "reg_step kg (RegSuspend i) r = fst (reg_suspend i r)"
| "reg_step kg (RegResume i) r = fst (reg_resume i r)"
| "reg_step kg (RegAcquire now i n ttl) r = fst (reg_acquire_lock now i n ttl r)"
| "reg_step kg (RegRelease i n) r = fst (reg_release_lock i n r)"
| "reg_step kg RegEventBus r = r\<lparr>r_events := True\<rparr>"
| "reg_step kg (RegRestart now) r =
     (reg_init kg now (r_master r) (r_root_dir r) (r_disk r))\<lparr>r_tombs := r_tombs r\<rparr>"

definition reg_after :: "keying \<Rightarrow> time \<Rightarrow> string \<Rightarrow> string \<Rightarrow> reg_op list \<Rightarrow> registry" where
  "reg_after kg now master root_dir ops =
     run_ops (reg_step kg) ops (reg_init kg now master root_dir None)"

section \<open>Well-formedness\<close>

text \<open>
  Every record is stored under its own id, its depth is within the bound, its locks form a dictionary;
  a lock name is held by at most one record; root is there and has not been terminated.
\<close>

definition holds :: "agent \<Rightarrow> string \<Rightarrow> bool" where
  "holds a n = (dict_get (a_locks a) n \<noteq> None)"

definition agent_ok :: "string \<Rightarrow> agent \<Rightarrow> bool" where
  "agent_ok i a = (a_id a = i \<and> a_depth a \<le> max_spawn_depth \<and> wf_dict (a_locks a))"

definition agents_ok :: "(string, agent) dict \<Rightarrow> bool" where
  "agents_ok d =
     (wf_dict d \<and> (\<forall>i a. dict_get d i = Some a \<longrightarrow> agent_ok i a) \<and>
      (\<forall>i a j b n. dict_get d i = Some a \<longrightarrow> dict_get d j = Some b \<longrightarrow> holds a n \<longrightarrow> holds b n \<longrightarrow> i = j))"

definition root_alive :: "(string, agent) dict \<Rightarrow> bool" where
  "root_alive d = (\<exists>a. dict_get d ''root'' = Some a \<and> a_status a \<noteq> Terminated)"

text \<open>The hash under which an agent's token is known to the registry.\<close>

definition known_hash :: "keying \<Rightarrow> string \<Rightarrow> string \<Rightarrow> string \<Rightarrow> bool" where
  "known_hash kg master i h =
     (h = hash_token kg (token_for kg master i) \<or> i = ''root'' \<and> h = hash_token kg master)"

definition hashes_ok :: "keying \<Rightarrow> string \<Rightarrow> (string, agent) dict \<Rightarrow> bool" where
  "hashes_ok kg m d = (\<forall>i a. dict_get d i = Some a \<longrightarrow> known_hash kg m i (a_token_hash a))"

definition index_ok :: "keying \<Rightarrow> registry \<Rightarrow> bool" where
  "index_ok kg r = (\<forall>h i. dict_get (r_index r) h = Some i \<longrightarrow> known_hash kg (r_master r) i h)"

definition store_ok :: "keying \<Rightarrow> string \<Rightarrow> (string, agent) dict \<Rightarrow> bool" where
  "store_ok kg m d = (agents_ok d \<and> root_alive d \<and> hashes_ok kg m d)"

definition reg_wf :: "keying \<Rightarrow> registry \<Rightarrow> bool" where
  "reg_wf kg r =
     (store_ok kg (r_master r) (r_agents r) \<and> index_ok kg r \<and>
      (\<exists>d. r_disk r = Some d \<and> store_ok kg (r_master r) d))"

text \<open>A change of the record stored under \<open>k\<close> that cannot break well-formedness.\<close>

definition tame :: "string \<Rightarrow> (agent \<Rightarrow> agent) \<Rightarrow> bool" where
  "tame k f =
     (\<forall>a. a_id (f a) = a_id a \<and> a_depth (f a) = a_depth a \<and> a_token_hash (f a) = a_token_hash a \<and>
          (\<forall>n. holds (f a) n \<longrightarrow> holds a n) \<and> (wf_dict (a_locks a) \<longrightarrow> wf_dict (a_locks (f a))) \<and>
          (k = ''root'' \<longrightarrow> a_status (f a) = Terminated \<longrightarrow> a_status a = Terminated))"

lemma dict_upd_map: "dict_upd k f d = dict_map (\<lambda>k' v. if k' = k then f v else v) d"
  by (simp add: dict_upd_def dict_map_def)

lemma store_ok_map:
  assumes "store_ok kg m d" and tame: "\<And>k. tame k (f k)"
  shows "store_ok kg m (dict_map f d)"
proof -
  have ok: "agents_ok d" "root_alive d" "hashes_ok kg m d"
    using assms(1) by (auto simp: store_ok_def)
  have "agents_ok (dict_map f d)"
    using ok(1) tame unfolding agents_ok_def
    by (auto simp: agent_ok_def tame_def) metis+
  moreover have "root_alive (dict_map f d)"
    using ok(2) tame [of "''root''"] by (auto simp: root_alive_def tame_def)
  moreover have "hashes_ok kg m (dict_map f d)"
    using ok(3) tame by (auto simp: hashes_ok_def tame_def)
  ultimately show ?thesis by (simp add: store_ok_def)
qed

lemma tame_id [simp]: "tame k (\<lambda>a. a)"
  by (simp add: tame_def)

lemma store_ok_upd:
  assumes "store_ok kg m d" and "tame k f"
  shows "store_ok kg m (dict_upd k f d)"
  unfolding dict_upd_map by (rule store_ok_map [OF assms(1)]) (use assms(2) in \<open>auto simp: tame_def\<close>)

lemma tame_simple [simp]:
  "tame k (\<lambda>a. a\<lparr>a_usage := u\<rparr>)" "tame k (\<lambda>a. a\<lparr>a_task := t\<rparr>)"
  "tame k (\<lambda>a. a\<lparr>a_tombstone := p\<rparr>)"
  "tame k (\<lambda>a. a\<lparr>a_status := Active\<rparr>)" "tame k (\<lambda>a. a\<lparr>a_status := Suspended\<rparr>)"
  by (simp_all add: tame_def holds_def)

lemma tame_terminated [simp]: "k \<noteq> ''root'' \<Longrightarrow> tame k (\<lambda>a. a\<lparr>a_status := Terminated\<rparr>)"
  by (simp add: tame_def holds_def)

lemma wf_dict_delete_iff: "wf_dict d \<Longrightarrow> wf_dict (filter (\<lambda>(k, v). P k v) d)"
  by (rule wf_dict_filter)

lemma filter_keeps_lookup: "dict_get (filter P d) n = Some y \<Longrightarrow> \<exists>y. dict_get d n = Some y"
  using dict_get_None [of "filter P d" n] dict_get_None [of d n] by (cases "dict_get d n") auto

lemma tame_purge [simp]: "tame k (purge_locks now)"
  by (auto simp: tame_def purge_locks_def holds_def wf_dict_delete_iff dest: filter_keeps_lookup)

lemma tame_release [simp]: "tame k (\<lambda>a. a\<lparr>a_locks := dict_del n (a_locks a)\<rparr>)"
  by (auto simp: tame_def holds_def)

lemma tame_adopt [simp]: "tame k (\<lambda>c. if P c then c\<lparr>a_parent := p\<rparr> else c)"
  by (simp add: tame_def holds_def)

lemma store_ok_set:
  assumes ok: "store_ok kg m d" and "agent_ok i a" "known_hash kg m i (a_token_hash a)"
    and "a_locks a = []" "a_status a = Active"
  shows "store_ok kg m (dict_set i a d)"
  using assms
  by (auto simp: store_ok_def agents_ok_def root_alive_def hashes_ok_def holds_def split: if_splits)

lemma store_ok_lock:
  assumes ok: "store_ok kg m d"
    and free: "\<And>j b. dict_get d j = Some b \<Longrightarrow> j \<noteq> i \<Longrightarrow> \<not> holds b n"
  shows "store_ok kg m (dict_upd i (\<lambda>a. a\<lparr>a_locks := dict_set n l (a_locks a)\<rparr>) d)"
proof -
  let ?f = "\<lambda>a. a\<lparr>a_locks := dict_set n l (a_locks a)\<rparr>"
  have a: "agents_ok d" using ok by (simp add: store_ok_def)
  have one: "x = y" if "dict_get d x = Some b" "dict_get d y = Some c"
      "holds (if x = i then ?f b else b) n'" "holds (if y = i then ?f c else c) n'" for x y b c n'
  proof (cases "n' = n")
    case True
    with that free have "x = i" "y = i" by (auto split: if_splits)
    then show ?thesis by simp
  next
    case False
    then have "holds b n'" "holds c n'" using that by (auto simp: holds_def split: if_splits)
    with that a show ?thesis by (auto simp: agents_ok_def)
  qed
  have get: "\<exists>b. dict_get d x = Some b \<and> b' = (if x = i then ?f b else b)"
    if "dict_get (dict_upd i ?f d) x = Some b'" for x b'
    using that by (cases "dict_get d x") (auto split: if_splits)
  have "agent_ok x b'" if "dict_get (dict_upd i ?f d) x = Some b'" for x b'
    using get [OF that] a by (auto simp: agents_ok_def agent_ok_def)
  moreover have "x = y" if "dict_get (dict_upd i ?f d) x = Some b'" "dict_get (dict_upd i ?f d) y = Some c'"
      "holds b' n'" "holds c' n'" for x y b' c' n'
    using get [OF that(1)] get [OF that(2)] one that(3,4) by blast
  ultimately have "agents_ok (dict_upd i ?f d)"
    using a unfolding agents_ok_def wf_dict_upd by blast
  moreover have "root_alive (dict_upd i ?f d)" "hashes_ok kg m (dict_upd i ?f d)"
    using ok by (auto simp: store_ok_def root_alive_def hashes_ok_def)
  ultimately show ?thesis by (simp add: store_ok_def)
qed

section \<open>Every operation keeps well-formedness\<close>

lemma reg_wf_store: "reg_wf kg r \<Longrightarrow> store_ok kg (r_master r) (r_agents r)"
  by (simp add: reg_wf_def)

lemma reg_wf_agents:
  "reg_wf kg r \<Longrightarrow> store_ok kg (r_master r) d \<Longrightarrow> reg_wf kg (r\<lparr>r_agents := d\<rparr>)"
  by (simp add: reg_wf_def index_ok_def)

lemma reg_wf_save [wf_intros]: "reg_wf kg r \<Longrightarrow> reg_wf kg (reg_save r)"
  by (auto simp: reg_wf_def index_ok_def reg_save_def)

lemma reg_wf_upd [wf_intros]:
  "reg_wf kg r \<Longrightarrow> tame i f \<Longrightarrow> reg_wf kg (r\<lparr>r_agents := dict_upd i f (r_agents r)\<rparr>)"
  by (intro reg_wf_agents store_ok_upd reg_wf_store)

lemma reg_wf_map [wf_intros]:
  "reg_wf kg r \<Longrightarrow> (\<And>k. tame k (f k)) \<Longrightarrow> reg_wf kg (r\<lparr>r_agents := dict_map f (r_agents r)\<rparr>)"
  by (intro reg_wf_agents store_ok_map reg_wf_store)

lemma index_ok_del [simp]: "index_ok kg r \<Longrightarrow> index_ok kg (r\<lparr>r_agents := d, r_index := dict_del h (r_index r)\<rparr>)"
  by (auto simp: index_ok_def split: if_splits)

lemma reg_wf_register:
  assumes "reg_wf kg r"
  shows "reg_wf kg (fst (reg_register kg i now q r))"
proof -
  have ok: "store_ok kg (r_master r) (r_agents r)" "index_ok kg r"
    using assms by (simp_all add: reg_wf_def)
  show ?thesis
    using assms
    by (auto simp: reg_register_def Let_def reg_wf_def reg_save_def index_ok_def agent_ok_def known_hash_def
        intro!: store_ok_set [OF ok(1)])
qed

lemma budget_round_agents [simp]:
  "r_agents (fst (budget_round i u st kl)) = r_agents (fst st)"
  "r_index (fst (budget_round i u st kl)) = r_index (fst st)"
  "r_master (fst (budget_round i u st kl)) = r_master (fst st)"
  "r_disk (fst (budget_round i u st kl)) = r_disk (fst st)"
  by (simp_all add: budget_round_def Let_def split: prod.splits)

lemma budget_rounds_agents [simp]:
  "r_agents (fst (foldl (budget_round i u) st kls)) = r_agents (fst st)"
  "r_index (fst (foldl (budget_round i u) st kls)) = r_index (fst st)"
  "r_master (fst (foldl (budget_round i u) st kls)) = r_master (fst st)"
  "r_disk (fst (foldl (budget_round i u) st kls)) = r_disk (fst st)"
  by (induction kls arbitrary: st) simp_all

lemma reg_wf_usage:
  assumes "reg_wf kg r"
  shows "reg_wf kg (fst (reg_update_usage i n m k r))"
proof (cases "dict_get (r_agents r) i")
  case None
  then show ?thesis using assms by (simp add: reg_update_usage_def)
next
  case (Some a)
  let ?u = "add_usage ''tokens_out'' k (add_usage ''tokens_in'' m (add_usage ''shell_calls'' n (a_usage a)))"
  let ?r1 = "r\<lparr>r_agents := dict_upd i (\<lambda>a. a\<lparr>a_usage := ?u\<rparr>) (r_agents r)\<rparr>"
  let ?st = "foldl (budget_round i ?u) (?r1, []) (a_budget a)"
  have "reg_wf kg ?r1" by (intro wf_intros assms tame_simple)
  then have "reg_wf kg (fst ?st)" by (simp add: reg_wf_def index_ok_def)
  then show ?thesis
    by (simp add: reg_update_usage_def Some reg_wf_save Let_def split_beta)
qed

lemma reg_wf_tombstone:
  assumes "reg_wf kg r"
  shows "reg_wf kg (fst (reg_write_tombstone d i reason by r))"
proof (cases "dict_get (r_agents r) i")
  case None
  then show ?thesis using assms by (simp add: reg_write_tombstone_def)
next
  case (Some a)
  have "store_ok kg (r_master r) (dict_upd i (\<lambda>b. b\<lparr>a_tombstone := p\<rparr>) (r_agents r))" for p
    by (intro store_ok_upd reg_wf_store assms) simp
  with assms show ?thesis
    by (simp add: reg_write_tombstone_def Some Let_def reg_wf_def index_ok_def reg_save_def)
qed

lemma reg_wf_terminate:
  assumes "reg_wf kg r" and "reg_terminate d i reason by r = Inr (r', effs)"
  shows "reg_wf kg r'"
proof -
  let ?r0 = "fst (reg_write_tombstone d i reason by r)"
  have i: "i \<noteq> ''root''" using assms(2) by (auto simp: reg_terminate_def)
  have wf0: "reg_wf kg ?r0" by (rule reg_wf_tombstone [OF assms(1)])
  have ad: "store_ok kg (r_master ?r0) (adopt_orphans i (r_agents ?r0))"
    unfolding adopt_orphans_def by (intro store_ok_map reg_wf_store wf0) simp
  then have up: "store_ok kg (r_master ?r0)
      (dict_upd i (\<lambda>a. a\<lparr>a_status := Terminated\<rparr>) (adopt_orphans i (r_agents ?r0)))"
    using i by (intro store_ok_upd) simp_all
  show ?thesis
    using assms(2) i wf0 up
    by (auto simp: reg_terminate_def Let_def reg_save_def reg_wf_def index_ok_def split: option.splits if_splits)
qed

lemma reg_wf_force:
  "reg_wf kg r \<Longrightarrow> reg_wf kg (fst (reg_force_terminate d i reason by r))"
  by (auto simp: reg_force_terminate_def split: sum.splits dest: reg_wf_terminate)

lemma reg_wf_group:
  assumes "reg_wf kg r"
  shows "reg_wf kg (fst (reg_terminate_group d g by r))"
proof -
  let ?f = "\<lambda>(r, effs) mid. let (r', e) = reg_force_terminate d mid ''group_terminate'' by r in (r', effs @ e)"
  have "reg_wf kg (fst (?f st m))" if "reg_wf kg (fst st)" for st m
    using reg_wf_force [OF that] by (simp add: split_beta)
  then have "reg_wf kg (fst (foldl ?f (r, []) (group_members g r)))"
    using assms by (intro foldl_keeps [where P = "\<lambda>st. reg_wf kg (fst st)"]) simp_all
  then show ?thesis
    by (simp add: reg_terminate_group_def Let_def split_beta)
qed

lemma reg_wf_suspend: "reg_wf kg r \<Longrightarrow> reg_wf kg (fst (reg_suspend i r))"
  by (auto simp: reg_suspend_def intro!: wf_intros split: option.splits)

lemma reg_wf_resume: "reg_wf kg r \<Longrightarrow> reg_wf kg (fst (reg_resume i r))"
  by (auto simp: reg_resume_def intro!: wf_intros split: option.splits)

lemma reg_wf_set_task: "reg_wf kg r \<Longrightarrow> reg_wf kg (reg_set_task i t r)"
  by (auto simp: reg_set_task_def intro!: wf_intros)

lemma reg_wf_release: "reg_wf kg r \<Longrightarrow> reg_wf kg (fst (reg_release_lock i n r))"
  by (auto simp: reg_release_lock_def intro!: wf_intros split: option.splits)

lemma locks_purged:
  assumes "\<not> list_ex (\<lambda>a. a_id a \<noteq> i \<and> dict_get (a_locks a) n \<noteq> None) (vals d)"
    and "agents_ok d" and "dict_get d j = Some b" and "j \<noteq> i"
  shows "\<not> holds b n"
proof -
  from assms(3) have "b \<in> set (vals d)" by (auto dest: dict_get_in intro: rev_image_eqI)
  moreover from assms(2,3) have "a_id b = j" by (auto simp: agents_ok_def agent_ok_def)
  ultimately show ?thesis using assms(1,4) by (auto simp: list_ex_iff holds_def)
qed

lemma reg_wf_acquire:
  assumes "reg_wf kg r"
  shows "reg_wf kg (fst (reg_acquire_lock now i n ttl r))"
proof -
  let ?d = "dict_map (\<lambda>_ a. purge_locks now a) (r_agents r)"
  let ?r1 = "r\<lparr>r_agents := ?d\<rparr>"
  have wf1: "reg_wf kg ?r1" by (intro wf_intros assms tame_purge)
  have ok: "store_ok kg (r_master r) ?d" using reg_wf_store [OF wf1] by simp
  then have aok: "agents_ok ?d" by (simp add: store_ok_def)
  show ?thesis
  proof (cases "list_ex (\<lambda>a. a_id a \<noteq> i \<and> dict_get (a_locks a) n \<noteq> None) (vals ?d)")
    case True
    with wf1 show ?thesis by (simp add: reg_acquire_lock_def Let_def)
  next
    case False
    have lk: "store_ok kg (r_master r) (dict_upd i (\<lambda>a. a\<lparr>a_locks := dict_set n l (a_locks a)\<rparr>) ?d)" for l
      by (rule store_ok_lock [OF ok locks_purged [OF False aok]])
    have "reg_wf kg (reg_save (r\<lparr>r_agents := dict_upd i (\<lambda>a. a\<lparr>a_locks := dict_set n l (a_locks a)\<rparr>) ?d\<rparr>))" for l
      by (intro reg_wf_save reg_wf_agents assms lk)
    with wf1 False show ?thesis by (simp add: reg_acquire_lock_def Let_def)
  qed
qed

text \<open>Start-up: a fresh registry and one restored from a saved store are well-formed.\<close>

definition agents_pre :: "keying \<Rightarrow> string \<Rightarrow> (string, agent) dict \<Rightarrow> bool" where
  "agents_pre kg m d = (agents_ok d \<and> hashes_ok kg m d)"

lemma ensure_root_wf:
  assumes "agents_pre kg (r_master r) (r_agents r)" "index_ok kg r"
    and "dict_get (r_agents r) ''root'' \<noteq> None \<Longrightarrow>
      root_alive (r_agents r) \<and> (\<exists>d. r_disk r = Some d \<and> store_ok kg (r_master r) d)"
  shows "reg_wf kg (ensure_root kg now r)"
proof (cases "dict_get (r_agents r) ''root'' = None")
  case True
  have "agents_ok (dict_set ''root'' a (r_agents r))"
    if "a_id a = ''root''" "a_depth a = 0" "a_locks a = []" for a
    using assms(1) that
    by (auto simp: agents_pre_def agents_ok_def agent_ok_def holds_def split: if_splits)
  then show ?thesis
    using assms True
    by (auto simp: ensure_root_def Let_def reg_wf_def reg_save_def store_ok_def root_alive_def
        agents_pre_def hashes_ok_def index_ok_def known_hash_def split: if_splits)
next
  case False
  with assms show ?thesis
    by (auto simp: ensure_root_def reg_wf_def store_ok_def agents_pre_def)
qed

lemma ensure_core_wf:
  "reg_wf kg (fst st) \<Longrightarrow> reg_wf kg (fst (ensure_core_agent kg now st spec))"
proof -
  assume wf: "reg_wf kg (fst st)"
  obtain r c where st: "st = (r, c)" by (cases st)
  obtain i nm role desc where spec: "spec = (i, nm, role, desc)" by (cases spec) auto
  have ok: "store_ok kg (r_master r) (r_agents r)" "index_ok kg r" using wf by (auto simp: reg_wf_def st)
  show ?thesis
  proof (cases "dict_get (r_agents r) i")
    case None
    then show ?thesis using wf
      by (auto simp: ensure_core_agent_def st spec Let_def reg_wf_def index_ok_def agent_ok_def known_hash_def
          max_spawn_depth_def intro!: store_ok_set [OF ok(1)])
  next
    case (Some a)
    with wf show ?thesis
      by (auto simp: ensure_core_agent_def st spec intro!: wf_intros)
  qed
qed

lemma ensure_cores_wf: "reg_wf kg r \<Longrightarrow> reg_wf kg (ensure_core_agents kg now r)"
proof -
  assume "reg_wf kg r"
  then have "reg_wf kg (fst (foldl (ensure_core_agent kg now) (r, False) core_agents))"
    by (intro foldl_keeps [where P = "\<lambda>st. reg_wf kg (fst st)"] ensure_core_wf) simp_all
  then show ?thesis
    by (auto simp: ensure_core_agents_def split_beta intro: wf_intros)
qed

lemma reg_load_agents:
  assumes "agents_ok d"
  shows "r_agents (reg_load (Some d) r) = fold (\<lambda>(k, a). dict_set k a) d (r_agents r)"
proof -
  have step: "r_agents (reg_load_one r p) = dict_set (fst p) (snd p) (r_agents r)" if "p \<in> set d" for p r
    using assms that in_dict_get [of d "fst p" "snd p"]
    by (auto simp: reg_load_one_def Let_def agents_ok_def agent_ok_def)
  have "r_agents (foldl reg_load_one r ps) = fold (\<lambda>(k, a). dict_set k a) ps (r_agents r)"
    if "set ps \<subseteq> set d" for ps
    using that by (induction ps arbitrary: r) (auto simp: step)
  then show ?thesis by (simp add: reg_load_def)
qed

lemma fold_dict_set_append:
  "distinct (keys (e @ d)) \<Longrightarrow> fold (\<lambda>(k, a). dict_set k a) d e = e @ d"
proof (induction d arbitrary: e)
  case (Cons p d)
  obtain k a where p: "p = (k, a)" by (cases p)
  from Cons.prems have "dict_set k a e = e @ [(k, a)]"
    by (auto simp: p dict_set_new)
  with Cons show ?case by (simp add: p)
qed simp

lemma reg_load_same:
  assumes "agents_ok d" and "r_agents r = []"
  shows "r_agents (reg_load (Some d) r) = d"
  using fold_dict_set_append [of "[]" d] assms by (simp add: reg_load_agents agents_ok_def wf_dict_def)

lemma reg_load_index:
  assumes "index_ok kg r" and "hashes_ok kg (r_master r) d" and "agents_ok d"
  shows "index_ok kg (reg_load (Some d) r) \<and> r_master (reg_load (Some d) r) = r_master r
    \<and> r_disk (reg_load (Some d) r) = r_disk r"
proof -
  have "index_ok kg (foldl reg_load_one r ps) \<and> r_master (foldl reg_load_one r ps) = r_master r
      \<and> r_disk (foldl reg_load_one r ps) = r_disk r"
    if "set ps \<subseteq> set d" "index_ok kg r" "hashes_ok kg (r_master r) d" for ps r
    using that
  proof (induction ps arbitrary: r)
    case (Cons p ps)
    have get: "dict_get d (fst p) = Some (snd p)"
      using Cons.prems(1) assms(3) by (intro in_dict_get) (auto simp: agents_ok_def)
    have "index_ok kg (reg_load_one r p)"
      using get Cons.prems(2,3) assms(3)
      by (auto simp: reg_load_one_def Let_def index_ok_def hashes_ok_def agents_ok_def agent_ok_def)
    then show ?case
      using Cons.IH [of "reg_load_one r p"] Cons.prems by (auto simp: reg_load_one_def Let_def)
  qed simp
  then show ?thesis using assms by (simp add: reg_load_def)
qed

lemma reg_init_wf:
  assumes "\<And>d. disk = Some d \<Longrightarrow> store_ok kg m d"
  shows "reg_wf kg (reg_init kg now m dir disk)"
proof -
  let ?r0 = "\<lparr>r_agents = [], r_index = [], r_master = m, r_root_dir = dir, r_events = False,
        r_warned = [], r_exhausted = [], r_disk = disk, r_tombs = []\<rparr>"
  let ?r1 = "reg_load disk ?r0"
  have "reg_wf kg (ensure_root kg now ?r1)"
  proof (cases disk)
    case None
    then show ?thesis
      by (intro ensure_root_wf) (auto simp: reg_load_def agents_pre_def agents_ok_def hashes_ok_def index_ok_def)
  next
    case (Some d)
    have ok: "store_ok kg m d" by (rule assms [OF Some])
    then have parts: "agents_ok d" "root_alive d" "hashes_ok kg m d" by (auto simp: store_ok_def)
    have same: "r_agents ?r1 = d" using reg_load_same [OF parts(1)] by (simp add: Some)
    have ix: "index_ok kg ?r1 \<and> r_master ?r1 = m \<and> r_disk ?r1 = Some d"
      using reg_load_index [of kg ?r0 d] parts by (auto simp: Some index_ok_def)
    show ?thesis
      by (rule ensure_root_wf) (use same ix parts ok in \<open>auto simp: agents_pre_def\<close>)
  qed
  then show ?thesis by (simp add: reg_init_def ensure_cores_wf)
qed

lemma reg_step_wf: "reg_wf kg r \<Longrightarrow> reg_wf kg (reg_step kg x r)"
proof (induction x)
  case (RegTerminate d i reason who)
  then show ?case by (auto split: sum.splits intro: reg_wf_terminate)
next
  case RegEventBus
  then show ?case by (simp add: reg_wf_def index_ok_def)
next
  case (RegRestart now)
  then have "reg_wf kg (reg_init kg now (r_master r) (r_root_dir r) (r_disk r))"
    by (intro reg_init_wf) (auto simp: reg_wf_def)
  then show ?case by (simp add: reg_wf_def index_ok_def)
qed (auto intro: reg_wf_register reg_wf_usage reg_wf_force reg_wf_group reg_wf_suspend reg_wf_resume
       reg_wf_set_task reg_wf_release reg_wf_acquire)

interpretation reg_sys: op_system "reg_step kg" "reg_wf kg" for kg
  by unfold_locales (rule reg_step_wf)

lemma reg_after_wf: "reg_wf kg (reg_after kg now m dir ops)"
  unfolding reg_after_def by (rule reg_sys.inv_run, rule reg_init_wf) simp

section \<open>Authentication\<close>

lemma reg_auth_cases:
  assumes "reg_wf kg r" and "reg_authenticate kg t r = Some a"
  shows "t = r_master r \<and> a_id a = ''root'' \<or>
     a_status a = Active \<and> dict_get (r_agents r) (a_id a) = Some a \<and>
     known_hash kg (r_master r) (a_id a) (hash_token kg t)"
proof (cases "t = r_master r")
  case True
  with assms show ?thesis
    by (auto simp: reg_authenticate_def reg_wf_def store_ok_def agents_ok_def agent_ok_def)
next
  case False
  then obtain i where i: "dict_get (r_index r) (hash_token kg t) = Some i"
      "dict_get (r_agents r) i = Some a" "a_status a = Active"
    using assms(2) by (auto simp: reg_authenticate_def split: option.splits if_splits)
  moreover have "a_id a = i"
    using i assms(1) by (auto simp: reg_wf_def store_ok_def agents_ok_def agent_ok_def)
  ultimately show ?thesis using assms(1) by (auto simp: reg_wf_def index_ok_def)
qed

text \<open>
  C8: authentication never confuses agents: whatever requests the registry has served (restarts
  included), a token it accepts is the master token, for root, or hashes to the digest derived from
  the accepted agent's own id, and that agent is the registered one and active.
\<close>

theorem reg_auth_sound:
  "let r = reg_after kg now m dir ops in
   case reg_authenticate kg t r of
     None \<Rightarrow> True
   | Some a \<Rightarrow> t = r_master r \<and> a_id a = ''root'' \<or>
       a_status a = Active \<and> dict_get (r_agents r) (a_id a) = Some a \<and>
       known_hash kg (r_master r) (a_id a) (hash_token kg t)"
  using reg_auth_cases [OF reg_after_wf] by (auto simp: Let_def split: option.splits)

lemma reg_register_result:
  assumes "reg_register kg i now q r = (r1, effs, Inr (a, tok))"
  shows "dict_get (r_agents r1) i = Some a" "dict_get (r_index r1) (hash_token kg tok) = Some i"
    "a_status a = Active" "a_token_hash a = hash_token kg tok" "r_master r1 = r_master r"
  using assms by (auto simp: reg_register_def Let_def reg_save_def split: if_splits option.splits)

lemma reg_authenticate_indexed:
  assumes "dict_get (r_index r) (hash_token kg tok) = Some i" "i \<noteq> ''''" "tok \<noteq> r_master r"
    and "dict_get (r_agents r) i = Some a"
  shows "reg_authenticate kg tok r = (if a_status a = Active then Some a else None)"
  using assms by (simp add: reg_authenticate_def)

lemma reg_terminate_index:
  assumes "reg_terminate d i reason who r = Inr (r', effs)" and "dict_get (r_agents r) i = Some a"
  shows "r_index r' = dict_del (a_token_hash a) (r_index r)" "r_master r' = r_master r"
  using assms
  by (auto simp: reg_terminate_def reg_write_tombstone_def adopt_orphans_def reg_save_def Let_def split: if_splits)

text \<open>
  the life of a token: the token returned by a registration authenticates the new agent; it is
  refused while the agent is suspended, accepted again after a resume, and refused for good once the
  agent has been terminated.
\<close>

theorem reg_token_lifecycle:
  assumes "reg_register kg i now q r = (r1, effs, Inr (a, tok))"
    and "i \<noteq> ''''" and "tok \<noteq> r_master r"
  shows "reg_authenticate kg tok r1 = Some a
    \<and> reg_authenticate kg tok (fst (reg_suspend i r1)) = None
    \<and> reg_authenticate kg tok (fst (reg_resume i (fst (reg_suspend i r1)))) = Some a
    \<and> (case reg_terminate d i reason who r1 of
         Inl e \<Rightarrow> i = ''root''
       | Inr (r2, _) \<Rightarrow> reg_authenticate kg tok r2 = None)"
proof -
  note res = reg_register_result [OF assms(1)]
  have same: "a\<lparr>a_status := Active\<rparr> = a" using res(3) by simp
  have "case reg_terminate d i reason who r1 of Inl e \<Rightarrow> i = ''root''
      | Inr (r2, _) \<Rightarrow> reg_authenticate kg tok r2 = None"
    using reg_terminate_index [of d i reason who r1 _ _ a] res assms(3)
    by (auto simp: reg_authenticate_def split: sum.splits option.splits)
      (auto simp: reg_terminate_def Let_def split: if_splits option.splits)
  then show ?thesis
    using assms(2,3) res same
    by (simp add: reg_authenticate_indexed [where i = i] reg_suspend_def reg_resume_def reg_save_def)
qed

definition example_keying :: keying where
  "example_keying = \<lparr>token_for = (\<lambda>m i. m @ ''/'' @ i), hash_token = (\<lambda>t. ''h'' @ t)\<rparr>"

definition example_request :: reg_request where
  "example_request = \<lparr>q_name = ''w'', q_role = ''worker'', q_caps = [], q_budget = [], q_parent = None,
     q_metadata = [], q_policies = [], q_group = None, q_parent_task = None\<rparr>"

definition example_registry :: registry where
  "example_registry = reg_init example_keying 0 ''secret'' ''/ws'' None"

lemma example_registered:
  "\<exists>r1 a. reg_register example_keying ''ab12'' 1 example_request example_registry = (r1, [], Inr (a, ''secret/ab12''))"
proof -
  have "r_master example_registry = ''secret'' \<and> r_events example_registry = False"
    by (simp add: example_registry_def reg_init_def reg_load_def ensure_root_def ensure_core_agents_def
        core_agents_def ensure_core_agent_def reg_save_def Let_def example_keying_def)
  then show ?thesis
    by (simp add: reg_register_def example_request_def example_keying_def reg_parent_def Let_def reg_save_def max_spawn_depth_def)
qed

theorem reg_token_lifecycle_witness:
  "\<exists>r1 a. reg_register example_keying ''ab12'' 1 example_request example_registry
      = (r1, [], Inr (a, ''secret/ab12'')) \<and>
     reg_authenticate example_keying ''secret/ab12'' r1 = Some a \<and>
     reg_authenticate example_keying ''secret/ab12'' (fst (reg_suspend ''ab12'' r1)) = None"
proof -
  obtain r1 a where r: "reg_register example_keying ''ab12'' 1 example_request example_registry
      = (r1, [], Inr (a, ''secret/ab12''))" using example_registered by blast
  have "r_master example_registry = ''secret''"
    by (simp add: example_registry_def reg_init_def reg_load_def ensure_root_def ensure_core_agents_def
        core_agents_def ensure_core_agent_def reg_save_def Let_def example_keying_def)
  with reg_token_lifecycle [OF r] r show ?thesis by auto
qed

section \<open>Mutual exclusion\<close>

text \<open>
  What a client of a lock service relies on: a granted lock is recorded with its deadline, and while
  a lock another client holds has not passed its deadline nobody else is granted it.
\<close>

locale lock_service =
  fixes acquire :: "time \<Rightarrow> 'c \<Rightarrow> 'n \<Rightarrow> rat \<Rightarrow> 's \<Rightarrow> 's \<times> bool"
    and deadline :: "'s \<Rightarrow> 'c \<Rightarrow> 'n \<Rightarrow> time option"
    and ok :: "'s \<Rightarrow> bool"
  assumes granted: "snd (acquire t c n ttl s) \<Longrightarrow> deadline (fst (acquire t c n ttl s)) c n = Some (t + ttl)"
    and refused: "ok s \<Longrightarrow> deadline s c n = Some d \<Longrightarrow> t \<le> d \<Longrightarrow> c' \<noteq> c \<Longrightarrow> \<not> snd (acquire t c' n ttl s)"
    and kept: "ok s \<Longrightarrow> deadline s c n = Some d \<Longrightarrow> t \<le> d \<Longrightarrow> c' \<noteq> c \<or> n' \<noteq> n
        \<Longrightarrow> deadline (fst (acquire t c' n' ttl s)) c n = Some d"
    and ok_acquire: "ok s \<Longrightarrow> ok (fst (acquire t c n ttl s))"
begin

text \<open>Whatever other clients try, and however often, nobody gets a lock before its deadline.\<close>

lemma excludes:
  assumes "ok s" and "snd (acquire t c n ttl s)"
    and "\<forall>(t', c', n', ttl') \<in> set reqs. t' \<le> t + ttl \<and> c' \<noteq> c"
    and "t' \<le> t + ttl" "c' \<noteq> c"
  shows "\<not> snd (acquire t' c' n ttl' (foldl (\<lambda>s (t', c', n', ttl'). fst (acquire t' c' n' ttl' s))
      (fst (acquire t c n ttl s)) reqs))"
proof -
  have "ok s \<and> deadline s c n = Some d \<Longrightarrow> \<forall>(t', c', n', ttl') \<in> set reqs. t' \<le> d \<and> c' \<noteq> c \<Longrightarrow>
      let s' = foldl (\<lambda>s (t', c', n', ttl'). fst (acquire t' c' n' ttl' s)) s reqs
      in ok s' \<and> deadline s' c n = Some d" for s d
    by (induction reqs arbitrary: s) (auto simp: ok_acquire kept Let_def)
  with assms show ?thesis
    by (meson granted ok_acquire refused)
qed

end

definition lock_deadline :: "registry \<Rightarrow> string \<Rightarrow> string \<Rightarrow> time option" where
  "lock_deadline r i n =
     (case dict_get (r_agents r) i of None \<Rightarrow> None
      | Some a \<Rightarrow> map_option l_expires_at (dict_get (a_locks a) n))"

text \<open>An agent other than \<open>i\<close> holds lock \<open>n\<close> at time \<open>now\<close>.\<close>

definition held_by_other :: "time \<Rightarrow> string \<Rightarrow> string \<Rightarrow> registry \<Rightarrow> bool" where
  "held_by_other now i n r =
     list_ex (\<lambda>j. j \<noteq> i \<and> (case lock_deadline r j n of None \<Rightarrow> False | Some d \<Rightarrow> now \<le> d)) (keys (r_agents r))"

lemma agents_ok_of: "reg_wf kg r \<Longrightarrow> agents_ok (r_agents r)"
  by (simp add: reg_wf_def store_ok_def)

lemma purged_lookup:
  assumes "wf_dict (a_locks a)"
  shows "dict_get (a_locks (purge_locks now a)) n =
     (case dict_get (a_locks a) n of None \<Rightarrow> None | Some l \<Rightarrow> if now \<le> l_expires_at l then Some l else None)"
  using assms by (simp add: purge_locks_def dict_get_filter not_less split: option.splits)

lemma reg_acquire_granted:
  assumes "reg_wf kg r"
  shows "snd (reg_acquire_lock now i n ttl r) \<longleftrightarrow>
     dict_get (r_agents r) i \<noteq> None \<and> \<not> held_by_other now i n r"
proof -
  let ?d = "r_agents r"
  note ok = agents_ok_of [OF assms]
  have "list_ex (\<lambda>a. a_id a \<noteq> i \<and> dict_get (a_locks a) n \<noteq> None) (vals (dict_map (\<lambda>_ a. purge_locks now a) ?d))
      = list_ex (\<lambda>(j, a). a_id a \<noteq> i \<and> dict_get (a_locks (purge_locks now a)) n \<noteq> None) ?d"
    by (simp add: list_ex_vals_map purge_locks_def)
  also have "\<dots> = list_ex (\<lambda>(j, a). j \<noteq> i \<and> (case lock_deadline r j n of None \<Rightarrow> False | Some d \<Rightarrow> now \<le> d)) ?d"
  proof (rule list_ex_cong [OF refl])
    fix p assume p: "p \<in> set ?d"
    have get: "dict_get ?d (fst p) = Some (snd p)"
      using p ok by (intro in_dict_get) (auto simp: agents_ok_def)
    then have "a_id (snd p) = fst p" "wf_dict (a_locks (snd p))"
      using ok by (auto simp: agents_ok_def agent_ok_def)
    with get show "(case p of (j, a) \<Rightarrow> a_id a \<noteq> i \<and> dict_get (a_locks (purge_locks now a)) n \<noteq> None)
      = (case p of (j, a) \<Rightarrow> j \<noteq> i \<and> (case lock_deadline r j n of None \<Rightarrow> False | Some d \<Rightarrow> now \<le> d))"
      by (auto simp: lock_deadline_def purged_lookup split: option.splits if_splits)
  qed
  also have "\<dots> = held_by_other now i n r"
    by (force simp: list_ex_iff held_by_other_def)
  finally show ?thesis
    by (auto simp: reg_acquire_lock_def Let_def)
qed

lemma lock_deadline_acquired:
  assumes "reg_wf kg r" and "snd (reg_acquire_lock now i n ttl r)"
  shows "lock_deadline (fst (reg_acquire_lock now i n ttl r)) j m =
     (if j = i \<and> m = n then Some (now + ttl)
      else case lock_deadline r j m of None \<Rightarrow> None | Some d \<Rightarrow> if now \<le> d then Some d else None)"
proof -
  have wfl: "dict_get (r_agents r) x = Some a \<Longrightarrow> wf_dict (a_locks a)" for x a
    using agents_ok_of [OF assms(1)] by (auto simp: agents_ok_def agent_ok_def)
  show ?thesis
    using assms(2)
    by (auto simp: reg_acquire_lock_def Let_def lock_deadline_def reg_save_def purged_lookup wfl
        split: option.splits if_splits)
qed

lemma lock_deadline_not_acquired:
  assumes "reg_wf kg r" and "\<not> snd (reg_acquire_lock now i n ttl r)"
  shows "lock_deadline (fst (reg_acquire_lock now i n ttl r)) j m =
     (case lock_deadline r j m of None \<Rightarrow> None | Some d \<Rightarrow> if now \<le> d then Some d else None)"
proof -
  have wfl: "dict_get (r_agents r) x = Some a \<Longrightarrow> wf_dict (a_locks a)" for x a
    using agents_ok_of [OF assms(1)] by (auto simp: agents_ok_def agent_ok_def)
  show ?thesis
    using assms(2)
    by (auto simp: reg_acquire_lock_def Let_def lock_deadline_def reg_save_def purged_lookup wfl
        split: option.splits if_splits)
qed

lemma lock_held_by_other:
  assumes "lock_deadline r c n = Some d" "t \<le> d" "c' \<noteq> c"
  shows "held_by_other t c' n r"
proof -
  have "c \<in> set (keys (r_agents r))"
    using assms(1) by (cases "dict_get (r_agents r) c")
      (auto simp: lock_deadline_def dest: dict_get_in intro: rev_image_eqI)
  with assms show ?thesis by (auto simp: held_by_other_def list_ex_iff)
qed

interpretation reg_locks: lock_service reg_acquire_lock lock_deadline "reg_wf kg" for kg
proof unfold_locales
  fix t c n ttl r assume "snd (reg_acquire_lock t c n ttl r)"
  then show "lock_deadline (fst (reg_acquire_lock t c n ttl r)) c n = Some (t + ttl)"
    by (auto simp: reg_acquire_lock_def Let_def lock_deadline_def reg_save_def split: if_splits)
next
  fix r c n d t c' ttl
  assume "reg_wf kg r" "lock_deadline r c n = Some d" "t \<le> d" "c' \<noteq> c"
  then show "\<not> snd (reg_acquire_lock t c' n ttl r)"
    using lock_held_by_other by (auto simp: reg_acquire_granted)
next
  fix r c n d t c' n' ttl
  assume "reg_wf kg r" "lock_deadline r c n = Some d" "t \<le> d" "c' \<noteq> c \<or> n' \<noteq> n"
  then show "lock_deadline (fst (reg_acquire_lock t c' n' ttl r)) c n = Some d"
    by (cases "snd (reg_acquire_lock t c' n' ttl r)")
      (auto simp: lock_deadline_acquired lock_deadline_not_acquired)
qed (rule reg_wf_acquire)


text \<open>
  a granted lease is honoured: after an agent is granted a lock for \<open>ttl\<close> seconds, no other
  agent is granted it before the deadline, whatever lock requests other agents make meanwhile.
\<close>

theorem reg_lease_honoured:
  assumes "snd (reg_acquire_lock t c n ttl (reg_after kg now m dir ops))"
    and "\<forall>(t', c', n', ttl') \<in> set reqs. t' \<le> t + ttl \<and> c' \<noteq> c"
    and "t' \<le> t + ttl" and "c' \<noteq> c"
  shows "\<not> snd (reg_acquire_lock t' c' n ttl'
     (foldl (\<lambda>r (t', c', n', ttl'). fst (reg_acquire_lock t' c' n' ttl' r))
       (fst (reg_acquire_lock t c n ttl (reg_after kg now m dir ops))) reqs))"
  by (rule reg_locks.excludes [OF reg_after_wf assms])

lemma example_agents:
  "\<exists>a b. dict_get (r_agents (reg_after example_keying 0 ''secret'' ''/ws'' [])) ''root'' = Some a
     \<and> dict_get (r_agents (reg_after example_keying 0 ''secret'' ''/ws'' [])) ''scout'' = Some b
     \<and> list_all (\<lambda>a. a_locks a = []) (vals (r_agents (reg_after example_keying 0 ''secret'' ''/ws'' [])))"
  by (simp add: reg_after_def reg_init_def reg_load_def ensure_root_def ensure_core_agents_def
      core_agents_def ensure_core_agent_def reg_save_def Let_def example_keying_def)

theorem reg_lease_honoured_witness:
  "\<not> snd (reg_acquire_lock 100 ''scout'' ''db'' 60
     (fst (reg_acquire_lock 0 ''root'' ''db'' 300 (reg_after example_keying 0 ''secret'' ''/ws'' []))))"
proof -
  let ?r = "reg_after example_keying 0 ''secret'' ''/ws'' []"
  have free: "lock_deadline ?r j n = None" for j n
    using example_agents
    by (auto simp: lock_deadline_def list_all_iff dest!: dict_get_in split: option.splits)
  then have got: "snd (reg_acquire_lock 0 ''root'' ''db'' 300 ?r)"
    using example_agents by (auto simp: reg_acquire_granted [OF reg_after_wf] held_by_other_def list_ex_iff)
  show ?thesis using reg_lease_honoured [OF got, of "[]" 100 "''scout''" 60] by simp
qed

section \<open>Termination and orphans\<close>

text \<open>
  termination: root cannot be terminated; terminating a registered agent marks it terminated,
  records a tombstone naming its children, hands every child that still runs to root, changes no
  other agent, and leaves an agent that is not registered alone.
\<close>

theorem reg_terminate_adopts:
  "case reg_terminate d i reason who r of
     Inl e \<Rightarrow> i = ''root''
   | Inr (r', effs) \<Rightarrow> i \<noteq> ''root'' \<and>
       (case dict_get (r_agents r) i of
          None \<Rightarrow> r' = r \<and> effs = []
        | Some a \<Rightarrow>
            (\<forall>j. dict_get (r_agents r') j =
               map_option (\<lambda>b.
                  if j = i then b\<lparr>a_parent := (if a_parent b = Some i \<and> a_status b \<noteq> Terminated then Some ''root'' else a_parent b),
                                  a_tombstone := Some (a_workspace a @ ''/tombstone.json''), a_status := Terminated\<rparr>
                  else if a_parent b = Some i \<and> a_status b \<noteq> Terminated then b\<lparr>a_parent := Some ''root''\<rparr>
                  else b) (dict_get (r_agents r) j)) \<and>
            (\<exists>t. dict_get (r_tombs r') (a_workspace a @ ''/tombstone.json'') = Some t \<and>
               dict_get t ''children'' = Some (py_strs (map fst (filter (\<lambda>(j, b). a_parent b = Some i) (r_agents r))))
               \<and> dict_get t ''reason'' = Some (PStr reason)) \<and>
            dict_get (r_index r') (a_token_hash a) = None \<and>
            length effs = (if r_events r then 1 else 0))"
proof (cases "i = ''root''")
  case True
  then show ?thesis by (simp add: reg_terminate_def)
next
  case False
  show ?thesis
  proof (cases "dict_get (r_agents r) i")
    case None
    with False show ?thesis
      by (simp add: reg_terminate_def reg_write_tombstone_def adopt_orphans_def Let_def)
  next
    case (Some a)
    have "dict_get (dict_upd i (\<lambda>a. a\<lparr>a_status := Terminated\<rparr>)
          (adopt_orphans i (dict_upd i (\<lambda>b. b\<lparr>a_tombstone := p\<rparr>) (r_agents r)))) j =
        map_option (\<lambda>b.
            if j = i then b\<lparr>a_parent := (if a_parent b = Some i \<and> a_status b \<noteq> Terminated then Some ''root'' else a_parent b),
                            a_tombstone := p, a_status := Terminated\<rparr>
            else if a_parent b = Some i \<and> a_status b \<noteq> Terminated then b\<lparr>a_parent := Some ''root''\<rparr>
            else b) (dict_get (r_agents r) j)" for j p
      using Some by (cases "j = i"; cases "dict_get (r_agents r) j") (simp_all add: adopt_orphans_def)
    with False Some show ?thesis
      by (simp add: reg_terminate_def reg_write_tombstone_def Let_def reg_save_def adopt_orphans_def)
  qed
qed

section \<open>Budget notices\<close>

fun reg_out :: "keying \<Rightarrow> reg_op \<Rightarrow> registry \<Rightarrow> eff list" where
  "reg_out kg (RegRegister i now q) r = fst (snd (reg_register kg i now q r))"
| "reg_out kg (RegUsage i n m k) r = snd (reg_update_usage i n m k r)"
| "reg_out kg (RegTerminate d i reason by) r =
     (case reg_terminate d i reason by r of Inl e \<Rightarrow> [] | Inr st \<Rightarrow> snd st)"
| "reg_out kg (RegForce d i reason by) r = snd (reg_force_terminate d i reason by r)"
| "reg_out kg (RegGroup d g by) r = fst (snd (reg_terminate_group d g by r))"
| "reg_out kg (RegSuspend i) r = snd (reg_suspend i r)"
| "reg_out kg (RegResume i) r = snd (reg_resume i r)"
| "reg_out kg _ r = []"

text \<open>The events of a run, and which of them are budget notices: type and \<open>agent:resource\<close> key.\<close>

fun reg_trace :: "keying \<Rightarrow> reg_op list \<Rightarrow> registry \<Rightarrow> eff list" where
  "reg_trace kg [] r = []"
| "reg_trace kg (x # xs) r = reg_out kg x r @ reg_trace kg xs (reg_step kg x r)"

fun notice_of :: "eff \<Rightarrow> (string \<times> string) list" where
  "notice_of (Emit t s p) =
     (if t = ''budget.exhausted'' \<or> t = ''budget.warning''
      then case dict_get p ''resource'' of Some (PStr k) \<Rightarrow> [(t, s @ '':'' @ k)] | _ \<Rightarrow> []
      else [])"
| "notice_of (Send f t p m) = []"

definition notices :: "eff list \<Rightarrow> (string \<times> string) list" where
  "notices effs = concat (map notice_of effs)"

lemma notices_simps [simp]: "notices [] = []" "notices (e # es) = notice_of e @ notices es"
  "notices (es @ fs) = notices es @ notices fs"
  by (simp_all add: notices_def)

definition told :: "registry \<Rightarrow> (string \<times> string) set" where
  "told r = (\<lambda>k. (''budget.exhausted'', k)) ` set (r_exhausted r) \<union>
            (\<lambda>k. (''budget.warning'', k)) ` set (r_warned r)"

definition new_notices :: "registry \<Rightarrow> eff list \<Rightarrow> registry \<Rightarrow> bool" where
  "new_notices r effs r' =
     (distinct (notices effs) \<and> set (notices effs) \<inter> told r = {} \<and> told r \<union> set (notices effs) \<subseteq> told r')"

lemma new_notices_append:
  
  assumes "new_notices r es r'" and "new_notices r' fs r''"
  shows "new_notices r (es @ fs) r''"
proof -
  have es: "distinct (notices es)" "set (notices es) \<inter> told r = {}" "told r \<union> set (notices es) \<subseteq> told r'"
    and fs: "distinct (notices fs)" "set (notices fs) \<inter> told r' = {}" "told r' \<union> set (notices fs) \<subseteq> told r''"
    using assms by (auto simp: new_notices_def)
  from es(3) fs(2) have "set (notices es) \<inter> set (notices fs) = {}" "set (notices fs) \<inter> told r = {}" by blast+
  moreover from es(3) fs(3) have "told r \<union> set (notices es) \<union> set (notices fs) \<subseteq> told r''" by blast
  ultimately show ?thesis
    using es(1,2) fs(1) by (simp add: new_notices_def Int_Un_distrib2 Un_assoc)
qed


lemma new_notices_quiet: "notices effs = [] \<Longrightarrow> told r \<subseteq> told r' \<Longrightarrow> new_notices r effs r'"
  by (simp add: new_notices_def)

lemma new_notices_snoc:
  assumes "new_notices r0 es r" and "notice_of e = [x]" "x \<notin> told r" "told r' = insert x (told r)"
  shows "new_notices r0 (es @ [e]) r'"
  by (rule new_notices_append [OF assms(1)]) (use assms(2-4) in \<open>simp add: new_notices_def\<close>)

lemma told_member [simp]:
  "(''budget.exhausted'', k) \<in> told r \<longleftrightarrow> k \<in> set (r_exhausted r)"
  "(''budget.warning'', k) \<in> told r \<longleftrightarrow> k \<in> set (r_warned r)"
  by (auto simp: told_def)

lemma told_insert [simp]:
  "told (r\<lparr>r_exhausted := k # r_exhausted r\<rparr>) = insert (''budget.exhausted'', k) (told r)"
  "told (r\<lparr>r_warned := k # r_warned r\<rparr>) = insert (''budget.warning'', k) (told r)"
  by (simp_all add: told_def)

lemma budget_round_new:
  assumes "new_notices r0 (snd st) (fst st)"
  shows "new_notices r0 (snd (budget_round i u st kl)) (fst (budget_round i u st kl))"
proof -
  obtain r es where st: "st = (r, es)" by (cases st)
  obtain key limit where kl: "kl = (key, limit)" by (cases kl)
  have new: "new_notices r0 es r" using assms by (simp add: st)
  show ?thesis
    unfolding budget_round_def st kl Let_def
    by (auto intro: new new_notices_snoc [OF new, where x = "(''budget.exhausted'', i @ '':'' @ key)"]
        new_notices_snoc [OF new, where x = "(''budget.warning'', i @ '':'' @ key)"])
qed

lemma budget_rounds_new:
  "new_notices r0 (snd st) (fst st) \<Longrightarrow>
    new_notices r0 (snd (foldl (budget_round i u) st kls)) (fst (foldl (budget_round i u) st kls))"
  by (rule foldl_keeps [where P = "\<lambda>st. new_notices r0 (snd st) (fst st)"]) (auto intro: budget_round_new)

lemma reg_usage_new:
  "new_notices r (snd (reg_update_usage i n m k r)) (fst (reg_update_usage i n m k r))"
proof (cases "dict_get (r_agents r) i")
  case None
  then show ?thesis by (simp add: reg_update_usage_def new_notices_def)
next
  case (Some a)
  let ?u = "add_usage ''tokens_out'' k (add_usage ''tokens_in'' m (add_usage ''shell_calls'' n (a_usage a)))"
  let ?r1 = "r\<lparr>r_agents := dict_upd i (\<lambda>a. a\<lparr>a_usage := ?u\<rparr>) (r_agents r)\<rparr>"
  have "new_notices r (snd (?r1, [])) (fst (?r1, []))"
    by (simp add: new_notices_def told_def)
  from budget_rounds_new [OF this, of i ?u "a_budget a"] show ?thesis
    by (simp add: reg_update_usage_def Some Let_def split_beta new_notices_def told_def reg_save_def)
qed

lemma told_terminate:
  "reg_terminate d i reason who r = Inr (r', effs) \<Longrightarrow> told r' = told r \<and> notices effs = []"
  by (auto simp: reg_terminate_def reg_write_tombstone_def Let_def reg_save_def told_def
      split: if_splits option.splits)

lemma told_force:
  "told (fst (reg_force_terminate d i reason who r)) = told r \<and>
   notices (snd (reg_force_terminate d i reason who r)) = []"
  by (auto simp: reg_force_terminate_def split: sum.splits dest: told_terminate)

lemma told_group:
  "told (fst (reg_terminate_group d g who r)) = told r \<and>
   notices (fst (snd (reg_terminate_group d g who r))) = []"
proof -
  let ?f = "\<lambda>(r, effs) mid. let (r', e) = reg_force_terminate d mid ''group_terminate'' who r in (r', effs @ e)"
  have "told (fst (?f st m)) = told r \<and> notices (snd (?f st m)) = []"
    if "told (fst st) = told r \<and> notices (snd st) = []" for st m
    using that told_force [of d m "''group_terminate''" who "fst st"] by (simp add: split_beta)
  then have "told (fst (foldl ?f (r, []) (group_members g r))) = told r \<and>
      notices (snd (foldl ?f (r, []) (group_members g r))) = []"
    by (intro foldl_keeps [where P = "\<lambda>st. told (fst st) = told r \<and> notices (snd st) = []"]) simp_all
  then show ?thesis by (simp add: reg_terminate_group_def Let_def split_beta)
qed

definition restarts :: "reg_op \<Rightarrow> bool" where
  "restarts x = (case x of RegRestart now \<Rightarrow> True | _ \<Rightarrow> False)"

lemma reg_step_new:
  assumes "\<not> restarts x"
  shows "new_notices r (reg_out kg x r) (reg_step kg x r)"
proof (cases x)
  case (RegUsage i n m k)
  then show ?thesis by (simp add: reg_usage_new)
next
  case (RegRegister i now q)
  then show ?thesis
    by (intro new_notices_quiet) (auto simp: reg_register_def Let_def reg_save_def told_def)
next
  case (RegTerminate d i reason who)
  then show ?thesis
    by (intro new_notices_quiet) (auto split: sum.splits dest: told_terminate)
qed (use assms told_force told_group in \<open>auto intro!: new_notices_quiet simp: restarts_def reg_set_task_def reg_suspend_def reg_resume_def
      reg_acquire_lock_def reg_release_lock_def reg_save_def Let_def told_def split: option.splits\<close>)

text \<open>
  budget notices are given once: between two starts of the server, each of the two notices (80\%
  warning, exhausted) is emitted at most once for an agent and a resource, whatever the requests.
\<close>

theorem reg_budget_notices_once:
  "distinct (notices (reg_trace kg (filter (\<lambda>x. \<not> restarts x) ops) r))"
proof -
  have "new_notices r (reg_trace kg xs r) (run_ops (reg_step kg) xs r)" if "list_all (\<lambda>x. \<not> restarts x) xs" for xs r
    using that
    by (induction xs arbitrary: r) (auto simp: new_notices_def [of _ "[]"] intro: new_notices_append reg_step_new)
  then show ?thesis by (simp add: new_notices_def list_all_iff)
qed

section \<open>Lineage\<close>

text \<open>The chain \<open>as\<close> starts at \<open>i\<close> and every record is registered and followed by its parent.\<close>

fun chain_from :: "(string, agent) dict \<Rightarrow> string option \<Rightarrow> agent list \<Rightarrow> bool" where
  "chain_from d cur [] = True"
| "chain_from d cur (a # as) = (\<exists>i. cur = Some i \<and> dict_get d i = Some a \<and> chain_from d (a_parent a) as)"

lemma lineage_chain: "chain_from d cur (lineage_loop d cur seen)"
  by (induction d cur seen rule: lineage_loop.induct)
    (subst lineage_loop.simps, auto split: option.splits)

lemma lineage_fresh:
  "agents_ok d \<Longrightarrow> a \<in> set (lineage_loop d cur seen) \<Longrightarrow> a_id a \<notin> set seen"
proof (induction d cur seen rule: lineage_loop.induct)
  case (1 d cur seen)
  from "1.prems"(2) obtain i b where cur: "cur = Some i" "i \<noteq> ''''" "i \<notin> set seen" "dict_get d i = Some b"
      and mem: "a = b \<or> a \<in> set (lineage_loop d (a_parent b) (i # seen))"
    by (subst (asm) lineage_loop.simps) (auto split: option.splits if_splits)
  from cur "1.prems"(1) have "a_id b = i" by (auto simp: agents_ok_def agent_ok_def)
  with mem cur "1.IH" [OF cur(1) _ cur(4)] "1.prems"(1) show ?case by auto
qed

lemma lineage_distinct: "agents_ok d \<Longrightarrow> distinct (map a_id (lineage_loop d cur seen))"
proof (induction d cur seen rule: lineage_loop.induct)
  case (1 d cur seen)
  show ?case
  proof (cases "lineage_loop d cur seen")
    case (Cons b bs)
    then obtain i where cur: "cur = Some i" "i \<noteq> ''''" "i \<notin> set seen" "dict_get d i = Some b"
        and bs: "bs = lineage_loop d (a_parent b) (i # seen)"
      by (subst (asm) lineage_loop.simps) (auto split: option.splits if_splits)
    have "a_id b = i" using cur "1.prems" by (auto simp: agents_ok_def agent_ok_def)
    moreover have "distinct (map a_id bs)" using "1.IH" [OF cur(1) _ cur(4)] cur "1.prems" by (simp add: bs)
    moreover have "i \<notin> set (map a_id bs)"
      using lineage_fresh [OF "1.prems"] by (fastforce simp: bs)
    ultimately show ?thesis by (simp add: Cons)
  qed simp
qed

lemma lineage_stops:
  "agents_ok d \<Longrightarrow> lineage_loop d cur seen = as \<Longrightarrow>
   (case (if as = [] then cur else a_parent (last as)) of
      None \<Rightarrow> True
    | Some p \<Rightarrow> p = '''' \<or> p \<in> set seen \<or> p \<in> set (map a_id as) \<or> dict_get d p = None)"
proof (induction d cur seen arbitrary: as rule: lineage_loop.induct)
  case (1 d cur seen)
  show ?case
  proof (cases as)
    case Nil
    with "1.prems"(2) show ?thesis
      by (subst (asm) lineage_loop.simps) (auto split: option.splits if_splits)
  next
    case (Cons b bs)
    then obtain i where cur: "cur = Some i" "i \<noteq> ''''" "i \<notin> set seen" "dict_get d i = Some b"
        and bs: "bs = lineage_loop d (a_parent b) (i # seen)"
      using "1.prems"(2) by (subst (asm) lineage_loop.simps) (auto split: option.splits if_splits)
    have "a_id b = i" using cur "1.prems"(1) by (auto simp: agents_ok_def agent_ok_def)
    with "1.IH" [OF cur(1) _ cur(4) "1.prems"(1) bs [symmetric]] cur show ?thesis
      by (auto simp: Cons split: option.splits)
  qed
qed

lemma lineage_stops_start:
  assumes "agents_ok d"
  shows "case (if lineage_loop d cur [] = [] then cur else a_parent (last (lineage_loop d cur []))) of
      None \<Rightarrow> True
    | Some p \<Rightarrow> p = '''' \<or> p \<in> set (map a_id (lineage_loop d cur [])) \<or> dict_get d p = None"
  using lineage_stops [OF assms refl, where cur = cur and seen = "[]"]
  unfolding list.set(1) empty_iff simp_thms .

text \<open>
  C36: the ancestor chain: \<open>get_lineage\<close> always ends, starts at the agent, follows parents through
  registered agents without repeating one, and stops only at an agent whose parent is absent, not
  registered, or already in the chain.
\<close>

theorem reg_lineage_correct:
  "let r = reg_after kg now m dir ops; as = reg_get_lineage i r in
     chain_from (r_agents r) (Some i) as \<and> distinct (map a_id as) \<and>
     (case (if as = [] then Some i else a_parent (last as)) of
        None \<Rightarrow> True
      | Some p \<Rightarrow> p = '''' \<or> p \<in> set (map a_id as) \<or> dict_get (r_agents r) p = None)"
  unfolding Let_def reg_get_lineage_def
  by (intro conjI lineage_chain lineage_distinct lineage_stops_start agents_ok_of [where kg = kg] reg_after_wf)
text \<open>
  the spawn guard and root: in every reachable state no agent is deeper than
  \<open>MAX_SPAWN_DEPTH\<close>, a registration under a parent at that depth fails and changes nothing, and root is
  registered and not terminated.
\<close>

theorem reg_depth_and_root:
  "let r = reg_after kg now m dir ops in
     list_all (\<lambda>a. a_depth a \<le> 5) (vals (r_agents r)) \<and>
     (case reg_parent r (q_parent q) of
        Some p \<Rightarrow> a_depth p = 5 \<longrightarrow> (\<exists>e. reg_register kg i t q r = (r, [], Inl (ValueError e)))
      | None \<Rightarrow> True) \<and>
     (\<exists>a. dict_get (r_agents r) ''root'' = Some a \<and> a_status a \<noteq> Terminated)"
proof -
  let ?r = "reg_after kg now m dir ops"
  have wf: "reg_wf kg ?r" by (rule reg_after_wf)
  have "a_depth a \<le> 5" if "(j, a) \<in> set (r_agents ?r)" for j a
    using agents_ok_of [OF wf] in_dict_get [OF _ that]
    by (auto simp: agents_ok_def agent_ok_def max_spawn_depth_def)
  moreover have "root_alive (r_agents ?r)" using wf by (simp add: reg_wf_def store_ok_def)
  ultimately show ?thesis
    by (auto simp: Let_def list_all_iff root_alive_def reg_register_def max_spawn_depth_def split: option.splits)
qed

theorem reg_depth_and_root_witness:
  "list_all (\<lambda>a. a_depth a \<le> 5) (vals (r_agents (reg_after example_keying 0 ''secret'' ''/ws''
     [RegRegister ''a1'' 1 (example_request\<lparr>q_parent := Some ''scout''\<rparr>)])))"
  using reg_depth_and_root [of example_keying 0 "''secret''" "''/ws''"
     "[RegRegister ''a1'' 1 (example_request\<lparr>q_parent := Some ''scout''\<rparr>)]"] by (simp add: Let_def)

section \<open>Restart\<close>

text \<open>
  a restart forgets the tokens of suspended agents: an agent that is suspended when the server
  restarts and is resumed afterwards is active, but its token is refused, because \<open>_load\<close> indexes only
  active agents and \<open>resume\<close> does not index.
\<close>

theorem reg_resumed_after_restart_locked_out:
  "let r = reg_after example_keying 0 ''secret'' ''/ws''
             [RegRegister ''ab12'' 1 example_request, RegSuspend ''ab12'', RegRestart 2, RegResume ''ab12'']
   in map_option a_status (dict_get (r_agents r) ''ab12'') = Some Active \<and>
      reg_authenticate example_keying ''secret/ab12'' r = None"
  by code_simp

end
