(* ===== verification/Consensus.thy ===== *)
theory Consensus imports Prelude "HOL-Library.List_Lexorder" "HOL-Library.Char_ord" begin

text \<open>
  Multi-agent consensus, \<open>agents/consensus.py\<close>: proposals with a participant list and a required number
  of accepts, votes, early rejection, withdrawal and expiry. The directory of proposal files is the
  dictionary \<open>k_store\<close>; every operation returns the new store and the events it emits.

  The lemmas show that a proposal is accepted exactly when its accepts reach the required number, that
  a pending one can still be decided, that a resolved one never changes, and what every branch of
  \<open>vote\<close> does.
\<close>

section \<open>State\<close>

record cs_vote =
  v_accept :: bool
  v_reason :: string
  v_cast_at :: time

datatype cs_status = CPending | CAccepted | CRejected | CExpired

fun cs_status_str :: "cs_status \<Rightarrow> string" where
  "cs_status_str CPending = ''pending''"
| "cs_status_str CAccepted = ''accepted''"
| "cs_status_str CRejected = ''rejected''"
| "cs_status_str CExpired = ''expired''"

record proposal =
  p_id :: string
  p_proposer :: string
  p_description :: string
  p_action :: payload
  p_participants :: "string list"
  p_required :: int
  p_votes :: "(string, cs_vote) dict"
  p_status :: cs_status
  p_created_at :: time
  p_expires_at :: time
  p_result :: "payload option"

record consensus =
  k_store :: "(string, proposal) dict"
  k_events :: bool

definition cs_empty :: consensus where
  "cs_empty = \<lparr>k_store = [], k_events = False\<rparr>"

definition cs_set_subsystems :: "consensus \<Rightarrow> consensus" where
  "cs_set_subsystems s = s\<lparr>k_events := True\<rparr>"

definition cs_save :: "proposal \<Rightarrow> consensus \<Rightarrow> consensus" where
  "cs_save p s = s\<lparr>k_store := dict_set (p_id p) p (k_store s)\<rparr>"

definition cs_load :: "string \<Rightarrow> consensus \<Rightarrow> proposal option" where
  "cs_load i s = dict_get (k_store s) i"

definition vote_val :: "cs_vote \<Rightarrow> pyval" where
  "vote_val v = PDict [(''accept'', PBool (v_accept v)), (''reason'', PStr (v_reason v)),
                       (''cast_at'', PFlt (v_cast_at v))]"

definition votes_val :: "(string, cs_vote) dict \<Rightarrow> pyval" where
  "votes_val vs = PDict (dict_map (\<lambda>_ v. vote_val v) vs)"

section \<open>Operations\<close>

definition cs_emit :: "consensus \<Rightarrow> eff list \<Rightarrow> eff list" where
  "cs_emit s effs = (if k_events s then effs else [])"

text \<open>\<open>propose\<close>: the required number is clamped to the participant list.\<close>

definition cs_propose :: "string \<Rightarrow> time \<Rightarrow> string \<Rightarrow> string \<Rightarrow> payload \<Rightarrow> string list \<Rightarrow> int \<Rightarrow> rat
    \<Rightarrow> consensus \<Rightarrow> consensus \<times> eff list \<times> (py_error + string)" where
  "cs_propose proposal_id now proposer description action participants required ttl s =
     (if participants = [] then (s, [], Inl (ValueError ''participants must be non-empty''))
      else
        let req = max 1 (min required (int (length participants)));
            p = \<lparr>p_id = proposal_id, p_proposer = proposer, p_description = description,
                 p_action = action, p_participants = participants, p_required = req, p_votes = [],
                 p_status = CPending, p_created_at = now, p_expires_at = now + ttl, p_result = None\<rparr>;
            notice = Emit ''consensus.proposed'' proposer
              [(''proposal_id'', PStr proposal_id), (''proposer_id'', PStr proposer),
               (''description'', PStr description), (''participants'', py_strs participants),
               (''required_votes'', PInt req), (''expires_at'', PFlt (p_expires_at p))];
            ask = (\<lambda>a. Emit ''consensus.vote_requested'' a
              [(''proposal_id'', PStr proposal_id), (''proposer_id'', PStr proposer),
               (''description'', PStr description), (''action'', PDict action),
               (''required_votes'', PInt req), (''expires_at'', PFlt (p_expires_at p))])
        in (cs_save p s, cs_emit s (notice # map ask participants), Inr proposal_id))"

definition cs_accepts :: "proposal \<Rightarrow> nat" where
  "cs_accepts p = length (filter v_accept (vals (p_votes p)))"

definition cs_rejects :: "proposal \<Rightarrow> nat" where
  "cs_rejects p = length (filter (\<lambda>v. \<not> v_accept v) (vals (p_votes p)))"

definition cs_remaining :: "proposal \<Rightarrow> int" where
  "cs_remaining p = int (length (p_participants p)) - int (length (p_votes p))"

record vote_result =
  vr_ok :: bool
  vr_proposal :: string
  vr_voter :: string
  vr_accepted :: bool
  vr_accepts :: nat
  vr_rejects :: nat
  vr_required :: int
  vr_remaining :: int
  vr_status :: cs_status

text \<open>
  The tally of \<open>vote\<close>, run on the proposal with the new vote already recorded: accepted once the
  required number is reached, rejected once it is out of reach.
\<close>

definition cs_tally :: "time \<Rightarrow> proposal \<Rightarrow> proposal" where
  "cs_tally now p =
     (if p_required p \<le> int (cs_accepts p)
      then p\<lparr>p_status := CAccepted,
             p_result := Some [(''accepted'', PBool True), (''final_votes'', votes_val (p_votes p)),
                               (''resolved_at'', PFlt now)]\<rparr>
      else if int (cs_accepts p) + cs_remaining p < p_required p
      then p\<lparr>p_status := CRejected,
             p_result := Some [(''accepted'', PBool False), (''reason'', PStr ''quorum impossible''),
                               (''final_votes'', votes_val (p_votes p)), (''resolved_at'', PFlt now)]\<rparr>
      else p)"

definition cs_vote_effs :: "string \<Rightarrow> bool \<Rightarrow> string \<Rightarrow> proposal \<Rightarrow> eff list" where
  "cs_vote_effs voter accept reason p =
     Emit ''consensus.vote_cast'' voter
       [(''proposal_id'', PStr (p_id p)), (''voter_id'', PStr voter), (''accept'', PBool accept),
        (''reason'', PStr reason), (''accepts'', PInt (int (cs_accepts p))),
        (''rejects'', PInt (int (cs_rejects p))), (''required'', PInt (p_required p))] #
     (if p_status p = CAccepted
      then [Emit ''consensus.reached'' (p_proposer p)
        [(''proposal_id'', PStr (p_id p)), (''proposer_id'', PStr (p_proposer p)),
         (''description'', PStr (p_description p)), (''action'', PDict (p_action p)),
         (''final_votes'', votes_val (p_votes p)), (''participants'', py_strs (p_participants p))]]
      else if p_status p = CRejected
      then [Emit ''consensus.rejected'' (p_proposer p)
        [(''proposal_id'', PStr (p_id p)), (''proposer_id'', PStr (p_proposer p)),
         (''description'', PStr (p_description p)), (''reason'', PStr ''quorum impossible''),
         (''final_votes'', votes_val (p_votes p))]]
      else [])"

text \<open>
  \<open>vote\<close>: \<open>t1\<close>, \<open>t2\<close>, \<open>t3\<close> are its three readings of the clock: the expiry check, \<open>cast_at\<close> and
  \<open>resolved_at\<close>. A vote that finds the proposal expired records the expiry and raises.
\<close>

definition cs_do_vote :: "time \<Rightarrow> time \<Rightarrow> time \<Rightarrow> string \<Rightarrow> string \<Rightarrow> bool \<Rightarrow> string \<Rightarrow> consensus
    \<Rightarrow> consensus \<times> eff list \<times> (py_error + vote_result)" where
  "cs_do_vote t1 t2 t3 voter i accept reason s =
     (case cs_load i s of
        None \<Rightarrow> (s, [], Inl (ValueError (''Proposal '' @ py_repr i @ '' not found'')))
      | Some p \<Rightarrow>
          if p_status p \<noteq> CPending
          then (s, [], Inl (ValueError (''Proposal '' @ py_repr i @ '' is '' @
                  py_repr (cs_status_str (p_status p)) @ '', not pending'')))
          else if voter \<notin> set (p_participants p)
          then (s, [], Inl (ValueError (''Agent '' @ py_repr voter @
                  '' is not a participant in proposal '' @ py_repr i)))
          else if dict_get (p_votes p) voter \<noteq> None
          then (s, [], Inl (ValueError (''Agent '' @ py_repr voter @
                  '' already voted on proposal '' @ py_repr i)))
          else if p_expires_at p < t1
          then (cs_save (p\<lparr>p_status := CExpired,
                   p_result := Some [(''accepted'', PBool False),
                                     (''reason'', PStr ''expired before vote cast'')]\<rparr>) s,
                [], Inl (ValueError (''Proposal '' @ py_repr i @ '' has expired'')))
          else
            let v = \<lparr>v_accept = accept, v_reason = reason, v_cast_at = t2\<rparr>;
                q = cs_tally t3 (p\<lparr>p_votes := dict_set voter v (p_votes p)\<rparr>)
            in (cs_save q s, cs_emit s (cs_vote_effs voter accept reason q),
                Inr \<lparr>vr_ok = True, vr_proposal = i, vr_voter = voter, vr_accepted = accept,
                     vr_accepts = cs_accepts q, vr_rejects = cs_rejects q, vr_required = p_required q,
                     vr_remaining = cs_remaining q, vr_status = p_status q\<rparr>))"

text \<open>\<open>get\<close> returns the stored proposal; \<open>list_for_agent\<close> walks the file names backwards.\<close>

definition cs_list :: "string \<Rightarrow> bool \<Rightarrow> consensus \<Rightarrow> proposal list" where
  "cs_list a include_resolved s =
     filter (\<lambda>p. (p_proposer p = a \<or> a \<in> set (p_participants p)) \<and>
                 (include_resolved \<or> p_status p = CPending))
       (map snd (rev (sort_key (\<lambda>(i, p). i @ ''.json'') (k_store s))))"

definition cs_withdraw :: "time \<Rightarrow> string \<Rightarrow> string \<Rightarrow> consensus
    \<Rightarrow> consensus \<times> eff list \<times> (py_error + bool)" where
  "cs_withdraw now proposer i s =
     (case cs_load i s of
        None \<Rightarrow> (s, [], Inr False)
      | Some p \<Rightarrow>
          if p_proposer p \<noteq> proposer
          then (s, [], Inl (ValueError (''Only the proposer may withdraw proposal '' @ py_repr i)))
          else if p_status p \<noteq> CPending then (s, [], Inr False)
          else (cs_save (p\<lparr>p_status := CRejected,
                  p_result := Some [(''accepted'', PBool False), (''reason'', PStr ''withdrawn by proposer''),
                                    (''resolved_at'', PFlt now)]\<rparr>) s,
                cs_emit s [Emit ''consensus.rejected'' proposer
                  [(''proposal_id'', PStr i), (''proposer_id'', PStr proposer),
                   (''reason'', PStr ''withdrawn by proposer'')]],
                Inr True))"

text \<open>One round of the reaper over the stored proposals, \<open>_expire_stale\<close>.\<close>

definition cs_expire_one :: "time \<Rightarrow> consensus \<times> eff list \<Rightarrow> string \<times> proposal \<Rightarrow> consensus \<times> eff list" where
  "cs_expire_one now st ip =
     (let (s, effs) = st; data = snd ip
      in if p_status data \<noteq> CPending \<or> now < p_expires_at data then (s, effs)
         else case cs_load (p_id data) s of
                None \<Rightarrow> (s, effs)
              | Some p \<Rightarrow>
                  if p_status p \<noteq> CPending then (s, effs)
                  else (cs_save (p\<lparr>p_status := CExpired,
                          p_result := Some [(''accepted'', PBool False), (''reason'', PStr ''ttl expired''),
                                            (''resolved_at'', PFlt now)]\<rparr>) s,
                        effs @ cs_emit s [Emit ''consensus.expired'' (p_proposer data)
                          [(''proposal_id'', PStr (p_id data)), (''proposer_id'', PStr (p_proposer data)),
                           (''description'', PStr (p_description data))]]))"

definition cs_expire_stale :: "time \<Rightarrow> consensus \<Rightarrow> consensus \<times> eff list" where
  "cs_expire_stale now s = foldl (cs_expire_one now) (s, []) (k_store s)"

datatype cs_op =
    CsPropose string time string string payload "string list" int rat
  | CsVote time time time string string bool string
  | CsWithdraw time string string
  | CsReap time
  | CsWire

fun cs_step :: "cs_op \<Rightarrow> consensus \<Rightarrow> consensus" where
  "cs_step (CsPropose i now a d act ps req ttl) s = fst (cs_propose i now a d act ps req ttl s)"
| "cs_step (CsVote t1 t2 t3 a i acc r) s = fst (cs_do_vote t1 t2 t3 a i acc r s)"
| "cs_step (CsWithdraw now a i) s = fst (cs_withdraw now a i s)"
| "cs_step (CsReap now) s = fst (cs_expire_stale now s)"
| "cs_step CsWire s = cs_set_subsystems s"

definition cs_after :: "cs_op list \<Rightarrow> consensus" where
  "cs_after ops = run_ops cs_step ops cs_empty"

section \<open>Well-formedness\<close>

text \<open>
  A stored proposal is well-formed: it is stored under its id, the required number is between one and
  the number of participants, only participants have voted and each once, it is accepted exactly when
  the accepts reach the required number, and while it is pending the number can still be reached.
\<close>

definition cs_ok :: "string \<Rightarrow> proposal \<Rightarrow> bool" where
  "cs_ok i p =
     (p_id p = i \<and> 1 \<le> p_required p \<and> p_required p \<le> int (length (p_participants p)) \<and>
      wf_dict (p_votes p) \<and> set (keys (p_votes p)) \<subseteq> set (p_participants p) \<and>
      (p_status p = CAccepted \<longleftrightarrow> p_required p \<le> int (cs_accepts p)) \<and>
      (p_status p = CPending \<longrightarrow> p_required p \<le> int (cs_accepts p) + cs_remaining p))"

definition cs_wf :: "consensus \<Rightarrow> bool" where
  "cs_wf s = (wf_dict (k_store s) \<and> (\<forall>i p. dict_get (k_store s) i = Some p \<longrightarrow> cs_ok i p))"

lemma cs_wf_save: "cs_wf s \<Longrightarrow> cs_ok (p_id p) p \<Longrightarrow> cs_wf (cs_save p s)"
  by (simp add: cs_wf_def cs_save_def)

lemma cs_wf_load: "cs_wf s \<Longrightarrow> cs_load i s = Some p \<Longrightarrow> cs_ok i p"
  by (simp add: cs_wf_def cs_load_def)

lemma cs_tally_fields [simp]:
  "p_id (cs_tally t p) = p_id p" "p_proposer (cs_tally t p) = p_proposer p"
  "p_participants (cs_tally t p) = p_participants p" "p_required (cs_tally t p) = p_required p"
  "p_votes (cs_tally t p) = p_votes p" "p_action (cs_tally t p) = p_action p"
  "cs_accepts (cs_tally t p) = cs_accepts p" "cs_rejects (cs_tally t p) = cs_rejects p"
  "cs_remaining (cs_tally t p) = cs_remaining p"
  by (simp_all add: cs_tally_def cs_accepts_def cs_rejects_def cs_remaining_def)

lemma cs_accepts_update [simp]:
  "cs_accepts (p\<lparr>p_status := st, p_result := r\<rparr>) = cs_accepts p"
  "cs_remaining (p\<lparr>p_status := st, p_result := r\<rparr>) = cs_remaining p"
  by (simp_all add: cs_accepts_def cs_remaining_def)

lemma cs_tally_status:
  "p_status p = CPending \<Longrightarrow> p_status (cs_tally t p) =
     (if p_required p \<le> int (cs_accepts p) then CAccepted
      else if int (cs_accepts p) + cs_remaining p < p_required p then CRejected else CPending)"
  by (simp add: cs_tally_def)

lemma cs_ok_vote:
  assumes "cs_ok i p" and "p_status p = CPending" and "voter \<in> set (p_participants p)"
  shows "cs_ok i (cs_tally t (p\<lparr>p_votes := dict_set voter v (p_votes p)\<rparr>))"
proof -
  let ?q = "p\<lparr>p_votes := dict_set voter v (p_votes p)\<rparr>"
  have st: "p_status ?q = CPending" using assms(2) by simp
  show ?thesis
    using assms cs_tally_status [OF st, of t]
    by (auto simp: cs_ok_def keys_set split: if_splits)
qed

lemma cs_ok_close:
  "cs_ok i p \<Longrightarrow> p_status p = CPending \<Longrightarrow> st = CRejected \<or> st = CExpired
    \<Longrightarrow> cs_ok i (p\<lparr>p_status := st, p_result := r\<rparr>)"
  by (auto simp: cs_ok_def)

lemma cs_ok_id: "cs_ok i p \<Longrightarrow> p_id p = i"
  by (simp add: cs_ok_def)

lemma cs_wf_propose: "cs_wf s \<Longrightarrow> cs_wf (fst (cs_propose i now a d act ps req ttl s))"
  by (auto simp: cs_propose_def Let_def cs_ok_def cs_accepts_def cs_remaining_def Suc_le_eq intro!: cs_wf_save)

lemma cs_wf_vote: "cs_wf s \<Longrightarrow> cs_wf (fst (cs_do_vote t1 t2 t3 a i acc r s))"
proof -
  assume wf: "cs_wf s"
  show ?thesis
  proof (cases "cs_load i s")
    case (Some p)
    have ok: "cs_ok i p" by (rule cs_wf_load [OF wf Some])
    then have id: "p_id p = i" by (rule cs_ok_id)
    show ?thesis
      using wf ok id cs_ok_vote [OF ok]
      by (auto simp: cs_do_vote_def Some Let_def intro!: cs_wf_save cs_ok_close)
  qed (use wf in \<open>simp add: cs_do_vote_def\<close>)
qed

lemma cs_wf_withdraw: "cs_wf s \<Longrightarrow> cs_wf (fst (cs_withdraw now a i s))"
  by (auto simp: cs_withdraw_def cs_ok_id intro!: cs_wf_save cs_ok_close dest: cs_wf_load split: option.splits)

lemma cs_wf_expire_one: "cs_wf (fst st) \<Longrightarrow> cs_wf (fst (cs_expire_one now st ip))"
  by (auto simp: cs_expire_one_def Let_def cs_ok_id intro!: cs_wf_save cs_ok_close dest: cs_wf_load
      split: option.splits prod.splits)

lemma cs_wf_expire: "cs_wf s \<Longrightarrow> cs_wf (fst (cs_expire_stale now s))"
  unfolding cs_expire_stale_def
  by (rule foldl_keeps [where P = "\<lambda>st. cs_wf (fst st)"]) (simp_all add: cs_wf_expire_one)

lemma cs_wf_wire: "cs_wf s \<Longrightarrow> cs_wf (cs_set_subsystems s)"
  by (simp add: cs_wf_def cs_set_subsystems_def)

lemma cs_step_wf: "cs_wf s \<Longrightarrow> cs_wf (cs_step x s)"
  by (cases x) (simp_all add: cs_wf_propose cs_wf_vote cs_wf_withdraw cs_wf_expire cs_wf_wire)
section \<open>The life of a proposal\<close>

lemma cs_load_save: "cs_load k (cs_save p s) = (if k = p_id p then Some p else cs_load k s)"
  by (simp add: cs_load_def cs_save_def)

lemma cs_load_wire [simp]: "cs_load k (cs_set_subsystems s) = cs_load k s"
  by (simp add: cs_load_def cs_set_subsystems_def)

definition cs_resolved :: "proposal \<Rightarrow> bool" where
  "cs_resolved p = (p_status p \<noteq> CPending)"

fun cs_creates :: "cs_op \<Rightarrow> string \<Rightarrow> bool" where
  "cs_creates (CsPropose i now a d act ps req ttl) k = (i = k)"
| "cs_creates _ k = False"

lemma cs_vote_keeps:
  assumes "cs_wf s" and "cs_load k s = Some p" and "cs_resolved p"
  shows "cs_load k (fst (cs_do_vote t1 t2 t3 a i acc r s)) = Some p"
proof (cases "cs_load i s")
  case (Some q)
  with assms(1) have "p_id q = i" by (auto dest: cs_wf_load cs_ok_id)
  with assms Some show ?thesis
    by (auto simp: cs_do_vote_def Let_def cs_load_save cs_resolved_def)
qed (use assms in \<open>simp add: cs_do_vote_def\<close>)

lemma cs_withdraw_keeps:
  assumes "cs_wf s" and "cs_load k s = Some p" and "cs_resolved p"
  shows "cs_load k (fst (cs_withdraw now a i s)) = Some p"
proof (cases "cs_load i s")
  case (Some q)
  with assms(1) have "p_id q = i" by (auto dest: cs_wf_load cs_ok_id)
  with assms Some show ?thesis
    by (auto simp: cs_withdraw_def cs_load_save cs_resolved_def)
qed (use assms in \<open>simp add: cs_withdraw_def\<close>)

lemma cs_expire_one_keeps:
  assumes "cs_wf (fst st)" and "cs_load k (fst st) = Some p" and "cs_resolved p"
  shows "cs_load k (fst (cs_expire_one now st ip)) = Some p"
proof -
  obtain s effs where st: "st = (s, effs)" by (cases st)
  show ?thesis
  proof (cases "cs_load (p_id (snd ip)) s")
    case (Some q)
    with assms(1) have "p_id q = p_id (snd ip)" by (auto simp: st dest: cs_wf_load cs_ok_id)
    with assms Some show ?thesis
      by (auto simp: cs_expire_one_def st Let_def cs_load_save cs_resolved_def)
  qed (use assms in \<open>simp add: cs_expire_one_def st Let_def\<close>)
qed

lemma cs_expire_keeps:
  assumes "cs_wf s" and "cs_load k s = Some p" and "cs_resolved p"
  shows "cs_load k (fst (cs_expire_stale now s)) = Some p"
proof -
  have "cs_wf (fst (foldl (cs_expire_one now) (s, []) xs)) \<and>
      cs_load k (fst (foldl (cs_expire_one now) (s, []) xs)) = Some p" for xs
    by (rule foldl_keeps [where P = "\<lambda>st. cs_wf (fst st) \<and> cs_load k (fst st) = Some p"])
      (use assms in \<open>auto intro: cs_wf_expire_one cs_expire_one_keeps\<close>)
  then show ?thesis by (simp add: cs_expire_stale_def)
qed

interpretation cs_life: lifecycle cs_step cs_wf "\<lambda>s k. cs_load k s" cs_resolved cs_creates
proof unfold_locales
  fix s x show "cs_wf s \<Longrightarrow> cs_wf (cs_step x s)" by (rule cs_step_wf)
next
  fix s k p x
  assume "cs_wf s" "cs_load k s = Some p" "cs_resolved p" "\<not> cs_creates x k"
  then show "cs_load k (cs_step x s) = Some p"
    by (cases x) (auto simp: cs_vote_keeps cs_withdraw_keeps cs_expire_keeps
        cs_propose_def Let_def cs_load_save)
qed

lemma cs_after_wf: "cs_wf (cs_after ops)"
  unfolding cs_after_def by (rule cs_life.inv_run) (simp add: cs_wf_def cs_empty_def)

section \<open>Properties\<close>


text \<open>
  a resolved proposal is final: once a proposal is accepted, rejected or expired, no further
  sequence of operations changes it, as long as no later proposal is given the same identifier.
\<close>

theorem cs_resolved_is_final:
  assumes "cs_load i (cs_after ops) = Some p" and "p_status p \<noteq> CPending"
    and "list_all (\<lambda>x. \<not> cs_creates x i) later"
  shows "cs_load i (cs_after (ops @ later)) = Some p"
  using cs_life.final_run [OF cs_after_wf assms(1) _ assms(3)] assms(2)
  by (simp add: cs_after_def run_ops_append cs_resolved_def)

theorem cs_resolved_is_final_witness:
  "\<exists>p. cs_load ''p1'' (cs_after [CsPropose ''p1'' 0 ''ada'' ''d'' [] [''bob'', ''eve''] 1 60,
       CsVote 1 1 1 ''bob'' ''p1'' True []]) = Some p \<and>
     cs_load ''p1'' (cs_after ([CsPropose ''p1'' 0 ''ada'' ''d'' [] [''bob'', ''eve''] 1 60,
       CsVote 1 1 1 ''bob'' ''p1'' True []] @ [CsVote 2 2 2 ''eve'' ''p1'' False [], CsWithdraw 3 ''ada'' ''p1'', CsReap 100])) = Some p"
proof -
  let ?ops = "[CsPropose ''p1'' 0 ''ada'' ''d'' [] [''bob'', ''eve''] 1 60, CsVote 1 1 1 ''bob'' ''p1'' True []]"
  obtain p where p: "cs_load ''p1'' (cs_after ?ops) = Some p" "p_status p \<noteq> CPending"
    by (simp add: cs_after_def cs_empty_def cs_propose_def Let_def cs_save_def cs_do_vote_def cs_load_def
        cs_tally_def cs_accepts_def)
  show ?thesis
    using cs_resolved_is_final [OF p, of "[CsVote 2 2 2 ''eve'' ''p1'' False [], CsWithdraw 3 ''ada'' ''p1'', CsReap 100]"] p(1)
    by auto
qed

text \<open>
  What a vote should do, stated on the ballot alone: the result of a proposal with \<open>n\<close> participants,
  required number \<open>req\<close>, \<open>yes\<close> accepts and \<open>no\<close> rejects.
\<close>

definition ballot_result :: "nat \<Rightarrow> int \<Rightarrow> nat \<Rightarrow> nat \<Rightarrow> cs_status" where
  "ballot_result n req yes no =
     (if req \<le> int yes then CAccepted else if int n - int no < req then CRejected else CPending)"

lemma cs_accepts_rejects: "cs_accepts p + cs_rejects p = length (p_votes p)"
  using sum_length_filter_compl [of v_accept "vals (p_votes p)"] by (simp add: cs_accepts_def cs_rejects_def)

lemma cs_tally_ballot:
  assumes "p_status p = CPending"
  shows "p_status (cs_tally t p) =
    ballot_result (length (p_participants p)) (p_required p) (cs_accepts p) (cs_rejects p)"
proof -
  have "int (length (p_votes p)) = int (cs_accepts p) + int (cs_rejects p)"
    using cs_accepts_rejects [of p] by linarith
  then show ?thesis
    by (simp add: cs_tally_status [OF assms] ballot_result_def cs_remaining_def)
qed

lemma filter_vals_dict_set:
  "k \<notin> set (keys d) \<Longrightarrow> length (filter P (vals (dict_set k v d))) = length (filter P (vals d)) + (if P v then 1 else 0)"
  by (simp add: dict_set_new)

text \<open>
  what a vote does, on every branch, in every reachable state: it fails for an unknown proposal, a
  resolved one, a voter who is not a participant and a voter who has voted, changing nothing; past the
  expiry time it fails and records the expiry; otherwise exactly the voter's entry is added, the tally
  grows by one on its side, and the status becomes the result of the ballot.
\<close>

theorem cs_vote_correct:
  "let s = cs_after ops; (s', effs, res) = cs_do_vote t1 t2 t3 voter i accept reason s in
   case cs_load i s of
     None \<Rightarrow> s' = s \<and> (\<exists>e. res = Inl e)
   | Some p \<Rightarrow>
       if \<not> (p_status p = CPending \<and> voter \<in> set (p_participants p) \<and> dict_get (p_votes p) voter = None)
       then s' = s \<and> effs = [] \<and> (\<exists>e. res = Inl e)
       else if p_expires_at p < t1
       then map_option p_status (cs_load i s') = Some CExpired \<and> (\<exists>e. res = Inl e)
       else (\<exists>q vr. cs_load i s' = Some q \<and> res = Inr vr \<and>
         p_votes q = p_votes p @ [(voter, \<lparr>v_accept = accept, v_reason = reason, v_cast_at = t2\<rparr>)] \<and>
         cs_accepts q = cs_accepts p + (if accept then 1 else 0) \<and>
         cs_rejects q = cs_rejects p + (if accept then 0 else 1) \<and>
         p_status q = ballot_result (length (p_participants p)) (p_required p) (cs_accepts q) (cs_rejects q) \<and>
         vr_status vr = p_status q \<and> vr_accepts vr = cs_accepts q \<and>
         (\<forall>j. if j = i then True else cs_load j s' = cs_load j s))"
proof (cases "cs_load i (cs_after ops)")
  case None
  then show ?thesis by (simp add: cs_do_vote_def Let_def)
next
  case (Some p)
  let ?v = "\<lparr>v_accept = accept, v_reason = reason, v_cast_at = t2\<rparr>"
  let ?p = "p\<lparr>p_votes := dict_set voter ?v (p_votes p)\<rparr>"
  have id: "p_id p = i" using cs_wf_load [OF cs_after_wf Some] by (rule cs_ok_id)
  show ?thesis
  proof (cases "p_status p \<noteq> CPending \<or> voter \<notin> set (p_participants p) \<or> dict_get (p_votes p) voter \<noteq> None")
    case True
    then show ?thesis by (auto simp: cs_do_vote_def Let_def Some)
  next
    case False
    then have new: "voter \<notin> set (keys (p_votes p))" and st: "p_status ?p = CPending"
      by (simp_all add: dict_get_None)
    have tally: "cs_accepts ?p = cs_accepts p + (if accept then 1 else 0)"
      "cs_rejects ?p = cs_rejects p + (if accept then 0 else 1)"
      using filter_vals_dict_set [OF new] by (simp_all add: cs_accepts_def cs_rejects_def)
    show ?thesis
    proof (cases "p_expires_at p < t1")
      case True
      with False show ?thesis by (auto simp: cs_do_vote_def Let_def Some id cs_load_save)
    next
      case live: False
      show ?thesis
        unfolding cs_do_vote_def Let_def Some
        using False live tally cs_tally_ballot [OF st, of t3] id dict_set_new [OF new]
        by (auto simp: cs_load_save)
    qed
  qed
qed

text \<open>
  every proposal gets decided by its voters: when the participants are distinct and all of them
  have voted, the proposal is no longer pending.
\<close>

theorem cs_all_voted_resolved:
  assumes "cs_load i (cs_after ops) = Some p" and "distinct (p_participants p)"
    and "set (p_participants p) \<subseteq> set (keys (p_votes p))"
  shows "p_status p \<noteq> CPending"
proof
  assume pend: "p_status p = CPending"
  have ok: "cs_ok i p" by (rule cs_wf_load [OF cs_after_wf assms(1)])
  then have "set (keys (p_votes p)) = set (p_participants p)" "distinct (keys (p_votes p))"
    using assms(3) by (auto simp: cs_ok_def wf_dict_def)
  with assms(2) have "length (p_votes p) = length (p_participants p)"
    by (metis distinct_card length_map)
  then have "cs_remaining p = 0" by (simp add: cs_remaining_def)
  with ok pend show False by (auto simp: cs_ok_def)
qed

theorem cs_all_voted_resolved_witness:
  "\<exists>p. cs_load ''p1'' (cs_after [CsPropose ''p1'' 0 ''ada'' ''d'' [] [''bob''] 1 60,
       CsVote 1 1 1 ''bob'' ''p1'' False []]) = Some p \<and> p_status p \<noteq> CPending"
proof -
  let ?ops = "[CsPropose ''p1'' 0 ''ada'' ''d'' [] [''bob''] 1 60, CsVote 1 1 1 ''bob'' ''p1'' False []]"
  obtain p where p: "cs_load ''p1'' (cs_after ?ops) = Some p" "distinct (p_participants p)"
    "set (p_participants p) \<subseteq> set (keys (p_votes p))"
    by (simp add: cs_after_def cs_empty_def cs_propose_def Let_def cs_save_def cs_do_vote_def cs_load_def
        cs_tally_def cs_accepts_def cs_remaining_def)
  then show ?thesis using cs_all_voted_resolved [OF p] by blast
qed

text \<open>
  a participant listed twice can block a proposal: it is counted twice in the number of
  participants but may vote once, so with everybody's accept given the proposal stays pending, and
  only its expiry can end it.
\<close>

theorem cs_duplicate_participant_blocks:
  "let s = cs_after [CsPropose ''p1'' 0 ''ada'' ''d'' [] [''bob'', ''bob''] 2 60,
                     CsVote 1 1 1 ''bob'' ''p1'' True []] in
   map_option p_status (cs_load ''p1'' s) = Some CPending \<and>
   map_option cs_remaining (cs_load ''p1'' s) = Some 1 \<and>
   (\<exists>e. snd (snd (cs_do_vote 2 2 2 ''bob'' ''p1'' True [] s)) = Inl e) \<and>
   map_option p_status (cs_load ''p1'' (fst (cs_expire_stale 60 s))) = Some CExpired"
  by (simp add: cs_after_def cs_empty_def cs_propose_def Let_def cs_save_def cs_do_vote_def cs_load_def
      cs_tally_def cs_accepts_def cs_remaining_def cs_expire_stale_def cs_expire_one_def)

section \<open>Expiry\<close>

definition cs_expired_at :: "time \<Rightarrow> proposal \<Rightarrow> proposal" where
  "cs_expired_at now p =
     (if p_status p = CPending \<and> p_expires_at p \<le> now
      then p\<lparr>p_status := CExpired,
             p_result := Some [(''accepted'', PBool False), (''reason'', PStr ''ttl expired''), (''resolved_at'', PFlt now)]\<rparr>
      else p)"

lemma cs_expire_one_load:
  assumes "cs_wf s" and "cs_load i s = Some p"
  shows "cs_load k (fst (cs_expire_one now (s, effs) (i, p))) =
     (if k = i then Some (cs_expired_at now p) else cs_load k s)"
proof -
  from assms have "p_id p = i" by (auto dest: cs_wf_load cs_ok_id)
  with assms(2) show ?thesis by (auto simp: cs_expire_one_def Let_def cs_load_save cs_expired_at_def)
qed

lemma cs_expire_loads:
  assumes "cs_wf s" and "distinct (keys xs)" and "\<And>i p. (i, p) \<in> set xs \<Longrightarrow> cs_load i s = Some p"
  shows "cs_load k (fst (foldl (cs_expire_one now) (s, effs) xs)) =
     (if k \<in> set (keys xs) then map_option (cs_expired_at now) (cs_load k s) else cs_load k s)"
  using assms
proof (induction xs arbitrary: s effs)
  case Nil
  show ?case by simp
next
  case (Cons x xs)
  obtain i p where x: "x = (i, p)" by (cases x)
  obtain s' effs' where one: "cs_expire_one now (s, effs) (i, p) = (s', effs')"
    by (cases "cs_expire_one now (s, effs) (i, p)")
  have get: "cs_load i s = Some p" using Cons.prems(3) by (simp add: x)
  have load: "cs_load k s' = (if k = i then Some (cs_expired_at now p) else cs_load k s)" for k
    using cs_expire_one_load [OF Cons.prems(1) get, of k now effs] by (simp add: one)
  have wf: "cs_wf s'" using cs_wf_expire_one [of "(s, effs)" now "(i, p)"] Cons.prems(1) by (simp add: one)
  have notin: "i \<notin> set (keys xs)" and dist: "distinct (keys xs)" using Cons.prems(2) by (simp_all add: x)
  have "cs_load j s' = Some q" if "(j, q) \<in> set xs" for j q
    using that notin Cons.prems(3) [of j q] by (auto simp: load intro: rev_image_eqI)
  from Cons.IH [OF wf dist this, of effs'] show ?case
    using notin get by (simp add: x one load)
qed

text \<open>
  the reaper expires exactly what is stale: in every reachable state a round at time \<open>now\<close> turns each
  pending proposal whose deadline has come into an expired one and leaves every other proposal as it is.
\<close>

theorem cs_expire_exact:
  "cs_load i (fst (cs_expire_stale now (cs_after ops))) =
     map_option (cs_expired_at now) (cs_load i (cs_after ops))"
proof -
  let ?s = "cs_after ops"
  have "cs_load i (fst (cs_expire_stale now ?s)) =
      (if i \<in> set (keys (k_store ?s)) then map_option (cs_expired_at now) (cs_load i ?s) else cs_load i ?s)"
    unfolding cs_expire_stale_def
    using cs_after_wf [of ops] by (intro cs_expire_loads) (auto simp: cs_wf_def wf_dict_def cs_load_def)
  moreover have "i \<notin> set (keys (k_store ?s)) \<Longrightarrow> cs_load i ?s = None"
    by (simp add: cs_load_def map_of_eq_None_iff)
  ultimately show ?thesis by simp
qed

end
