(* ===== verification/Rate_Limit.thy ===== *)
theory Rate_Limit imports Registry begin

text \<open>
  Rate limiting, \<open>agents/ratelimit.py\<close>: token buckets, the per-agent and per-role limits, and the circuit
  breaker, which suspends the agent in the registry and asks root for a decision. \<open>float("inf")\<close> is
  \<open>Unlimited\<close>; configured numbers are finite.

  The lemmas bound what a bucket grants in any window of time, show that the waiting time it
  reports is the right one, and describe the limits an agent is held to, with and without a penalty.
\<close>

section \<open>Token bucket\<close>

datatype amount = Fin rat | Unlimited

record rl_result =
  rl_allowed :: bool
  rl_wait_ms :: int
  rl_depth :: amount

record bucket =
  tb_cap :: rat
  tb_rate :: rat
  tb_cur :: rat
  tb_last :: time

definition tb_new :: "time \<Rightarrow> rat \<Rightarrow> rat \<Rightarrow> bucket" where
  "tb_new now cap rate = \<lparr>tb_cap = cap, tb_rate = rate, tb_cur = cap, tb_last = now\<rparr>"

definition tb_refill :: "time \<Rightarrow> bucket \<Rightarrow> bucket" where
  "tb_refill now b = b\<lparr>tb_cur := min (tb_cap b) (tb_cur b + (now - tb_last b) * tb_rate b), tb_last := now\<rparr>"

definition tb_consume :: "time \<Rightarrow> rat \<Rightarrow> bucket \<Rightarrow> bucket \<times> rl_result" where
  "tb_consume now n b =
     (let b = tb_refill now b
      in if n \<le> tb_cur b
         then (b\<lparr>tb_cur := tb_cur b - n\<rparr>,
               \<lparr>rl_allowed = True, rl_wait_ms = 0, rl_depth = Fin (tb_cur b - n)\<rparr>)
         else (b, \<lparr>rl_allowed = False,
                   rl_wait_ms = (if 0 < tb_rate b then \<lceil>(n - tb_cur b) / tb_rate b * 1000\<rceil> else 999999),
                   rl_depth = Fin (tb_cur b)\<rparr>))"

definition tb_depth :: "time \<Rightarrow> bucket \<Rightarrow> bucket \<times> rat" where
  "tb_depth now b = (tb_refill now b, tb_cur (tb_refill now b))"

section \<open>Limits\<close>

type_synonym limits = "(string, amount \<times> amount) dict"

definition unlimited :: "amount \<times> amount" where
  "unlimited = (Unlimited, Unlimited)"

definition per_min :: "rat \<Rightarrow> amount \<times> amount" where
  "per_min n = (Fin n, Fin (n / 60))"

definition role_limits :: "(string, limits) dict" where
  "role_limits =
     [(''root'', [(''tokens_in'', unlimited), (''shell_calls'', unlimited), (''api_calls'', unlimited),
                  (''task_submissions'', unlimited)]),
      (''orchestrator'', [(''tokens_in'', per_min 100000), (''shell_calls'', per_min 300),
                          (''api_calls'', per_min 300), (''task_submissions'', (Fin 60, Fin 1))]),
      (''worker'', [(''tokens_in'', per_min 20000), (''shell_calls'', (Fin 60, Fin 1)),
                    (''api_calls'', (Fin 60, Fin 1)), (''task_submissions'', per_min 10)]),
      (''coder'', [(''tokens_in'', per_min 50000), (''shell_calls'', (Fin 120, Fin 2)),
                   (''api_calls'', (Fin 120, Fin 2)), (''task_submissions'', per_min 20)]),
      (''reasoner'', [(''tokens_in'', per_min 50000), (''shell_calls'', per_min 10),
                      (''api_calls'', per_min 10), (''task_submissions'', per_min 5)]),
      (''custom'', [(''tokens_in'', per_min 5000), (''shell_calls'', per_min 10),
                    (''api_calls'', per_min 10), (''task_submissions'', per_min 5)])]"

definition default_role_limits :: limits where
  "default_role_limits = dict_get_or [] role_limits ''custom''"

definition huge :: rat where
  "huge = 10 ^ 17"

fun is_huge :: "amount \<Rightarrow> bool" where
  "is_huge Unlimited = True"
| "is_huge (Fin c) = (huge \<le> c)"

record limiter =
  rl_buckets :: "(string, (string, bucket) dict) dict"
  rl_agent_over :: "(string, limits) dict"
  rl_role_over :: "(string, limits) dict"
  rl_broken :: "(string, time) dict"
  rl_wired :: bool

definition rl_empty :: limiter where
  "rl_empty = \<lparr>rl_buckets = [], rl_agent_over = [], rl_role_over = [], rl_broken = [], rl_wired = False\<rparr>"

definition rl_set_subsystems :: "limiter \<Rightarrow> limiter" where
  "rl_set_subsystems l = l\<lparr>rl_wired := True\<rparr>"

definition raw_limits :: "string \<Rightarrow> string \<Rightarrow> string \<Rightarrow> limiter \<Rightarrow> amount \<times> amount" where
  "raw_limits agent_id resource role l =
     (case (case dict_get (rl_agent_over l) agent_id of None \<Rightarrow> None | Some ov \<Rightarrow> dict_get ov resource) of
        Some lm \<Rightarrow> lm
      | None \<Rightarrow>
          (case (case dict_get (rl_role_over l) role of None \<Rightarrow> None | Some ov \<Rightarrow> dict_get ov resource) of
             Some lm \<Rightarrow> lm
           | None \<Rightarrow> dict_get_or unlimited (dict_get_or default_role_limits role_limits role) resource))"

definition rl_is_broken :: "time \<Rightarrow> string \<Rightarrow> limiter \<Rightarrow> limiter \<times> bool" where
  "rl_is_broken now agent_id l =
     (case dict_get (rl_broken l) agent_id of
        None \<Rightarrow> (l, False)
      | Some expiry \<Rightarrow>
          if now < expiry then (l, True)
          else (l\<lparr>rl_broken := dict_del agent_id (rl_broken l)\<rparr>, False))"

fun scale_limit :: "rat \<Rightarrow> rat \<Rightarrow> amount \<Rightarrow> amount" where
  "scale_limit lo f (Fin c) = Fin (max lo (c * f))"
| "scale_limit lo f Unlimited = Unlimited"

definition get_limits :: "time \<Rightarrow> string \<Rightarrow> string \<Rightarrow> string \<Rightarrow> limiter \<Rightarrow> limiter \<times> amount \<times> amount" where
  "get_limits now agent_id resource role l =
     (let (cap, rate) = raw_limits agent_id resource role l
      in if is_huge cap then (l, cap, rate)
         else
           let (l', broken) = rl_is_broken now agent_id l
           in if broken then (l', scale_limit 1 (1/10) cap, scale_limit (1/1000) (1/10) rate)
              else (l', cap, rate))"

text \<open>
  \<open>_get_bucket\<close>: \<open>t1\<close> is the reading of the penalty check, \<open>t2\<close> the one the new bucket starts from. A
  finite capacity always comes with a finite rate.
\<close>

fun bucket_for :: "time \<Rightarrow> amount \<times> amount \<Rightarrow> bucket" where
  "bucket_for t (Fin cap, Fin rate) = (if huge \<le> cap then tb_new t (10 ^ 18) (10 ^ 18) else tb_new t cap rate)"
| "bucket_for t lm = tb_new t (10 ^ 18) (10 ^ 18)"

definition rl_get_bucket :: "time \<Rightarrow> time \<Rightarrow> string \<Rightarrow> string \<Rightarrow> string \<Rightarrow> limiter \<Rightarrow> limiter \<times> bucket" where
  "rl_get_bucket t1 t2 agent_id resource role l =
     (let mine = dict_get_or [] (rl_buckets l) agent_id
      in case dict_get mine resource of
           Some b \<Rightarrow> (l, b)
         | None \<Rightarrow>
             let (l', lm) = get_limits t1 agent_id resource role l; b = bucket_for t2 lm
             in (l'\<lparr>rl_buckets := dict_set agent_id (dict_set resource b mine) (rl_buckets l)\<rparr>, b))"

definition rl_put_bucket :: "string \<Rightarrow> string \<Rightarrow> bucket \<Rightarrow> limiter \<Rightarrow> limiter" where
  "rl_put_bucket agent_id resource b l =
     l\<lparr>rl_buckets := dict_set agent_id
        (dict_set resource b (dict_get_or [] (rl_buckets l) agent_id)) (rl_buckets l)\<rparr>"

section \<open>Operations of the limiter\<close>

definition rl_check :: "time \<Rightarrow> time \<Rightarrow> time \<Rightarrow> string \<Rightarrow> string \<Rightarrow> string \<Rightarrow> rat \<Rightarrow> limiter
    \<Rightarrow> limiter \<times> rl_result" where
  "rl_check t1 t2 t3 agent_id resource role n l =
     (if role = ''root'' then (l, \<lparr>rl_allowed = True, rl_wait_ms = 0, rl_depth = Unlimited\<rparr>)
      else
        let (l', b) = rl_get_bucket t1 t2 agent_id resource role l;
            (b', res) = tb_consume t3 n b
        in (rl_put_bucket agent_id resource b' l', res))"

datatype limit_spec = PerMinute rat | Explicit "rat option" "rat option"

fun parse_spec :: "limit_spec \<Rightarrow> amount \<times> amount" where
  "parse_spec (PerMinute n) = (Fin n, Fin (n / 60))"
| "parse_spec (Explicit cap rate) =
     (let c = (case cap of None \<Rightarrow> 10 | Some c \<Rightarrow> c)
      in (Fin c, Fin (case rate of None \<Rightarrow> c / 60 | Some r \<Rightarrow> r)))"

definition rl_configure :: "string \<Rightarrow> (string, limit_spec) dict \<Rightarrow> limiter \<Rightarrow> limiter" where
  "rl_configure target specs l =
     (let parsed = foldl (\<lambda>d (res, v). dict_set res (parse_spec v) d) [] specs
      in if dict_get role_limits target \<noteq> None
         then l\<lparr>rl_role_over := dict_set target parsed (rl_role_over l), rl_buckets := []\<rparr>
         else l\<lparr>rl_agent_over := dict_set target parsed (rl_agent_over l),
                rl_buckets := dict_del target (rl_buckets l)\<rparr>)"

record rl_status =
  st_depth :: amount
  st_capacity :: amount
  st_rate :: amount
  st_pct :: rat
  st_ms :: int

definition rl_resource_status :: "time \<Rightarrow> string \<Rightarrow> string \<Rightarrow> string \<Rightarrow> limiter \<Rightarrow> limiter \<times> rl_status" where
  "rl_resource_status now agent_id role res l =
     (let (l', b) = rl_get_bucket now now agent_id res role l;
          cap = tb_cap b; (b', depth) = tb_depth now b; rate = tb_rate b
      in (rl_put_bucket agent_id res b' l',
          if huge \<le> cap
          then \<lparr>st_depth = Unlimited, st_capacity = Unlimited, st_rate = Unlimited, st_pct = 100, st_ms = 0\<rparr>
          else \<lparr>st_depth = Fin (py_round_dig 2 depth), st_capacity = Fin cap,
                st_rate = Fin (py_round_dig 4 rate),
                st_pct = (if 0 < cap then py_round_dig 1 (depth / cap * 100) else 0),
                st_ms = (if 0 < rate \<and> depth < cap then py_round ((cap - depth) / rate * 1000) else 0)\<rparr>))"

definition rl_get_status :: "time \<Rightarrow> string \<Rightarrow> string \<Rightarrow> limiter
    \<Rightarrow> limiter \<times> bool \<times> (string, rl_status) dict" where
  "rl_get_status now agent_id role l =
     (let (l', rs) = foldl (\<lambda>(l, rs) res. let (l', st) = rl_resource_status now agent_id role res l
                                         in (l', dict_set res st rs)) (l, [])
                       [''tokens_in'', ''shell_calls'', ''api_calls'', ''task_submissions''];
          (l'', broken) = rl_is_broken now agent_id l'
      in (l'', broken, rs))"

text \<open>
  \<open>circuit_break\<close>: the penalty, the suspension in the registry, the event and the message to root, in
  this order; the last three only when the subsystems have been wired.
\<close>

definition rl_circuit_break :: "time \<Rightarrow> string \<Rightarrow> string \<Rightarrow> rat \<Rightarrow> limiter \<times> registry
    \<Rightarrow> (limiter \<times> registry) \<times> eff list" where
  "rl_circuit_break now agent_id reason duration st =
     (let (l, r) = st;
          l' = l\<lparr>rl_broken := dict_set agent_id (now + duration) (rl_broken l),
                 rl_buckets := dict_del agent_id (rl_buckets l)\<rparr>
      in if \<not> rl_wired l then ((l', r), [])
         else
           let (r', e) = reg_suspend agent_id r
           in ((l', r'),
               e @ [Emit ''security.circuit_break'' ''system''
                      [(''agent_id'', PStr agent_id), (''reason'', PStr reason),
                       (''duration_seconds'', PFlt duration), (''penalty'', PStr ''10pct_rate_limits''),
                       (''decision_type'', PStr ''circuit_break_review''),
                       (''options'', py_strs [''restore'', ''terminate''])],
                    Send ''system'' ''root''
                      [(''decision_type'', PStr ''circuit_break_review''), (''agent_id'', PStr agent_id),
                       (''reason'', PStr reason), (''duration_seconds'', PFlt duration),
                       (''options'', py_strs [''restore'', ''terminate''])] ''decision'']))"

definition rl_clear :: "string \<Rightarrow> limiter \<Rightarrow> limiter" where
  "rl_clear agent_id l =
     l\<lparr>rl_broken := dict_del agent_id (rl_broken l), rl_buckets := dict_del agent_id (rl_buckets l)\<rparr>"

section \<open>What a bucket grants\<close>

definition tb_ok :: "bucket \<Rightarrow> bool" where
  "tb_ok b = (0 \<le> tb_cur b \<and> tb_cur b \<le> tb_cap b \<and> 0 \<le> tb_rate b)"

text \<open>The state after a list of timed requests, and the sum of the amounts granted.\<close>

definition tb_run :: "bucket \<Rightarrow> (time \<times> rat) list \<Rightarrow> bucket" where
  "tb_run b reqs = foldl (\<lambda>b (t, n). fst (tb_consume t n b)) b reqs"

fun tb_granted :: "bucket \<Rightarrow> (time \<times> rat) list \<Rightarrow> rat" where
  "tb_granted b [] = 0"
| "tb_granted b ((t, n) # reqs) =
     (let (b', res) = tb_consume t n b in (if rl_allowed res then n else 0) + tb_granted b' reqs)"

text \<open>Requests in time order, for amounts that are not negative.\<close>

definition reqs_ok :: "time \<Rightarrow> (time \<times> rat) list \<Rightarrow> bool" where
  "reqs_ok t0 reqs = (sorted (t0 # map fst reqs) \<and> list_all (\<lambda>(t, n). 0 \<le> n) reqs)"

lemma reqs_ok_Nil [simp]: "reqs_ok t0 []"
  by (simp add: reqs_ok_def)

lemma reqs_ok_Cons: "reqs_ok t0 ((t, n) # reqs) \<longleftrightarrow> t0 \<le> t \<and> 0 \<le> n \<and> reqs_ok t reqs"
  by (auto simp: reqs_ok_def intro: order_trans)

lemma tb_consume_fields [simp]:
  "tb_cap (fst (tb_consume t n b)) = tb_cap b" "tb_rate (fst (tb_consume t n b)) = tb_rate b"
  "tb_last (fst (tb_consume t n b)) = t"
  by (simp_all add: tb_consume_def tb_refill_def Let_def)

lemma tb_consume_allowed:
  "rl_allowed (snd (tb_consume t n b)) \<longleftrightarrow> n \<le> tb_cur (tb_refill t b)"
  by (simp add: tb_consume_def Let_def)

lemma tb_refill_fields [simp]:
  "tb_cap (tb_refill t b) = tb_cap b" "tb_rate (tb_refill t b) = tb_rate b" "tb_last (tb_refill t b) = t"
  by (simp_all add: tb_refill_def)

lemma tb_consume_wait:
  "tb_cur (tb_refill t b) < n \<Longrightarrow> 0 < tb_rate b
    \<Longrightarrow> rl_wait_ms (snd (tb_consume t n b)) = \<lceil>(n - tb_cur (tb_refill t b)) / tb_rate b * 1000\<rceil>"
  by (simp only: tb_consume_def Let_def tb_refill_fields not_le [symmetric] if_False if_True snd_conv
      rl_result.select_convs not_False_eq_True)

lemma tb_consume_cur:
  "tb_cur (fst (tb_consume t n b)) =
     tb_cur (tb_refill t b) - (if rl_allowed (snd (tb_consume t n b)) then n else 0)"
  by (simp add: tb_consume_def Let_def)

lemma tb_refill_bounds:
  assumes "tb_ok b" and "tb_last b \<le> t"
  shows "0 \<le> tb_cur (tb_refill t b)" "tb_cur (tb_refill t b) \<le> tb_cap b"
    "tb_cur (tb_refill t b) \<le> tb_cur b + tb_rate b * (t - tb_last b)"
  using assms by (auto simp: tb_refill_def tb_ok_def mult.commute)

lemma tb_ok_consume: "tb_ok b \<Longrightarrow> tb_last b \<le> t \<Longrightarrow> 0 \<le> n \<Longrightarrow> tb_ok (fst (tb_consume t n b))"
  using tb_refill_bounds [of b t]
  by (auto simp: tb_ok_def tb_consume_cur tb_consume_allowed)

lemma tb_ok_run: "tb_ok b \<Longrightarrow> reqs_ok (tb_last b) reqs \<Longrightarrow>
    tb_ok (tb_run b reqs) \<and> tb_cap (tb_run b reqs) = tb_cap b \<and> tb_rate (tb_run b reqs) = tb_rate b
    \<and> tb_last (tb_run b reqs) = (if reqs = [] then tb_last b else fst (last reqs))"
  by (induction reqs arbitrary: b) (auto simp: tb_run_def reqs_ok_Cons tb_ok_consume)

lemma tb_granted_bound:
  "tb_ok b \<Longrightarrow> reqs_ok (tb_last b) reqs \<Longrightarrow> reqs \<noteq> [] \<Longrightarrow>
    tb_granted b reqs \<le> tb_cur (tb_refill (fst (hd reqs)) b) + tb_rate b * (fst (last reqs) - fst (hd reqs))"
proof (induction reqs arbitrary: b)
  case Nil
  then show ?case by simp
next
  case (Cons r reqs)
  obtain t n where r: "r = (t, n)" by (cases r)
  let ?b = "fst (tb_consume t n b)"
  have t: "tb_last b \<le> t" "0 \<le> n" "reqs_ok t reqs" using Cons.prems(2) by (auto simp: r reqs_ok_Cons)
  have ok: "tb_ok ?b" by (rule tb_ok_consume [OF Cons.prems(1) t(1,2)])
  show ?case
  proof (cases "reqs = []")
    case True
    then show ?thesis
      using tb_refill_bounds(1) [OF Cons.prems(1) t(1)]
      by (auto simp: r Let_def split_beta tb_consume_allowed)
  next
    case False
    have "tb_granted ?b reqs \<le> tb_cur (tb_refill (fst (hd reqs)) ?b) + tb_rate b * (fst (last reqs) - fst (hd reqs))"
      using Cons.IH [OF ok _ False] t(3) by simp
    also have "\<dots> \<le> tb_cur ?b + tb_rate b * (fst (hd reqs) - t) + tb_rate b * (fst (last reqs) - fst (hd reqs))"
      using tb_refill_bounds(3) [OF ok, of "fst (hd reqs)"] t(3) False
      by (cases reqs) (auto simp: reqs_ok_def)
    also have "\<dots> = tb_cur ?b + tb_rate b * (fst (last reqs) - t)"
      by (simp add: algebra_simps)
    finally show ?thesis
      using False by (simp add: r Let_def split_beta tb_consume_cur)
  qed
qed

text \<open>
  C5: the rate bound: for a bucket of capacity \<open>cap\<close> refilled at \<open>rate\<close> per second, whatever was requested
  before, the amounts granted to any consecutive requests add up to at most \<open>cap\<close> plus \<open>rate\<close> times the
  time between the first and the last of them.
\<close>

theorem tb_window_bound:
  assumes "0 \<le> cap" and "0 \<le> rate" and "reqs_ok t0 (before @ window)" and "window \<noteq> []"
  shows "tb_granted (tb_run (tb_new t0 cap rate) before) window
    \<le> cap + rate * (fst (last window) - fst (hd window))"
proof -
  let ?b = "tb_run (tb_new t0 cap rate) before"
  have parts: "reqs_ok t0 before" "reqs_ok (if before = [] then t0 else fst (last before)) window"
    using assms(3) by (auto simp: reqs_ok_def sorted_append sorted_wrt_append intro: order_trans)
  have new: "tb_ok (tb_new t0 cap rate)" "tb_last (tb_new t0 cap rate) = t0"
      "tb_cap (tb_new t0 cap rate) = cap" "tb_rate (tb_new t0 cap rate) = rate"
    using assms(1,2) by (simp_all add: tb_ok_def tb_new_def)
  from tb_ok_run [OF new(1)] parts(1) have b: "tb_ok ?b" "tb_cap ?b = cap" "tb_rate ?b = rate"
      "tb_last ?b = (if before = [] then t0 else fst (last before))"
    by (auto simp: new)
  have "tb_last ?b \<le> fst (hd window)"
    using parts(2) assms(4) by (cases window) (auto simp: b reqs_ok_def)
  from tb_refill_bounds(2) [OF b(1) this] have "tb_cur (tb_refill (fst (hd window)) ?b) \<le> cap" by (simp add: b)
  with tb_granted_bound [OF b(1) _ assms(4)] parts(2) show ?thesis
    by (simp add: b)
qed

theorem tb_window_bound_witness:
  "tb_granted (tb_run (tb_new 0 10 1) [(0, 4)]) [(1, 5), (2, 3), (3, 9)] \<le> 10 + 1 * (3 - 1)"
  using tb_window_bound [of 10 1 0 "[(0, 4)]" "[(1, 5), (2, 3), (3, 9)]"] by (simp add: reqs_ok_def)

text \<open>
  the waiting time is the right one: when a request that fits the capacity is refused with
  \<open>wait_ms = w\<close>, the same request succeeds from \<open>w\<close> milliseconds later on, and fails if repeated
  more than a millisecond earlier than that.
\<close>

theorem tb_wait_exact:
  assumes "tb_ok b" and "tb_last b \<le> t" and "0 < tb_rate b" and "n \<le> tb_cap b"
    and "tb_consume t n b = (b', res)" and "\<not> rl_allowed res" and "t \<le> t'"
  shows "if t + of_int (rl_wait_ms res) / 1000 \<le> t' then rl_allowed (snd (tb_consume t' n b'))
         else if t' \<le> t + (of_int (rl_wait_ms res) - 1) / 1000 then \<not> rl_allowed (snd (tb_consume t' n b'))
         else True"
proof -
  let ?c = "tb_cur (tb_refill t b)"
  let ?x = "(n - ?c) / tb_rate b * 1000"
  have c: "?c < n" using assms(5,6) tb_consume_allowed [of t n b] by (simp add: not_le)
  have b': "tb_cap b' = tb_cap b" "tb_rate b' = tb_rate b" "tb_last b' = t" "tb_cur b' = ?c"
    using assms(5,6) tb_consume_fields [of t n b] tb_consume_cur [of t n b] by auto
  have w: "rl_wait_ms res = \<lceil>?x\<rceil>"
    using assms(3,5) c tb_consume_wait [where b = b and t = t and n = n] by simp
  have iff: "rl_allowed (snd (tb_consume t' n b')) \<longleftrightarrow> n - ?c \<le> (t' - t) * tb_rate b"
    using assms(4) by (auto simp: tb_consume_allowed tb_refill_def b')
  have "?x \<le> of_int (rl_wait_ms res)" "of_int (rl_wait_ms res) - 1 < ?x"
    unfolding w by linarith+
  moreover have "n - ?c \<le> (t' - t) * tb_rate b \<longleftrightarrow> (n - ?c) / tb_rate b \<le> t' - t"
    using assms(3) by (simp add: pos_divide_le_eq)
  then have "n - ?c \<le> (t' - t) * tb_rate b \<longleftrightarrow> ?x \<le> (t' - t) * 1000"
    by (simp only: mult_le_cancel_right_pos [of 1000] zero_less_numeral)
  ultimately show ?thesis
    by (auto simp: iff field_simps)
qed

theorem tb_wait_exact_witness:
  "rl_allowed (snd (tb_consume 5 8 (fst (tb_consume 0 8 (fst (tb_consume 0 7 (tb_new 0 10 1)))))))"
proof -
  let ?b = "fst (tb_consume 0 7 (tb_new 0 10 1))"
  obtain b' res where c: "tb_consume 0 8 ?b = (b', res)" by (cases "tb_consume 0 8 ?b")
  have res: "\<not> rl_allowed res" "rl_wait_ms res = 5000"
    using c by (auto simp: tb_consume_def tb_new_def tb_refill_def Let_def)
  have b: "tb_ok ?b" "tb_last ?b \<le> 0" "0 < tb_rate ?b" "8 \<le> tb_cap ?b"
    by (simp_all add: tb_ok_def tb_consume_def tb_new_def tb_refill_def Let_def)
  have "rl_allowed (snd (tb_consume 5 8 b'))"
    using tb_wait_exact [OF b c res(1), of 5] res(2) by simp
  then show ?thesis by (simp add: c)
qed

section \<open>What the limiter grants\<close>

definition rl_bucket :: "limiter \<Rightarrow> string \<Rightarrow> string \<Rightarrow> bucket option" where
  "rl_bucket l a res = dict_get (dict_get_or [] (rl_buckets l) a) res"

definition rl_wf :: "limiter \<Rightarrow> bool" where
  "rl_wf l = (\<forall>a res b. rl_bucket l a res = Some b \<longrightarrow> tb_ok b)"

lemma rl_bucket_put:
  "rl_bucket (rl_put_bucket a res b l) a' res' =
     (if a' = a \<and> res' = res then Some b else rl_bucket l a' res')"
  by (simp add: rl_bucket_def rl_put_bucket_def)

lemma rl_is_broken_fields [simp]:
  "rl_buckets (fst (rl_is_broken t a l)) = rl_buckets l"
  "rl_agent_over (fst (rl_is_broken t a l)) = rl_agent_over l"
  "rl_role_over (fst (rl_is_broken t a l)) = rl_role_over l"
  by (simp_all add: rl_is_broken_def split: option.splits)

lemma get_limits_fields [simp]:
  "rl_buckets (fst (get_limits t a res role l)) = rl_buckets l"
  "rl_agent_over (fst (get_limits t a res role l)) = rl_agent_over l"
  "rl_role_over (fst (get_limits t a res role l)) = rl_role_over l"
  by (simp_all add: get_limits_def Let_def split_beta)

lemma get_limits_value:
  "snd (get_limits t a res role l) =
     (let (cap, rate) = raw_limits a res role l
      in if \<not> is_huge cap \<and> snd (rl_is_broken t a l)
         then (scale_limit 1 (1/10) cap, scale_limit (1/1000) (1/10) rate) else (cap, rate))"
  by (auto simp: get_limits_def Let_def split: prod.splits)

lemma rl_get_bucket_result:
  "snd (rl_get_bucket t1 t2 a res role l) =
     (case rl_bucket l a res of Some b \<Rightarrow> b | None \<Rightarrow> bucket_for t2 (snd (get_limits t1 a res role l)))"
  by (auto simp: rl_get_bucket_def rl_bucket_def Let_def split: option.splits prod.splits)

lemma rl_get_bucket_state:
  "rl_bucket (fst (rl_get_bucket t1 t2 a res role l)) a' res' =
     (if a' = a \<and> res' = res then Some (snd (rl_get_bucket t1 t2 a res role l)) else rl_bucket l a' res')"
  by (auto simp: rl_get_bucket_def rl_bucket_def Let_def split: option.splits prod.splits)

lemma rl_get_bucket_over [simp]:
  "rl_agent_over (fst (rl_get_bucket t1 t2 a res role l)) = rl_agent_over l"
  "rl_role_over (fst (rl_get_bucket t1 t2 a res role l)) = rl_role_over l"
  by (simp_all add: rl_get_bucket_def Let_def split_beta split: option.splits)

lemma rl_check_cases:
  "role \<noteq> ''root'' \<Longrightarrow> rl_check t1 t2 t3 a res role n l =
     (rl_put_bucket a res (fst (tb_consume t3 n (snd (rl_get_bucket t1 t2 a res role l))))
        (fst (rl_get_bucket t1 t2 a res role l)),
      snd (tb_consume t3 n (snd (rl_get_bucket t1 t2 a res role l))))"
  by (simp add: rl_check_def Let_def split_beta)

lemma rl_check_bucket:
  "role \<noteq> ''root'' \<Longrightarrow> rl_bucket (fst (rl_check t1 t2 t3 a res role n l)) a' res' =
     (if a' = a \<and> res' = res then Some (fst (tb_consume t3 n (snd (rl_get_bucket t1 t2 a res role l))))
      else rl_bucket l a' res')"
  by (simp add: rl_check_cases rl_bucket_put rl_get_bucket_state)

lemma rl_put_over [simp]:
  "rl_agent_over (rl_put_bucket a res b l) = rl_agent_over l"
  "rl_role_over (rl_put_bucket a res b l) = rl_role_over l"
  "rl_broken (rl_put_bucket a res b l) = rl_broken l"
  by (simp_all add: rl_put_bucket_def)

lemma raw_limits_check [simp]:
  "raw_limits a' res' role' (fst (rl_check t1 t2 t3 a res role n l)) = raw_limits a' res' role' l"
proof -
  have over: "rl_agent_over (fst (rl_check t1 t2 t3 a res role n l)) = rl_agent_over l \<and>
      rl_role_over (fst (rl_check t1 t2 t3 a res role n l)) = rl_role_over l"
  proof (cases "role = ''root''")
    case True
    then show ?thesis by (simp add: rl_check_def)
  next
    case False
    then show ?thesis by (simp add: rl_check_cases)
  qed
  show ?thesis unfolding raw_limits_def over [THEN conjunct1] over [THEN conjunct2] ..
qed

lemma not_broken_get:
  "dict_get (rl_broken l) a' = None \<Longrightarrow> dict_get (rl_broken (fst (rl_get_bucket t1 t2 a res role l))) a' = None"
  by (auto simp: rl_get_bucket_def get_limits_def rl_is_broken_def Let_def split: option.splits prod.splits)

lemma not_broken_check:
  "dict_get (rl_broken l) a' = None \<Longrightarrow> dict_get (rl_broken (fst (rl_check t1 t2 t3 a res role n l))) a' = None"
proof (cases "role = ''root''")
  case False
  then show "dict_get (rl_broken l) a' = None \<Longrightarrow> ?thesis" by (simp add: rl_check_cases not_broken_get)
qed (simp add: rl_check_def)

text \<open>A request: when, who, what, in which role, how much. What a run grants to one agent and resource.\<close>

type_synonym rl_request = "time \<times> string \<times> string \<times> string \<times> rat"

fun rl_granted :: "string \<Rightarrow> string \<Rightarrow> limiter \<Rightarrow> rl_request list \<Rightarrow> rat" where
  "rl_granted a res l [] = 0"
| "rl_granted a res l ((t, a', res', role, n) # reqs) =
     (let (l', r) = rl_check t t t a' res' role n l
      in (if a' = a \<and> res' = res \<and> rl_allowed r then n else 0) + rl_granted a res l' reqs)"

text \<open>The requests concern \<open>a\<close> in one role, are in time order, and no amount is negative.\<close>

fun rl_reqs_ok :: "string \<Rightarrow> string \<Rightarrow> time \<Rightarrow> rl_request list \<Rightarrow> bool" where
  "rl_reqs_ok a role t0 [] = True"
| "rl_reqs_ok a role t0 ((t, a', res', role', n) # reqs) =
     (t0 \<le> t \<and> 0 \<le> n \<and> role' \<noteq> ''root'' \<and> (a' = a \<longrightarrow> role' = role) \<and> rl_reqs_ok a role t reqs)"

text \<open>What is available to \<open>a\<close> at time \<open>t\<close>: a bucket that does not exist yet starts full.\<close>

definition rl_available :: "time \<Rightarrow> rat \<Rightarrow> string \<Rightarrow> string \<Rightarrow> limiter \<Rightarrow> rat" where
  "rl_available t cap a res l =
     (case rl_bucket l a res of None \<Rightarrow> cap | Some b \<Rightarrow> tb_cur (tb_refill t b))"

definition rl_tracks :: "time \<Rightarrow> rat \<Rightarrow> rat \<Rightarrow> string \<Rightarrow> string \<Rightarrow> string \<Rightarrow> limiter \<Rightarrow> bool" where
  "rl_tracks t cap rate a res role l =
     (dict_get (rl_broken l) a = None \<and> raw_limits a res role l = (Fin cap, Fin rate) \<and>
      (case rl_bucket l a res of None \<Rightarrow> True
       | Some b \<Rightarrow> tb_ok b \<and> tb_cap b = cap \<and> tb_rate b = rate \<and> tb_last b \<le> t))"

lemma rl_available_le:
  assumes "rl_tracks t0 cap rate a res role l" and "t0 \<le> t" and "0 \<le> rate"
  shows "rl_available t cap a res l \<le> rl_available t0 cap a res l + rate * (t - t0)"
proof (cases "rl_bucket l a res")
  case None
  with assms show ?thesis by (simp add: rl_available_def)
next
  case (Some b)
  with assms(1) have b: "tb_cap b = cap" "tb_rate b = rate" by (simp_all add: rl_tracks_def)
  have "(t - tb_last b) * rate = (t0 - tb_last b) * rate + rate * (t - t0)" by (simp add: algebra_simps)
  moreover have "0 \<le> rate * (t - t0)" using assms(2,3) by simp
  ultimately show ?thesis using Some b by (simp add: rl_available_def tb_refill_def min_def)
qed

lemma rl_granted_bound:
  assumes "rl_tracks t0 cap rate a res role l" and "rl_reqs_ok a role t0 reqs" and "reqs \<noteq> []"
    and "0 \<le> cap" "cap < huge" "0 \<le> rate"
  shows "rl_granted a res l reqs \<le> rl_available t0 cap a res l + rate * (fst (last reqs) - t0)"
  using assms(1-3)
proof (induction reqs arbitrary: l t0)
  case Nil
  then show ?case by simp
next
  case (Cons r reqs)
  obtain t a' res' role' n where r: "r = (t, a', res', role', n)" by (cases r)
  let ?l = "fst (rl_check t t t a' res' role' n l)"
  from Cons.prems(2) have t: "t0 \<le> t" "0 \<le> n" "role' \<noteq> ''root''" "a' = a \<Longrightarrow> role' = role" "rl_reqs_ok a role t reqs"
    by (auto simp: r)
  note tr = Cons.prems(1) [unfolded rl_tracks_def]
  define b where "b = snd (rl_get_bucket t t a res role l)"
  have b: "tb_ok b \<and> tb_cap b = cap \<and> tb_rate b = rate \<and> tb_last b \<le> t \<and> tb_cur (tb_refill t b) = rl_available t cap a res l"
  proof (cases "rl_bucket l a res")
    case None
    then have "b = tb_new t cap rate"
      using tr assms(5) by (simp add: b_def rl_get_bucket_result get_limits_value rl_is_broken_def)
    with None assms(4,6) show ?thesis
      by (simp add: tb_new_def tb_ok_def rl_available_def tb_refill_def)
  next
    case (Some c)
    with tr t(1) show ?thesis by (simp add: b_def rl_get_bucket_result rl_available_def)
  qed
  have step: "rl_tracks t cap rate a res role ?l \<and>
      (if a' = a \<and> res' = res \<and> rl_allowed (snd (rl_check t t t a' res' role' n l)) then n else 0)
        + rl_available t cap a res ?l = rl_available t cap a res l \<and>
      0 \<le> rl_available t cap a res ?l"
  proof (cases "a' = a \<and> res' = res")
    case True
    with t have role: "role' = role" "role \<noteq> ''root''" by auto
    let ?c = "fst (tb_consume t n b)"
    have bk: "rl_bucket ?l a res = Some ?c" using True role by (simp add: rl_check_bucket b_def)
    have ok: "tb_ok ?c" using b t(2) by (simp add: tb_ok_consume)
    then have "tb_cur (tb_refill t ?c) = tb_cur ?c"
      by (simp add: tb_refill_def tb_ok_def)
    moreover have "rl_allowed (snd (rl_check t t t a' res' role' n l)) = rl_allowed (snd (tb_consume t n b))"
      using True role by (simp add: rl_check_cases b_def)
    moreover have "rl_available t cap a res ?l = tb_cur (tb_refill t ?c)" by (simp add: rl_available_def bk)
    ultimately have av: "rl_available t cap a res ?l = rl_available t cap a res l -
        (if rl_allowed (snd (rl_check t t t a' res' role' n l)) then n else 0)"
      and pos: "0 \<le> rl_available t cap a res ?l"
      using b ok by (simp_all add: tb_consume_cur) (auto simp: tb_ok_def tb_consume_cur split: if_splits)
    have "rl_tracks t cap rate a res role ?l"
      using bk ok b tr by (simp add: rl_tracks_def not_broken_check)
    with True av pos show ?thesis by simp
  next
    case False
    then have bk: "rl_bucket ?l a res = rl_bucket l a res" using t(3) by (auto simp: rl_check_bucket)
    have "0 \<le> rl_available t cap a res l"
      using b tb_refill_bounds(1) [of b t] by auto
    with False bk tr t(1) show ?thesis
      by (auto simp: rl_tracks_def rl_available_def not_broken_check split: option.splits)
  qed
  have up: "rl_available t cap a res l \<le> rl_available t0 cap a res l + rate * (t - t0)"
    by (rule rl_available_le [OF Cons.prems(1) t(1) assms(6)])
  show ?case
  proof (cases "reqs = []")
    case True
    then show ?thesis using step up by (auto simp: r Let_def split_beta)
  next
    case False
    have "rl_granted a res ?l reqs \<le> rl_available t cap a res ?l + rate * (fst (last reqs) - t)"
      using Cons.IH [of t ?l] step t(5) False by blast
    moreover have "rate * (fst (last reqs) - t0) = rate * (t - t0) + rate * (fst (last reqs) - t)"
      by (simp add: algebra_simps)
    ultimately show ?thesis
      using False step up by (auto simp: r Let_def split_beta)
  qed
qed

text \<open>
  agents are limited independently: for an agent under no penalty whose limit on a resource is
  \<open>cap\<close> with rate \<open>rate\<close>, in any interleaving of requests by any agents for any resources, the amounts it
  is granted add up to at most \<open>cap\<close> plus \<open>rate\<close> times the time from the first to the last request.
\<close>

theorem rl_agent_limited:
  assumes "dict_get (rl_broken l) a = None" and "rl_bucket l a res = None"
    and "raw_limits a res role l = (Fin cap, Fin rate)" and "0 \<le> cap" and "cap < huge" and "0 \<le> rate"
    and "rl_reqs_ok a role (fst (hd reqs)) reqs" and "reqs \<noteq> []"
  shows "rl_granted a res l reqs \<le> cap + rate * (fst (last reqs) - fst (hd reqs))"
  using rl_granted_bound [of "fst (hd reqs)" cap rate a res role l reqs] assms
  by (simp add: rl_tracks_def rl_available_def)

theorem rl_agent_limited_witness:
  "rl_granted ''w1'' ''shell_calls'' rl_empty
     [(0, ''w1'', ''shell_calls'', ''worker'', 50), (1, ''w2'', ''shell_calls'', ''coder'', 70),
      (2, ''w1'', ''shell_calls'', ''worker'', 30)] \<le> 62"
  using rl_agent_limited [of rl_empty "''w1''" "''shell_calls''" "''worker''" 60 1
     "[(0, ''w1'', ''shell_calls'', ''worker'', 50), (1, ''w2'', ''shell_calls'', ''coder'', 70),
      (2, ''w1'', ''shell_calls'', ''worker'', 30)]"]
  by (simp add: rl_empty_def rl_bucket_def raw_limits_def role_limits_def per_min_def huge_def dict_get_or_def)

section \<open>The circuit breaker\<close>

lemma rl_break_limiter:
  "fst (fst (rl_circuit_break now a reason d (l, r))) =
     l\<lparr>rl_broken := dict_set a (now + d) (rl_broken l), rl_buckets := dict_del a (rl_buckets l)\<rparr>"
  by (simp add: rl_circuit_break_def Let_def split_beta)

lemma raw_limits_cong:
  "rl_agent_over l' = rl_agent_over l \<Longrightarrow> rl_role_over l' = rl_role_over l
    \<Longrightarrow> raw_limits a res role l' = raw_limits a res role l"
  by (simp only: raw_limits_def)

lemma rl_break_fields [simp]:
  "raw_limits a' res role (fst (fst (rl_circuit_break now a reason d (l, r)))) = raw_limits a' res role l"
  "rl_bucket (fst (fst (rl_circuit_break now a reason d (l, r)))) a' res =
     (if a' = a then None else rl_bucket l a' res)"
  "rl_broken (fst (fst (rl_circuit_break now a reason d (l, r)))) = dict_set a (now + d) (rl_broken l)"
  by (rule raw_limits_cong) (simp_all add: rl_break_limiter rl_bucket_def dict_get_or_def)

lemma rl_break_registry:
  "snd (fst (rl_circuit_break now a reason d (l, r))) = (if rl_wired l then fst (reg_suspend a r) else r)"
  by (simp add: rl_circuit_break_def Let_def split_beta)

text \<open>
  what a circuit break does: until the penalty runs out a bucket built for the agent has a tenth of
  its capacity and rate, but at least 1 and 1/1000; an agent that was active in the wired registry is
  suspended there, so its token is refused; and root is sent the request for a decision.
\<close>

theorem rl_circuit_break_effect:
  assumes "raw_limits a res role l = (Fin cap, Fin rate)" and "cap < huge" and "rl_wired l"
    and "t1 < now + d" and "dict_get (r_agents r) a = Some ag" and "a_status ag = Active"
    and "dict_get (r_index r) (hash_token kg tok) = Some a" and "tok \<noteq> r_master r"
  shows "let ((l', r'), effs) = rl_circuit_break now a reason d (l, r);
             b = snd (rl_get_bucket t1 t2 a res role l')
         in tb_cap b = (if huge \<le> max 1 (cap / 10) then 10 ^ 18 else max 1 (cap / 10)) \<and>
            (if huge \<le> max 1 (cap / 10) then True else tb_rate b = max (1/1000) (rate / 10)) \<and>
            map_option a_status (dict_get (r_agents r') a) = Some Suspended \<and>
            reg_authenticate kg tok r' = None \<and>
            (\<exists>p. Send ''system'' ''root'' p ''decision'' \<in> set effs)"
proof -
  let ?st = "rl_circuit_break now a reason d (l, r)"
  let ?l = "fst (fst ?st)"
  let ?r = "snd (fst ?st)"
  have none: "rl_bucket ?l a res = None" by simp
  have raw: "raw_limits a res role ?l = (Fin cap, Fin rate)"
    using assms(1) by simp
  have "snd (rl_is_broken t1 a ?l)" using assms(4) by (simp add: rl_is_broken_def)
  then have b: "snd (rl_get_bucket t1 t2 a res role ?l) =
      bucket_for t2 (Fin (max 1 (cap / 10)), Fin (max (1/1000) (rate / 10)))"
    unfolding rl_get_bucket_result none get_limits_value raw using assms(2) by simp
  have r: "?r = fst (reg_suspend a r)" by (simp add: rl_break_registry assms(3))
  have st: "map_option a_status (dict_get (r_agents ?r) a) = Some Suspended"
    using assms(5,6) by (simp add: r reg_suspend_def reg_save_def)
  moreover have "reg_authenticate kg tok ?r = None"
    using assms(5-8) by (auto simp: r reg_suspend_def reg_save_def reg_authenticate_def)
  moreover have "\<exists>p. Send ''system'' ''root'' p ''decision'' \<in> set (snd ?st)"
    using assms(3) by (simp add: rl_circuit_break_def Let_def split_beta) blast
  ultimately show ?thesis
    using b by (simp add: Let_def split_beta tb_new_def)
qed

theorem rl_circuit_break_effect_witness:
  "let ((l', r'), effs) = rl_circuit_break 10 ''ab12'' ''anomaly'' 300
       (rl_set_subsystems rl_empty, reg_after example_keying 0 ''secret'' ''/ws'' [RegRegister ''ab12'' 1 example_request])
   in tb_cap (snd (rl_get_bucket 20 20 ''ab12'' ''shell_calls'' ''worker'' l')) = 6 \<and>
      reg_authenticate example_keying ''secret/ab12'' r' = None"
proof -
  let ?r = "reg_after example_keying 0 ''secret'' ''/ws'' [RegRegister ''ab12'' 1 example_request]"
  obtain r1 a where reg: "reg_register example_keying ''ab12'' 1 example_request example_registry
      = (r1, [], Inr (a, ''secret/ab12''))" using example_registered by blast
  have r1: "?r = r1" using reg by (simp add: reg_after_def example_registry_def)
  have m: "r_master example_registry = ''secret''"
    by (simp add: example_registry_def reg_init_def reg_load_def ensure_root_def ensure_core_agents_def
        core_agents_def ensure_core_agent_def reg_save_def Let_def example_keying_def)
  note facts = reg_register_result [OF reg]
  show ?thesis
    using rl_circuit_break_effect [of "''ab12''" "''shell_calls''" "''worker''" "rl_set_subsystems rl_empty" 60 1
        20 10 300 r1 a example_keying "''secret/ab12''" "''anomaly''" 20] facts m
    by (simp add: r1 rl_empty_def rl_set_subsystems_def raw_limits_def role_limits_def huge_def dict_get_or_def
        Let_def split_beta)
qed

lemma rl_broken_check_expiry:
  "dict_get (rl_broken (fst (rl_check t1 t2 t3 a res role n l))) a' \<in> {None, dict_get (rl_broken l) a'}"
proof -
  have "dict_get (rl_broken (fst (rl_get_bucket t1 t2 a res role l))) a' \<in> {None, dict_get (rl_broken l) a'}"
    by (auto simp: rl_get_bucket_def get_limits_def rl_is_broken_def Let_def split: option.splits prod.splits)
  then show ?thesis
    by (cases "role = ''root''") (simp_all add: rl_check_cases, simp add: rl_check_def)
qed

text \<open>
  a penalty outlives its deadline: a bucket that is built while the agent is penalised keeps the
  reduced capacity after the penalty has run out, because nothing rebuilds it.
\<close>

theorem rl_penalty_outlives_deadline:
  "let l = fst (fst (rl_circuit_break 0 ''w1'' ''anomaly'' 300 (rl_empty, r)));
       l1 = fst (rl_check 1 1 1 ''w1'' ''shell_calls'' ''worker'' 1 l)
   in \<not> snd (rl_is_broken 1000 ''w1'' l1) \<and>
      map_option tb_cap (rl_bucket (fst (rl_check 1000 1000 1000 ''w1'' ''shell_calls'' ''worker'' 1 l1)) ''w1'' ''shell_calls'') = Some 6 \<and>
      raw_limits ''w1'' ''shell_calls'' ''worker'' l1 = (Fin 60, Fin 1)"
proof -
  let ?l = "fst (fst (rl_circuit_break 0 ''w1'' ''anomaly'' 300 (rl_empty, r)))"
  let ?l1 = "fst (rl_check 1 1 1 ''w1'' ''shell_calls'' ''worker'' 1 ?l)"
  have none: "rl_bucket ?l ''w1'' ''shell_calls'' = None" by simp
  have raw: "raw_limits ''w1'' ''shell_calls'' ''worker'' ?l = (Fin 60, Fin 1)"
    unfolding rl_break_fields by (simp add: raw_limits_def rl_empty_def role_limits_def dict_get_or_def)
  have brk: "snd (rl_is_broken 1 ''w1'' ?l)" by (simp add: rl_is_broken_def)
  have "tb_cap (snd (rl_get_bucket 1 1 ''w1'' ''shell_calls'' ''worker'' ?l)) = 6"
    unfolding rl_get_bucket_result none get_limits_value raw
    using brk by (simp add: huge_def tb_new_def)
  then obtain b where b: "rl_bucket ?l1 ''w1'' ''shell_calls'' = Some b" "tb_cap b = 6"
    by (simp add: rl_check_bucket)
  then have cap: "tb_cap (snd (rl_get_bucket 1000 1000 ''w1'' ''shell_calls'' ''worker'' ?l1)) = 6"
    by (simp add: rl_get_bucket_result)
  have "\<not> snd (rl_is_broken 1000 ''w1'' ?l1)"
    using rl_broken_check_expiry [where l = ?l and a' = "''w1''" and ?t1.0 = 1 and ?t2.0 = 1 and ?t3.0 = 1
        and a = "''w1''" and res = "''shell_calls''" and role = "''worker''" and n = 1]
    by (auto simp: rl_is_broken_def split: option.splits)
  with raw cap show ?thesis by (simp add: Let_def rl_check_bucket)
qed

end
