(* ===== verification/Memory_Heap.thy ===== *)
theory Memory_Heap imports Registry begin

text \<open>
  The working memory heap, \<open>memory/heap.py\<close>: one heap per agent with named slots, expiry, compression
  to a summary, swapping to disk, and automatic management at 80\% of the token budget. The heap's
  directory is the dictionary \<open>h_files\<close>, its index file the field \<open>h_index\<close>. The language model behind
  \<open>_summarize\<close> is a parameter: the answer it gives to a prompt, or nothing when the call fails.
  Slot names are plain file names.

  The lemmas show that a heap behaves as a keyed store whose contents swapping leaves alone, that the
  token counts are those of the contents, that a swapped slot can always be read back, and what
  automatic management and garbage collection may touch.
\<close>

section \<open>State\<close>

definition count_tokens :: "string \<Rightarrow> int" where
  "count_tokens s = max 1 (py_int (of_nat (length (py_split s)) * 13 / 10))"

record mem_obj =
  o_key :: string
  o_content :: string
  o_tokens :: int
  o_priority :: int
  o_ttl :: "time option"
  o_eligible :: bool
  o_compressed :: bool
  o_swapped :: bool
  o_created :: time
  o_last_read :: time
  o_disk :: "string option"

record heap =
  h_agent :: string
  h_dir :: string
  h_objs :: "(string, mem_obj) dict"
  h_files :: "(string, string) dict"
  h_index :: "(string, mem_obj) dict option"
  h_events :: bool

definition heap_save :: "heap \<Rightarrow> heap" where
  "heap_save h = h\<lparr>h_index := Some (h_objs h)\<rparr>"

text \<open>\<open>__init__\<close> and \<open>_load\<close>: the slots of the index file, under their own keys.\<close>

definition heap_load :: "string \<Rightarrow> string \<Rightarrow> bool \<Rightarrow> (string, mem_obj) dict option \<Rightarrow> (string, string) dict
    \<Rightarrow> heap" where
  "heap_load agent_id dir events index files =
     \<lparr>h_agent = agent_id, h_dir = dir,
      h_objs = (case index of None \<Rightarrow> []
                | Some d \<Rightarrow> foldl (\<lambda>os (k, obj). dict_set (o_key obj) obj os) [] d),
      h_files = files, h_index = index, h_events = events\<rparr>"

definition heap_emit :: "heap \<Rightarrow> string \<Rightarrow> payload \<Rightarrow> eff list" where
  "heap_emit h t p = (if h_events h then [Emit t (h_agent h) p] else [])"

definition swap_path :: "string \<Rightarrow> string \<Rightarrow> string" where
  "swap_path dir key = dir @ ''/'' @ key @ ''.swap''"

definition original_path :: "string \<Rightarrow> string \<Rightarrow> string" where
  "original_path dir key = dir @ ''/'' @ key @ ''.original.txt''"

definition expired :: "time \<Rightarrow> mem_obj \<Rightarrow> bool" where
  "expired now obj = (truthy_num (o_ttl obj) \<and> (case o_ttl obj of None \<Rightarrow> False | Some t \<Rightarrow> t < now))"

section \<open>Core operations\<close>

definition new_obj :: "time \<Rightarrow> string \<Rightarrow> string \<Rightarrow> int \<Rightarrow> time option \<Rightarrow> bool \<Rightarrow> mem_obj" where
  "new_obj now key content priority ttl eligible =
     \<lparr>o_key = key, o_content = content, o_tokens = count_tokens content,
      o_priority = max 0 (min 10 priority), o_ttl = ttl, o_eligible = eligible, o_compressed = False,
      o_swapped = False, o_created = now, o_last_read = now, o_disk = None\<rparr>"

definition heap_alloc :: "time \<Rightarrow> string \<Rightarrow> string \<Rightarrow> int \<Rightarrow> time option \<Rightarrow> bool \<Rightarrow> heap \<Rightarrow> heap" where
  "heap_alloc now key content priority ttl eligible h =
     heap_save (h\<lparr>h_objs := dict_set key (new_obj now key content priority ttl eligible) (h_objs h)\<rparr>)"

definition heap_upd :: "string \<Rightarrow> (mem_obj \<Rightarrow> mem_obj) \<Rightarrow> heap \<Rightarrow> heap" where
  "heap_upd key f h = h\<lparr>h_objs := dict_upd key f (h_objs h)\<rparr>"

text \<open>Content of a slot's file, when it has one and the file exists.\<close>

definition disk_content :: "heap \<Rightarrow> mem_obj \<Rightarrow> string option" where
  "disk_content h obj = (case o_disk obj of None \<Rightarrow> None | Some p \<Rightarrow> dict_get (h_files h) p)"

definition loaded :: "string \<Rightarrow> mem_obj \<Rightarrow> mem_obj" where
  "loaded c obj = obj\<lparr>o_content := c, o_tokens := count_tokens c, o_swapped := False\<rparr>"

text \<open>\<open>read\<close>: \<open>t1\<close> is the reading of the expiry check, \<open>t2\<close> the new \<open>last_read_at\<close>.\<close>

definition heap_read :: "time \<Rightarrow> time \<Rightarrow> string \<Rightarrow> heap \<Rightarrow> heap \<times> (py_error + string)" where
  "heap_read t1 t2 key h =
     (case dict_get (h_objs h) key of
        None \<Rightarrow> (h, Inl (KeyError (''Memory key '' @ [char_of (39::nat)] @ key @ [char_of (39::nat)] @
                  '' not found in heap for agent '' @ [char_of (39::nat)] @ h_agent h @ [char_of (39::nat)])))
      | Some obj \<Rightarrow>
          if expired t1 obj
          then (heap_save (h\<lparr>h_objs := dict_del key (h_objs h)\<rparr>),
                Inl (KeyError (''Memory key '' @ [char_of (39::nat)] @ key @ [char_of (39::nat)] @ '' has expired (TTL)'')))
          else if o_swapped obj
          then (case disk_content h obj of
                  None \<Rightarrow> (h, Inl (KeyError (''Memory key '' @ [char_of (39::nat)] @ key @ [char_of (39::nat)] @
                              '' is swapped but disk_path missing'')))
                | Some c \<Rightarrow>
                    (heap_upd key (\<lambda>obj. obj\<lparr>o_last_read := t2\<rparr>) (heap_save (heap_upd key (loaded c) h)), Inr c))
          else (heap_upd key (\<lambda>obj. obj\<lparr>o_last_read := t2\<rparr>) h, Inr (o_content obj)))"

definition drop_file :: "mem_obj \<Rightarrow> (string, string) dict \<Rightarrow> (string, string) dict" where
  "drop_file obj files = (case o_disk obj of None \<Rightarrow> files | Some p \<Rightarrow> if p = [] then files else dict_del p files)"

definition heap_free :: "string \<Rightarrow> heap \<Rightarrow> heap \<times> bool" where
  "heap_free key h =
     (case dict_get (h_objs h) key of
        None \<Rightarrow> (h, False)
      | Some obj \<Rightarrow>
          (heap_save (h\<lparr>h_objs := dict_del key (h_objs h), h_files := drop_file obj (h_files h)\<rparr>), True))"

definition gc_one :: "heap \<times> int \<Rightarrow> string \<Rightarrow> heap \<times> int" where
  "gc_one st key =
     (let (h, n) = st
      in case dict_get (h_objs h) key of
           None \<Rightarrow> (h, n)
         | Some obj \<Rightarrow> (h\<lparr>h_objs := dict_del key (h_objs h), h_files := drop_file obj (h_files h)\<rparr>,
                        n + o_tokens obj))"

definition heap_gc :: "time \<Rightarrow> heap \<Rightarrow> heap \<times> eff list \<times> string list \<times> int" where
  "heap_gc now h =
     (let keys = map fst (filter (\<lambda>(k, obj). expired now obj) (h_objs h));
          (h1, tokens) = foldl gc_one (h, 0) keys;
          h2 = (if keys \<noteq> [] then heap_save h1 else h1)
      in (h2, heap_emit h2 ''memory.gc_complete''
                [(''agent_id'', PStr (h_agent h)), (''freed_keys'', py_strs keys), (''freed_tokens'', PInt tokens)],
          keys, tokens))"

section \<open>Compression\<close>

definition summary_prompt :: "string \<Rightarrow> string" where
  "summary_prompt content =
     ''Summarize the following content concisely, preserving all key facts, '' @
     ''decisions, numbers, and entities. Output only the summary, no preamble.'' @
     [char_of (10::nat), char_of (10::nat)] @ py_take 8000 content"

definition summarize :: "(string \<Rightarrow> string option) \<Rightarrow> string \<Rightarrow> string" where
  "summarize llm content =
     (let words = py_split content;
          fallback = py_join '' '' (take (max 50 (length words div 5)) words) @ '' [truncated]''
      in case llm (summary_prompt content) of
           None \<Rightarrow> fallback
         | Some resp \<Rightarrow> if py_strip resp \<noteq> [] then py_strip resp else fallback)"

record compress_result =
  cr_original :: int
  cr_compressed :: int
  cr_ratio :: rat

text \<open>
  \<open>compress\<close> releases the lock while the model is asked, so it is two steps: the first reads the
  content, the second writes the original to disk and puts the summary in the slot.
\<close>

definition compress_begin :: "string \<Rightarrow> heap \<Rightarrow> py_error + compress_result + string \<times> int" where
  "compress_begin key h =
     (case dict_get (h_objs h) key of
        None \<Rightarrow> Inl (KeyError (''Memory key '' @ [char_of (39::nat)] @ key @ [char_of (39::nat)] @ '' not found''))
      | Some obj \<Rightarrow>
          if o_compressed obj
          then Inr (Inl \<lparr>cr_original = o_tokens obj, cr_compressed = o_tokens obj, cr_ratio = 1\<rparr>)
          else Inr (Inr (o_content obj, o_tokens obj)))"

definition compressed_obj :: "string \<Rightarrow> string \<Rightarrow> mem_obj \<Rightarrow> mem_obj" where
  "compressed_obj summary path obj =
     obj\<lparr>o_content := summary, o_tokens := count_tokens summary, o_compressed := True, o_disk := Some path\<rparr>"

definition compress_finish :: "(string \<Rightarrow> string option) \<Rightarrow> string \<Rightarrow> string \<Rightarrow> int \<Rightarrow> heap
    \<Rightarrow> heap \<times> eff list \<times> (py_error + compress_result)" where
  "compress_finish llm key original tokens h =
     (let summary = summarize llm original; n = count_tokens summary; path = original_path (h_dir h) key;
          h1 = h\<lparr>h_files := dict_set path original (h_files h)\<rparr>;
          ratio = of_int n / of_int (max 1 tokens)
      in if dict_get (h_objs h1) key = None
         then (h1, [], Inl (KeyError (''Memory key '' @ [char_of (39::nat)] @ key @ [char_of (39::nat)] @
                 '' not found (freed during compression)'')))
         else (heap_save (heap_upd key (compressed_obj summary path) h1),
               heap_emit h ''memory.compressed''
                 [(''agent_id'', PStr (h_agent h)), (''key'', PStr key), (''original_tokens'', PInt tokens),
                  (''compressed_tokens'', PInt n), (''ratio'', PFlt ratio)],
               Inr \<lparr>cr_original = tokens, cr_compressed = n, cr_ratio = ratio\<rparr>))"

definition heap_compress :: "(string \<Rightarrow> string option) \<Rightarrow> string \<Rightarrow> heap
    \<Rightarrow> heap \<times> eff list \<times> (py_error + compress_result)" where
  "heap_compress llm key h =
     (case compress_begin key h of
        Inl e \<Rightarrow> (h, [], Inl e)
      | Inr (Inl r) \<Rightarrow> (h, [], Inr r)
      | Inr (Inr (original, tokens)) \<Rightarrow> compress_finish llm key original tokens h)"

section \<open>Swapping\<close>

definition swap_event :: "heap \<Rightarrow> string \<Rightarrow> string \<Rightarrow> eff list" where
  "swap_event h key direction =
     heap_emit h ''memory.swapped''
       [(''agent_id'', PStr (h_agent h)), (''key'', PStr key), (''direction'', PStr direction)]"

definition swapped_obj :: "string \<Rightarrow> mem_obj \<Rightarrow> mem_obj" where
  "swapped_obj path obj = obj\<lparr>o_content := [], o_tokens := 0, o_swapped := True, o_disk := Some path\<rparr>"

definition heap_swap_out :: "string \<Rightarrow> heap \<Rightarrow> heap \<times> eff list \<times> bool" where
  "heap_swap_out key h =
     (case dict_get (h_objs h) key of
        None \<Rightarrow> (h, [], False)
      | Some obj \<Rightarrow>
          if o_swapped obj then (h, [], False)
          else (heap_save (heap_upd key (swapped_obj (swap_path (h_dir h) key))
                  (h\<lparr>h_files := dict_set (swap_path (h_dir h) key) (o_content obj) (h_files h)\<rparr>)),
                swap_event h key ''out'', True))"

definition heap_swap_in :: "string \<Rightarrow> heap \<Rightarrow> heap \<times> eff list \<times> bool" where
  "heap_swap_in key h =
     (case dict_get (h_objs h) key of
        None \<Rightarrow> (h, [], False)
      | Some obj \<Rightarrow>
          if \<not> o_swapped obj then (h, [], True)
          else (case disk_content h obj of
                  None \<Rightarrow> (h, [], False)
                | Some c \<Rightarrow> (heap_save (heap_upd key (loaded c) h), swap_event h key ''in'', True)))"
section \<open>Statistics and automatic management\<close>

record heap_stat =
  hs_objects :: nat
  hs_tokens :: int
  hs_compressible :: int
  hs_swapped :: nat
  hs_swapped_tokens :: int
  hs_fragmentation :: rat

definition heap_stats :: "heap \<Rightarrow> heap_stat" where
  "heap_stats h =
     (let objs = vals (h_objs h)
      in \<lparr>hs_objects = length objs,
          hs_tokens = sum_list (map o_tokens (filter (\<lambda>ob. \<not> o_swapped ob) objs)),
          hs_compressible = sum_list (map o_tokens (filter (\<lambda>ob. o_eligible ob \<and> \<not> o_compressed ob \<and> \<not> o_swapped ob) objs)),
          hs_swapped = length (filter o_swapped objs),
          hs_swapped_tokens = sum_list (map (\<lambda>ob. case disk_content h ob of None \<Rightarrow> 0 | Some c \<Rightarrow> count_tokens c)
                                         (filter o_swapped objs)),
          hs_fragmentation = py_round_dig 3 (of_nat (length (filter o_swapped objs)) / of_nat (max 1 (length objs)))\<rparr>)"

text \<open>
  \<open>sorted(objs, key=lambda o: (o.priority, o.last_read_at))\<close>: two stable sorts, the least
  significant key first.
\<close>

definition by_priority :: "mem_obj list \<Rightarrow> mem_obj list" where
  "by_priority objs = sort_key o_priority (sort_key o_last_read objs)"

definition quartile :: "mem_obj list \<Rightarrow> string list" where
  "quartile objs = map o_key (take (max 1 (length objs div 4)) objs)"

definition compress_one :: "(string \<Rightarrow> string option) \<Rightarrow> heap \<times> eff list \<times> string list \<Rightarrow> string
    \<Rightarrow> heap \<times> eff list \<times> string list" where
  "compress_one llm st key =
     (let (h, effs, done_keys) = st; (h', e, res) = heap_compress llm key h
      in (h', effs @ e, case res of Inl err \<Rightarrow> done_keys | Inr r \<Rightarrow> done_keys @ [key]))"

definition compress_all :: "(string \<Rightarrow> string option) \<Rightarrow> string list \<Rightarrow> heap
    \<Rightarrow> heap \<times> eff list \<times> string list" where
  "compress_all llm ks h = foldl (compress_one llm) (h, [], []) ks"

definition swap_one :: "heap \<times> eff list \<times> string list \<Rightarrow> string \<Rightarrow> heap \<times> eff list \<times> string list" where
  "swap_one st key =
     (let (h, effs, done_keys) = st; (h', e, ok) = heap_swap_out key h
      in (h', effs @ e, if ok then done_keys @ [key] else done_keys))"

definition swap_all :: "string list \<Rightarrow> heap \<Rightarrow> heap \<times> eff list \<times> string list" where
  "swap_all ks h = foldl swap_one (h, [], []) ks"
datatype manage_result =
    ManageNone int
  | Managed "string list" "string list" int int

definition heap_auto_manage :: "(string \<Rightarrow> string option) \<Rightarrow> int \<Rightarrow> heap
    \<Rightarrow> heap \<times> eff list \<times> manage_result" where
  "heap_auto_manage llm token_budget h =
     (let total = hs_tokens (heap_stats h); threshold = py_int (of_int token_budget * 4 / 5)
      in if total < threshold then (h, [], ManageNone total)
         else
           let pressure = heap_emit h ''memory.pressure''
                 [(''agent_id'', PStr (h_agent h)), (''total_tokens'', PInt total), (''budget'', PInt token_budget)];
               candidates = by_priority (filter (\<lambda>ob. o_eligible ob \<and> \<not> o_compressed ob \<and> \<not> o_swapped ob) (vals (h_objs h)));
               (h1, e1, compressed) = compress_all llm (quartile candidates) h;
               (h2, e2, swapped) =
                 (if threshold \<le> hs_tokens (heap_stats h1)
                  then swap_all (quartile (by_priority (filter (\<lambda>ob. \<not> o_swapped ob \<and> o_priority ob < 5) (vals (h_objs h1))))) h1
                  else (h1, [], []))
           in (h2, pressure @ e1 @ e2, Managed compressed swapped total (hs_tokens (heap_stats h2))))"

record slot_info =
  si_key :: string
  si_tokens :: int
  si_priority :: int
  si_swapped :: bool
  si_compressed :: bool
  si_expires_in :: "int option"

definition heap_list_objects :: "time \<Rightarrow> heap \<Rightarrow> slot_info list" where
  "heap_list_objects now h =
     map (\<lambda>obj. \<lparr>si_key = o_key obj, si_tokens = o_tokens obj, si_priority = o_priority obj,
                 si_swapped = o_swapped obj, si_compressed = o_compressed obj,
                 si_expires_in = (if truthy_num (o_ttl obj)
                   then map_option (\<lambda>t. py_round (t - now)) (o_ttl obj) else None)\<rparr>) (vals (h_objs h))"

section \<open>The registry of heaps\<close>

text \<open>
  \<open>HeapRegistry\<close>: heaps are created on demand from what their directory holds; \<open>hr_disk\<close> is the heaps
  directory as it was when the server started.
\<close>

record heaps =
  hr_heaps :: "(string, heap) dict"
  hr_disk :: "(string, (string, mem_obj) dict option \<times> (string, string) dict) dict"
  hr_root :: string
  hr_events :: bool

definition hr_set_event_bus :: "heaps \<Rightarrow> heaps" where
  "hr_set_event_bus hs = hs\<lparr>hr_events := True, hr_heaps := dict_map (\<lambda>_ h. h\<lparr>h_events := True\<rparr>) (hr_heaps hs)\<rparr>"

definition hr_get :: "string \<Rightarrow> heaps \<Rightarrow> heaps \<times> heap" where
  "hr_get agent_id hs =
     (case dict_get (hr_heaps hs) agent_id of
        Some h \<Rightarrow> (hs, h)
      | None \<Rightarrow>
          let (index, files) = dict_get_or (None, []) (hr_disk hs) agent_id;
              h = heap_load agent_id (hr_root hs @ ''/'' @ agent_id) (hr_events hs) index files
          in (hs\<lparr>hr_heaps := dict_set agent_id h (hr_heaps hs)\<rparr>, h))"

definition hr_put :: "string \<Rightarrow> heap \<Rightarrow> heaps \<Rightarrow> heaps" where
  "hr_put agent_id h hs = hs\<lparr>hr_heaps := dict_set agent_id h (hr_heaps hs)\<rparr>"

text \<open>\<open>auto_manage_all\<close>: every registered agent whose token usage has reached 80\% of its budget.\<close>

definition hr_manage_one :: "(string \<Rightarrow> string option) \<Rightarrow> registry \<Rightarrow> heaps \<times> eff list \<Rightarrow> string
    \<Rightarrow> heaps \<times> eff list" where
  "hr_manage_one llm r st agent_id =
     (let (hs, effs) = st
      in case dict_get (r_agents r) agent_id of
           None \<Rightarrow> (hs, effs)
         | Some a \<Rightarrow>
             let budget = dict_get_or 0 (a_budget a) ''tokens_in''
             in if budget \<le> 0 \<or> dict_get_or 0 (a_usage a) ''tokens_in'' < py_int (of_int budget * 4 / 5)
                then (hs, effs)
                else (case dict_get (hr_heaps hs) agent_id of
                        None \<Rightarrow> (hs, effs)
                      | Some h \<Rightarrow> let (h', e, res) = heap_auto_manage llm budget h
                                  in (hr_put agent_id h' hs, effs @ e)))"

definition hr_auto_manage_all :: "(string \<Rightarrow> string option) \<Rightarrow> registry \<Rightarrow> heaps \<Rightarrow> heaps \<times> eff list" where
  "hr_auto_manage_all llm r hs = foldl (hr_manage_one llm r) (hs, []) (keys (hr_heaps hs))"

section \<open>Operations of a heap\<close>

datatype heap_op =
    HAlloc time string string int "time option" bool
  | HRead time time string
  | HFree string
  | HGc time
  | HCompressFinish string string int
  | HCompress string
  | HSwapOut string
  | HSwapIn string
  | HManage int
  | HWire
  | HRestart

text \<open>
  \<open>HCompressFinish\<close> is the second step of a compression whose first step read the given content and
  token count at an earlier moment. \<open>HRestart\<close> builds the heap anew from its directory.
\<close>

fun heap_step :: "(string \<Rightarrow> string option) \<Rightarrow> heap_op \<Rightarrow> heap \<Rightarrow> heap" where
  "heap_step llm (HAlloc now k c p ttl e) h = heap_alloc now k c p ttl e h"
| "heap_step llm (HRead t1 t2 k) h = fst (heap_read t1 t2 k h)"
| "heap_step llm (HFree k) h = fst (heap_free k h)"
| "heap_step llm (HGc now) h = fst (heap_gc now h)"
| "heap_step llm (HCompressFinish k c n) h = fst (compress_finish llm k c n h)"
| "heap_step llm (HCompress k) h = fst (heap_compress llm k h)"
| "heap_step llm (HSwapOut k) h = fst (heap_swap_out k h)"
| "heap_step llm (HSwapIn k) h = fst (heap_swap_in k h)"
| "heap_step llm (HManage budget) h = fst (heap_auto_manage llm budget h)"
| "heap_step llm HWire h = h\<lparr>h_events := True\<rparr>"
| "heap_step llm HRestart h = heap_load (h_agent h) (h_dir h) (h_events h) (h_index h) (h_files h)"

definition heap_after :: "(string \<Rightarrow> string option) \<Rightarrow> string \<Rightarrow> string \<Rightarrow> heap_op list \<Rightarrow> heap" where
  "heap_after llm agent_id dir ops = run_ops (heap_step llm) ops (heap_load agent_id dir False None [])"

section \<open>Well-formedness\<close>

text \<open>
  A slot is well-formed: it is stored under its key, its token count is that of its content unless it is
  swapped, its file is one of its own two, and if it is swapped that file exists.
\<close>

definition slot_ok :: "string \<Rightarrow> (string, string) dict \<Rightarrow> string \<Rightarrow> mem_obj \<Rightarrow> bool" where
  "slot_ok dir files k obj =
     (o_key obj = k \<and> (\<not> o_swapped obj \<longrightarrow> o_tokens obj = count_tokens (o_content obj)) \<and>
      0 \<le> o_priority obj \<and> o_priority obj \<le> 10 \<and>
      (case o_disk obj of None \<Rightarrow> \<not> o_swapped obj
       | Some p \<Rightarrow> (p = swap_path dir k \<or> p = original_path dir k) \<and>
                   (o_swapped obj \<longrightarrow> dict_get files p \<noteq> None)))"

definition slots_ok :: "string \<Rightarrow> (string, string) dict \<Rightarrow> (string, mem_obj) dict \<Rightarrow> bool" where
  "slots_ok dir files d = (wf_dict d \<and> (\<forall>k obj. dict_get d k = Some obj \<longrightarrow> slot_ok dir files k obj))"

text \<open>The index file holds the slots as they are, but for the time of the last read.\<close>

definition unread :: "mem_obj \<Rightarrow> mem_obj" where
  "unread obj = obj\<lparr>o_last_read := 0\<rparr>"

definition saved :: "heap \<Rightarrow> bool" where
  "saved h = (dict_map (\<lambda>_ obj. unread obj) (case h_index h of None \<Rightarrow> [] | Some d \<Rightarrow> d) =
              dict_map (\<lambda>_ obj. unread obj) (h_objs h))"

definition heap_wf :: "heap \<Rightarrow> bool" where
  "heap_wf h = (slots_ok (h_dir h) (h_files h) (h_objs h) \<and> saved h)"

lemma paths_differ [simp]:
  "swap_path dir k = swap_path dir k' \<longleftrightarrow> k = k'"
  "original_path dir k = original_path dir k' \<longleftrightarrow> k = k'"
  "swap_path dir k \<noteq> original_path dir k'"
  "original_path dir k \<noteq> swap_path dir k'"
  "swap_path dir k \<noteq> []" "original_path dir k \<noteq> []"
proof -
  have "last (swap_path dir k) \<noteq> last (original_path dir k')" for k k'
    by (simp add: swap_path_def original_path_def)
  then show "swap_path dir k \<noteq> original_path dir k'" "original_path dir k \<noteq> swap_path dir k'"
    by metis+
qed (simp_all add: swap_path_def original_path_def)
lemma saved_save: "saved (heap_save h)"
  by (simp add: saved_def heap_save_def)

lemma heap_save_fields [simp]:
  "h_objs (heap_save h) = h_objs h" "h_files (heap_save h) = h_files h" "h_dir (heap_save h) = h_dir h"
  "h_agent (heap_save h) = h_agent h" "h_events (heap_save h) = h_events h"
  by (simp_all add: heap_save_def)

lemma heap_upd_fields [simp]:
  "h_objs (heap_upd k f h) = dict_upd k f (h_objs h)" "h_files (heap_upd k f h) = h_files h"
  "h_dir (heap_upd k f h) = h_dir h" "h_index (heap_upd k f h) = h_index h" "h_agent (heap_upd k f h) = h_agent h"
  by (simp_all add: heap_upd_def)

lemma heap_wf_save: "slots_ok (h_dir h) (h_files h) (h_objs h) \<Longrightarrow> heap_wf (heap_save h)"
  by (simp add: heap_wf_def saved_save)

lemma unread_touch [simp]: "unread (obj\<lparr>o_last_read := t\<rparr>) = unread obj"
  by (simp add: unread_def)

lemma dict_map_upd: "(\<And>v. g (f v) = g v) \<Longrightarrow> dict_map (\<lambda>_. g) (dict_upd k f d) = dict_map (\<lambda>_. g) d"
  by (auto simp: dict_map_def dict_upd_def)

lemma slot_ok_touch [simp]: "slot_ok dir files k (obj\<lparr>o_last_read := t\<rparr>) = slot_ok dir files k obj"
  by (simp add: slot_ok_def split: option.splits)
lemma slots_ok_set: "slots_ok dir files d \<Longrightarrow> slot_ok dir files k obj \<Longrightarrow> slots_ok dir files (dict_set k obj d)"
  by (simp add: slots_ok_def)

lemma slots_ok_upd:
  "slots_ok dir files d \<Longrightarrow> (\<And>obj. dict_get d k = Some obj \<Longrightarrow> slot_ok dir files k obj \<Longrightarrow> slot_ok dir files k (f obj))
    \<Longrightarrow> slots_ok dir files (dict_upd k f d)"
  by (auto simp: slots_ok_def)

lemma heap_wf_touch: "heap_wf h \<Longrightarrow> heap_wf (heap_upd k (\<lambda>obj. obj\<lparr>o_last_read := t\<rparr>) h)"
  by (simp add: heap_wf_def saved_def dict_map_upd slots_ok_upd)

lemma slot_ok_file: "slot_ok dir files k obj \<Longrightarrow> slot_ok dir (dict_set p c files) k obj"
  by (auto simp: slot_ok_def split: option.splits)

lemma slots_ok_file: "slots_ok dir files d \<Longrightarrow> slots_ok dir (dict_set p c files) d"
  by (auto simp: slots_ok_def intro: slot_ok_file)

lemma slots_ok_drop:
  assumes "slots_ok dir files d" and "dict_get d k = Some obj"
  shows "slots_ok dir (drop_file obj files) (dict_del k d)"
proof -
  have "slot_ok dir (drop_file obj files) j b" if "dict_get d j = Some b" "j \<noteq> k" for j b
  proof -
    have "slot_ok dir files j b" "slot_ok dir files k obj" using assms that by (auto simp: slots_ok_def)
    with that(2) show ?thesis
      by (auto simp: slot_ok_def drop_file_def split: option.splits)
  qed
  with assms(1) show ?thesis by (auto simp: slots_ok_def)
qed

lemma heap_wf_alloc: "heap_wf h \<Longrightarrow> heap_wf (heap_alloc now k c p ttl e h)"
  by (auto simp: heap_alloc_def heap_wf_def new_obj_def slot_ok_def saved_save intro!: slots_ok_set)

lemma slot_ok_loaded: "slot_ok dir files k obj \<Longrightarrow> slot_ok dir files k (loaded c obj)"
  by (auto simp: slot_ok_def loaded_def split: option.splits)

lemma heap_wf_drop:
  "heap_wf h \<Longrightarrow> dict_get (h_objs h) k = Some obj
    \<Longrightarrow> slots_ok (h_dir h) (drop_file obj (h_files h)) (dict_del k (h_objs h))"
  by (simp add: heap_wf_def slots_ok_drop)

lemma slots_ok_del: "slots_ok dir files d \<Longrightarrow> slots_ok dir files (dict_del k d)"
  by (simp add: slots_ok_def)

lemma heap_wf_read: "heap_wf h \<Longrightarrow> heap_wf (fst (heap_read t1 t2 k h))"
proof -
  assume wf: "heap_wf h"
  then have ok: "slots_ok (h_dir h) (h_files h) (h_objs h)" by (simp add: heap_wf_def)
  then have "heap_wf (heap_save (h\<lparr>h_objs := dict_del k (h_objs h)\<rparr>))"
    "heap_wf (heap_save (heap_upd k (loaded c) h))" for c
    by (auto intro!: heap_wf_save slots_ok_del slots_ok_upd slot_ok_loaded)
  with wf show ?thesis
    by (auto simp: heap_read_def intro: heap_wf_touch split: option.splits)
qed

lemma heap_wf_free: "heap_wf h \<Longrightarrow> heap_wf (fst (heap_free k h))"
  by (auto simp: heap_free_def heap_wf_drop intro!: heap_wf_save split: option.splits)

lemma gc_one_wf:
  "slots_ok (h_dir (fst st)) (h_files (fst st)) (h_objs (fst st)) \<Longrightarrow>
   slots_ok (h_dir (fst (gc_one st k))) (h_files (fst (gc_one st k))) (h_objs (fst (gc_one st k)))"
  by (auto simp: gc_one_def slots_ok_drop split: option.splits prod.splits)

lemma heap_wf_gc: "heap_wf h \<Longrightarrow> heap_wf (fst (heap_gc now h))"
proof -
  assume wf: "heap_wf h"
  have "slots_ok (h_dir (fst (foldl gc_one (h, 0) ks))) (h_files (fst (foldl gc_one (h, 0) ks)))
      (h_objs (fst (foldl gc_one (h, 0) ks)))" for ks
    by (rule foldl_keeps [where P = "\<lambda>st. slots_ok (h_dir (fst st)) (h_files (fst st)) (h_objs (fst st))"])
      (use wf in \<open>auto simp: heap_wf_def intro: gc_one_wf\<close>)
  then have "heap_wf (heap_save (fst (foldl gc_one (h, 0) ks)))" for ks
    by (rule heap_wf_save)
  with wf show ?thesis by (auto simp: heap_gc_def Let_def split_beta)
qed

lemma heap_wf_finish: "heap_wf h \<Longrightarrow> heap_wf (fst (compress_finish llm k c n h))"
proof -
  assume wf: "heap_wf h"
  let ?p = "original_path (h_dir h) k"
  let ?files = "dict_set ?p c (h_files h)"
  have ok: "slots_ok (h_dir h) ?files (h_objs h)" using wf by (simp add: heap_wf_def slots_ok_file)
  then have "heap_wf (h\<lparr>h_files := ?files\<rparr>)" using wf by (simp add: heap_wf_def saved_def)
  moreover have "slots_ok (h_dir h) ?files (dict_upd k (compressed_obj s ?p) (h_objs h))" for s
    using ok by (rule slots_ok_upd) (auto simp: slot_ok_def compressed_obj_def)
  then have "heap_wf (heap_save (heap_upd k (compressed_obj s ?p) (h\<lparr>h_files := ?files\<rparr>)))" for s
    by (intro heap_wf_save) simp
  ultimately show ?thesis by (simp add: compress_finish_def Let_def)
qed

lemma heap_wf_compress: "heap_wf h \<Longrightarrow> heap_wf (fst (heap_compress llm k h))"
  by (auto simp: heap_compress_def heap_wf_finish split: sum.splits)

lemma heap_wf_swap_out: "heap_wf h \<Longrightarrow> heap_wf (fst (heap_swap_out k h))"
proof -
  assume wf: "heap_wf h"
  let ?p = "swap_path (h_dir h) k"
  have "slots_ok (h_dir h) (dict_set ?p c (h_files h)) (dict_upd k (swapped_obj ?p) (h_objs h))" for c
    by (rule slots_ok_upd [OF slots_ok_file])
      (use wf in \<open>auto simp: heap_wf_def slot_ok_def swapped_obj_def\<close>)
  then have "heap_wf (heap_save (heap_upd k (swapped_obj ?p) (h\<lparr>h_files := dict_set ?p c (h_files h)\<rparr>)))" for c
    by (intro heap_wf_save) simp
  with wf show ?thesis by (auto simp: heap_swap_out_def split: option.splits)
qed

lemma heap_wf_swap_in: "heap_wf h \<Longrightarrow> heap_wf (fst (heap_swap_in k h))"
  by (auto simp: heap_swap_in_def heap_wf_def [of h] intro!: heap_wf_save slots_ok_upd slot_ok_loaded split: option.splits)

lemma compress_all_keeps:
  assumes "P h" and "\<And>h k. P h \<Longrightarrow> P (fst (heap_compress llm k h))"
  shows "P (fst (compress_all llm ks h))"
  unfolding compress_all_def
  by (rule foldl_keeps [where P = "\<lambda>st. P (fst st)"]) (use assms in \<open>simp_all add: compress_one_def split_beta Let_def\<close>)

lemma swap_all_keeps:
  assumes "P h" and "\<And>h k. P h \<Longrightarrow> P (fst (heap_swap_out k h))"
  shows "P (fst (swap_all ks h))"
  unfolding swap_all_def
  by (rule foldl_keeps [where P = "\<lambda>st. P (fst st)"]) (use assms in \<open>simp_all add: swap_one_def split_beta Let_def\<close>)
lemma heap_manage_keeps:
  assumes "P h" and "\<And>h k. P h \<Longrightarrow> P (fst (heap_compress llm k h))" and "\<And>h k. P h \<Longrightarrow> P (fst (heap_swap_out k h))"
  shows "P (fst (heap_auto_manage llm budget h))"
  using compress_all_keeps [of P, OF assms(1,2)] swap_all_keeps [of P, OF _ assms(3)]
  by (auto simp: heap_auto_manage_def Let_def split_beta assms(1))

lemma heap_wf_manage: "heap_wf h \<Longrightarrow> heap_wf (fst (heap_auto_manage llm budget h))"
  by (rule heap_manage_keeps [of heap_wf]) (auto intro: heap_wf_compress heap_wf_swap_out)

text \<open>Reading back an index file gives the slots it holds.\<close>

lemma load_slots:
  assumes "distinct (keys (e @ d))" and "\<And>k obj. (k, obj) \<in> set d \<Longrightarrow> o_key obj = k"
  shows "foldl (\<lambda>os (k, obj). dict_set (o_key obj) obj os) e d = e @ d"
  using assms
proof (induction d arbitrary: e)
  case (Cons x d)
  obtain k obj where x: "x = (k, obj)" by (cases x)
  with Cons.prems(2) [of k obj] have "o_key obj = k" by simp
  with Cons.prems(1) have "dict_set (o_key obj) obj e = e @ [(k, obj)]"
    by (auto simp: x dict_set_new)
  moreover have "foldl (\<lambda>os (k, obj). dict_set (o_key obj) obj os) (e @ [(k, obj)]) d = (e @ [(k, obj)]) @ d"
  proof (rule Cons.IH)
    show "distinct (keys ((e @ [(k, obj)]) @ d))" using Cons.prems(1) by (simp add: x)
    show "o_key b = j" if "(j, b) \<in> set d" for j b using that by (intro Cons.prems(2)) simp
  qed
  ultimately show ?case by (simp add: x)
qed simp

lemma index_of_saved:
  assumes "heap_wf h"
  shows "\<exists>d. (case h_index h of None \<Rightarrow> [] | Some d \<Rightarrow> d) = d \<and> dict_map (\<lambda>_ obj. unread obj) d = dict_map (\<lambda>_ obj. unread obj) (h_objs h)
    \<and> slots_ok (h_dir h) (h_files h) d"
proof -
  let ?d = "case h_index h of None \<Rightarrow> [] | Some d \<Rightarrow> d"
  have same: "dict_map (\<lambda>_ obj. unread obj) ?d = dict_map (\<lambda>_ obj. unread obj) (h_objs h)"
    using assms by (simp add: heap_wf_def saved_def)
  have "wf_dict ?d" using arg_cong [OF same, of wf_dict] assms by (simp add: heap_wf_def slots_ok_def)
  moreover have "slot_ok (h_dir h) (h_files h) k obj" if "dict_get ?d k = Some obj" for k obj
  proof -
    have "map_option unread (dict_get (h_objs h) k) = Some (unread obj)"
      using arg_cong [OF same, of "\<lambda>d. dict_get d k"] that by simp
    then obtain b where "dict_get (h_objs h) k = Some b" "unread b = unread obj" by auto
    moreover have "slot_ok dir files k obj = slot_ok dir files k (unread obj)" for dir files obj
      by (simp add: unread_def)
    ultimately show ?thesis using assms by (metis heap_wf_def slots_ok_def)
  qed
  ultimately show ?thesis using same by (auto simp: slots_ok_def)
qed

lemma heap_load_objs:
  assumes "heap_wf h"
  shows "h_objs (heap_load a dir ev (h_index h) files) = (case h_index h of None \<Rightarrow> [] | Some d \<Rightarrow> d)"
proof -
  obtain d where d: "(case h_index h of None \<Rightarrow> [] | Some d \<Rightarrow> d) = d" "slots_ok (h_dir h) (h_files h) d"
    using index_of_saved [OF assms] by blast
  then have "foldl (\<lambda>os (k, obj). dict_set (o_key obj) obj os) [] d = [] @ d"
    by (intro load_slots) (auto simp: slots_ok_def wf_dict_def slot_ok_def)
  with d(1) show ?thesis by (cases "h_index h") (auto simp: heap_load_def)
qed

lemma heap_wf_restart:
  assumes "heap_wf h"
  shows "heap_wf (heap_load a (h_dir h) ev (h_index h) (h_files h))"
  using index_of_saved [OF assms] heap_load_objs [OF assms]
  by (auto simp: heap_wf_def saved_def) (auto simp: heap_load_def)

lemma heap_step_wf: "heap_wf h \<Longrightarrow> heap_wf (heap_step llm x h)"
  by (cases x) (simp_all add: heap_wf_alloc heap_wf_read heap_wf_free heap_wf_gc heap_wf_finish heap_wf_compress
      heap_wf_swap_out heap_wf_swap_in heap_wf_manage heap_wf_restart, simp add: heap_wf_def saved_def)

interpretation heap_sys: op_system "heap_step llm" heap_wf for llm
  by unfold_locales (rule heap_step_wf)

lemma heap_after_wf: "heap_wf (heap_after llm a dir ops)"
  unfolding heap_after_def
  by (rule heap_sys.inv_run) (simp add: heap_load_def heap_wf_def slots_ok_def saved_def)

section \<open>What a heap holds\<close>

text \<open>
  The abstract heap: the content of every slot, wherever it is kept. Allocation, freeing and
  restarting are described on it, and swapping must not change it.
\<close>

definition slot_content :: "(string, string) dict \<Rightarrow> mem_obj \<Rightarrow> string" where
  "slot_content files obj =
     (if o_swapped obj then (case o_disk obj of None \<Rightarrow> [] | Some p \<Rightarrow> dict_get_or [] files p) else o_content obj)"

definition heap_view :: "heap \<Rightarrow> string \<Rightarrow> string option" where
  "heap_view h k = map_option (slot_content (h_files h)) (dict_get (h_objs h) k)"

lemma slot_content_other:
  assumes "slot_ok dir files j b" and "p = swap_path dir k \<or> p = original_path dir k" and "j \<noteq> k"
  shows "slot_content (dict_set p c files) b = slot_content files b"
    "slot_content (dict_del p files) b = slot_content files b"
proof -
  have "q \<noteq> p" if "o_disk b = Some q" for q
    using assms that by (auto simp: slot_ok_def)
  then show "slot_content (dict_set p c files) b = slot_content files b"
    "slot_content (dict_del p files) b = slot_content files b"
    by (auto simp: slot_content_def dict_get_or_def split: option.splits)
qed

lemma heap_slot: "heap_wf h \<Longrightarrow> dict_get (h_objs h) k = Some obj \<Longrightarrow> slot_ok (h_dir h) (h_files h) k obj"
  by (simp add: heap_wf_def slots_ok_def)

lemma slot_content_simps [simp]:
  "\<not> o_swapped obj \<Longrightarrow> slot_content files obj = o_content obj"
  "slot_content (dict_set p c files) (swapped_obj p obj) = c"
  "slot_content files (loaded c obj) = c"
  "slot_content files (obj\<lparr>o_last_read := t\<rparr>) = slot_content files obj"
  by (simp_all add: slot_content_def swapped_obj_def loaded_def split: option.splits)

lemma view_alloc: "heap_view (heap_alloc now k c p ttl e h) j = (if j = k then Some c else heap_view h j)"
  by (simp add: heap_view_def heap_alloc_def new_obj_def slot_content_def)

lemma view_free:
  assumes "heap_wf h"
  shows "heap_view (fst (heap_free k h)) j = (if j = k then None else heap_view h j)"
proof (cases "dict_get (h_objs h) k")
  case None
  then show ?thesis by (simp add: heap_free_def heap_view_def)
next
  case (Some obj)
  have "slot_content (drop_file obj (h_files h)) b = slot_content (h_files h) b"
    if "dict_get (h_objs h) j = Some b" "j \<noteq> k" for b
    using heap_slot [OF assms that(1)] heap_slot [OF assms Some] that(2)
    by (auto simp: drop_file_def slot_ok_def [of _ _ k] slot_content_other split: option.splits)
  with Some show ?thesis
    by (cases "dict_get (h_objs h) j") (auto simp: heap_free_def heap_view_def)
qed

interpretation heap_store: keyed_store heap_view "\<lambda>k c. heap_alloc now k c p ttl e" "\<lambda>k h. fst (heap_free k h)" heap_wf
  for now p ttl e
  by unfold_locales (simp_all add: view_alloc view_free heap_wf_alloc heap_wf_free)

lemma view_swap_out:
  assumes "heap_wf h"
  shows "heap_view (fst (heap_swap_out k h)) j = heap_view h j"
proof (cases "dict_get (h_objs h) k")
  case None
  then show ?thesis by (simp add: heap_swap_out_def)
next
  case (Some obj)
  have "slot_content (dict_set (swap_path (h_dir h) k) c (h_files h)) b = slot_content (h_files h) b"
    if "dict_get (h_objs h) j = Some b" "j \<noteq> k" for b c
    using slot_content_other [OF heap_slot [OF assms that(1)] _ that(2)] by simp
  with Some show ?thesis
    by (cases "o_swapped obj"; cases "dict_get (h_objs h) j") (auto simp: heap_swap_out_def heap_view_def)
qed

lemma swapped_on_disk:
  assumes "heap_wf h" and "dict_get (h_objs h) k = Some obj" and "o_swapped obj"
  shows "disk_content h obj = Some (slot_content (h_files h) obj)"
  using heap_slot [OF assms(1,2)] assms(3)
  by (auto simp: slot_ok_def disk_content_def slot_content_def dict_get_or_def split: option.splits)

lemma view_swap_in:
  assumes "heap_wf h"
  shows "heap_view (fst (heap_swap_in k h)) j = heap_view h j"
proof (cases "dict_get (h_objs h) k")
  case None
  then show ?thesis by (simp add: heap_swap_in_def)
next
  case (Some obj)
  with swapped_on_disk [OF assms Some] show ?thesis
    by (cases "o_swapped obj"; cases "j = k") (simp_all add: heap_swap_in_def heap_view_def)
qed

lemma view_touch: "heap_view (heap_upd k (\<lambda>obj. obj\<lparr>o_last_read := t\<rparr>) h) j = heap_view h j"
  by (cases "dict_get (h_objs h) k") (simp_all add: heap_view_def)

lemma heap_read_result:
  assumes "heap_wf h" and "dict_get (h_objs h) k = Some obj" and "\<not> expired t1 obj"
  shows "snd (heap_read t1 t2 k h) = Inr (slot_content (h_files h) obj) \<and>
    heap_view (fst (heap_read t1 t2 k h)) j = heap_view h j"
proof (cases "o_swapped obj")
  case True
  let ?c = "slot_content (h_files h) obj"
  have "heap_view (heap_save (heap_upd k (loaded ?c) h)) j = heap_view h j"
    using view_swap_in [OF assms(1), of k j] assms(2) True swapped_on_disk [OF assms(1,2) True]
    by (simp add: heap_swap_in_def)
  with True assms(2,3) swapped_on_disk [OF assms(1,2) True] show ?thesis
    by (simp add: heap_read_def view_touch)
next
  case False
  with assms(2,3) show ?thesis by (simp add: heap_read_def view_touch)
qed

lemma view_restart:
  assumes "heap_wf h"
  shows "heap_view (heap_load a dir ev (h_index h) (h_files h)) k = heap_view h k"
proof -
  obtain d where d: "(case h_index h of None \<Rightarrow> [] | Some d \<Rightarrow> d) = d"
      "dict_map (\<lambda>_ obj. unread obj) d = dict_map (\<lambda>_ obj. unread obj) (h_objs h)"
    using index_of_saved [OF assms] by blast
  have "map_option unread (dict_get d k) = map_option unread (dict_get (h_objs h) k)"
    using arg_cong [OF d(2), of "\<lambda>d. dict_get d k"] by simp
  moreover have "slot_content files obj = slot_content files (unread obj)" for files obj
    by (simp add: slot_content_def unread_def)
  then have "map_option (slot_content files) w = map_option (slot_content files) (map_option unread w)" for files w
    by (cases w) simp_all
  moreover have "h_files (heap_load a dir ev (h_index h) (h_files h)) = h_files h" by (simp add: heap_load_def)
  ultimately show ?thesis
    using heap_load_objs [OF assms] d(1) by (metis heap_view_def)
qed

section \<open>Properties\<close>



text \<open>
  token accounting: in every reachable state the total of \<open>heap_stats\<close> is the sum of the token
  counts of the contents held in memory, and every slot's priority is between 0 and 10.
\<close>

theorem heap_tokens_correct:
  "let h = heap_after llm a dir ops in
   hs_tokens (heap_stats h) =
     sum_list (map (\<lambda>ob. count_tokens (o_content ob)) (filter (\<lambda>ob. \<not> o_swapped ob) (vals (h_objs h)))) \<and>
   list_all (\<lambda>ob. 0 \<le> o_priority ob \<and> o_priority ob \<le> 10) (vals (h_objs h))"
proof -
  let ?h = "heap_after llm a dir ops"
  have ok: "slot_ok (h_dir ?h) (h_files ?h) k ob" if "(k, ob) \<in> set (h_objs ?h)" for k ob
    using heap_after_wf [of llm a dir ops] in_dict_get [OF _ that] by (simp add: heap_wf_def slots_ok_def)
  have "sum_list (map o_tokens (filter (\<lambda>ob. \<not> o_swapped ob) (vals (h_objs ?h)))) =
      sum_list (map (\<lambda>ob. count_tokens (o_content ob)) (filter (\<lambda>ob. \<not> o_swapped ob) (vals (h_objs ?h))))"
    by (rule arg_cong [where f = sum_list], rule map_cong) (auto simp: slot_ok_def dest: ok)
  moreover have "0 \<le> o_priority ob \<and> o_priority ob \<le> 10" if "ob \<in> set (vals (h_objs ?h))" for ob
    using that ok by (auto simp: slot_ok_def)
  ultimately show ?thesis
    by (simp add: heap_stats_def Let_def list_all_iff)
qed

section \<open>Garbage collection\<close>

lemma gc_one_view:
  assumes "slots_ok (h_dir h) (h_files h) (h_objs h)"
  shows "heap_view (fst (gc_one (h, n) k)) j = (if j = k then None else heap_view h j)"
proof -
  have wf: "heap_wf (heap_save h)" by (rule heap_wf_save [OF assms])
  have save: "heap_view (heap_save g) j = heap_view g j" for g by (simp add: heap_view_def)
  show ?thesis
  proof (cases "dict_get (h_objs h) k")
    case None
    then show ?thesis by (simp add: gc_one_def heap_view_def)
  next
    case (Some obj)
    then have "fst (heap_free k (heap_save h)) = heap_save (fst (gc_one (h, n) k))"
      by (simp add: heap_free_def gc_one_def heap_save_def)
    with view_free [OF wf, of k j] show ?thesis by (simp only: save)
  qed
qed

lemma gc_fold:
  assumes "slots_ok (h_dir h) (h_files h) (h_objs h)" and "distinct ks" and "set ks \<subseteq> set (keys (h_objs h))"
  shows "heap_view (fst (foldl gc_one (h, n) ks)) j = (if j \<in> set ks then None else heap_view h j) \<and>
     snd (foldl gc_one (h, n) ks) = n + sum_list (map (\<lambda>k. o_tokens (the (dict_get (h_objs h) k))) ks) \<and>
     h_objs (fst (foldl gc_one (h, n) ks)) = filter (\<lambda>(k, v). k \<notin> set ks) (h_objs h)"
  using assms
proof (induction ks arbitrary: h n)
  case Nil
  then show ?case by (simp add: split_beta)
next
  case (Cons k ks)
  obtain obj where obj: "dict_get (h_objs h) k = Some obj"
    using Cons.prems(3) dict_get_None [of "h_objs h" k] by auto
  let ?h = "h\<lparr>h_objs := dict_del k (h_objs h), h_files := drop_file obj (h_files h)\<rparr>"
  have one: "gc_one (h, n) k = (?h, n + o_tokens obj)" by (simp add: gc_one_def obj)
  have ok: "slots_ok (h_dir ?h) (h_files ?h) (h_objs ?h)"
    using slots_ok_drop [OF Cons.prems(1) obj] by simp
  have sub: "set ks \<subseteq> set (keys (h_objs ?h))"
    using Cons.prems(2,3) keys_del [of k "h_objs h"] by (auto simp del: set_map)
  have view: "heap_view ?h j = (if j = k then None else heap_view h j)"
    using gc_one_view [OF Cons.prems(1), of n k j] by (simp add: one)
  have objs: "filter (\<lambda>(k, v). k \<notin> set ks) (dict_del k (h_objs h)) = filter (\<lambda>(j, v). j \<notin> set (k # ks)) (h_objs h)"
    by (simp add: AList.delete_eq) (rule filter_cong, auto)
  have toks: "sum_list (map (\<lambda>i. o_tokens (the (dict_get (dict_del k (h_objs h)) i))) ks) =
      sum_list (map (\<lambda>i. o_tokens (the (dict_get (h_objs h) i))) ks)"
    using Cons.prems(2) by (intro arg_cong [where f = sum_list] map_cong) auto
  define g where "g = ?h"
  let ?st = "foldl gc_one (g, n + o_tokens obj) ks"
  have g: "h_objs g = dict_del k (h_objs h)" by (simp add: g_def)
  have dist: "distinct ks" using Cons.prems(2) by simp
  note ih = Cons.IH [OF ok dist sub, folded g_def, of "n + o_tokens obj"]
  have step: "foldl gc_one (h, n) (k # ks) = ?st" by (simp add: one g_def)
  have "heap_view (fst ?st) j = (if j \<in> set (k # ks) then None else heap_view h j)"
    using ih view by (cases "j = k") (simp_all add: g_def [symmetric])
  moreover have "snd ?st = n + sum_list (map (\<lambda>k. o_tokens (the (dict_get (h_objs h) k))) (k # ks))"
    using ih unfolding g toks by (simp add: obj)
  moreover have "h_objs (fst ?st) = filter (\<lambda>(j, v). j \<notin> set (k # ks)) (h_objs h)"
    using ih unfolding g objs by blast
  ultimately show ?case unfolding step by blast
qed

text \<open>
  garbage collection is exact: in every reachable state it removes the slots whose expiry has
  passed, in order, and no other; the contents of the others are unchanged; and it reports the
  removed keys and the sum of their token counts.
\<close>

theorem heap_gc_exact:
  "let h = heap_after llm a dir ops; (h', effs, freed, tokens) = heap_gc now h in
   freed = map fst (filter (\<lambda>(k, ob). expired now ob) (h_objs h)) \<and>
   keys (h_objs h') = filter (\<lambda>k. k \<notin> set freed) (keys (h_objs h)) \<and>
   heap_view h' j = (if j \<in> set freed then None else heap_view h j) \<and>
   tokens = sum_list (map (\<lambda>(k, ob). o_tokens ob) (filter (\<lambda>(k, ob). expired now ob) (h_objs h)))"
proof -
  let ?h = "heap_after llm a dir ops"
  let ?ks = "map fst (filter (\<lambda>(k, ob). expired now ob) (h_objs ?h))"
  have ok: "slots_ok (h_dir ?h) (h_files ?h) (h_objs ?h)"
    using heap_after_wf [of llm a dir ops] by (simp add: heap_wf_def)
  then have wfd: "wf_dict (h_objs ?h)" by (simp add: slots_ok_def)
  then have dist: "distinct ?ks" by (simp add: wf_dict_def distinct_map_filter)
  have sub: "set ?ks \<subseteq> set (keys (h_objs ?h))" by auto
  define st where "st = foldl gc_one (?h, 0) ?ks"
  note fold = gc_fold [OF ok dist sub, of 0 j, folded st_def]
  have toks: "map (\<lambda>k. o_tokens (the (dict_get (h_objs ?h) k))) ?ks =
      map (\<lambda>(k, ob). o_tokens ob) (filter (\<lambda>(k, ob). expired now ob) (h_objs ?h))"
    using in_dict_get [OF wfd] by auto
  have ks: "keys (filter (\<lambda>(k, v). k \<notin> A) d) = filter (\<lambda>k. k \<notin> A) (keys d)" for A and d :: "(string, mem_obj) dict"
    by (induction d) auto
  have "heap_view (heap_save h) j = heap_view h j" for h by (simp add: heap_view_def)
  moreover have "heap_gc now ?h =
      (let h2 = (if ?ks \<noteq> [] then heap_save (fst st) else fst st)
       in (h2, heap_emit h2 ''memory.gc_complete''
            [(''agent_id'', PStr (h_agent ?h)), (''freed_keys'', py_strs ?ks), (''freed_tokens'', PInt (snd st))], ?ks, snd st))"
    by (simp add: heap_gc_def st_def split_beta Let_def)
  ultimately show ?thesis
    using fold unfolding toks by (simp add: Let_def ks)
qed

section \<open>Automatic management\<close>

lemma compress_other:
  assumes "heap_wf h" and "j \<noteq> k"
  shows "dict_get (h_objs (fst (heap_compress llm k h))) j = dict_get (h_objs h) j"
    "heap_view (fst (heap_compress llm k h)) j = heap_view h j"
proof -
  have "slot_content (dict_set (original_path (h_dir h) k) c (h_files h)) b = slot_content (h_files h) b"
    if "dict_get (h_objs h) j = Some b" for b c
    using slot_content_other [OF heap_slot [OF assms(1) that] _ assms(2)] by simp
  with assms(2) show "dict_get (h_objs (fst (heap_compress llm k h))) j = dict_get (h_objs h) j"
    "heap_view (fst (heap_compress llm k h)) j = heap_view h j"
    by (cases "dict_get (h_objs h) j";
        auto simp: heap_compress_def compress_finish_def Let_def heap_view_def split: sum.splits)+
qed

lemma compress_all_other:
  assumes "heap_wf h" and "j \<notin> set ks"
  shows "heap_wf (fst (compress_all llm ks h)) \<and>
    dict_get (h_objs (fst (compress_all llm ks h))) j = dict_get (h_objs h) j \<and>
    heap_view (fst (compress_all llm ks h)) j = heap_view h j"
proof -
  have "heap_wf (fst st) \<Longrightarrow> j \<notin> set ks \<Longrightarrow>
      heap_wf (fst (foldl (compress_one llm) st ks)) \<and>
      dict_get (h_objs (fst (foldl (compress_one llm) st ks))) j = dict_get (h_objs (fst st)) j \<and>
      heap_view (fst (foldl (compress_one llm) st ks)) j = heap_view (fst st) j" for st
  proof (induction ks arbitrary: st)
    case (Cons k ks)
    have "fst (compress_one llm st k) = fst (heap_compress llm k (fst st))"
      by (simp add: compress_one_def split_beta Let_def)
    with Cons.IH [of "compress_one llm st k"] Cons.prems show ?case
      by (simp add: heap_wf_compress compress_other)
  qed simp
  from this [of "(h, [], [])"] assms show ?thesis by (simp add: compress_all_def)
qed

lemma swap_all_other:
  assumes "heap_wf h"
  shows "heap_view (fst (swap_all ks h)) j = heap_view h j \<and>
    (j \<notin> set ks \<longrightarrow> dict_get (h_objs (fst (swap_all ks h))) j = dict_get (h_objs h) j)"
proof -
  have "heap_wf (fst st) \<Longrightarrow> heap_view (fst (foldl swap_one st ks)) j = heap_view (fst st) j \<and>
      (j \<notin> set ks \<longrightarrow> dict_get (h_objs (fst (foldl swap_one st ks))) j = dict_get (h_objs (fst st)) j)" for st
  proof (induction ks arbitrary: st)
    case (Cons k ks)
    have "fst (swap_one st k) = fst (heap_swap_out k (fst st))"
      by (simp add: swap_one_def split_beta Let_def)
    moreover have "dict_get (h_objs (fst (heap_swap_out k h))) j = dict_get (h_objs h) j" if "j \<noteq> k" for h
      using that by (auto simp: heap_swap_out_def split: option.splits)
    ultimately show ?case
      using Cons.IH [of "swap_one st k"] Cons.prems by (simp add: heap_wf_swap_out view_swap_out)
  qed simp
  from this [of "(h, [], [])"] assms show ?thesis by (simp add: swap_all_def)
qed

lemma quartile_members:
  assumes "heap_wf h" and "k \<in> set (quartile (by_priority (filter P (vals (h_objs h)))))"
  shows "\<exists>obj. dict_get (h_objs h) k = Some obj \<and> P obj"
proof -
  obtain obj where "obj \<in> set (by_priority (filter P (vals (h_objs h))))" and k: "o_key obj = k"
    using assms(2) by (auto simp: quartile_def dest: in_set_takeD)
  then have "obj \<in> set (vals (h_objs h))" "P obj" by (auto simp: by_priority_def)
  moreover then obtain j where "(j, obj) \<in> set (h_objs h)" by auto
  then have "dict_get (h_objs h) j = Some obj"
    using assms(1) by (intro in_dict_get) (simp_all add: heap_wf_def slots_ok_def)
  moreover from heap_slot [OF assms(1) this] have "o_key obj = j" by (simp add: slot_ok_def)
  ultimately show ?thesis using k by auto
qed

text \<open>
  automatic management is safe: in every reachable state, whatever the budget and the answers of
  the language model, no slot appears or disappears, a slot that is not eligible for compression keeps
  its content, and if its priority is at least 5 it is not touched at all.
\<close>

theorem heap_auto_manage_safe:
  "let h = heap_after llm a dir ops; h' = fst (heap_auto_manage llm budget h) in
   keys (h_objs h') = keys (h_objs h) \<and>
   (case dict_get (h_objs h) j of
      None \<Rightarrow> True
    | Some obj \<Rightarrow>
        if o_eligible obj then True
        else heap_view h' j = heap_view h j \<and>
             (if o_priority obj < 5 then True else dict_get (h_objs h') j = Some obj))"
proof -
  let ?h = "heap_after llm a dir ops"
  let ?h' = "fst (heap_auto_manage llm budget ?h)"
  have wf: "heap_wf ?h" by (rule heap_after_wf)
  have "keys (h_objs ?h') = keys (h_objs ?h)"
    by (rule heap_manage_keeps [of "\<lambda>h. keys (h_objs h) = keys (h_objs ?h)"])
      (auto simp: heap_compress_def compress_finish_def heap_swap_out_def Let_def split: sum.splits option.splits)
  moreover have "heap_view ?h' j = heap_view ?h j \<and> (if o_priority obj < 5 then True else dict_get (h_objs ?h') j = Some obj)"
    if obj: "dict_get (h_objs ?h) j = Some obj" "\<not> o_eligible obj" for obj
  proof -
    let ?ks = "quartile (by_priority (filter (\<lambda>ob. o_eligible ob \<and> \<not> o_compressed ob \<and> \<not> o_swapped ob) (vals (h_objs ?h))))"
    let ?h1 = "fst (compress_all llm ?ks ?h)"
    let ?js = "quartile (by_priority (filter (\<lambda>ob. \<not> o_swapped ob \<and> o_priority ob < 5) (vals (h_objs ?h1))))"
    have "j \<notin> set ?ks" using quartile_members [OF wf, of j] obj by auto
    then have one: "heap_wf ?h1" "dict_get (h_objs ?h1) j = Some obj" "heap_view ?h1 j = heap_view ?h j"
      using compress_all_other [OF wf, of j ?ks] obj(1) by auto
    have "\<not> o_priority obj < 5 \<Longrightarrow> j \<notin> set ?js" using quartile_members [OF one(1), of j] one(2) by auto
    then show ?thesis
      using swap_all_other [OF one(1), of ?js j] one obj(1)
      by (auto simp: heap_auto_manage_def Let_def split_beta)
  qed
  ultimately show ?thesis by (auto simp: Let_def split: option.splits)
qed

section \<open>Two ways to lose a slot\<close>

text \<open>
  compressing a swapped slot loses its content: \<open>compress\<close> does not look whether the slot is on disk,
  so it summarises and saves the empty string, and reading the slot afterwards returns the empty string.
\<close>

theorem heap_compress_swapped_loses:
  "heap_view (heap_after llm a dir [HAlloc 0 k c 5 None True, HSwapOut k, HCompress k]) k = Some [] \<and>
   snd (heap_read 1 1 k (heap_after llm a dir [HAlloc 0 k c 5 None True, HSwapOut k, HCompress k])) = Inr []"
proof -
  let ?h = "heap_after llm a dir [HAlloc 0 k c 5 None True, HSwapOut k, HCompress k]"
  have "\<exists>obj. dict_get (h_objs ?h) k = Some obj \<and> o_swapped obj \<and> o_ttl obj = None \<and>
      o_disk obj = Some (original_path dir k) \<and> dict_get (h_files ?h) (original_path dir k) = Some []"
    by (simp add: heap_after_def heap_load_def heap_alloc_def heap_swap_out_def heap_compress_def compress_begin_def
        compress_finish_def Let_def new_obj_def swapped_obj_def compressed_obj_def)
  then show ?thesis
    by (auto simp: heap_view_def slot_content_def dict_get_or_def heap_read_def expired_def disk_content_def)
qed

text \<open>
  a write during a compression is lost: \<open>compress\<close> asks the model without holding the lock, so
  when the slot is given new content meanwhile, the summary of the old content replaces it, and the
  file with the original holds the old content too.
\<close>

theorem heap_compress_race_loses:
  "let h = heap_after llm a dir
       [HAlloc 0 k old 5 None True, HAlloc 1 k new 5 None True, HCompressFinish k old (count_tokens old)]
   in heap_view h k = Some (summarize llm old) \<and> h_files h = [(original_path dir k, old)]"
  by (simp add: heap_after_def heap_load_def heap_alloc_def compress_finish_def Let_def heap_view_def
      compressed_obj_def new_obj_def)

end
