(* ===== verification/Transactions.thy ===== *)
theory Transactions imports Memory_Heap begin

text \<open>
  The transaction coordinator, \<open>agents/transaction.py\<close>: staged operations, conflict detection on the
  last writer of every resource, and commit in phases. The things a commit changes are the \<open>world\<close>: the
  files and the agents' heaps; messages are returned as requests. Whether the file system accepts a
  write is the parameter \<open>fs_error\<close> of the operations: the text of the \<open>OSError\<close> for a path, if any.
  The pre-commit checkpoint is a call to another component whose failures are ignored and which does
  not change what is modelled here.

  The lemmas give the exact result of every branch of \<open>commit\<close>, the first-committer-wins rule, what a
  failed commit undoes and what it does not, and what a rollback between the phases does.
\<close>

section \<open>State\<close>

record op_params =
  op_path :: "string option"
  op_content :: "string option"
  op_key :: "string option"
  op_priority :: "int option"
  op_to :: "string option"
  op_payload :: "payload option"
  op_msg_type :: "string option"

record staged_op =
  so_type :: string
  so_params :: op_params
  so_resource :: string
  so_staged_at :: time

datatype txn_status = TxOpen | TxCommitted | TxRolledBack

fun txn_status_str :: "txn_status \<Rightarrow> string" where
  "txn_status_str TxOpen = ''open''"
| "txn_status_str TxCommitted = ''committed''"
| "txn_status_str TxRolledBack = ''rolled_back''"

record txn =
  x_id :: string
  x_agent :: string
  x_status :: txn_status
  x_ops :: "staged_op list"
  x_created :: time
  x_timeout :: time
  x_committed_at :: "time option"
  x_rolled_at :: "time option"
  x_reason :: "string option"
  x_conflicts :: "string list"

record coord =
  x_txns :: "(string, txn) dict"
  x_writes :: "(string, string \<times> time) dict"
  x_events :: bool
  x_disk :: "(string, txn) dict option"

record world =
  w_files :: "(string, string) dict"
  w_heaps :: "heaps option"
  w_bus :: bool

definition tx_empty :: coord where
  "tx_empty = \<lparr>x_txns = [], x_writes = [], x_events = False, x_disk = None\<rparr>"

definition txn_timeout :: time where
  "txn_timeout = 600"

text \<open>\<open>_save\<close>: the 200 youngest transactions.\<close>

definition tx_save :: "coord \<Rightarrow> coord" where
  "tx_save c = c\<lparr>x_disk := Some (foldl (\<lambda>d t. dict_set (x_id t) t d) []
                   (take 200 (sort_key (\<lambda>t. - x_created t) (vals (x_txns c)))))\<rparr>"

definition tx_load :: "time \<Rightarrow> bool \<Rightarrow> (string, txn) dict option \<Rightarrow> coord" where
  "tx_load now events disk =
     \<lparr>x_txns = (case disk of None \<Rightarrow> []
        | Some d \<Rightarrow> foldl (\<lambda>ts (k, t).
            dict_set (x_id t) (if x_status t = TxOpen
              then t\<lparr>x_status := TxRolledBack, x_rolled_at := Some now, x_reason := Some ''server_restart''\<rparr>
              else t) ts) [] d),
      x_writes = [], x_events = events, x_disk = disk\<rparr>"

definition tx_emit :: "coord \<Rightarrow> string \<Rightarrow> string \<Rightarrow> payload \<Rightarrow> eff list" where
  "tx_emit c t src p = (if x_events c then [Emit t src p] else [])"

definition tx_upd :: "string \<Rightarrow> (txn \<Rightarrow> txn) \<Rightarrow> coord \<Rightarrow> coord" where
  "tx_upd i f c = c\<lparr>x_txns := dict_upd i f (x_txns c)\<rparr>"

section \<open>Begin and stage\<close>

definition tx_begin :: "string \<Rightarrow> time \<Rightarrow> string \<Rightarrow> coord \<Rightarrow> coord" where
  "tx_begin i now agent_id c =
     tx_save (c\<lparr>x_txns := dict_set i
       \<lparr>x_id = i, x_agent = agent_id, x_status = TxOpen, x_ops = [], x_created = now,
        x_timeout = now + txn_timeout, x_committed_at = None, x_rolled_at = None, x_reason = None,
        x_conflicts = []\<rparr> (x_txns c)\<rparr>)"

definition op_types :: "string list" where
  "op_types = [''fs_write'', ''memory_set'', ''message_send'']"

text \<open>\<open>_resource_key\<close>: a message without a key gets the current time as its key, here \<open>stamp\<close>.\<close>

definition resource_key :: "string \<Rightarrow> string \<Rightarrow> op_params \<Rightarrow> string" where
  "resource_key stamp ty p =
     (let or_empty = (\<lambda>w. case w of None \<Rightarrow> [] | Some s \<Rightarrow> s)
      in if ty = ''fs_write'' then ''fs:'' @ or_empty (op_path p)
         else if ty = ''memory_set'' then ''mem:'' @ or_empty (op_key p)
         else ''msg:'' @ or_empty (op_to p) @ '':'' @ (case op_key p of None \<Rightarrow> stamp | Some s \<Rightarrow> s))"

definition quoted :: "string \<Rightarrow> string" where
  "quoted s = [char_of (39::nat)] @ s @ [char_of (39::nat)]"

definition tx_stage :: "string \<Rightarrow> time \<Rightarrow> time \<Rightarrow> string \<Rightarrow> string \<Rightarrow> op_params \<Rightarrow> coord
    \<Rightarrow> coord \<times> (string + string \<times> nat)" where
  "tx_stage stamp t1 t2 i ty p c =
     (if ty \<notin> set op_types
      then (c, Inl (''Unknown op_type '' @ quoted ty @ ''. Use: fs_write | memory_set | message_send''))
      else case dict_get (x_txns c) i of
             None \<Rightarrow> (c, Inl (''Transaction '' @ quoted i @ '' not found''))
           | Some t \<Rightarrow>
               if x_status t \<noteq> TxOpen
               then (c, Inl (''Transaction '' @ quoted i @ '' is '' @ txn_status_str (x_status t)))
               else if x_timeout t < t1 then (c, Inl ''Transaction has timed out'')
               else
                 let res = resource_key stamp ty p;
                     op = \<lparr>so_type = ty, so_params = p, so_resource = res, so_staged_at = t2\<rparr>
                 in (tx_save (tx_upd i (\<lambda>t. t\<lparr>x_ops := x_ops t @ [op]\<rparr>) c), Inr (res, length (x_ops t) + 1)))"

section \<open>Applying operations\<close>

type_synonym fs_env = "string \<Rightarrow> string option"

text \<open>
  \<open>_apply_op\<close>: the new world, the messages sent and, if it raises, the text of the exception; a
  missing parameter is a \<open>KeyError\<close>, whose text is the quoted key.
\<close>

definition apply_op :: "fs_env \<Rightarrow> time \<Rightarrow> string \<Rightarrow> staged_op \<Rightarrow> world \<Rightarrow> world \<times> eff list \<times> string option" where
  "apply_op fs_error now agent_id op w =
     (let p = so_params op
      in if so_type op = ''fs_write'' then
           (case op_path p of
              None \<Rightarrow> (w, [], Some (quoted ''path''))
            | Some path \<Rightarrow>
                (case op_content p of
                   None \<Rightarrow> (w, [], Some (quoted ''content''))
                 | Some content \<Rightarrow>
                     (case fs_error path of
                        Some e \<Rightarrow> (w, [], Some e)
                      | None \<Rightarrow> (w\<lparr>w_files := dict_set path content (w_files w)\<rparr>, [], None))))
         else if so_type op = ''memory_set'' then
           (case w_heaps w of
              None \<Rightarrow> (w, [], Some ''HeapRegistry not available for memory_set'')
            | Some hs \<Rightarrow>
                let (hs1, h) = hr_get agent_id hs; w1 = w\<lparr>w_heaps := Some hs1\<rparr>
                in (case op_key p of
                      None \<Rightarrow> (w1, [], Some (quoted ''key''))
                    | Some key \<Rightarrow>
                        (case op_content p of
                           None \<Rightarrow> (w1, [], Some (quoted ''content''))
                         | Some content \<Rightarrow>
                             (w\<lparr>w_heaps := Some (hr_put agent_id
                                  (heap_alloc now key content
                                    (case op_priority p of None \<Rightarrow> 5 | Some n \<Rightarrow> n) None True h) hs1)\<rparr>, [], None))))
         else if \<not> w_bus w then (w, [], Some ''MessageBus not available for message_send'')
         else (case op_to p of
                 None \<Rightarrow> (w, [], Some (quoted ''to_id''))
               | Some to \<Rightarrow>
                   (w, [Send agent_id to (case op_payload p of None \<Rightarrow> [] | Some c \<Rightarrow> c)
                         (case op_msg_type p of None \<Rightarrow> ''text'' | Some m \<Rightarrow> m)], None)))"

record commit_run =
  cr_world :: world
  cr_writes :: "(string, string \<times> time) dict"
  cr_effs :: "eff list"
  cr_applied :: "staged_op list"
  cr_error :: "string option"

text \<open>The loop over the operations; it stops at the first one that raises.\<close>

definition apply_next :: "fs_env \<Rightarrow> time \<Rightarrow> string \<Rightarrow> commit_run \<Rightarrow> staged_op \<Rightarrow> commit_run" where
  "apply_next fs_error now agent_id s op =
     (if cr_error s \<noteq> None then s
      else case apply_op fs_error now agent_id op (cr_world s) of
             (w, e, Some err) \<Rightarrow> s\<lparr>cr_world := w, cr_effs := cr_effs s @ e, cr_error := Some (''op_failed: '' @ err)\<rparr>
           | (w, e, None) \<Rightarrow>
               s\<lparr>cr_world := w, cr_writes := dict_set (so_resource op) (agent_id, now) (cr_writes s),
                 cr_effs := cr_effs s @ e, cr_applied := cr_applied s @ [op]\<rparr>)"

definition apply_all :: "fs_env \<Rightarrow> time \<Rightarrow> string \<Rightarrow> staged_op list \<Rightarrow> world
    \<Rightarrow> (string, string \<times> time) dict \<Rightarrow> commit_run" where
  "apply_all fs_error now agent_id ops w writes =
     foldl (apply_next fs_error now agent_id)
       \<lparr>cr_world = w, cr_writes = writes, cr_effs = [], cr_applied = [], cr_error = None\<rparr> ops"

text \<open>\<open>_rollback_applied\<close>: the files written are removed, latest first; nothing else is undone.\<close>

definition rollback_applied :: "staged_op list \<Rightarrow> world \<Rightarrow> world" where
  "rollback_applied applied w =
     foldl (\<lambda>w op. if so_type op = ''fs_write''
                   then (case op_path (so_params op) of None \<Rightarrow> w
                         | Some path \<Rightarrow> w\<lparr>w_files := dict_del path (w_files w)\<rparr>)
                   else w) w (rev applied)"

section \<open>Commit\<close>

datatype commit_result =
    CommitError string
  | CommitConflict "string list"
  | CommitFailed string
  | CommitOk nat

definition conflicts_of :: "txn \<Rightarrow> coord \<Rightarrow> string list" where
  "conflicts_of t c =
     filter (\<lambda>res. case dict_get (x_writes c) res of
               None \<Rightarrow> False
             | Some (who, written) \<Rightarrow> who \<noteq> x_agent t \<and> x_created t < written) (map so_resource (x_ops t))"

text \<open>
  Commit, first phase: status, timeout and conflicts. It ends the commit with a result or lets it go
  on; \<open>t1\<close> is the reading of the timeout check, \<open>t2\<close> the time of the rollback.
\<close>

definition commit_check :: "time \<Rightarrow> time \<Rightarrow> string \<Rightarrow> coord \<Rightarrow> coord \<times> eff list \<times> commit_result option" where
  "commit_check t1 t2 i c =
     (case dict_get (x_txns c) i of
        None \<Rightarrow> (c, [], Some (CommitError (''Transaction '' @ quoted i @ '' not found'')))
      | Some t \<Rightarrow>
          if x_status t \<noteq> TxOpen
          then (c, [], Some (CommitError (''Transaction '' @ quoted i @ '' is already '' @ txn_status_str (x_status t))))
          else if x_timeout t < t1
          then (tx_save (tx_upd i (\<lambda>t. t\<lparr>x_status := TxRolledBack, x_rolled_at := Some t2, x_reason := Some ''timeout''\<rparr>) c),
                [], Some (CommitError ''Transaction timed out during commit''))
          else
            let conflicts = conflicts_of t c
            in if conflicts \<noteq> []
               then (tx_save (tx_upd i (\<lambda>t. t\<lparr>x_status := TxRolledBack, x_rolled_at := Some t2,
                        x_reason := Some ''conflict'', x_conflicts := conflicts\<rparr>) c),
                     tx_emit c ''txn.conflict'' (x_agent t)
                       [(''txn_id'', PStr i), (''agent_id'', PStr (x_agent t)), (''conflicts'', py_strs conflicts)] @
                     tx_emit c ''txn.rolled_back'' (x_agent t)
                       [(''txn_id'', PStr i), (''reason'', PStr ''conflict''), (''conflicts'', py_strs conflicts)],
                     Some (CommitConflict conflicts))
               else (c, [], None))"

text \<open>
  Second phase: the operations are read again and applied, \<open>t3\<close> being the time of the writes; third
  phase: the final status, at time \<open>t4\<close>.
\<close>

definition commit_apply :: "fs_env \<Rightarrow> time \<Rightarrow> string \<Rightarrow> coord \<times> world \<Rightarrow> coord \<times> commit_run" where
  "commit_apply fs_error t3 i st =
     (let (c, w) = st
      in case dict_get (x_txns c) i of
           None \<Rightarrow> (c, \<lparr>cr_world = w, cr_writes = x_writes c, cr_effs = [], cr_applied = [], cr_error = None\<rparr>)
         | Some t \<Rightarrow>
             let run = apply_all fs_error t3 (x_agent t) (x_ops t) w (x_writes c);
                 run' = (if cr_error run \<noteq> None
                         then run\<lparr>cr_world := rollback_applied (cr_applied run) (cr_world run)\<rparr> else run)
             in (c\<lparr>x_writes := cr_writes run\<rparr>, run'))"

definition commit_finish :: "time \<Rightarrow> string \<Rightarrow> commit_run \<Rightarrow> coord \<Rightarrow> coord \<times> eff list \<times> commit_result" where
  "commit_finish t4 i run c =
     (case dict_get (x_txns c) i of
        None \<Rightarrow> (c, [], CommitError [])
      | Some t \<Rightarrow>
          (case cr_error run of
             Some reason \<Rightarrow>
               (tx_save (tx_upd i (\<lambda>t. t\<lparr>x_status := TxRolledBack, x_rolled_at := Some t4, x_reason := Some reason\<rparr>) c),
                tx_emit c ''txn.rolled_back'' (x_agent t) [(''txn_id'', PStr i), (''reason'', PStr reason)],
                CommitFailed reason)
           | None \<Rightarrow>
               (tx_save (tx_upd i (\<lambda>t. t\<lparr>x_status := TxCommitted, x_committed_at := Some t4\<rparr>) c),
                tx_emit c ''txn.committed'' (x_agent t)
                  [(''txn_id'', PStr i), (''ops_count'', PInt (int (length (cr_applied run)))),
                   (''duration_ms'', PInt (py_round ((t4 - x_created t) * 1000)))],
                CommitOk (length (cr_applied run)))))"

text \<open>The whole commit, nothing happening between its phases.\<close>

definition tx_commit :: "fs_env \<Rightarrow> time \<Rightarrow> time \<Rightarrow> time \<Rightarrow> time \<Rightarrow> string \<Rightarrow> coord \<times> world
    \<Rightarrow> (coord \<times> world) \<times> eff list \<times> commit_result" where
  "tx_commit fs_error t1 t2 t3 t4 i st =
     (case commit_check t1 t2 i (fst st) of
        (c1, e1, Some r) \<Rightarrow> ((c1, snd st), e1, r)
      | (c1, e1, None) \<Rightarrow>
          let (c2, run) = commit_apply fs_error t3 i (c1, snd st);
              (c3, e3, r) = commit_finish t4 i run c2
          in ((c3, cr_world run), cr_effs run @ e3, r))"

section \<open>Rollback, watchdog, external writes\<close>

definition tx_rollback :: "time \<Rightarrow> string \<Rightarrow> string \<Rightarrow> coord \<Rightarrow> coord \<times> eff list \<times> (string + string)" where
  "tx_rollback now i reason c =
     (case dict_get (x_txns c) i of
        None \<Rightarrow> (c, [], Inl (''Transaction '' @ quoted i @ '' not found''))
      | Some t \<Rightarrow>
          if x_status t \<noteq> TxOpen
          then (c, [], Inl (''Transaction '' @ quoted i @ '' is already '' @ txn_status_str (x_status t)))
          else (tx_save (tx_upd i (\<lambda>t. t\<lparr>x_status := TxRolledBack, x_ops := [], x_rolled_at := Some now, x_reason := Some reason\<rparr>) c),
                tx_emit c ''txn.rolled_back'' (x_agent t) [(''txn_id'', PStr i), (''reason'', PStr reason)],
                Inr reason))"

text \<open>One round of the watchdog.\<close>

definition tx_watch :: "time \<Rightarrow> coord \<Rightarrow> coord \<times> eff list" where
  "tx_watch now c =
     foldl (\<lambda>(c, effs) i. let (c', e, r) = tx_rollback now i ''timeout'' c in (c', effs @ e)) (c, [])
       (map x_id (filter (\<lambda>t. x_status t = TxOpen \<and> x_timeout t < now) (vals (x_txns c))))"

definition tx_record_write :: "time \<Rightarrow> string \<Rightarrow> string \<Rightarrow> coord \<Rightarrow> coord" where
  "tx_record_write now res agent_id c = c\<lparr>x_writes := dict_set res (agent_id, now) (x_writes c)\<rparr>"

definition tx_expires_in :: "time \<Rightarrow> string \<Rightarrow> coord \<Rightarrow> (txn \<times> nat \<times> int) option" where
  "tx_expires_in now i c =
     map_option (\<lambda>t. (t, length (x_ops t), max 0 (py_round (x_timeout t - now)))) (dict_get (x_txns c) i)"

section \<open>Operations\<close>

datatype tx_op =
    TxBegin string time string
  | TxStage string time time string string op_params
  | TxCommit time time time time string
  | TxRollback time string string
  | TxWatch time
  | TxExternal time string string
  | TxWire

fun tx_step :: "fs_env \<Rightarrow> tx_op \<Rightarrow> coord \<times> world \<Rightarrow> coord \<times> world" where
  "tx_step fs (TxBegin i now a) (c, w) = (tx_begin i now a c, w)"
| "tx_step fs (TxStage stamp t1 t2 i ty p) (c, w) = (fst (tx_stage stamp t1 t2 i ty p c), w)"
| "tx_step fs (TxCommit t1 t2 t3 t4 i) (c, w) = fst (tx_commit fs t1 t2 t3 t4 i (c, w))"
| "tx_step fs (TxRollback now i reason) (c, w) = (fst (tx_rollback now i reason c), w)"
| "tx_step fs (TxWatch now) (c, w) = (fst (tx_watch now c), w)"
| "tx_step fs (TxExternal now res a) (c, w) = (tx_record_write now res a c, w)"
| "tx_step fs TxWire (c, w) = (c\<lparr>x_events := True\<rparr>, w\<lparr>w_bus := True\<rparr>)"

definition tx_after :: "fs_env \<Rightarrow> world \<Rightarrow> tx_op list \<Rightarrow> coord \<times> world" where
  "tx_after fs w ops = run_ops (tx_step fs) ops (tx_empty, w)"

section \<open>What each operation does to the transactions\<close>

definition tx_wf :: "coord \<times> world \<Rightarrow> bool" where
  "tx_wf st = (wf_dict (x_txns (fst st)) \<and> (\<forall>i t. dict_get (x_txns (fst st)) i = Some t \<longrightarrow> x_id t = i))"

definition tx_obj :: "coord \<times> world \<Rightarrow> string \<Rightarrow> txn option" where
  "tx_obj st i = dict_get (x_txns (fst st)) i"

definition tx_final :: "txn \<Rightarrow> bool" where
  "tx_final t = (x_status t \<noteq> TxOpen)"

fun tx_creates :: "tx_op \<Rightarrow> string \<Rightarrow> bool" where
  "tx_creates (TxBegin i now a) k = (i = k)"
| "tx_creates _ k = False"

lemma tx_save_fields [simp]:
  "x_txns (tx_save c) = x_txns c" "x_writes (tx_save c) = x_writes c" "x_events (tx_save c) = x_events c"
  by (simp_all add: tx_save_def)

lemma tx_upd_fields [simp]:
  "x_txns (tx_upd i f c) = dict_upd i f (x_txns c)" "x_writes (tx_upd i f c) = x_writes c"
  by (simp_all add: tx_upd_def)

lemma commit_apply_txns [simp]: "x_txns (fst (commit_apply fs t i st)) = x_txns (fst st)"
  by (simp add: commit_apply_def split_beta Let_def split: option.splits)

text \<open>A change of the transactions that replaces at most the open transaction \<open>i\<close>, keeping its id.\<close>

definition tx_changes :: "string \<Rightarrow> (string, txn) dict \<Rightarrow> (string, txn) dict \<Rightarrow> bool" where
  "tx_changes i d d' =
     (d' = d \<or> (\<exists>f. d' = dict_upd i f d \<and> (\<forall>t. x_id (f t) = x_id t) \<and>
                    (\<forall>t. dict_get d i = Some t \<longrightarrow> x_status t = TxOpen)))"

lemma tx_changes_same [simp]: "tx_changes i d d"
  by (simp add: tx_changes_def)

lemma tx_changes_upd [intro]:
  "dict_get d i = Some t \<Longrightarrow> x_status t = TxOpen \<Longrightarrow> (\<And>t. x_id (f t) = x_id t) \<Longrightarrow> tx_changes i d (dict_upd i f d)"
  by (auto simp: tx_changes_def)

lemma tx_changes_keeps:
  assumes "tx_changes i d d'"
  shows "wf_dict d \<Longrightarrow> wf_dict d'"
    and "(\<And>i t. dict_get d i = Some t \<Longrightarrow> x_id t = i) \<Longrightarrow> dict_get d' k = Some t \<Longrightarrow> x_id t = k"
    and "dict_get d k = Some t \<Longrightarrow> x_status t \<noteq> TxOpen \<Longrightarrow> dict_get d' k = Some t"
  using assms by (auto simp: tx_changes_def split: if_splits)

lemma tx_stage_changes: "tx_changes i (x_txns c) (x_txns (fst (tx_stage stamp t1 t2 i ty p c)))"
  by (auto simp: tx_stage_def Let_def split: option.splits)

lemma tx_rollback_changes: "tx_changes i (x_txns c) (x_txns (fst (tx_rollback now i reason c)))"
  by (auto simp: tx_rollback_def split: option.splits)

lemma commit_check_changes: "tx_changes i (x_txns c) (x_txns (fst (commit_check t1 t2 i c)))"
  by (auto simp: commit_check_def Let_def split: option.splits)

lemma commit_check_go:
  assumes "commit_check t1 t2 i c = (c1, e1, None)"
  shows "c1 = c \<and> e1 = [] \<and> (\<exists>t. dict_get (x_txns c) i = Some t \<and> x_status t = TxOpen \<and>
     \<not> x_timeout t < t1 \<and> conflicts_of t c = [])"
  using assms by (auto simp: commit_check_def Let_def split: option.splits if_splits)

lemma commit_finish_changes:
  "dict_get (x_txns c) i = Some t \<Longrightarrow> x_status t = TxOpen
    \<Longrightarrow> tx_changes i (x_txns c) (x_txns (fst (commit_finish t4 i run c)))"
  by (auto simp: commit_finish_def split: option.splits)

lemma tx_commit_changes: "tx_changes i (x_txns c) (x_txns (fst (fst (tx_commit fs t1 t2 t3 t4 i (c, w)))))"
proof (cases "snd (snd (commit_check t1 t2 i c))")
  case None
  then obtain c1 e1 where check: "commit_check t1 t2 i c = (c1, e1, None)" by (metis prod.collapse)
  from commit_check_go [OF this] obtain t where t: "c1 = c" "dict_get (x_txns c) i = Some t" "x_status t = TxOpen"
    by blast
  obtain c2 run where ap: "commit_apply fs t3 i (c, w) = (c2, run)" by (cases "commit_apply fs t3 i (c, w)")
  have same: "x_txns c2 = x_txns c" using commit_apply_txns [of fs t3 i "(c, w)"] by (simp add: ap)
  with t commit_finish_changes [of c2 i t t4 run] show ?thesis
    by (simp add: tx_commit_def check ap split_beta Let_def)
next
  case (Some r)
  then show ?thesis
    using commit_check_changes [of i c t1 t2] by (auto simp: tx_commit_def split: prod.splits option.splits)
qed

text \<open>A round of the watchdog changes open transactions only, one rollback after the other.\<close>

lemma tx_watch_keeps:
  assumes "P (x_txns c)" and "\<And>i d d'. P d \<Longrightarrow> tx_changes i d d' \<Longrightarrow> P d'"
  shows "P (x_txns (fst (tx_watch now c)))"
  unfolding tx_watch_def
  by (rule foldl_keeps [where P = "\<lambda>st. P (x_txns (fst st))"])
    (auto simp: split_beta Let_def assms(1) intro: assms(2) [OF _ tx_rollback_changes])

lemma tx_step_keeps:
  assumes "P (x_txns (fst st))" and "\<And>i d d'. P d \<Longrightarrow> tx_changes i d d' \<Longrightarrow> P d'"
    and "\<And>i now a d t. x = TxBegin i now a \<Longrightarrow> P d \<Longrightarrow> x_id t = i \<Longrightarrow> P (dict_set i t d)"
  shows "P (x_txns (fst (tx_step fs x st)))"
proof -
  obtain c w where st: "st = (c, w)" by (cases st)
  show ?thesis
  proof (cases x)
    case (TxBegin i now a)
    with assms(1) assms(3) [OF TxBegin] show ?thesis by (simp add: st tx_begin_def)
  next
    case (TxWatch now)
    with assms tx_watch_keeps [of P c now] show ?thesis by (simp add: st)
  qed (use assms(1) in \<open>auto simp: st tx_record_write_def intro: assms(2) tx_stage_changes tx_commit_changes tx_rollback_changes\<close>)
qed

lemma tx_step_wf: "tx_wf st \<Longrightarrow> tx_wf (tx_step fs x st)"
  unfolding tx_wf_def
  by (rule tx_step_keeps [where P = "\<lambda>d. wf_dict d \<and> (\<forall>i t. dict_get d i = Some t \<longrightarrow> x_id t = i)"])
    (auto intro: tx_changes_keeps(1) dest: tx_changes_keeps(2) split: if_splits)

interpretation tx_life: lifecycle "tx_step fs" tx_wf tx_obj tx_final tx_creates for fs
proof unfold_locales
  fix st x show "tx_wf st \<Longrightarrow> tx_wf (tx_step fs x st)" by (rule tx_step_wf)
next
  fix st k t x
  assume "tx_obj st k = Some t" "tx_final t" "\<not> tx_creates x k"
  then show "tx_obj (tx_step fs x st) k = Some t"
    unfolding tx_obj_def tx_final_def
    by (intro tx_step_keeps [where P = "\<lambda>d. dict_get d k = Some t"]) (auto intro: tx_changes_keeps(3))
qed

lemma tx_after_wf: "tx_wf (tx_after fs w ops)"
  unfolding tx_after_def by (rule tx_life.inv_run) (simp add: tx_wf_def tx_empty_def)

section \<open>Properties of commit\<close>

text \<open>The commit of an open transaction that is in time and has no conflict, phase by phase.\<close>

lemma tx_commit_go:
  assumes "dict_get (x_txns c) i = Some t" and "x_status t = TxOpen" and "\<not> x_timeout t < t1"
    and "conflicts_of t c = []"
  shows "tx_commit fs t1 t2 t3 t4 i (c, w) =
    (let (c2, run) = commit_apply fs t3 i (c, w); (c3, e3, r) = commit_finish t4 i run c2
     in ((c3, cr_world run), cr_effs run @ e3, r))"
  using assms by (simp add: tx_commit_def commit_check_def)

text \<open>A resource was last written by an agent other than the transaction's, after it began.\<close>

definition overtaken :: "coord \<Rightarrow> txn \<Rightarrow> string \<Rightarrow> bool" where
  "overtaken c t res = (\<exists>who s. dict_get (x_writes c) res = Some (who, s) \<and> who \<noteq> x_agent t \<and> x_created t < s)"

lemma conflicts_members: "set (conflicts_of t c) = {res \<in> so_resource ` set (x_ops t). overtaken c t res}"
  by (auto simp: conflicts_of_def overtaken_def split: option.splits)

lemma tx_commit_open:
  assumes "dict_get (x_txns c) i = Some t" and "x_status t = TxOpen" and "\<not> x_timeout t < t1"
    and "conflicts_of t c = []" and "tx_commit fs t1 t2 t3 t4 i (c, w) = ((c', w'), effs, r)"
  shows "(\<exists>n. r = CommitOk n) \<and> map_option x_status (dict_get (x_txns c') i) = Some TxCommitted
       \<or> (\<exists>e. r = CommitFailed e) \<and> map_option x_status (dict_get (x_txns c') i) = Some TxRolledBack"
proof -
  obtain c2 run where ap: "commit_apply fs t3 i (c, w) = (c2, run)" by (cases "commit_apply fs t3 i (c, w)")
  have t: "dict_get (x_txns c2) i = Some t"
    using commit_apply_txns [of fs t3 i "(c, w)"] assms(1) by (simp add: ap)
  show ?thesis
    using assms(5) t
    by (cases "cr_error run") (auto simp: tx_commit_go [OF assms(1-4)] ap commit_finish_def)
qed

lemma tx_commit_refused:
  assumes "dict_get (x_txns c) i = Some t" and "x_status t = TxOpen" and "\<not> x_timeout t < t1"
    and "conflicts_of t c \<noteq> []" and "tx_commit fs t1 t2 t3 t4 i (c, w) = ((c', w'), effs, r)"
  shows "r = CommitConflict (conflicts_of t c) \<and> w' = w \<and> x_writes c' = x_writes c \<and>
    map_option x_status (dict_get (x_txns c') i) = Some TxRolledBack"
  using assms by (auto simp: tx_commit_def commit_check_def Let_def)

text \<open>
  conflict detection: in every reachable state, committing an open transaction that is in time is
  refused exactly when some resource it has staged was last written by another agent after it began;
  the refusal names exactly those resources, changes neither the files nor the heaps nor the record of
  writes, and ends the transaction.
\<close>

theorem tx_conflicts_exact:
  "let (c, w) = tx_after fs w0 ops; ((c', w'), effs, r) = tx_commit fs t1 t2 t3 t4 i (c, w) in
   case dict_get (x_txns c) i of
     None \<Rightarrow> (c', w') = (c, w) \<and> (\<exists>e. r = CommitError e)
   | Some t \<Rightarrow>
       if x_status t \<noteq> TxOpen then (c', w') = (c, w) \<and> (\<exists>e. r = CommitError e)
       else if x_timeout t < t1
       then w' = w \<and> x_writes c' = x_writes c \<and> (\<exists>e. r = CommitError e) \<and>
            map_option x_status (dict_get (x_txns c') i) = Some TxRolledBack
       else if list_ex (overtaken c t) (map so_resource (x_ops t))
       then \<exists>rs. r = CommitConflict rs \<and> w' = w \<and> x_writes c' = x_writes c \<and>
            map_option x_status (dict_get (x_txns c') i) = Some TxRolledBack \<and>
            set rs = {res \<in> so_resource ` set (x_ops t). overtaken c t res}
       else (\<exists>n. r = CommitOk n) \<and> map_option x_status (dict_get (x_txns c') i) = Some TxCommitted
          \<or> (\<exists>e. r = CommitFailed e) \<and> map_option x_status (dict_get (x_txns c') i) = Some TxRolledBack"
proof -
  obtain c w where after: "tx_after fs w0 ops = (c, w)" by (cases "tx_after fs w0 ops")
  obtain c' w' effs r where com: "tx_commit fs t1 t2 t3 t4 i (c, w) = ((c', w'), effs, r)"
    by (metis prod.collapse)
  show ?thesis
  proof (cases "dict_get (x_txns c) i")
    case None
    with com show ?thesis by (auto simp: after tx_commit_def commit_check_def)
  next
    case (Some t)
    have ex: "list_ex (overtaken c t) (map so_resource (x_ops t)) \<longleftrightarrow> conflicts_of t c \<noteq> []"
      unfolding set_empty [symmetric] conflicts_members by (auto simp: list_ex_iff)
    show ?thesis
    proof (cases "x_status t = TxOpen \<and> \<not> x_timeout t < t1")
      case True
      with ex conflicts_members [of t c] tx_commit_open [OF Some _ _ _ com] tx_commit_refused [OF Some _ _ _ com]
      show ?thesis by (simp add: after com Some)
    next
      case False
      with com show ?thesis by (auto simp: after Some tx_commit_def commit_check_def)
    qed
  qed
qed

lemma apply_all_writes:
  assumes "cr_error s = None" and "cr_error (foldl (apply_next fs now a) s ops) = None"
  shows "dict_get (cr_writes (foldl (apply_next fs now a) s ops)) res =
    (if res \<in> so_resource ` set ops then Some (a, now) else dict_get (cr_writes s) res)"
  using assms
proof (induction ops arbitrary: s)
  case Nil
  then show ?case by simp
next
  case (Cons op ops)
  let ?s = "apply_next fs now a s op"
  have stop: "cr_error s \<noteq> None \<Longrightarrow> foldl (apply_next fs now a) s ops = s" for s ops
    by (induction ops) (simp_all add: apply_next_def)
  have go: "cr_error ?s = None" using stop [of ?s ops] Cons.prems(2) by (cases "cr_error ?s") auto
  then have "dict_get (cr_writes ?s) res = (if res = so_resource op then Some (a, now) else dict_get (cr_writes s) res)"
    using Cons.prems(1) by (auto simp: apply_next_def split: prod.splits option.splits)
  with Cons.IH [OF go] Cons.prems(2) show ?case by auto
qed

lemma tx_commit_ok_writes:
  assumes "tx_commit fs t1 t2 t3 t4 i (c, w) = ((c', w'), effs, CommitOk n)"
    and "dict_get (x_txns c) i = Some t" and "res \<in> so_resource ` set (x_ops t)"
  shows "dict_get (x_writes c') res = Some (x_agent t, t3)"
proof -
  have "snd (snd (commit_check t1 t2 i c)) = None"
    using assms(1) by (auto simp: tx_commit_def commit_check_def Let_def split: option.splits prod.splits if_splits)
  then obtain c1 e1 where check: "commit_check t1 t2 i c = (c1, e1, None)" by (metis prod.collapse)
  from commit_check_go [OF this] assms(2) have go: "c1 = c" "x_status t = TxOpen" "\<not> x_timeout t < t1" "conflicts_of t c = []"
    by auto
  define run where "run = apply_all fs t3 (x_agent t) (x_ops t) w (x_writes c)"
  have ap: "commit_apply fs t3 i (c, w) = (c\<lparr>x_writes := cr_writes run\<rparr>,
      if cr_error run \<noteq> None then run\<lparr>cr_world := rollback_applied (cr_applied run) (cr_world run)\<rparr> else run)"
    using assms(2) by (simp add: commit_apply_def run_def Let_def)
  have none: "cr_error run = None"
    using assms(1) assms(2) tx_commit_go [OF assms(2) go(2-4), of fs t2 t3 t4 w]
    by (cases "cr_error run") (auto simp: ap commit_finish_def)
  then have "x_writes c' = cr_writes run"
    using assms(1,2) tx_commit_go [OF assms(2) go(2-4), of fs t2 t3 t4 w] by (auto simp: ap commit_finish_def)
  moreover have "dict_get (cr_writes run) res = Some (x_agent t, t3)"
    using apply_all_writes [of "\<lparr>cr_world = w, cr_writes = x_writes c, cr_effs = [], cr_applied = [], cr_error = None\<rparr>" fs t3 "x_agent t" "x_ops t" res] none assms(3)
    by (simp add: run_def apply_all_def)
  ultimately show ?thesis by simp
qed


definition no_params :: op_params where
  "no_params = \<lparr>op_path = None, op_content = None, op_key = None, op_priority = None, op_to = None,
     op_payload = None, op_msg_type = None\<rparr>"

definition file_params :: "string \<Rightarrow> string \<Rightarrow> op_params" where
  "file_params path content = no_params\<lparr>op_path := Some path, op_content := Some content\<rparr>"

definition disk_world :: "(string, string) dict \<Rightarrow> world" where
  "disk_world files = \<lparr>w_files = files, w_heaps = None, w_bus = False\<rparr>"

lemmas tx_eval = tx_after_def tx_empty_def tx_begin_def tx_stage_def op_types_def tx_commit_def commit_check_def
  conflicts_of_def commit_apply_def apply_all_def apply_next_def apply_op_def commit_finish_def rollback_applied_def
  tx_rollback_def tx_record_write_def tx_upd_def tx_save_def tx_emit_def txn_timeout_def resource_key_def
  file_params_def no_params_def disk_world_def tx_obj_def Let_def


text \<open>
  a finished transaction is final: once a transaction is committed or rolled back, no further
  operation changes its record, as long as no later one is given the same identifier.
\<close>

theorem tx_finished_is_final:
  assumes "tx_obj (tx_after fs w ops) i = Some t" and "x_status t \<noteq> TxOpen"
    and "list_all (\<lambda>x. \<not> tx_creates x i) later"
  shows "tx_obj (tx_after fs w (ops @ later)) i = Some t"
  using tx_life.final_run [OF tx_after_wf assms(1) _ assms(3)] assms(2)
  by (simp add: tx_after_def run_ops_append tx_final_def)

theorem tx_finished_is_final_witness:
  "\<exists>t. tx_obj (tx_after (\<lambda>_. None) (disk_world []) ([TxBegin ''t1'' 0 ''ada'', TxRollback 1 ''t1'' ''explicit''] @
       [TxCommit 2 2 2 2 ''t1'', TxWatch 1000])) ''t1'' = Some t \<and> x_status t = TxRolledBack"
proof -
  obtain t where t: "tx_obj (tx_after (\<lambda>_. None) (disk_world []) [TxBegin ''t1'' 0 ''ada'', TxRollback 1 ''t1'' ''explicit'']) ''t1'' = Some t"
      "x_status t = TxRolledBack"
    by (simp add: tx_eval)
  show ?thesis
    using tx_finished_is_final [OF t(1), of "[TxCommit 2 2 2 2 ''t1'', TxWatch 1000]"] t(2) by auto
qed

section \<open>What a failed commit undoes\<close>

text \<open>A file operation with both of its parameters: its path and content.\<close>

definition file_op :: "staged_op \<Rightarrow> bool" where
  "file_op op = (so_type op = ''fs_write'' \<and> op_path (so_params op) \<noteq> None \<and> op_content (so_params op) \<noteq> None)"

definition op_file :: "staged_op \<Rightarrow> string \<times> string" where
  "op_file op = (the (op_path (so_params op)), the (op_content (so_params op)))"

lemma apply_file_op:
  assumes "file_op op"
  shows "apply_op fs now a op w =
    (case fs (fst (op_file op)) of
       Some e \<Rightarrow> (w, [], Some e)
     | None \<Rightarrow> (w\<lparr>w_files := dict_set (fst (op_file op)) (snd (op_file op)) (w_files w)\<rparr>, [], None))"
  using assms by (auto simp: apply_op_def file_op_def op_file_def Let_def split: option.splits)

lemma apply_next_file:
  assumes "file_op op" and "cr_error s = None"
  shows "fs (fst (op_file op)) = None \<Longrightarrow> apply_next fs now a s op =
      s\<lparr>cr_world := (cr_world s)\<lparr>w_files := dict_set (fst (op_file op)) (snd (op_file op)) (w_files (cr_world s))\<rparr>,
        cr_writes := dict_set (so_resource op) (a, now) (cr_writes s), cr_applied := cr_applied s @ [op]\<rparr>"
    and "fs (fst (op_file op)) = Some e \<Longrightarrow> apply_next fs now a s op = s\<lparr>cr_error := Some (''op_failed: '' @ e)\<rparr>"
  using assms(2) by (simp_all add: apply_next_def apply_file_op [OF assms(1)])

lemma apply_next_stop: "cr_error s \<noteq> None \<Longrightarrow> foldl (apply_next fs now a) s ops = s"
  by (induction ops) (simp_all add: apply_next_def)

text \<open>The operations before the first one the file system refuses.\<close>

definition accepted :: "fs_env \<Rightarrow> staged_op list \<Rightarrow> staged_op list" where
  "accepted fs ops = takeWhile (\<lambda>op. fs (fst (op_file op)) = None) ops"

lemma apply_files:
  assumes "list_all file_op ops" and "cr_error s = None"
  shows "let s' = foldl (apply_next fs now a) s ops in
    w_files (cr_world s') = foldl (\<lambda>d op. dict_set (fst (op_file op)) (snd (op_file op)) d) (w_files (cr_world s)) (accepted fs ops) \<and>
    cr_applied s' = cr_applied s @ accepted fs ops \<and> (cr_error s' = None) = (accepted fs ops = ops)"
  using assms
proof (induction ops arbitrary: s)
  case Nil
  then show ?case by (simp add: accepted_def)
next
  case (Cons op ops)
  have op: "file_op op" using Cons.prems(1) by simp
  show ?case
  proof (cases "fs (fst (op_file op))")
    case None
    note nxt = apply_next_file(1) [OF op Cons.prems(2), of fs now a, OF None]
    have "cr_error (apply_next fs now a s op) = None" using Cons.prems(2) by (simp add: nxt)
    from Cons.IH [OF _ this] Cons.prems None show ?thesis
      by (simp add: nxt accepted_def Let_def)
  next
    case (Some e)
    note nxt = apply_next_file(2) [where fs = fs and now = now and a = a, OF op Cons.prems(2) Some]
    have "foldl (apply_next fs now a) (apply_next fs now a s op) ops = apply_next fs now a s op"
      by (rule apply_next_stop) (simp add: nxt)
    with Some Cons.prems(2) show ?thesis by (simp add: nxt accepted_def Let_def)
  qed
qed

lemma rollback_files:
  assumes "list_all file_op ops"
  shows "dict_get (w_files (rollback_applied ops w)) p =
    (if p \<in> fst ` op_file ` set ops then None else dict_get (w_files w) p)"
proof -
  have "list_all file_op xs \<Longrightarrow> dict_get (w_files (foldl (\<lambda>w op. if so_type op = ''fs_write''
       then (case op_path (so_params op) of None \<Rightarrow> w | Some path \<Rightarrow> w\<lparr>w_files := dict_del path (w_files w)\<rparr>)
       else w) w xs)) p = (if p \<in> fst ` op_file ` set xs then None else dict_get (w_files w) p)" for xs
    by (induction xs arbitrary: w) (auto simp: file_op_def op_file_def)
  from this [of "rev ops"] assms show ?thesis by (simp add: rollback_applied_def)
qed

lemma foldl_set_files:
  "dict_get (foldl (\<lambda>d op. dict_set (fst (op_file op)) (snd (op_file op)) d) d ops) p =
    (case map_of (rev (map op_file ops)) p of None \<Rightarrow> dict_get d p | Some c \<Rightarrow> Some c)"
proof (induction ops arbitrary: d)
  case (Cons op ops)
  obtain q c where qc: "op_file op = (q, c)" by (cases "op_file op")
  from Cons.IH [of "dict_set q c d"] show ?case
    by (simp add: qc map_add_def split: option.splits)
qed simp

text \<open>
  for files that do not exist yet, a commit is all-or-nothing: a transaction of complete file writes
  to new paths either commits, every path then holding the last content staged for it and every other
  file being as before, or fails because the file system refuses one of the paths, and then every
  file is as before.
\<close>

theorem tx_new_files_atomic:
  assumes "tx_obj (tx_after fs w0 ops) i = Some t" and "x_status t = TxOpen" and "\<not> x_timeout t < t1"
    and "\<not> list_ex (overtaken (fst (tx_after fs w0 ops)) t) (map so_resource (x_ops t))"
    and "list_all file_op (x_ops t)"
    and "list_all (\<lambda>op. dict_get (w_files (snd (tx_after fs w0 ops))) (fst (op_file op)) = None) (x_ops t)"
  shows "let (st', effs, r) = tx_commit fs t1 t2 t3 t4 i (tx_after fs w0 ops);
             before = dict_get (w_files (snd (tx_after fs w0 ops))) in
    if list_all (\<lambda>op. fs (fst (op_file op)) = None) (x_ops t)
    then r = CommitOk (length (x_ops t)) \<and>
         (\<forall>p. dict_get (w_files (snd st')) p =
            (case map_of (rev (map op_file (x_ops t))) p of None \<Rightarrow> before p | Some c \<Rightarrow> Some c))
    else (\<exists>e. r = CommitFailed e) \<and> (\<forall>p. dict_get (w_files (snd st')) p = before p)"
proof -
  obtain c w where after: "tx_after fs w0 ops = (c, w)" by (cases "tx_after fs w0 ops")
  have t: "dict_get (x_txns c) i = Some t" using assms(1) by (simp add: after tx_obj_def)
  have none: "conflicts_of t c = []"
    using assms(4) unfolding set_empty [symmetric] conflicts_members by (auto simp: list_ex_iff after)
  define run where "run = apply_all fs t3 (x_agent t) (x_ops t) w (x_writes c)"
  let ?acc = "accepted fs (x_ops t)"
  have run: "w_files (cr_world run) = foldl (\<lambda>d op. dict_set (fst (op_file op)) (snd (op_file op)) d) (w_files w) ?acc"
      "cr_applied run = ?acc" "(cr_error run = None) = (?acc = x_ops t)"
    using apply_files [OF assms(5), of "\<lparr>cr_world = w, cr_writes = x_writes c, cr_effs = [], cr_applied = [], cr_error = None\<rparr>" fs t3 "x_agent t"]
    by (simp_all add: run_def apply_all_def Let_def)
  have all: "?acc = x_ops t \<longleftrightarrow> list_all (\<lambda>op. fs (fst (op_file op)) = None) (x_ops t)"
    by (auto simp: accepted_def list_all_iff)
  have sub: "set ?acc \<subseteq> set (x_ops t)" by (auto simp: accepted_def dest: set_takeWhileD)
  then have acc_ok: "list_all file_op ?acc" using assms(5) by (auto simp: list_all_iff)
  have undone: "dict_get (w_files (rollback_applied (cr_applied run) (cr_world run))) p = dict_get (w_files w) p" for p
  proof (cases "p \<in> fst ` op_file ` set ?acc")
    case True
    then have "dict_get (w_files w) p = None" using sub assms(6) by (auto simp: after list_all_iff)
    with True show ?thesis by (simp add: rollback_files [OF acc_ok] run)
  next
    case False
    then have "map_of (rev (map op_file ?acc)) p = None"
      unfolding dict_get_None by (auto simp: image_image)
    with False show ?thesis by (simp add: rollback_files [OF acc_ok] run foldl_set_files)
  qed
  show ?thesis
    using t none assms(2,3) run all undone
    by (cases "cr_error run")
      (auto simp: after tx_commit_go Let_def commit_apply_def run_def [symmetric] commit_finish_def foldl_set_files)
qed

theorem tx_new_files_atomic_witness:
  "let (st', effs, r) = tx_commit (\<lambda>_. None) 3 3 3 3 ''t1'' (tx_after (\<lambda>_. None) (disk_world [])
         [TxBegin ''t1'' 0 ''ada'', TxStage [] 1 1 ''t1'' ''fs_write'' (file_params ''/a'' ''x'')])
   in dict_get (w_files (snd st')) ''/a'' = Some ''x''"
proof -
  let ?st = "tx_after (\<lambda>_. None) (disk_world []) [TxBegin ''t1'' 0 ''ada'', TxStage [] 1 1 ''t1'' ''fs_write'' (file_params ''/a'' ''x'')]"
  obtain t where t: "tx_obj ?st ''t1'' = Some t" "x_status t = TxOpen" "x_timeout t = 600"
      "map so_resource (x_ops t) = [''fs:/a'']" "map op_file (x_ops t) = [(''/a'', ''x'')]" "list_all file_op (x_ops t)"
      "x_writes (fst ?st) = []" "w_files (snd ?st) = []"
    by (simp add: tx_eval file_op_def op_file_def)
  have "list_all (\<lambda>op. dict_get (w_files (snd ?st)) (fst (op_file op)) = None) (x_ops t)" by (simp add: t(8) list_all_iff)
  from tx_new_files_atomic [OF t(1,2) _ _ t(6) this, of 3 3 3 3] t show ?thesis
    by (auto simp: overtaken_def list_all_iff list_ex_iff Let_def split: prod.splits)
qed

text \<open>
  a failed commit is not all-or-nothing: when a transaction overwrites a file that was there before
  and a later operation fails, the undo removes the file instead of restoring it.
\<close>

theorem tx_failed_commit_loses_file:
  "let (c, w) = tx_after (\<lambda>p. if p = ''/b'' then Some ''denied'' else None) (disk_world [(''/a'', old)])
         [TxBegin ''t1'' 0 ''ada'', TxStage [] 1 1 ''t1'' ''fs_write'' (file_params ''/a'' new),
          TxStage [] 2 2 ''t1'' ''fs_write'' (file_params ''/b'' other)];
       ((c', w'), effs, r) = tx_commit (\<lambda>p. if p = ''/b'' then Some ''denied'' else None) 3 3 3 3 ''t1'' (c, w)
   in dict_get (w_files w) ''/a'' = Some old \<and> r = CommitFailed ''op_failed: denied'' \<and> dict_get (w_files w') ''/a'' = None"
  by (simp add: tx_eval)

text \<open>
  another agent's write can go unnoticed: only the last writer of a resource is kept, so when the
  committing agent itself has written the resource after the other agent did, its commit overwrites
  the other agent's write without a conflict.
\<close>

theorem tx_conflict_masked:
  "let st = tx_after (\<lambda>_. None) (disk_world [])
         [TxBegin ''t1'' 0 ''ada'', TxStage [] 1 1 ''t1'' ''fs_write'' (file_params ''/a'' new),
          TxExternal 2 ''fs:/a'' ''bob'', TxExternal 3 ''fs:/a'' ''ada'']
   in snd (snd (tx_commit (\<lambda>_. None) 4 4 4 4 ''t1'' st)) = CommitOk 1"
  by (simp add: tx_eval)

text \<open>
  a rollback between the phases of a commit is overridden: when the watchdog rolls a transaction back
  after its conflict check and before its operations are read, the rollback succeeds, the commit then
  applies nothing, and the transaction ends as committed.
\<close>

theorem tx_rollback_overridden:
  "let (c, w) = tx_after (\<lambda>_. None) (disk_world [])
         [TxBegin ''t1'' 0 ''ada'', TxStage [] 1 1 ''t1'' ''fs_write'' (file_params ''/a'' new)];
       (c1, e1, r1) = commit_check 600 600 ''t1'' c;
       (c2, e2, r2) = tx_rollback 601 ''t1'' ''timeout'' c1;
       (c3, run) = commit_apply (\<lambda>_. None) 602 ''t1'' (c2, w);
       (c4, e4, r4) = commit_finish 603 ''t1'' run c3
   in r1 = None \<and> r2 = Inr ''timeout'' \<and> r4 = CommitOk 0 \<and> w_files (cr_world run) = [] \<and>
      map_option x_status (dict_get (x_txns c4) ''t1'') = Some TxCommitted"
  by (simp add: tx_eval)

end
