(* ===== verification/Model_Manager.thy ===== *)
theory Model_Manager imports Prelude begin

text \<open>
  The model manager, \<open>agents/model_manager.py\<close>: which models are loaded, how much memory they use, which
  one to recommend for a task and which to evict. What \<open>/api/ps\<close> of the model server answers is a
  parameter of every operation that asks it: the loaded models, or nothing when the call fails. The
  configured default model, read from a configuration file, is the parameter \<open>dm\<close>.

  The lemmas show that the slots are those the server reports, that pinned models are never evicted
  and what is evicted instead, and that the memory pressure notice can never be given.
\<close>

section \<open>State\<close>

datatype eviction = Lru | Pinned | Background

record slot =
  sl_name :: string
  sl_vram :: int
  sl_loaded :: time
  sl_used :: time
  sl_policy :: eviction

record models =
  mm_slots :: "(string, slot) dict"
  mm_events :: bool
  mm_total :: int
  mm_warned :: bool

definition mm_empty :: models where
  "mm_empty = \<lparr>mm_slots = [], mm_events = False, mm_total = 0, mm_warned = False\<rparr>"

definition mm_set_event_bus :: "models \<Rightarrow> models" where
  "mm_set_event_bus m = m\<lparr>mm_events := True\<rparr>"

definition headroom :: int where
  "headroom = 512"

definition vram_fallback :: "(string, int) dict" where
  "vram_fallback = [(''qwen3.6:35b-a3b'', 22000), (''qwen3.5:9b'', 6500), (''gemma3:4b'', 4000), (''llama3.2:3b'', 2500)]"

text \<open>\<open>COMPLEXITY_MODEL\<close> maps every level to the default model.\<close>

definition preferred_model :: "string \<Rightarrow> int \<Rightarrow> string" where
  "preferred_model dm complexity = dict_get_or dm (map (\<lambda>k. (k, dm)) [1..5]) complexity"

text \<open>One entry of the answer: name, \<open>size_vram\<close> and \<open>size\<close> in bytes.\<close>

record ps_entry =
  ps_name :: string
  ps_vram :: "int option"
  ps_size :: "int option"

type_synonym ps_answer = "ps_entry list option"

definition entry_vram :: "ps_entry \<Rightarrow> int" where
  "entry_vram e =
     (let bytes = (case ps_vram e of
                     Some b \<Rightarrow> if b \<noteq> 0 then b else (case ps_size e of None \<Rightarrow> 0 | Some s \<Rightarrow> s)
                   | None \<Rightarrow> (case ps_size e of None \<Rightarrow> 0 | Some s \<Rightarrow> s))
      in max 1 (bytes div (1024 * 1024)))"

definition mm_emit :: "models \<Rightarrow> string \<Rightarrow> payload \<Rightarrow> eff list" where
  "mm_emit m t p = (if mm_events m then [Emit t ''scheduler'' p] else [])"

definition mm_used :: "models \<Rightarrow> int" where
  "mm_used m = sum_list (map sl_vram (vals (mm_slots m)))"

definition mm_available :: "models \<Rightarrow> int" where
  "mm_available m = max 0 (mm_total m - mm_used m)"

section \<open>Operations\<close>

definition refresh_entry :: "string \<Rightarrow> time \<Rightarrow> models \<times> eff list \<Rightarrow> ps_entry \<Rightarrow> models \<times> eff list" where
  "refresh_entry dm now st e =
     (let (m, effs) = st; name = ps_name e
      in if name = [] then (m, effs)
         else if dict_get (mm_slots m) name = None
         then (m\<lparr>mm_slots := dict_set name
                 \<lparr>sl_name = name, sl_vram = entry_vram e, sl_loaded = now, sl_used = now,
                  sl_policy = (if name = dm then Pinned else Lru)\<rparr> (mm_slots m)\<rparr>,
               effs @ mm_emit m ''model.loaded'' [(''model_name'', PStr name), (''vram_mb'', PInt (entry_vram e))])
         else (m\<lparr>mm_slots := dict_upd name (\<lambda>s. s\<lparr>sl_vram := entry_vram e\<rparr>) (mm_slots m)\<rparr>, effs))"

definition mm_refresh :: "string \<Rightarrow> time \<Rightarrow> ps_answer \<Rightarrow> models \<Rightarrow> models \<times> eff list" where
  "mm_refresh dm now ps m =
     (case ps of
        None \<Rightarrow> (m, [])
      | Some entries \<Rightarrow>
          let loaded = filter (\<lambda>n. n \<noteq> []) (map ps_name entries);
              (m1, e1) = foldl (refresh_entry dm now) (m, []) entries;
              m2 = m1\<lparr>mm_slots := filter (\<lambda>(n, s). n \<in> set loaded) (mm_slots m1)\<rparr>;
              used = mm_used m2;
              total = max (max (py_int (of_int used * 5 / 4)) (mm_total m)) 8000;
              m3 = m2\<lparr>mm_total := total\<rparr>;
              ratio = rat_of_int used / rat_of_int total
          in if 0 < total
             then (if 9 / 10 < ratio \<and> \<not> mm_warned m3
                   then (m3\<lparr>mm_warned := True\<rparr>,
                         e1 @ mm_emit m3 ''vram.pressure''
                           [(''vram_used_mb'', PInt used), (''vram_total_mb'', PInt total),
                            (''loaded_models'', py_strs (keys (mm_slots m3)))])
                   else if ratio \<le> 9 / 10 then (m3\<lparr>mm_warned := False\<rparr>, e1)
                   else (m3, e1))
             else (m3, e1))"

text \<open>
  \<open>_evict_for\<close>: the key \<open>(0 if background else 1, last_used)\<close> is compared with two stable sorts.
\<close>

definition evict_order :: "slot list \<Rightarrow> slot list" where
  "evict_order ss = sort_key (\<lambda>s. if sl_policy s = Background then 0 else 1 :: nat) (sort_key sl_used ss)"

definition mm_evict :: "models \<Rightarrow> models \<times> string option" where
  "mm_evict m =
     (case evict_order (filter (\<lambda>s. sl_policy s \<noteq> Pinned) (vals (mm_slots m))) of
        [] \<Rightarrow> (m, None)
      | s # ss \<Rightarrow> (m\<lparr>mm_slots := dict_del (sl_name s) (mm_slots m)\<rparr>, Some (sl_name s)))"

text \<open>\<open>recommend\<close>: \<open>t1\<close> is the time of the refresh, \<open>t2\<close> the new \<open>last_used\<close>.\<close>

definition mm_recommend :: "string \<Rightarrow> time \<Rightarrow> time \<Rightarrow> ps_answer \<Rightarrow> int \<Rightarrow> bool \<Rightarrow> models
    \<Rightarrow> models \<times> eff list \<times> string" where
  "mm_recommend dm t1 t2 ps complexity prefer_loaded m =
     (let preferred = preferred_model dm complexity; (m1, e1) = mm_refresh dm t1 ps m
      in if dict_get (mm_slots m1) preferred \<noteq> None
         then (m1\<lparr>mm_slots := dict_upd preferred (\<lambda>s. s\<lparr>sl_used := t2\<rparr>) (mm_slots m1)\<rparr>, e1, preferred)
         else if \<not> prefer_loaded then (m1, e1, preferred)
         else
           let needed = dict_get_or 8000 vram_fallback preferred
           in if needed + headroom \<le> mm_available m1 then (m1, e1, preferred)
              else
                let (m2, victim) = mm_evict m1
                in (m2,
                    (case victim of
                       None \<Rightarrow> e1
                     | Some v \<Rightarrow> e1 @ (if v = [] then [] else mm_emit m2 ''model.evicted''
                         [(''evicted_model'', PStr v), (''loading_model'', PStr preferred),
                          (''complexity'', PInt complexity)])),
                    preferred))"

definition mm_mark_used :: "time \<Rightarrow> string \<Rightarrow> models \<Rightarrow> models" where
  "mm_mark_used now name m = m\<lparr>mm_slots := dict_upd name (\<lambda>s. s\<lparr>sl_used := now\<rparr>) (mm_slots m)\<rparr>"

definition mm_get_loaded :: "string \<Rightarrow> time \<Rightarrow> ps_answer \<Rightarrow> models \<Rightarrow> models \<times> eff list \<times> slot list" where
  "mm_get_loaded dm now ps m = (let (m', e) = mm_refresh dm now ps m in (m', e, vals (mm_slots m')))"

record vram_status =
  vs_total :: int
  vs_used :: int
  vs_available :: int
  vs_loaded :: "(string \<times> int \<times> eviction \<times> int) list"
  vs_pressure :: bool

definition mm_status :: "string \<Rightarrow> time \<Rightarrow> ps_answer \<Rightarrow> models \<Rightarrow> models \<times> eff list \<times> vram_status" where
  "mm_status dm now ps m =
     (let (m', e) = mm_refresh dm now ps m; used = mm_used m'; total = mm_total m'
      in (m', e, \<lparr>vs_total = total, vs_used = used, vs_available = max 0 (total - used),
                 vs_loaded = map (\<lambda>s. (sl_name s, sl_vram s, sl_policy s, py_round (now - sl_used s))) (vals (mm_slots m')),
                 vs_pressure = (0 < total \<and> 9 / 10 < rat_of_int used / rat_of_int total)\<rparr>))"

datatype mm_op =
    MmRecommend time time ps_answer int bool
  | MmUsed time string
  | MmRefresh time ps_answer
  | MmWire

fun mm_step :: "string \<Rightarrow> mm_op \<Rightarrow> models \<Rightarrow> models" where
  "mm_step dm (MmRecommend t1 t2 ps c p) m = fst (mm_recommend dm t1 t2 ps c p m)"
| "mm_step dm (MmUsed now name) m = mm_mark_used now name m"
| "mm_step dm (MmRefresh now ps) m = fst (mm_refresh dm now ps m)"
| "mm_step dm MmWire m = mm_set_event_bus m"

definition mm_after :: "string \<Rightarrow> mm_op list \<Rightarrow> models" where
  "mm_after dm ops = run_ops (mm_step dm) ops mm_empty"

section \<open>Well-formedness\<close>

text \<open>Every slot is stored under its name, uses some memory, and only the default model is pinned.\<close>

definition mm_slot_ok :: "string \<Rightarrow> string \<Rightarrow> slot \<Rightarrow> bool" where
  "mm_slot_ok dm n s = (sl_name s = n \<and> n \<noteq> [] \<and> 1 \<le> sl_vram s \<and> sl_policy s = (if n = dm then Pinned else Lru))"

definition mm_wf :: "string \<Rightarrow> models \<Rightarrow> bool" where
  "mm_wf dm m = (wf_dict (mm_slots m) \<and> (\<forall>n s. dict_get (mm_slots m) n = Some s \<longrightarrow> mm_slot_ok dm n s))"

lemma refresh_entry_wf: "mm_wf dm (fst st) \<Longrightarrow> mm_wf dm (fst (refresh_entry dm now st e))"
  by (cases "ps_name e = []")
    (auto simp: refresh_entry_def mm_wf_def mm_slot_ok_def entry_vram_def Let_def split: prod.splits)

lemma refresh_entries_wf: "mm_wf dm (fst st) \<Longrightarrow> mm_wf dm (fst (foldl (refresh_entry dm now) st es))"
  by (rule foldl_keeps [where P = "\<lambda>st. mm_wf dm (fst st)"]) (auto intro: refresh_entry_wf)

lemma mm_wf_filter: "mm_wf dm m \<Longrightarrow> mm_wf dm (m\<lparr>mm_slots := filter P (mm_slots m)\<rparr>)"
  by (auto simp: mm_wf_def dict_get_filter split: option.splits if_splits)

lemma mm_wf_cong: "mm_slots m' = mm_slots m \<Longrightarrow> mm_wf dm m' = mm_wf dm m"
  by (simp add: mm_wf_def)

lemma mm_refresh_slots:
  "mm_slots (fst (mm_refresh dm now ps m)) =
     (case ps of None \<Rightarrow> mm_slots m
      | Some es \<Rightarrow> filter (\<lambda>(n, s). n \<in> set (filter (\<lambda>n. n \<noteq> []) (map ps_name es)))
                    (mm_slots (fst (foldl (refresh_entry dm now) (m, []) es))))"
  by (auto simp: mm_refresh_def Let_def split_beta split: option.splits)

lemma mm_refresh_wf: "mm_wf dm m \<Longrightarrow> mm_wf dm (fst (mm_refresh dm now ps m))"
proof (cases ps)
  case (Some es)
  assume "mm_wf dm m"
  then have "mm_wf dm (fst (foldl (refresh_entry dm now) (m, []) es))" by (intro refresh_entries_wf) simp
  from mm_wf_filter [OF this, of "\<lambda>(n, s). n \<in> set (filter (\<lambda>n. n \<noteq> []) (map ps_name es))"] show ?thesis
    by (simp add: Some mm_wf_def mm_refresh_slots)
qed (simp add: mm_refresh_def)

lemma mm_evict_wf: "mm_wf dm m \<Longrightarrow> mm_wf dm (fst (mm_evict m))"
  by (auto simp: mm_evict_def mm_wf_def split: list.splits)

lemma mm_recommend_wf: "mm_wf dm m \<Longrightarrow> mm_wf dm (fst (mm_recommend dm t1 t2 ps c p m))"
proof -
  assume "mm_wf dm m"
  then have wf: "mm_wf dm (fst (mm_refresh dm t1 ps m))" by (rule mm_refresh_wf)
  then have "mm_wf dm ((fst (mm_refresh dm t1 ps m))\<lparr>mm_slots := dict_upd n (\<lambda>s. s\<lparr>sl_used := t2\<rparr>) (mm_slots (fst (mm_refresh dm t1 ps m)))\<rparr>)" for n
    by (auto simp: mm_wf_def mm_slot_ok_def)
  with wf mm_evict_wf [OF wf] show ?thesis by (simp add: mm_recommend_def Let_def split_beta)
qed

text \<open>
  Invariant of a run: the slots are well-formed and use at most nine tenths of the estimated total.
\<close>

definition mm_inv :: "string \<Rightarrow> models \<Rightarrow> bool" where
  "mm_inv dm m = (mm_wf dm m \<and> 10 * mm_used m \<le> 9 * mm_total m)"

lemma mm_used_nonneg: "mm_wf dm m \<Longrightarrow> 0 \<le> mm_used m"
proof -
  assume wf: "mm_wf dm m"
  have "0 \<le> sl_vram s" if "s \<in> set (vals (mm_slots m))" for s
  proof -
    from that obtain n where "(n, s) \<in> set (mm_slots m)" by auto
    then have "dict_get (mm_slots m) n = Some s" using wf in_dict_get by (auto simp: mm_wf_def)
    with wf have "1 \<le> sl_vram s" by (auto simp: mm_wf_def mm_slot_ok_def)
    then show ?thesis by simp
  qed
  then show ?thesis unfolding mm_used_def by (intro sum_list_nonneg) (auto simp del: map_map)
qed

lemma estimate_enough:
  assumes "0 \<le> used" and "n = max (max (py_int (of_int used * 5 / 4)) old) 8000"
  shows "10 * used \<le> 9 * n"
proof -
  have "py_int (of_int used * 5 / 4) = used * 5 div 4"
    using assms(1) by (simp add: py_int_def floor_divide_of_int_eq [of "used * 5" 4, simplified])
  with assms show ?thesis by linarith
qed

definition mm_synced :: "string \<Rightarrow> time \<Rightarrow> ps_entry list \<Rightarrow> models \<Rightarrow> models" where
  "mm_synced dm now es m =
     (let m1 = fst (foldl (refresh_entry dm now) (m, []) es)
      in m1\<lparr>mm_slots := filter (\<lambda>(n, s). n \<in> set (filter (\<lambda>n. n \<noteq> []) (map ps_name es))) (mm_slots m1)\<rparr>)"

definition mm_estimate :: "models \<Rightarrow> int" where
  "mm_estimate m = max (max (py_int (of_int (mm_used m) * 5 / 4)) (mm_total m)) 8000"

lemma mm_refresh_Some:
  fixes dm now es m
  defines "m2 \<equiv> mm_synced dm now es m"
  defines "ratio \<equiv> rat_of_int (mm_used m2) / rat_of_int (mm_estimate m2)"
  obtains w e where "mm_refresh dm now (Some es) m =
      (m2\<lparr>mm_total := mm_estimate m2, mm_warned := w\<rparr>, snd (foldl (refresh_entry dm now) (m, []) es) @ e)"
    and "e = [] \<or> 0 < mm_estimate m2 \<and> 9 / 10 < ratio"
proof -
  have m2: "(fst (foldl (refresh_entry dm now) (m, []) es))\<lparr>mm_slots := filter (\<lambda>(n, s). n \<in> set (filter (\<lambda>n. n \<noteq> []) (map ps_name es)))
      (mm_slots (fst (foldl (refresh_entry dm now) (m, []) es)))\<rparr> = m2"
    by (simp add: m2_def mm_synced_def Let_def)
  have "mm_total (fst (foldl (refresh_entry dm now) (m, []) es)) = mm_total m"
    by (rule foldl_keeps [where P = "\<lambda>st. mm_total (fst st) = mm_total m"])
      (simp_all add: refresh_entry_def Let_def split_beta)
  then have t: "mm_total m = mm_total m2" by (simp add: m2_def mm_synced_def Let_def)
  have same: "m2\<lparr>mm_total := n\<rparr> = m2\<lparr>mm_total := n, mm_warned := mm_warned m2\<rparr>" for n by simp
  have eq: "mm_refresh dm now (Some es) m =
     (let m3 = m2\<lparr>mm_total := mm_estimate m2\<rparr>; e1 = snd (foldl (refresh_entry dm now) (m, []) es)
      in if 0 < mm_estimate m2
         then (if 9 / 10 < ratio \<and> \<not> mm_warned m3
               then (m3\<lparr>mm_warned := True\<rparr>,
                     e1 @ mm_emit m3 ''vram.pressure''
                       [(''vram_used_mb'', PInt (mm_used m2)), (''vram_total_mb'', PInt (mm_estimate m2)),
                        (''loaded_models'', py_strs (keys (mm_slots m3)))])
               else if ratio \<le> 9 / 10 then (m3\<lparr>mm_warned := False\<rparr>, e1)
               else (m3, e1))
         else (m3, e1))"
    unfolding mm_refresh_def option.case split_beta Let_def m2 t ratio_def mm_estimate_def
    by (simp only: fst_conv snd_conv)
  show ?thesis
  proof (cases "0 < mm_estimate m2 \<and> 9 / 10 < ratio \<and> \<not> mm_warned m2")
    case True
    then show ?thesis by (intro that) (auto simp: eq Let_def)
  next
    case False
    have "\<exists>w. mm_refresh dm now (Some es) m =
        (m2\<lparr>mm_total := mm_estimate m2, mm_warned := w\<rparr>, snd (foldl (refresh_entry dm now) (m, []) es))"
    proof (cases "0 < mm_estimate m2 \<and> ratio \<le> 9 / 10")
      case True
      then show ?thesis by (intro exI [of _ False]) (simp add: eq Let_def)
    next
      case quiet: False
      show ?thesis by (intro exI [of _ "mm_warned m2"], subst same [symmetric]) (use False quiet in \<open>auto simp: eq Let_def\<close>)
    qed
    then show ?thesis using that [of _ "[]"] by auto
  qed
qed

lemma mm_used_cong: "mm_slots m' = mm_slots m \<Longrightarrow> mm_used m' = mm_used m"
  by (simp add: mm_used_def)

lemma mm_refresh_total:
  "mm_total (fst (mm_refresh dm now (Some es) m)) = mm_estimate (mm_synced dm now es m)"
  "mm_used (fst (mm_refresh dm now (Some es) m)) = mm_used (mm_synced dm now es m)"
  by (rule mm_refresh_Some [of dm now es m]; simp add: mm_used_def)+
lemma mm_refresh_inv: "mm_inv dm m \<Longrightarrow> mm_inv dm (fst (mm_refresh dm now ps m))"
proof (cases ps)
  case None
  then show "mm_inv dm m \<Longrightarrow> ?thesis" by (simp add: mm_refresh_def)
next
  case (Some es)
  assume "mm_inv dm m"
  then have wf: "mm_wf dm (fst (mm_refresh dm now ps m))" by (simp add: mm_inv_def mm_refresh_wf)
  from estimate_enough [OF mm_used_nonneg [OF wf]] wf show ?thesis
    by (simp add: mm_inv_def Some mm_refresh_total mm_estimate_def)
qed

lemma sum_list_delete:
  "(\<And>n s. (n, s) \<in> set d \<Longrightarrow> 0 \<le> sl_vram s) \<Longrightarrow>
    sum_list (map sl_vram (vals (dict_del k d))) \<le> sum_list (map sl_vram (vals d))"
proof (induction d)
  case (Cons p d)
  obtain n s where p: "p = (n, s)" by (cases p)
  have "0 \<le> sl_vram s" using Cons.prems [of n s] by (simp add: p)
  moreover have "sum_list (map sl_vram (vals (dict_del k d))) \<le> sum_list (map sl_vram (vals d))"
    by (rule Cons.IH) (use Cons.prems in auto)
  ultimately show ?case by (simp add: p)
qed simp

lemma mm_evict_inv: "mm_inv dm m \<Longrightarrow> mm_inv dm (fst (mm_evict m))"
proof -
  assume inv: "mm_inv dm m"
  have "0 \<le> sl_vram s" if "(n, s) \<in> set (mm_slots m)" for n s
    using inv in_dict_get [OF _ that] by (force simp: mm_inv_def mm_wf_def mm_slot_ok_def)
  from sum_list_delete [OF this] have "mm_used (fst (mm_evict m)) \<le> mm_used m"
    by (auto simp: mm_evict_def mm_used_def split: list.splits)
  moreover have "mm_total (fst (mm_evict m)) = mm_total m" by (simp add: mm_evict_def split: list.splits)
  ultimately show ?thesis using inv mm_evict_wf [of dm m] by (simp add: mm_inv_def)
qed

lemma vals_upd_vram: "map (sl_vram \<circ> snd) (dict_upd n (sl_used_update (\<lambda>_. t)) d) = map (sl_vram \<circ> snd) d"
  by (auto simp: dict_upd_def)

lemma mm_touch_inv: "mm_inv dm m \<Longrightarrow> mm_inv dm (m\<lparr>mm_slots := dict_upd n (\<lambda>s. s\<lparr>sl_used := t\<rparr>) (mm_slots m)\<rparr>)"
  by (auto simp: mm_inv_def mm_used_def vals_upd_vram mm_wf_def mm_slot_ok_def)

lemma mm_recommend_inv: "mm_inv dm m \<Longrightarrow> mm_inv dm (fst (mm_recommend dm t1 t2 ps c p m))"
  using mm_refresh_inv [of dm m t1 ps] mm_evict_inv [of dm "fst (mm_refresh dm t1 ps m)"]
    mm_touch_inv [of dm "fst (mm_refresh dm t1 ps m)"]
  by (simp add: mm_recommend_def Let_def split_beta)

lemma mm_step_inv: "mm_inv dm m \<Longrightarrow> mm_inv dm (mm_step dm x m)"
proof (cases x)
  case MmWire
  then show "mm_inv dm m \<Longrightarrow> ?thesis" by (simp add: mm_inv_def mm_set_event_bus_def mm_used_def mm_wf_def)
qed (simp_all add: mm_recommend_inv mm_refresh_inv mm_mark_used_def mm_touch_inv)

interpretation mm_sys: op_system "mm_step dm" "mm_inv dm" for dm
  by unfold_locales (rule mm_step_inv)

lemma mm_after_inv: "mm_inv dm (mm_after dm ops)"
  unfolding mm_after_def by (rule mm_sys.inv_run) (simp add: mm_inv_def mm_wf_def mm_empty_def mm_used_def)

section \<open>Properties\<close>

lemma keys_filter_fst: "keys (filter (\<lambda>(n, s). P n) d) = filter P (keys d)"
  by (induction d) auto

lemma refresh_entry_keys:
  "wf_dict (mm_slots (fst st)) \<Longrightarrow> set (keys (mm_slots (fst (refresh_entry dm now st e)))) =
     set (keys (mm_slots (fst st))) \<union> (if ps_name e = [] then {} else {ps_name e})"
  by (auto simp: refresh_entry_def Let_def keys_set dict_get_None split: prod.splits simp del: set_map)

lemma refresh_entries_keys:
  "mm_wf dm (fst st) \<Longrightarrow> set (keys (mm_slots (fst (foldl (refresh_entry dm now) st es)))) =
     set (keys (mm_slots (fst st))) \<union> {n \<in> ps_name ` set es. n \<noteq> []}"
proof (induction es arbitrary: st)
  case (Cons e es)
  have wf: "wf_dict (mm_slots (fst st))" using Cons.prems by (simp add: mm_wf_def)
  show ?case
    using Cons.IH [OF refresh_entry_wf [OF Cons.prems, of now e]] refresh_entry_keys [OF wf, of dm now e]
    by (auto simp del: set_map)
qed simp

text \<open>
  the slots mirror the server: in every reachable state, after the server has answered, the models
  the manager holds are exactly those the answer names; when it does not answer nothing changes.
\<close>

theorem mm_refresh_exact:
  "case ps of
     None \<Rightarrow> mm_refresh dm now ps (mm_after dm ops) = (mm_after dm ops, [])
   | Some es \<Rightarrow> set (keys (mm_slots (fst (mm_refresh dm now ps (mm_after dm ops))))) = {n \<in> ps_name ` set es. n \<noteq> []}"
proof (cases ps)
  case None
  then show ?thesis by (simp add: mm_refresh_def)
next
  case (Some es)
  let ?m = "mm_after dm ops"
  have "mm_wf dm (fst (?m, [] :: eff list))" using mm_after_inv [of dm ops] by (simp add: mm_inv_def)
  from refresh_entries_keys [OF this, of now es] show ?thesis
    by (simp add: Some mm_refresh_slots keys_filter_fst del: set_map) auto
qed

text \<open>
  what is evicted: in every reachable state, recommending a model never removes the pinned one; a
  model is removed only when the recommended one is not loaded and does not fit, at most one is, and
  no other that could be evicted was used less recently.
\<close>

theorem mm_eviction_lru:
  "let m1 = fst (mm_refresh dm t1 ps (mm_after dm ops));
       m2 = fst (mm_recommend dm t1 t2 ps c p (mm_after dm ops)) in
   (keys (mm_slots m2) = keys (mm_slots m1) \<or>
    (\<exists>n s. dict_get (mm_slots m1) n = Some s \<and> n \<noteq> dm \<and> mm_slots m2 = dict_del n (mm_slots m1) \<and>
       dict_get (mm_slots m1) (preferred_model dm c) = None \<and>
       mm_available m1 < dict_get_or 8000 vram_fallback (preferred_model dm c) + headroom \<and>
       list_all (\<lambda>(n', s'). n' = dm \<or> sl_used s \<le> sl_used s') (mm_slots m1)))"
proof -
  let ?m = "mm_after dm ops"
  let ?m1 = "fst (mm_refresh dm t1 ps ?m)"
  have wf: "mm_wf dm ?m1" using mm_refresh_inv [OF mm_after_inv] by (simp add: mm_inv_def)
  show ?thesis
  proof (cases "dict_get (mm_slots ?m1) (preferred_model dm c) = None \<and> p \<and>
      mm_available ?m1 < dict_get_or 8000 vram_fallback (preferred_model dm c) + headroom")
    case False
    then have "keys (mm_slots (fst (mm_recommend dm t1 t2 ps c p ?m))) = keys (mm_slots ?m1)"
      by (auto simp: mm_recommend_def Let_def split_beta)
    then show ?thesis by (simp add: Let_def)
  next
    case True
    then have m2: "fst (mm_recommend dm t1 t2 ps c p ?m) = fst (mm_evict ?m1)"
      by (auto simp: mm_recommend_def Let_def split_beta)
    let ?free = "filter (\<lambda>s. sl_policy s \<noteq> Pinned) (vals (mm_slots ?m1))"
    have slots: "mm_slot_ok dm n s" if "(n, s) \<in> set (mm_slots ?m1)" for n s
      using wf in_dict_get [OF _ that] by (simp add: mm_wf_def)
    have free: "s \<in> set ?free \<longleftrightarrow> (\<exists>n. (n, s) \<in> set (mm_slots ?m1) \<and> n \<noteq> dm)" for s
      using slots by (force simp: mm_slot_ok_def)
    have "sl_policy s \<noteq> Background" if "s \<in> set ?free" for s
      using that slots by (auto simp: mm_slot_ok_def split: if_splits)
    then have same: "map (\<lambda>s. if sl_policy s = Background then 0 else 1 :: nat) (sort_key sl_used ?free) = map (\<lambda>s. 1) (sort_key sl_used ?free)"
      by auto
    have order: "evict_order ?free = sort_key sl_used ?free"
      unfolding evict_order_def by (rule sort_key_id_if_sorted) (simp only: same map_replicate_const sorted_replicate)
    show ?thesis
    proof (cases "evict_order ?free")
      case Nil
      then show ?thesis using m2 by (simp add: Let_def mm_evict_def)
    next
      case (Cons s ss)
      then have "s \<in> set ?free" using order by (metis list.set_intros(1) set_sort)
      then obtain n where n: "(n, s) \<in> set (mm_slots ?m1)" "n \<noteq> dm" unfolding free by blast
      then have name: "sl_name s = n" using slots by (auto simp: mm_slot_ok_def)
      have "sorted (map sl_used (s # ss))" using order Cons by (metis sorted_sort_key)
      moreover have "s' \<in> set (s # ss)" if "s' \<in> set ?free" for s'
        using that order Cons by (metis set_sort)
      ultimately have "sl_used s \<le> sl_used s'" if "s' \<in> set ?free" for s'
        using that by fastforce
      then have "list_all (\<lambda>(n', s'). n' = dm \<or> sl_used s \<le> sl_used s') (mm_slots ?m1)"
        unfolding list_all_iff using free by blast
      moreover have "dict_get (mm_slots ?m1) n = Some s"
        using wf n(1) by (intro in_dict_get) (simp_all add: mm_wf_def)
      moreover have "mm_slots (fst (mm_evict ?m1)) = dict_del n (mm_slots ?m1)"
        using Cons name by (simp add: mm_evict_def)
      ultimately show ?thesis using n(2) True m2 by (auto simp: Let_def)
    qed
  qed
qed

text \<open>
  memory pressure is never reported: because the total is estimated as a quarter above what is used,
  the share in use never passes nine tenths, so no refresh in any reachable state emits
  \<open>vram.pressure\<close> and the status never shows pressure.
\<close>

theorem mm_pressure_never:
  "(\<forall>src pl. Emit ''vram.pressure'' src pl \<notin> set (snd (mm_refresh dm now ps (mm_after dm ops)))) \<and>
   \<not> vs_pressure (snd (snd (mm_status dm now ps (mm_after dm ops))))"
proof -
  let ?m = "mm_after dm ops"
  let ?m1 = "fst (mm_refresh dm now ps ?m)"
  have inv: "10 * mm_used ?m1 \<le> 9 * mm_total ?m1"
    using mm_refresh_inv [OF mm_after_inv] by (simp add: mm_inv_def)
  have ratio: "rat_of_int (mm_used ?m1) / rat_of_int (mm_total ?m1) \<le> 9 / 10" if "0 < mm_total ?m1"
  proof -
    have "rat_of_int (10 * mm_used ?m1) \<le> rat_of_int (9 * mm_total ?m1)" using inv by (simp only: of_int_le_iff)
    with that show ?thesis by (simp add: divide_le_eq)
  qed
  then have status: "\<not> vs_pressure (snd (snd (mm_status dm now ps ?m)))"
    by (auto simp: mm_status_def Let_def split_beta)
  have entries: "\<forall>src pl. Emit ''vram.pressure'' src pl \<notin> set (snd st)
      \<Longrightarrow> \<forall>src pl. Emit ''vram.pressure'' src pl \<notin> set (snd (foldl (refresh_entry dm now) st es))" for st es
    by (rule foldl_keeps [where P = "\<lambda>st. \<forall>src pl. Emit ''vram.pressure'' src pl \<notin> set (snd st)"])
      (auto simp: refresh_entry_def mm_emit_def Let_def split: prod.splits)
  have "\<forall>src pl. Emit ''vram.pressure'' src pl \<notin> set (snd (mm_refresh dm now ps ?m))"
  proof (cases ps)
    case None
    then show ?thesis by (simp add: mm_refresh_def)
  next
    case (Some es)
    let ?m2 = "mm_synced dm now es ?m"
    obtain e where e: "snd (mm_refresh dm now (Some es) ?m) = snd (foldl (refresh_entry dm now) (?m, []) es) @ e"
      "e = [] \<or> 0 < mm_estimate ?m2 \<and> 9 / 10 < rat_of_int (mm_used ?m2) / rat_of_int (mm_estimate ?m2)"
      by (rule mm_refresh_Some [of dm now es ?m]) (metis snd_conv)
    have "e = []" using e(2) ratio by (auto simp: Some mm_refresh_total)
    then show ?thesis using entries [of "(?m, [])" es] e(1) by (simp add: Some)
  qed
  with status show ?thesis by blast
qed

end
