(* ===== verification/Router.thy ===== *)
theory Router imports Prelude "HOL-Library.List_Lexorder" "HOL-Library.Char_ord" begin

text \<open>
  The adaptive model router, \<open>agents/adaptive_router.py\<close>: per model and complexity it keeps exponential
  moving averages of what tasks observed, scores models with them, and resolves hard overrides.
  The two files \<open>_save\<close> writes are the fields \<open>rt_disk_stats\<close> and \<open>rt_disk_overrides\<close>.

  The lemmas show that the averages are those of a reference definition over the accepted observations,
  that scores stay between 0 and 1, what is recommended and which override wins, and that a restart
  restores the state.
\<close>

section \<open>State\<close>

definition ema_alpha :: rat where
  "ema_alpha = 15 / 100"

definition min_observations :: int where
  "min_observations = 5"

definition throughput_norm :: rat where
  "throughput_norm = 2"

definition latency_norm :: rat where
  "latency_norm = 5000"

definition default_score :: rat where
  "default_score = 60 / 100"

record model_stats =
  st_model :: string
  st_complexity :: int
  st_count :: int
  st_success :: rat
  st_tpm :: rat
  st_duration :: rat
  st_updated :: time

record override =
  ov_id :: string
  ov_model :: string
  ov_complexity :: "int option"
  ov_agent :: "string option"
  ov_role :: "string option"
  ov_reason :: string
  ov_created :: time

record router =
  rt_stats :: "(string \<times> int, model_stats) dict"
  rt_overrides :: "(string, override) dict"
  rt_disk_stats :: "(string, model_stats) dict option"
  rt_disk_overrides :: "(string, override) dict option"

text \<open>\<open>_save\<close> and \<open>_load\<close>; an absent or unreadable file is \<open>None\<close>.\<close>

definition stats_key :: "string \<Rightarrow> int \<Rightarrow> string" where
  "stats_key model complexity = model @ ''::'' @ int_str complexity"

definition rt_save :: "router \<Rightarrow> router" where
  "rt_save r =
     r\<lparr>rt_disk_stats := Some (dict_build (\<lambda>((m, c), s). stats_key m c) snd (rt_stats r)),
       rt_disk_overrides := Some (rt_overrides r)\<rparr>"

definition rt_load :: "(string, model_stats) dict option \<Rightarrow> (string, override) dict option \<Rightarrow> router" where
  "rt_load ds dov =
     \<lparr>rt_stats = (case ds of None \<Rightarrow> []
                  | Some d \<Rightarrow> dict_build (\<lambda>s. (st_model s, st_complexity s)) id (vals d)),
      rt_overrides = (case dov of None \<Rightarrow> [] | Some d \<Rightarrow> dict_build fst snd d),
      rt_disk_stats = ds, rt_disk_overrides = dov\<rparr>"

section \<open>Observation\<close>

definition ema :: "rat \<Rightarrow> rat \<Rightarrow> rat" where
  "ema current new_value = ema_alpha * new_value + (1 - ema_alpha) * current"

definition rt_observe :: "string \<Rightarrow> int \<Rightarrow> rat option \<Rightarrow> int \<Rightarrow> bool \<Rightarrow> time \<Rightarrow> router \<Rightarrow> router" where
  "rt_observe model complexity duration tokens_out success now r =
     (if model = [] \<or> complexity < 1 \<or> 5 < complexity then r
      else case duration of
        None \<Rightarrow> r
      | Some ms \<Rightarrow>
          if ms \<le> 0 then r
          else
            let tpm = (if 0 < ms then max 0 (of_int tokens_out / ms) else 0);
                ok = (if success then 1 else 0); key = (model, complexity)
            in rt_save (r\<lparr>rt_stats :=
                 (case dict_get (rt_stats r) key of
                    None \<Rightarrow> dict_set key
                      \<lparr>st_model = model, st_complexity = complexity, st_count = 1, st_success = ok,
                       st_tpm = tpm, st_duration = ms, st_updated = now\<rparr> (rt_stats r)
                  | Some s \<Rightarrow> dict_upd key (\<lambda>s. s\<lparr>st_success := ema (st_success s) ok,
                       st_tpm := ema (st_tpm s) tpm, st_duration := ema (st_duration s) ms,
                       st_count := st_count s + 1, st_updated := now\<rparr>) (rt_stats r))\<rparr>))"

section \<open>Scoring\<close>

definition rt_score :: "router \<Rightarrow> int \<Rightarrow> string \<Rightarrow> rat" where
  "rt_score r complexity model =
     (case dict_get (rt_stats r) (model, complexity) of
        None \<Rightarrow> default_score
      | Some s \<Rightarrow>
          if st_count s < min_observations then default_score
          else
            let throughput = min (st_tpm s / throughput_norm) 1;
                latency = 1 / (1 + st_duration s / latency_norm)
            in py_round_dig 4 (1 / 2 * st_success s + 3 / 10 * throughput + 2 / 10 * latency))"

definition rt_confident :: "router \<Rightarrow> int \<Rightarrow> string \<Rightarrow> bool" where
  "rt_confident r complexity model =
     (case dict_get (rt_stats r) (model, complexity) of
        None \<Rightarrow> False | Some s \<Rightarrow> min_observations \<le> st_count s)"

definition rt_recommend :: "router \<Rightarrow> int \<Rightarrow> string list \<Rightarrow> string option" where
  "rt_recommend r complexity candidates =
     (if candidates = [] then None
      else case filter (rt_confident r complexity) candidates of
             [] \<Rightarrow> None
           | m # ms \<Rightarrow> Some (first_max (rt_score r complexity) m ms))"

section \<open>Overrides\<close>

definition rt_add_override :: "string \<Rightarrow> string \<Rightarrow> int option \<Rightarrow> string option \<Rightarrow> string option \<Rightarrow> string
    \<Rightarrow> time \<Rightarrow> router \<Rightarrow> router \<times> string" where
  "rt_add_override oid model complexity agent role reason now r =
     (rt_save (r\<lparr>rt_overrides := dict_set oid
        \<lparr>ov_id = oid, ov_model = model, ov_complexity = complexity, ov_agent = agent, ov_role = role,
         ov_reason = reason, ov_created = now\<rparr> (rt_overrides r)\<rparr>), oid)"

definition rt_remove_override :: "string \<Rightarrow> router \<Rightarrow> router \<times> bool" where
  "rt_remove_override oid r =
     (if dict_get (rt_overrides r) oid = None then (r, False)
      else (rt_save (r\<lparr>rt_overrides := dict_del oid (rt_overrides r)\<rparr>), True))"

definition ov_matches :: "int \<Rightarrow> string option \<Rightarrow> string option \<Rightarrow> override \<Rightarrow> bool" where
  "ov_matches complexity agent role ov =
     ((ov_complexity ov = None \<or> ov_complexity ov = Some complexity) \<and>
      (ov_agent ov = None \<or> ov_agent ov = agent) \<and>
      (ov_role ov = None \<or> ov_role ov = role))"

definition ov_specificity :: "override \<Rightarrow> int" where
  "ov_specificity ov = (if ov_agent ov \<noteq> None then 2 else 0) + (if ov_role ov \<noteq> None then 1 else 0)"

definition rt_resolve_override :: "int \<Rightarrow> string option \<Rightarrow> string option \<Rightarrow> router \<Rightarrow> string option" where
  "rt_resolve_override complexity agent role r =
     (case filter (ov_matches complexity agent role) (vals (rt_overrides r)) of
        [] \<Rightarrow> None
      | ov # ovs \<Rightarrow> Some (ov_model (first_max ov_specificity ov ovs)))"

definition rt_list_overrides :: "router \<Rightarrow> override list" where
  "rt_list_overrides r = vals (rt_overrides r)"

section \<open>Export\<close>

record stat_entry =
  se_model :: string
  se_complexity :: int
  se_count :: int
  se_success :: rat
  se_tpm :: rat
  se_duration :: rat
  se_score :: rat
  se_confident :: bool
  se_updated :: time

text \<open>\<open>get_stats\<close>: the items are sorted by the pair of model and complexity; keys are unique.\<close>

definition rt_get_stats :: "router \<Rightarrow> stat_entry list" where
  "rt_get_stats r =
     map (\<lambda>((m, c), s). \<lparr>se_model = m, se_complexity = c, se_count = st_count s,
            se_success = py_round_dig 4 (st_success s), se_tpm = py_round_dig 4 (st_tpm s),
            se_duration = py_round_dig 1 (st_duration s), se_score = rt_score r c m,
            se_confident = (min_observations \<le> st_count s), se_updated = st_updated s\<rparr>)
       (sort_key (fst \<circ> fst) (sort_key (snd \<circ> fst) (rt_stats r)))"

text \<open>
  \<open>get_recommendation\<close>: the candidates and the static default are those of the model manager's table.
\<close>

record recommendation =
  rc_complexity :: int
  rc_recommended :: "string option"
  rc_static :: string
  rc_adaptive :: bool
  rc_scores :: "(string, rat) dict"
  rc_confidence :: "(string, bool) dict"

definition rt_get_recommendation :: "string list \<Rightarrow> (int \<Rightarrow> string) \<Rightarrow> int \<Rightarrow> router \<Rightarrow> recommendation" where
  "rt_get_recommendation candidates static complexity r =
     (let best = rt_recommend r complexity candidates
      in \<lparr>rc_complexity = complexity, rc_recommended = best, rc_static = static complexity,
          rc_adaptive = (best \<noteq> None),
          rc_scores = dict_build id (rt_score r complexity) candidates,
          rc_confidence = dict_build id (rt_confident r complexity) candidates\<rparr>)"

section \<open>Runs\<close>

datatype rt_op =
    RtObserve string int "rat option" int bool time
  | RtAdd string string "int option" "string option" "string option" string time
  | RtRemove string
  | RtRestart

fun rt_step :: "rt_op \<Rightarrow> router \<Rightarrow> router" where
  "rt_step (RtObserve m c d n ok now) r = rt_observe m c d n ok now r"
| "rt_step (RtAdd oid m c a ro why now) r = fst (rt_add_override oid m c a ro why now r)"
| "rt_step (RtRemove oid) r = fst (rt_remove_override oid r)"
| "rt_step RtRestart r = rt_load (rt_disk_stats r) (rt_disk_overrides r)"

definition rt_after :: "rt_op list \<Rightarrow> router" where
  "rt_after ops = run_ops rt_step ops (rt_load None None)"

definition stats_ok :: "string \<times> int \<Rightarrow> model_stats \<Rightarrow> bool" where
  "stats_ok k s = (k = (st_model s, st_complexity s) \<and> 1 \<le> st_complexity s \<and> st_complexity s \<le> 5 \<and>
     0 < st_count s \<and> 0 \<le> st_success s \<and> st_success s \<le> 1 \<and> 0 \<le> st_tpm s \<and> 0 < st_duration s)"

definition rt_wf :: "router \<Rightarrow> bool" where
  "rt_wf r = (wf_dict (rt_stats r) \<and> wf_dict (rt_overrides r) \<and>
     (\<forall>k s. dict_get (rt_stats r) k = Some s \<longrightarrow> stats_ok k s))"

definition rt_inv :: "router \<Rightarrow> bool" where
  "rt_inv r = (rt_wf r \<and> rt_load (rt_disk_stats r) (rt_disk_overrides r) = r)"

lemma rt_save_fields [simp]:
  "rt_stats (rt_save r) = rt_stats r" "rt_overrides (rt_save r) = rt_overrides r"
  by (simp_all add: rt_save_def)

lemma ema_ge: "lo \<le> x \<Longrightarrow> lo \<le> y \<Longrightarrow> lo \<le> ema x y"
  unfolding ema_def ema_alpha_def by (simp add: field_simps)

lemma ema_le: "x \<le> hi \<Longrightarrow> y \<le> hi \<Longrightarrow> ema x y \<le> hi"
  unfolding ema_def ema_alpha_def by (simp add: field_simps)

lemma ema_pos: "0 < x \<Longrightarrow> 0 < y \<Longrightarrow> 0 < ema x y"
  by (simp add: ema_def ema_alpha_def)

lemma int_str_digit: "1 \<le> c \<Longrightarrow> c \<le> 5 \<Longrightarrow> int_str c = [char_of (48 + nat c)]"
  by (simp add: int_str_def nat_str.simps)

lemma stats_key_inj:
  assumes "stats_key m c = stats_key m' c'" and "1 \<le> c" "c \<le> 5" "1 \<le> c'" "c' \<le> 5"
  shows "m = m' \<and> c = c'"
proof -
  have "m @ ''::'' = m' @ ''::''" and ch: "(char_of (48 + nat c) :: char) = char_of (48 + nat c')"
    using assms by (simp_all add: stats_key_def int_str_digit)
  from arg_cong [OF ch, of "of_char :: char \<Rightarrow> nat"] assms(2-5) have "nat c = nat c'" by simp
  with \<open>m @ ''::'' = m' @ ''::''\<close> assms(2,4) show ?thesis by simp
qed

text \<open>Loading what was saved restores the state.\<close>

lemma rt_load_save:
  assumes "rt_wf r"
  shows "rt_load (rt_disk_stats (rt_save r)) (rt_disk_overrides (rt_save r)) = rt_save r"
proof -
  let ?k = "\<lambda>((m, c), s). stats_key m c :: string"
  have ok: "stats_ok k s" if "(k, s) \<in> set (rt_stats r)" for k s
    using assms in_dict_get [OF _ that] by (cases k) (simp add: rt_wf_def)
  have "inj_on ?k (set (rt_stats r))"
  proof (rule inj_onI)
    fix p q
    assume pq: "p \<in> set (rt_stats r)" "q \<in> set (rt_stats r)" "?k p = ?k q"
    obtain m c s m' c' s' where [simp]: "p = ((m, c), s)" "q = ((m', c'), s')" by (metis surj_pair)
    have mem: "((m, c), s) \<in> set (rt_stats r)" "((m', c'), s') \<in> set (rt_stats r)"
      and "stats_key m c = stats_key m' c'" using pq by simp_all
    then have "m = m' \<and> c = c'"
      using ok [OF mem(1)] ok [OF mem(2)] by (intro stats_key_inj) (auto simp: stats_ok_def)
    moreover have "dict_get (rt_stats r) (m, c) = Some s" "dict_get (rt_stats r) (m', c') = Some s'"
      using assms in_dict_get mem by (auto simp: rt_wf_def)
    ultimately show "p = q" by auto
  qed
  moreover have "distinct (rt_stats r)" using assms by (auto simp: rt_wf_def wf_dict_def distinct_map)
  ultimately have "distinct (map ?k (rt_stats r))" by (simp add: distinct_map)
  then have saved: "dict_build ?k snd (rt_stats r) = map (\<lambda>p. (?k p, snd p)) (rt_stats r)"
    by (rule dict_build_distinct)
  have pairs: "map (\<lambda>p. (st_model (snd p), st_complexity (snd p))) (rt_stats r) = keys (rt_stats r)"
    using ok by (auto simp: stats_ok_def)
  have "dict_build (\<lambda>s. (st_model s, st_complexity s)) id (map snd (rt_stats r)) =
      map (\<lambda>s. ((st_model s, st_complexity s), id s)) (map snd (rt_stats r))"
    by (rule dict_build_distinct)
      (use assms in \<open>simp add: rt_wf_def wf_dict_def comp_def pairs del: map_eq_conv\<close>)
  also have "\<dots> = rt_stats r" using ok by (auto simp: stats_ok_def intro!: map_idI)
  finally have stats: "dict_build (\<lambda>s. (st_model s, st_complexity s)) id (map snd (rt_stats r)) = rt_stats r" .
  have ov: "dict_build fst snd (rt_overrides r) = rt_overrides r"
    using assms by (subst dict_build_distinct) (simp_all add: rt_wf_def wf_dict_def)
  show ?thesis using stats ov by (simp add: rt_load_def rt_save_def saved comp_def)
qed

lemma rt_save_inv: "rt_wf r \<Longrightarrow> rt_inv (rt_save r)"
  by (simp add: rt_inv_def rt_load_save) (simp add: rt_wf_def)

lemma stats_ok_ema:
  "stats_ok k s \<Longrightarrow> 0 < ms \<Longrightarrow> 0 \<le> tpm \<Longrightarrow> ok = 0 \<or> ok = 1 \<Longrightarrow>
    stats_ok k (s\<lparr>st_success := ema (st_success s) ok, st_tpm := ema (st_tpm s) tpm,
      st_duration := ema (st_duration s) ms, st_count := st_count s + 1, st_updated := now\<rparr>)"
  by (auto simp: stats_ok_def ema_pos intro!: ema_ge ema_le)

lemma rt_observe_wf_stats:
  assumes "rt_wf r" and "1 \<le> c" "c \<le> 5" "0 < ms" "0 \<le> tpm" "ok = 0 \<or> ok = 1"
  shows "rt_wf (r\<lparr>rt_stats :=
    (case dict_get (rt_stats r) (m, c) of
       None \<Rightarrow> dict_set (m, c)
         \<lparr>st_model = m, st_complexity = c, st_count = 1, st_success = ok,
          st_tpm = tpm, st_duration = ms, st_updated = now\<rparr> (rt_stats r)
     | Some s \<Rightarrow> dict_upd (m, c) (\<lambda>s. s\<lparr>st_success := ema (st_success s) ok,
          st_tpm := ema (st_tpm s) tpm, st_duration := ema (st_duration s) ms,
          st_count := st_count s + 1, st_updated := now\<rparr>) (rt_stats r))\<rparr>)"
proof (cases "dict_get (rt_stats r) (m, c)")
  case None
  then show ?thesis using assms by (auto simp: rt_wf_def stats_ok_def split: if_splits)
next
  case (Some s)
  then show ?thesis using assms stats_ok_ema [OF _ assms(4-6), of "(m, c)" s now]
    by (auto simp: rt_wf_def split: if_splits)
qed

lemma rt_step_inv: "rt_inv r \<Longrightarrow> rt_inv (rt_step x r)"
proof (cases x)
  case (RtObserve m c d n ok now)
  assume inv: "rt_inv r"
  then have wf: "rt_wf r" by (simp add: rt_inv_def)
  show ?thesis
  proof (cases "m = [] \<or> c < 1 \<or> 5 < c \<or> d = None \<or> the d \<le> 0")
    case True
    with inv show ?thesis by (auto simp: RtObserve rt_observe_def split: option.splits)
  next
    case False
    then obtain ms where d: "d = Some ms" "0 < ms" "1 \<le> c" "c \<le> 5" "m \<noteq> []" by auto
    from rt_save_inv [OF rt_observe_wf_stats [OF wf d(3,4,2)], of "max 0 (of_int n / ms)" "if ok then 1 else 0" m now]
      d show ?thesis by (simp add: RtObserve rt_observe_def Let_def)
  qed
next
  case (RtRemove oid)
  assume "rt_inv r"
  then show ?thesis
    by (auto simp: RtRemove rt_remove_override_def rt_inv_def intro!: rt_save_inv [unfolded rt_inv_def])
      (auto simp: rt_wf_def)
next
  case (RtAdd oid m c a ro why now)
  assume "rt_inv r"
  then show ?thesis unfolding RtAdd rt_step.simps rt_add_override_def fst_conv
    by (intro rt_save_inv) (simp add: rt_inv_def rt_wf_def)
next
  case RtRestart
  then show "rt_inv r \<Longrightarrow> ?thesis" by (simp add: rt_inv_def)
qed

interpretation rt_sys: op_system rt_step rt_inv
  by unfold_locales (rule rt_step_inv)

lemma rt_after_inv: "rt_inv (rt_after ops)"
  unfolding rt_after_def by (rule rt_sys.inv_run) (simp add: rt_inv_def rt_wf_def rt_load_def)

section \<open>Properties\<close>

text \<open>
  Reference definition of the averages: what a key has observed is the list of its accepted
  observations (success, throughput, duration, time), and each average is a fold over that list.
\<close>

record observation =
  ob_ok :: rat
  ob_tpm :: rat
  ob_ms :: rat
  ob_at :: time

fun observed :: "string \<times> int \<Rightarrow> rt_op \<Rightarrow> observation list" where
  "observed k (RtObserve m c (Some ms) n ok now) =
     (if k = (m, c) \<and> m \<noteq> [] \<and> c \<in> {1..5} \<and> 0 < ms
      then [\<lparr>ob_ok = (if ok then 1 else 0), ob_tpm = max 0 (of_int n / ms), ob_ms = ms, ob_at = now\<rparr>] else [])"
| "observed k _ = []"

fun reference_stats :: "string \<times> int \<Rightarrow> observation list \<Rightarrow> model_stats option" where
  "reference_stats k [] = None"
| "reference_stats k (x # xs) =
     Some \<lparr>st_model = fst k, st_complexity = snd k, st_count = 1 + int (length xs),
           st_success = foldl ema (ob_ok x) (map ob_ok xs), st_tpm = foldl ema (ob_tpm x) (map ob_tpm xs),
           st_duration = foldl ema (ob_ms x) (map ob_ms xs), st_updated = ob_at (last (x # xs))\<rparr>"

lemma reference_stats_snoc:
  "reference_stats k (xs @ [y]) =
     (case reference_stats k xs of
        None \<Rightarrow> Some \<lparr>st_model = fst k, st_complexity = snd k, st_count = 1, st_success = ob_ok y,
                     st_tpm = ob_tpm y, st_duration = ob_ms y, st_updated = ob_at y\<rparr>
      | Some s \<Rightarrow> Some (s\<lparr>st_success := ema (st_success s) (ob_ok y), st_tpm := ema (st_tpm s) (ob_tpm y),
                     st_duration := ema (st_duration s) (ob_ms y), st_count := st_count s + 1,
                     st_updated := ob_at y\<rparr>))"
  by (cases xs) simp_all

lemma rt_step_stats:
  assumes "rt_inv r"
  shows "dict_get (rt_stats (rt_step x r)) k =
    (case observed k x of
       [] \<Rightarrow> dict_get (rt_stats r) k
     | y # ys \<Rightarrow> (case dict_get (rt_stats r) k of
          None \<Rightarrow> Some \<lparr>st_model = fst k, st_complexity = snd k, st_count = 1, st_success = ob_ok y,
                       st_tpm = ob_tpm y, st_duration = ob_ms y, st_updated = ob_at y\<rparr>
        | Some s \<Rightarrow> Some (s\<lparr>st_success := ema (st_success s) (ob_ok y), st_tpm := ema (st_tpm s) (ob_tpm y),
                       st_duration := ema (st_duration s) (ob_ms y), st_count := st_count s + 1,
                       st_updated := ob_at y\<rparr>)))"
proof (cases x)
  case (RtObserve m c d n ok now)
  show ?thesis
  proof (cases d)
    case None
    then show ?thesis by (simp add: RtObserve rt_observe_def)
  next
    case (Some ms)
    show ?thesis
    proof (cases "m \<noteq> [] \<and> c \<in> {1..5} \<and> 0 < ms")
      case True
      then show ?thesis
        by (cases "dict_get (rt_stats r) (m, c)") (auto simp: RtObserve Some rt_observe_def Let_def)
    next
      case False
      then show ?thesis by (auto simp: RtObserve Some rt_observe_def not_le)
    qed
  qed
qed (use assms in \<open>simp_all add: rt_add_override_def rt_remove_override_def rt_inv_def\<close>)

text \<open>
  the statistics kept per model and complexity are, after any sequence of operations and restarts,
  exactly those of the reference definition: absent when nothing was accepted for the key, otherwise the
  number of accepted observations and the exponential averages folded over them in order.
\<close>

theorem rt_averages_reference:
  "dict_get (rt_stats (rt_after ops)) k = reference_stats k (concat (map (observed k) ops))"
proof (induction ops rule: rev_induct)
  case Nil
  show ?case by (simp add: rt_after_def rt_load_def)
next
  case (snoc x ops)
  have step: "rt_after (ops @ [x]) = rt_step x (rt_after ops)" by (simp add: rt_after_def run_ops_append)
  have "observed k x = [] \<or> (\<exists>y. observed k x = [y])" by (induction k x rule: observed.induct) auto
  with snoc show ?case
    by (auto simp: step rt_step_stats [OF rt_after_inv] reference_stats_snoc split: option.splits)
qed

lemma py_round_mono_bounds: "0 \<le> x \<Longrightarrow> x \<le> of_int n \<Longrightarrow> 0 \<le> py_round x \<and> py_round x \<le> n"
proof -
  assume x: "0 \<le> x" "x \<le> of_int n"
  then have "0 \<le> \<lfloor>x\<rfloor>" "\<lfloor>x\<rfloor> \<le> n" by (simp_all add: floor_le_iff)
  moreover have "x = of_int n" if "\<lfloor>x\<rfloor> = n" using that x by linarith
  ultimately show ?thesis by (cases "\<lfloor>x\<rfloor> = n") (auto simp: py_round_def Let_def)
qed

lemma weighted_bounds:
  assumes "0 \<le> s" "s \<le> (1::rat)" "0 \<le> m" "m \<le> 1" "0 \<le> l" "l \<le> 1"
  shows "0 \<le> py_round_dig 4 (1 / 2 * s + 3 / 10 * m + 2 / 10 * l) \<and> py_round_dig 4 (1 / 2 * s + 3 / 10 * m + 2 / 10 * l) \<le> 1"
proof -
  let ?x = "1 / 2 * s + 3 / 10 * m + 2 / 10 * l"
  have "0 \<le> ?x * 10 ^ 4" "?x * 10 ^ 4 \<le> of_int 10000" using assms by simp_all
  then have "0 \<le> py_round (?x * 10 ^ 4) \<and> py_round (?x * 10 ^ 4) \<le> 10000"
    by (rule py_round_mono_bounds)
  then have "0 \<le> rat_of_int (py_round (?x * 10 ^ 4))" "rat_of_int (py_round (?x * 10 ^ 4)) \<le> 10 ^ 4" by simp_all
  then show ?thesis unfolding py_round_dig_def by (simp only: zero_le_divide_iff divide_le_eq_1) simp
qed
text \<open>
  every score the router gives, in every reachable state and for every model and complexity, lies
  between 0 and 1.
\<close>

theorem rt_score_bounds: "0 \<le> rt_score (rt_after ops) c m \<and> rt_score (rt_after ops) c m \<le> 1"
proof (cases "dict_get (rt_stats (rt_after ops)) (m, c)")
  case None
  then show ?thesis by (simp add: rt_score_def default_score_def)
next
  case (Some s)
  then have "stats_ok (m, c) s" using rt_after_inv [of ops] by (simp add: rt_inv_def rt_wf_def)
  then have s: "0 \<le> st_success s" "st_success s \<le> 1" "0 \<le> st_tpm s" "0 < st_duration s"
    by (simp_all add: stats_ok_def)
  then have "0 \<le> min (st_tpm s / throughput_norm) 1" "0 \<le> 1 / (1 + st_duration s / latency_norm)"
    "1 / (1 + st_duration s / latency_norm) \<le> 1"
    by (simp_all add: throughput_norm_def latency_norm_def)
  from weighted_bounds [OF s(1,2) this(1) _ this(2,3)] show ?thesis
    by (cases "st_count s < min_observations")
      (simp_all only: rt_score_def Some option.case if_True if_False Let_def default_score_def min.cobounded2, simp)
qed

text \<open>
  a model is recommended exactly when some candidate has the minimum number of observations, and
  it is then the first such candidate whose score no other such candidate exceeds.
\<close>

theorem rt_recommend_best:
  "case rt_recommend r c ms of
     None \<Rightarrow> list_all (\<lambda>m. \<not> rt_confident r c m) ms
   | Some m \<Rightarrow> (\<exists>us vs. filter (rt_confident r c) ms = us @ m # vs \<and>
       list_all (\<lambda>m'. rt_score r c m' < rt_score r c m) us \<and>
       list_all (\<lambda>m'. rt_score r c m' \<le> rt_score r c m) vs)"
proof (cases "filter (rt_confident r c) ms")
  case Nil
  then show ?thesis by (auto simp: rt_recommend_def list_all_iff filter_empty_conv)
next
  case (Cons m ms')
  then have "rt_recommend r c ms = Some (first_max (rt_score r c) m ms')" by (auto simp: rt_recommend_def)
  with first_max_split [of m ms' "rt_score r c"] Cons show ?thesis by simp
qed

text \<open>
  override resolution: without a matching override nothing is forced; otherwise the model of the
  earliest matching override is, among those that name an agent if any does (one that also names the
  role first), then those that name the role, then the others.
\<close>

theorem rt_override_most_specific:
  "let matching = filter (ov_matches c a ro) (vals (rt_overrides r)) in
   case rt_resolve_override c a ro r of
     None \<Rightarrow> matching = []
   | Some m \<Rightarrow> (\<exists>us ov vs. matching = us @ ov # vs \<and> ov_model ov = m \<and>
       list_all (\<lambda>ov'. ov_specificity ov' < ov_specificity ov) us \<and>
       list_all (\<lambda>ov'. ov_specificity ov' \<le> ov_specificity ov) vs)"
proof (cases "filter (ov_matches c a ro) (vals (rt_overrides r))")
  case Nil
  then show ?thesis by (simp add: rt_resolve_override_def)
next
  case (Cons ov ovs)
  then show ?thesis using first_max_split [of ov ovs ov_specificity]
    by (auto simp: rt_resolve_override_def Let_def)
qed

text \<open>
  an override for one complexity does not win over a global one: neither counts towards the
  specificity, so the one added first is applied.
\<close>

theorem rt_global_beats_complexity:
  "rt_resolve_override 3 None None (rt_after
     [RtAdd ''o1'' ''small'' None None None [] 0, RtAdd ''o2'' ''large'' (Some 3) None None [] 1]) = Some ''small''"
  by (simp add: rt_after_def rt_add_override_def rt_resolve_override_def rt_load_def ov_matches_def ov_specificity_def)

text \<open>
  a restart of the router is transparent: what it loads from the two files it wrote is the state it
  had, statistics and overrides in the same order.
\<close>

theorem rt_restart_transparent:
  "rt_step RtRestart (rt_after ops) = rt_after ops"
  using rt_after_inv [of ops] by (simp add: rt_inv_def)

end
