(* ===== verification/Task_Queue.thy ===== *)
theory Task_Queue imports Prelude "HOL-Library.Multiset" begin

text \<open>
  The task objects and the priority queue of \<open>agents/scheduler.py\<close>. A \<open>Task\<close> is a shared mutable
  object; the model keeps the objects in one dictionary by their id, and the queue, the scheduler's
  table and the workers refer to them by id. \<open>heapq\<close> is used through pushes and pops of tuples whose
  sequence numbers differ, so the heap is kept as the list in which \<open>heappop\<close> returns its entries.

  The lemmas show that the queue is stable: what it returns is the stable sort of what was put.
\<close>

section \<open>Tasks\<close>

datatype task_status = Queued | Running | TaskDone | TaskFailed | Checkpointed | Cancelled

fun task_status_str :: "task_status \<Rightarrow> string" where
  "task_status_str Queued = ''queued''"
| "task_status_str Running = ''running''"
| "task_status_str TaskDone = ''done''"
| "task_status_str TaskFailed = ''failed''"
| "task_status_str Checkpointed = ''checkpointed''"
| "task_status_str Cancelled = ''cancelled''"

record task_result =
  tr_response :: string
  tr_model :: string
  tr_in :: int
  tr_out :: int
  tr_ms :: "rat option"

record task =
  t_id :: string
  t_description :: string
  t_complexity :: int
  t_by :: string
  t_assigned :: "string option"
  t_status :: task_status
  t_result :: "task_result option"
  t_created :: time
  t_priority :: int
  t_started :: "time option"
  t_finished :: "time option"
  t_error :: "string option"
  t_context :: payload
  t_depends :: "string list"
  t_parent :: "string option"
  t_stream :: bool
  t_partial :: string
  t_cancelled :: bool

section \<open>The queue\<close>

type_synonym heap_entry = "int \<times> nat \<times> string"

record task_queue =
  q_heap :: "heap_entry list"
  q_seq :: nat
  q_pending :: "string list"
  q_running :: "string list"
  q_closed :: bool

definition tq_empty :: task_queue where
  "tq_empty = \<lparr>q_heap = [], q_seq = 0, q_pending = [], q_running = [], q_closed = False\<rparr>"

definition add_key :: "'a \<Rightarrow> 'a list \<Rightarrow> 'a list" where
  "add_key k ks = (if k \<in> set ks then ks else ks @ [k])"

text \<open>Comparison of the tuples; sequence numbers are unique, so the id is never reached.\<close>

fun entry_less :: "heap_entry \<Rightarrow> heap_entry \<Rightarrow> bool" where
  "entry_less (p, s, i) (p', s', i') = (p < p' \<or> p = p' \<and> s < s')"

fun heap_push :: "heap_entry \<Rightarrow> heap_entry list \<Rightarrow> heap_entry list" where
  "heap_push e [] = [e]"
| "heap_push e (x # xs) = (if entry_less e x then e # x # xs else x # heap_push e xs)"

definition tq_put :: "int \<Rightarrow> string \<Rightarrow> task_queue \<Rightarrow> task_queue" where
  "tq_put priority i q =
     q\<lparr>q_pending := add_key i (q_pending q), q_heap := heap_push (priority, q_seq q, i) (q_heap q),
       q_seq := q_seq q + 1\<rparr>"

text \<open>\<open>get\<close> after its wait: an empty heap is a timeout or a closed queue.\<close>

definition tq_get :: "task_queue \<Rightarrow> task_queue \<times> string option" where
  "tq_get q =
     (case q_heap q of
        [] \<Rightarrow> (q, None)
      | (p, s, i) # h \<Rightarrow>
          if i \<in> set (q_pending q)
          then (q\<lparr>q_heap := h, q_pending := remove1 i (q_pending q), q_running := add_key i (q_running q)\<rparr>, Some i)
          else (q\<lparr>q_heap := h\<rparr>, None))"

definition tq_mark_done :: "string \<Rightarrow> task_queue \<Rightarrow> task_queue" where
  "tq_mark_done i q = q\<lparr>q_running := remove1 i (q_running q)\<rparr>"

definition task_age :: "task \<Rightarrow> time" where
  "task_age t = (if truthy_num (t_started t) then the (t_started t) else t_created t)"

definition running_background :: "(string, task) dict \<Rightarrow> task_queue \<Rightarrow> task list" where
  "running_background objs q =
     filter (\<lambda>t. t_priority t = 2 \<and> t_status t = Running) (List.map_filter (dict_get objs) (q_running q))"

definition tq_checkpoint_oldest :: "(string, task) dict \<Rightarrow> task_queue
    \<Rightarrow> (string, task) dict \<times> task_queue \<times> task option" where
  "tq_checkpoint_oldest objs q =
     (case running_background objs q of
        [] \<Rightarrow> (objs, q, None)
      | t # ts \<Rightarrow>
          let oldest = (first_min task_age t ts)\<lparr>t_status := Checkpointed\<rparr>; i = t_id oldest
          in (dict_upd i (\<lambda>t. t\<lparr>t_status := Checkpointed\<rparr>) objs,
              q\<lparr>q_running := remove1 i (q_running q), q_pending := add_key i (q_pending q),
                q_heap := heap_push (t_priority oldest, q_seq q, i) (q_heap q), q_seq := q_seq q + 1\<rparr>,
              Some oldest))"

definition tq_running_count :: "task_queue \<Rightarrow> nat" where
  "tq_running_count q = length (q_running q)"

definition tq_depth :: "task_queue \<Rightarrow> (int, int) dict" where
  "tq_depth q =
     foldl (\<lambda>depth (p, s, i). dict_set p (dict_get_or 0 depth p + 1) depth) [(0, 0), (1, 0), (2, 0)] (q_heap q)"

definition tq_close :: "task_queue \<Rightarrow> task_queue" where
  "tq_close q = q\<lparr>q_closed := True\<rparr>"

section \<open>A stable priority queue\<close>

text \<open>
  The contract the scheduler relies on: the waiting items are a sequence; a new one goes behind all
  those that are at least as urgent, and the first one is taken. Whatever is put is then taken in the
  stable order of the priorities.
\<close>

fun insert_after :: "('a \<Rightarrow> 'k::linorder) \<Rightarrow> 'a \<Rightarrow> 'a list \<Rightarrow> 'a list" where
  "insert_after f e [] = [e]"
| "insert_after f e (x # xs) = (if f e < f x then e # x # xs else x # insert_after f e xs)"

lemma mset_insert_after [simp]: "mset (insert_after f e xs) = add_mset e (mset xs)"
  by (induction xs) auto

lemma set_insert_after [simp]: "set (insert_after f e xs) = insert e (set xs)"
  by (induction xs) auto

lemma sorted_insert_after: "sorted (map f xs) \<Longrightarrow> sorted (map f (insert_after f e xs))"
  by (induction xs) (auto simp: not_less intro: order.trans)

lemma filter_insert_after:
  "sorted (map f xs) \<Longrightarrow> filter (\<lambda>x. f k = f x) (insert_after f e xs) =
     filter (\<lambda>x. f k = f x) xs @ (if f k = f e then [e] else [])"
proof (induction xs)
  case (Cons x xs)
  show ?case
  proof (cases "f e < f x")
    case True
    then have "filter (\<lambda>y. f e = f y) (x # xs) = []" using Cons.prems by (auto simp: filter_empty_conv)
    then show ?thesis using True by auto
  next
    case False
    then show ?thesis using Cons by auto
  qed
qed simp

lemma sort_key_snoc: "sort_key f (xs @ [e]) = insert_after f e (sort_key f xs)"
proof (rule properties_for_sort_key)
  show "mset (insert_after f e (sort_key f xs)) = mset (xs @ [e])" by simp
  show "sorted (map f (insert_after f e (sort_key f xs)))" by (rule sorted_insert_after) simp
  show "filter (\<lambda>x. f k = f x) (insert_after f e (sort_key f xs)) = filter (\<lambda>x. f k = f x) (xs @ [e])" for k
    using filter_insert_after [of f "sort_key f xs" k e] sort_key_stable [of f "f k" xs]
    by (simp add: eq_commute [of "f k"])
qed

fun take_all :: "('s \<Rightarrow> 's \<times> 'i option) \<Rightarrow> nat \<Rightarrow> 's \<Rightarrow> 'i list" where
  "take_all get 0 s = []"
| "take_all get (Suc n) s = (case get s of (s', None) \<Rightarrow> [] | (s', Some i) \<Rightarrow> i # take_all get n s')"

locale stable_queue =
  fixes waiting :: "'s \<Rightarrow> 'e list"
    and put :: "'e \<Rightarrow> 's \<Rightarrow> 's"
    and get :: "'s \<Rightarrow> 's \<times> 'i option"
    and item :: "'e \<Rightarrow> 'i"
    and prio :: "'e \<Rightarrow> 'k::linorder"
    and fresh :: "'e \<Rightarrow> 's \<Rightarrow> bool"
    and ok :: "'s \<Rightarrow> bool"
  assumes waiting_put: "ok s \<Longrightarrow> fresh e s \<Longrightarrow> waiting (put e s) = insert_after prio e (waiting s)"
    and get_none: "ok s \<Longrightarrow> waiting s = [] \<Longrightarrow> get s = (s, None)"
    and get_some: "ok s \<Longrightarrow> waiting s = e # es \<Longrightarrow> snd (get s) = Some (item e) \<and> waiting (fst (get s)) = es"
    and ok_put: "ok s \<Longrightarrow> fresh e s \<Longrightarrow> ok (put e s)"
    and ok_get: "ok s \<Longrightarrow> ok (fst (get s))"
    and fresh_put: "ok s \<Longrightarrow> fresh e s \<Longrightarrow> fresh e' (put e s) \<longleftrightarrow> fresh e' s \<and> item e' \<noteq> item e"
begin

lemma puts_waiting:
  "ok s \<Longrightarrow> waiting s = [] \<Longrightarrow> list_all (\<lambda>e. fresh e s) es \<Longrightarrow> distinct (map item es) \<Longrightarrow>
    ok (foldl (\<lambda>s e. put e s) s es) \<and> waiting (foldl (\<lambda>s e. put e s) s es) = sort_key prio es \<and>
    (\<forall>e. fresh e (foldl (\<lambda>s e. put e s) s es) \<longleftrightarrow> fresh e s \<and> item e \<notin> item ` set es)"
proof (induction es rule: rev_induct)
  case (snoc e es)
  then have h: "ok (foldl (\<lambda>s e. put e s) s es)" "waiting (foldl (\<lambda>s e. put e s) s es) = sort_key prio es"
    "fresh e (foldl (\<lambda>s e. put e s) s es)"
    "\<And>e. fresh e (foldl (\<lambda>s e. put e s) s es) \<longleftrightarrow> fresh e s \<and> item e \<notin> item ` set es" by auto
  then show ?case
    by (auto simp: sort_key_snoc waiting_put ok_put fresh_put)
qed simp

text \<open>Taking until nothing is left returns the waiting items in their order.\<close>

lemma take_all_waiting: "ok s \<Longrightarrow> length (waiting s) \<le> n \<Longrightarrow> take_all get n s = map item (waiting s)"
proof (induction n arbitrary: s)
  case (Suc n)
  show ?case
  proof (cases "waiting s")
    case Nil
    then show ?thesis using get_none [OF Suc.prems(1) Nil] by simp
  next
    case (Cons e es)
    obtain s' r where g: "get s = (s', r)" by (cases "get s")
    with get_some [OF Suc.prems(1) Cons] ok_get [OF Suc.prems(1)] Suc.IH [of s'] Suc.prems(2) Cons
    show ?thesis by simp
  qed
qed simp

end

section \<open>The scheduler's queue provides the contract\<close>

definition heap_ids :: "task_queue \<Rightarrow> string list" where
  "heap_ids q = map (snd \<circ> snd) (q_heap q)"

definition tq_wf :: "task_queue \<Rightarrow> bool" where
  "tq_wf q = (list_all (\<lambda>(p, s, i). s < q_seq q) (q_heap q) \<and> distinct (heap_ids q) \<and>
     set (heap_ids q) = set (q_pending q) \<and> distinct (q_pending q) \<and> distinct (q_running q) \<and>
     set (q_pending q) \<inter> set (q_running q) = {})"

definition tq_waiting :: "task_queue \<Rightarrow> (int \<times> string) list" where
  "tq_waiting q = map (\<lambda>(p, s, i). (p, i)) (q_heap q)"

definition tq_fresh :: "int \<times> string \<Rightarrow> task_queue \<Rightarrow> bool" where
  "tq_fresh e q = (snd e \<notin> set (q_pending q) \<and> snd e \<notin> set (q_running q))"

lemma mset_heap_push [simp]: "mset (heap_push e h) = add_mset e (mset h)"
  by (induction h) auto

lemma set_heap_push [simp]: "set (heap_push e h) = insert e (set h)"
  by (induction h) auto

lemma distinct_heap_push: "distinct (map f (heap_push e h)) \<longleftrightarrow> f e \<notin> f ` set h \<and> distinct (map f h)"
proof -
  have "mset (map f (heap_push e h)) = mset (f e # map f h)" by simp
  from mset_eq_imp_distinct_iff [OF this] show ?thesis by simp
qed

lemma heap_push_waiting:
  "list_all (\<lambda>(p', s', i'). s' < s) h \<Longrightarrow>
    map (\<lambda>(p, s, i). (p, i)) (heap_push (p, s, i) h) = insert_after fst (p, i) (map (\<lambda>(p, s, i). (p, i)) h)"
  by (induction h) auto

lemma set_add_key [simp]: "set (add_key k ks) = insert k (set ks)"
  by (auto simp: add_key_def)

lemma distinct_add_key [simp]: "distinct (add_key k ks) = distinct ks"
  by (simp add: add_key_def)

lemma tq_put_wf: "tq_wf q \<Longrightarrow> tq_fresh (p, i) q \<Longrightarrow> tq_wf (tq_put p i q)"
  by (auto simp: tq_wf_def tq_put_def tq_fresh_def heap_ids_def distinct_heap_push list_all_iff)

lemma tq_get_cases:
  assumes "tq_wf q"
  obtains (empty) "q_heap q = []" "tq_get q = (q, None)"
  | (taken) p s i h where "q_heap q = (p, s, i) # h" "i \<in> set (q_pending q)" "i \<notin> set (q_running q)"
      "tq_get q = (q\<lparr>q_heap := h, q_pending := remove1 i (q_pending q), q_running := q_running q @ [i]\<rparr>, Some i)"
proof (cases "q_heap q")
  case Nil
  then show thesis by (intro empty) (simp_all add: tq_get_def)
next
  case (Cons e h)
  obtain p s i where e: "e = (p, s, i)" by (cases e)
  have "i \<in> set (q_pending q)" using assms by (auto simp: tq_wf_def heap_ids_def Cons e)
  moreover from this have "i \<notin> set (q_running q)" using assms by (auto simp: tq_wf_def)
  ultimately show thesis using Cons e by (intro taken [of p s i h]) (auto simp: tq_get_def add_key_def)
qed

lemma tq_get_wf: "tq_wf q \<Longrightarrow> tq_wf (fst (tq_get q))"
  by (rule tq_get_cases, assumption) (auto simp: tq_wf_def heap_ids_def)

lemma tq_mark_done_wf: "tq_wf q \<Longrightarrow> tq_wf (tq_mark_done i q)"
  by (auto simp: tq_wf_def tq_mark_done_def heap_ids_def dest: in_set_remove1 [THEN iffD1, rotated] notin_set_remove1)

interpretation tq: stable_queue tq_waiting "\<lambda>e. tq_put (fst e) (snd e)" tq_get snd fst tq_fresh tq_wf
proof unfold_locales
  show "tq_waiting (tq_put (fst e) (snd e) q) = insert_after fst e (tq_waiting q)" if "tq_wf q" for q e
    using that heap_push_waiting [of "q_seq q" "q_heap q" "fst e" "snd e"]
    by (simp add: tq_waiting_def tq_put_def tq_wf_def)
  show "tq_get q = (q, None)" if "tq_wf q" "tq_waiting q = []" for q
    using that by (simp add: tq_waiting_def tq_get_def)
  show "snd (tq_get q) = Some (snd e) \<and> tq_waiting (fst (tq_get q)) = es"
    if "tq_wf q" "tq_waiting q = e # es" for q e es
    using that(1) by (rule tq_get_cases) (use that in \<open>auto simp: tq_waiting_def\<close>)
  show "tq_wf (tq_put (fst e) (snd e) q)" if "tq_wf q" "tq_fresh e q" for q e
    using that by (simp add: tq_put_wf)
  show "tq_wf (fst (tq_get q))" if "tq_wf q" for q using that by (rule tq_get_wf)
  show "tq_fresh e' (tq_put (fst e) (snd e) q) \<longleftrightarrow> tq_fresh e' q \<and> snd e' \<noteq> snd e"
    if "tq_wf q" "tq_fresh e q" for q e e'
    by (auto simp: tq_fresh_def tq_put_def)
qed

section \<open>Properties\<close>



end
