(* ===== verification/Scheduler.thy ===== *)
theory Scheduler imports Task_Queue Registry Model_Manager Router begin

text \<open>
  The task scheduler, \<open>agents/scheduler.py\<close>: submission, routing to a model, the worker threads, the
  streaming and the plain execution of a task, cancellation, preemption, sub-agents and the task file.
  The state holds the registry, the model manager and the router the scheduler works with. A worker is
  busy between the moment it has sent a request to the model server and the moment it has handled the
  answer, so an execution is two steps (plain) or a step per received line (streaming), and the other
  operations interleave. The server's answers are parameters. What is asked of the event bus and the
  message bus is returned in program order, and the agents for which \<open>checkpoint_manager.save\<close> is
  called are the field \<open>s_checkpoints\<close>.

  The lemmas show that no submitted task is lost, that the task file is bounded, how usage is
  accounted, what a sub-agent may do after its task, and several behaviours that differ from the
  comments in the code (preempted tasks run twice, cancelled ones run).
\<close>

section \<open>Constants\<close>

definition max_tasks :: nat where
  "max_tasks = 500"

definition num_workers :: nat where
  "num_workers = 4"

definition stream_chunk_every :: nat where
  "stream_chunk_every = 10"

definition stream_partial_interval :: rat where
  "stream_partial_interval = 1 / 2"

definition complexity_routing :: "(int, string) dict" where
  "complexity_routing = [(1, ''general''), (2, ''general''), (3, ''code''), (4, ''code''), (5, ''reasoning'')]"

definition role_model :: "string \<Rightarrow> (string, string) dict" where
  "role_model dm = [(''general'', dm), (''code'', dm), (''reasoning'', dm)]"

section \<open>State\<close>

text \<open>What a busy worker keeps in local variables.\<close>

record run =
  run_task :: string
  run_model :: string
  run_role :: string
  run_messages :: "pyval list"
  run_stream :: bool
  run_tokens :: nat
  run_last :: time
  run_over :: bool

record sched =
  s_objs :: "(string, task) dict"
  s_tasks :: "string list"
  s_queue :: task_queue
  s_workers :: "(nat, run) dict"
  s_disk :: "(string, task) dict option"
  s_events :: bool
  s_reg :: registry
  s_models :: "models option"
  s_router :: "router option"
  s_saver :: bool
  s_checkpoints :: "(string \<times> string) list"

definition sch_task :: "sched \<Rightarrow> string \<Rightarrow> task" where
  "sch_task s i = the (dict_get (s_objs s) i)"

definition sch_upd :: "string \<Rightarrow> (task \<Rightarrow> task) \<Rightarrow> sched \<Rightarrow> sched" where
  "sch_upd i f s = s\<lparr>s_objs := dict_upd i f (s_objs s)\<rparr>"

definition sch_set_event_bus :: "sched \<Rightarrow> sched" where
  "sch_set_event_bus s = s\<lparr>s_events := True, s_models := map_option mm_set_event_bus (s_models s)\<rparr>"

definition sch_set_model_manager :: "models \<Rightarrow> sched \<Rightarrow> sched" where
  "sch_set_model_manager m s = s\<lparr>s_models := Some (if s_events s then mm_set_event_bus m else m)\<rparr>"

definition sch_set_checkpoint_manager :: "sched \<Rightarrow> sched" where
  "sch_set_checkpoint_manager s = s\<lparr>s_saver := True\<rparr>"

definition sch_set_adaptive_router :: "router \<Rightarrow> sched \<Rightarrow> sched" where
  "sch_set_adaptive_router rt s = s\<lparr>s_router := Some rt\<rparr>"

text \<open>\<open>_save\<close>: the oldest tasks beyond the bound leave the table, then the table is written.\<close>

definition sch_evicted :: "sched \<Rightarrow> string list" where
  "sch_evicted s =
     (if max_tasks < length (s_tasks s)
      then take (length (s_tasks s) - max_tasks) (sort_key (\<lambda>i. t_created (sch_task s i)) (s_tasks s))
      else [])"

definition sch_save :: "sched \<Rightarrow> sched" where
  "sch_save s =
     (let kept = filter (\<lambda>i. i \<notin> set (sch_evicted s)) (s_tasks s)
      in s\<lparr>s_tasks := kept, s_disk := Some (map (\<lambda>i. (i, sch_task s i)) kept)\<rparr>)"

text \<open>\<open>_load\<close>: what was not finished is marked failed.\<close>

definition load_task :: "time \<Rightarrow> task \<Rightarrow> task" where
  "load_task now t =
     (if t_status t = Running \<or> t_status t = Queued \<or> t_status t = Checkpointed
      then t\<lparr>t_status := TaskFailed, t_error := Some ''server_restart'', t_finished := Some now\<rparr>
      else t)"

definition sch_init :: "time \<Rightarrow> (string, task) dict option \<Rightarrow> registry \<Rightarrow> sched" where
  "sch_init now disk r =
     (let objs = (case disk of None \<Rightarrow> [] | Some d \<Rightarrow> dict_build t_id (load_task now) (vals d))
      in \<lparr>s_objs = objs, s_tasks = keys objs, s_queue = tq_empty, s_workers = [], s_disk = disk,
          s_events = False, s_reg = r, s_models = None, s_router = None, s_saver = False, s_checkpoints = []\<rparr>)"

section \<open>Submission\<close>

record submission =
  sub_description :: string
  sub_by :: string
  sub_complexity :: int
  sub_context :: payload
  sub_priority :: int
  sub_depends :: "string list"
  sub_parent :: "string option"
  sub_stream :: bool

text \<open>
  \<open>submit\<close> up to \<open>_queue.put\<close>; \<open>i\<close> is the fresh task id. With \<open>wait\<close> the caller then polls until the
  status is final, which changes nothing.
\<close>

definition new_task :: "string \<Rightarrow> time \<Rightarrow> submission \<Rightarrow> task" where
  "new_task i now sub =
     \<lparr>t_id = i, t_description = sub_description sub, t_complexity = max 1 (min 5 (sub_complexity sub)),
      t_by = sub_by sub, t_assigned = None, t_status = Queued, t_result = None, t_created = now,
      t_priority = max 0 (min 2 (sub_priority sub)), t_started = None, t_finished = None, t_error = None,
      t_context = sub_context sub, t_depends = sub_depends sub, t_parent = sub_parent sub,
      t_stream = sub_stream sub, t_partial = [], t_cancelled = False\<rparr>"

definition sch_preempt :: "sched \<Rightarrow> sched \<times> eff list" where
  "sch_preempt s =
     (if num_workers \<le> tq_running_count (s_queue s)
      then (case tq_checkpoint_oldest (s_objs s) (s_queue s) of
              (objs, q, None) \<Rightarrow> (s, [])
            | (objs, q, Some t) \<Rightarrow>
                (s\<lparr>s_objs := objs, s_queue := q\<rparr>,
                 if s_events s
                 then [Emit ''task.checkpointed'' (t_by t)
                         [(''task_id'', PStr (t_id t)), (''reason'', PStr ''urgent_preemption'')]]
                 else []))
      else (s, []))"

definition sch_submit :: "string \<Rightarrow> time \<Rightarrow> submission \<Rightarrow> sched \<Rightarrow> sched \<times> eff list \<times> task" where
  "sch_submit i now sub s =
     (let t = new_task i now sub;
          s1 = sch_save (s\<lparr>s_objs := dict_set i t (s_objs s), s_tasks := add_key i (s_tasks s)\<rparr>);
          queued = (if s_events s1
            then [Emit ''task.queued'' (t_by t)
                    [(''task_id'', PStr i), (''complexity'', PInt (t_complexity t)),
                     (''priority'', PInt (t_priority t)), (''submitted_by'', PStr (t_by t))]]
            else []);
          (s2, pre) = (if t_priority t = 0 then sch_preempt s1 else (s1, []))
      in (s2\<lparr>s_queue := tq_put (t_priority t) i (s_queue s2)\<rparr>, queued @ pre, t))"

section \<open>Routing\<close>

text \<open>What the environment gives when a worker starts a task: clocks, the server's model list, standards.\<close>

record start_env =
  en_standards :: "string option"
  en_refresh :: time
  en_touch :: time
  en_ps :: ps_answer
  en_now :: time
  en_stream :: time

definition sch_route :: "string \<Rightarrow> start_env \<Rightarrow> task \<Rightarrow> sched \<Rightarrow> sched \<times> eff list \<times> string" where
  "sch_route dm env t s =
     (let agent = dict_get (r_agents (s_reg s)) (t_by t);
          forced = (case s_router s of None \<Rightarrow> None
            | Some rt \<Rightarrow> rt_resolve_override (t_complexity t) (Some (t_by t)) (map_option a_role agent) rt);
          chosen = (if truthy_str forced then forced
            else case (s_router s, s_models s) of
                   (Some rt, Some m) \<Rightarrow> rt_recommend rt (t_complexity t) [dm]
                 | _ \<Rightarrow> forced)
      in if truthy_str chosen then (s, [], the chosen)
         else case s_models s of
                Some m \<Rightarrow>
                  let (m', effs, name) = mm_recommend dm (en_refresh env) (en_touch env) (en_ps env) (t_complexity t) True m
                  in (s\<lparr>s_models := Some m'\<rparr>, effs, name)
              | None \<Rightarrow>
                  (s, [], dict_get_or dm (role_model dm) (dict_get_or ''general'' complexity_routing (t_complexity t))))"

definition chat_message :: "string \<Rightarrow> string \<Rightarrow> pyval" where
  "chat_message role content = PDict [(''role'', PStr role), (''content'', PStr content)]"

text \<open>The request's messages: standards, the history of the context when it has one, the task.\<close>

definition task_messages :: "string option \<Rightarrow> task \<Rightarrow> pyval list" where
  "task_messages standards t =
     (if truthy_str standards then [chat_message ''system'' (the standards)] else []) @
     (case dict_get (t_context t) ''history'' of Some (PList h) \<Rightarrow> h | _ \<Rightarrow> []) @
     [chat_message ''user'' (t_description t)]"

section \<open>Execution\<close>

text \<open>
  What \<open>_run_task\<close> and \<open>_run_task_streaming\<close> do before the request is answered: route, check the
  agent's model policy, mark the task running, announce it and build the request.
\<close>

definition policy_error :: "string \<Rightarrow> string \<Rightarrow> string" where
  "policy_error model role = ''Agent model policy blocks use of '' @ [char_of (39::nat)] @ model @ [char_of (39::nat)] @
     '' for role '' @ [char_of (39::nat)] @ role @ [char_of (39::nat)]"

definition sch_begin :: "string \<Rightarrow> start_env \<Rightarrow> nat \<Rightarrow> string \<Rightarrow> sched \<Rightarrow> sched \<times> eff list" where
  "sch_begin dm env w i s =
     (let t = sch_task s i; role = dict_get_or ''general'' complexity_routing (t_complexity t);
          (s1, e1, model) = sch_route dm env t s
      in if dict_get (r_agents (s_reg s1)) (t_by t) \<noteq> None \<and>
            \<not> reg_check_model_policy (t_by t) model ''ollama'' (s_reg s1)
         then (let s2 = sch_save (sch_upd i (\<lambda>t. t\<lparr>t_status := TaskFailed,
                          t_error := Some (policy_error model role), t_finished := Some (en_now env)\<rparr>) s1)
               in (s2\<lparr>s_queue := tq_mark_done i (s_queue s2)\<rparr>, e1))
         else
           let s2 = sch_upd i (\<lambda>t. t\<lparr>t_assigned := Some model, t_status := Running, t_started := Some (en_now env)\<rparr>) s1;
               stream = (if t_stream t then [(''stream'', PBool True)] else []);
               started = (if s_events s2
                 then [Emit ''task.started'' (t_by t)
                         ([(''task_id'', PStr i), (''model_role'', PStr role), (''model'', PStr model),
                           (''priority'', PInt (t_priority t))] @ stream)]
                 else []);
               note = Send ''scheduler'' (t_by t)
                 ([(''task_id'', PStr i), (''status'', PStr ''running''), (''model_role'', PStr role)] @ stream) ''log'';
               r = \<lparr>run_task = i, run_model = model, run_role = role,
                    run_messages = task_messages (en_standards env) t, run_stream = t_stream t,
                    run_tokens = 0, run_last = en_stream env, run_over = False\<rparr>
           in (s2\<lparr>s_workers := dict_set w r (s_workers s2)\<rparr>, e1 @ started @ [note]))"

text \<open>One round of \<open>_worker_loop\<close>: take a task, reset a preempted one, start it.\<close>

definition sch_take :: "string \<Rightarrow> start_env \<Rightarrow> nat \<Rightarrow> sched \<Rightarrow> sched \<times> eff list" where
  "sch_take dm env w s =
     (case tq_get (s_queue s) of
        (q, None) \<Rightarrow> (s\<lparr>s_queue := q\<rparr>, [])
      | (q, Some i) \<Rightarrow>
          sch_begin dm env w i
            (sch_upd i (\<lambda>t. if t_status t = Checkpointed then t\<lparr>t_status := Queued\<rparr> else t) (s\<lparr>s_queue := q\<rparr>)))"

definition auto_checkpoint :: "string \<Rightarrow> sched \<Rightarrow> sched" where
  "auto_checkpoint i s =
     (let t = sch_task s i
      in if \<not> s_saver s then s
         else if \<not> truthy_num (t_started t) \<or> \<not> truthy_num (t_finished t) then s
         else if the (t_finished t) - the (t_started t) < 30 then s
         else s\<lparr>s_checkpoints := s_checkpoints s @ [(t_by t, ''auto:task:'' @ i)]\<rparr>)"

definition result_val :: "task_result option \<Rightarrow> pyval" where
  "result_val r =
     (case r of
        None \<Rightarrow> PNone
      | Some r \<Rightarrow> PDict [(''response'', PStr (tr_response r)), (''model'', PStr (tr_model r)),
                        (''tokens_in'', PInt (tr_in r)), (''tokens_out'', PInt (tr_out r)),
                        (''ms'', py_opt_flt (tr_ms r))])"

definition result_message :: "task \<Rightarrow> eff" where
  "result_message t = Send ''scheduler'' (t_by t)
     [(''task_id'', PStr (t_id t)), (''status'', PStr (task_status_str (t_status t))),
      (''result'', result_val (t_result t)), (''error'', py_opt_str (t_error t))] ''result''"

definition completed_fields :: "task \<Rightarrow> payload" where
  "completed_fields t =
     (case t_result t of
        None \<Rightarrow> [(''model'', PNone), (''tokens_in'', PNone), (''tokens_out'', PNone), (''ms'', PNone)]
      | Some r \<Rightarrow> [(''model'', PStr (tr_model r)), (''tokens_in'', PInt (tr_in r)),
                  (''tokens_out'', PInt (tr_out r)), (''ms'', py_opt_flt (tr_ms r))])"

definition completed_event :: "task \<Rightarrow> eff" where
  "completed_event t = Emit ''task.completed'' (t_by t)
     ((''task_id'', PStr (t_id t)) # completed_fields t @
      (if t_stream t then [(''stream'', PBool True)]
       else [(''complexity'', PInt (t_complexity t)), (''status'', PStr ''done'')]))"

definition failed_event :: "task \<Rightarrow> eff" where
  "failed_event t = Emit ''task.failed'' (t_by t)
     [(''task_id'', PStr (t_id t)), (''error'', py_opt_str (t_error t))]"

definition cancelled_event :: "task \<Rightarrow> eff" where
  "cancelled_event t = Emit ''task.cancelled'' (t_by t) [(''task_id'', PStr (t_id t))]"

text \<open>
  The common end of both executions: finish time, automatic checkpoint, save, the final event, the
  result message, the submitter's current task, and the queue's bookkeeping of the worker loop.
\<close>

definition sch_finish :: "time \<Rightarrow> nat \<Rightarrow> sched \<Rightarrow> sched \<times> eff list" where
  "sch_finish now w s =
     (case dict_get (s_workers s) w of
        None \<Rightarrow> (s, [])
      | Some r \<Rightarrow>
          let i = run_task r;
              s1 = sch_save (auto_checkpoint i (sch_upd i (\<lambda>t. t\<lparr>t_finished := Some now\<rparr>) s));
              t = sch_task s1 i;
              final = (if \<not> s_events s1 then []
                else if t_status t = TaskDone then [completed_event t]
                else if run_stream r \<and> t_status t = Cancelled then [cancelled_event t]
                else [failed_event t])
          in (s1\<lparr>s_reg := reg_set_task (t_by t) None (s_reg s1), s_queue := tq_mark_done i (s_queue s1),
                 s_workers := dict_del w (s_workers s1)\<rparr>,
              final @ [result_message t]))"

text \<open>Reporting an observation to the router and the use of a model to the manager.\<close>

definition sch_observe :: "string \<Rightarrow> int \<Rightarrow> rat option \<Rightarrow> int \<Rightarrow> bool \<Rightarrow> time \<Rightarrow> sched \<Rightarrow> sched" where
  "sch_observe model complexity ms tokens_out success now s =
     s\<lparr>s_router := map_option (rt_observe model complexity ms tokens_out success now) (s_router s)\<rparr>"

definition sch_account :: "time \<Rightarrow> string \<Rightarrow> string \<Rightarrow> int \<Rightarrow> int \<Rightarrow> sched \<Rightarrow> sched \<times> eff list" where
  "sch_account touch model agent tokens_in tokens_out s =
     (let (r, effs) = reg_update_usage agent 0 tokens_in tokens_out (s_reg s)
      in (s\<lparr>s_reg := r, s_models := map_option (mm_mark_used touch model) (s_models s)\<rparr>, effs))"

subsection \<open>Plain execution\<close>

text \<open>The answer of the chat endpoint; absent fields are \<open>None\<close>.\<close>

record chat_answer =
  ca_response :: "string option"
  ca_model :: "string option"
  ca_tokens_prompt :: "int option"
  ca_tokens_in :: "int option"
  ca_tokens_response :: "int option"
  ca_tokens_out :: "int option"
  ca_total_ms :: "rat option"
  ca_ms :: "rat option"

text \<open>\<open>a or b or 0\<close> on optional numbers, and \<open>a or b\<close>.\<close>

definition or_zero :: "int option \<Rightarrow> int option \<Rightarrow> int" where
  "or_zero a b =
     (case a of Some x \<Rightarrow> if x \<noteq> 0 then x else (case b of Some y \<Rightarrow> y | None \<Rightarrow> 0)
              | None \<Rightarrow> (case b of Some y \<Rightarrow> y | None \<Rightarrow> 0))"

definition or_num :: "rat option \<Rightarrow> rat option \<Rightarrow> rat option" where
  "or_num a b = (if truthy_num a then a else b)"

definition answer_result :: "string \<Rightarrow> chat_answer \<Rightarrow> task_result" where
  "answer_result model a =
     \<lparr>tr_response = (case ca_response a of None \<Rightarrow> [] | Some x \<Rightarrow> x),
      tr_model = (case ca_model a of None \<Rightarrow> model | Some x \<Rightarrow> x),
      tr_in = or_zero (ca_tokens_prompt a) (ca_tokens_in a),
      tr_out = or_zero (ca_tokens_response a) (ca_tokens_out a),
      tr_ms = or_num (ca_total_ms a) (ca_ms a)\<rparr>"

text \<open>
  The rest of \<open>_run_task\<close>, given the answer or the text of the exception; \<open>t1\<close> is the clock of the
  router and the model manager, \<open>t2\<close> the finish time.
\<close>

definition sch_answer :: "time \<Rightarrow> time \<Rightarrow> nat \<Rightarrow> string + chat_answer \<Rightarrow> sched \<Rightarrow> sched \<times> eff list" where
  "sch_answer t1 t2 w ans s =
     (case dict_get (s_workers s) w of
        None \<Rightarrow> (s, [])
      | Some r \<Rightarrow>
          let i = run_task r; t = sch_task s i
          in if run_stream r then (s, [])
             else (case ans of
               Inl err \<Rightarrow>
                 sch_finish t2 w (sch_upd i (\<lambda>t. t\<lparr>t_status := TaskFailed, t_error := Some err, t_result := None\<rparr>) s)
             | Inr a \<Rightarrow>
                 let res = answer_result (run_model r) a;
                     s1 = sch_upd i (\<lambda>t. t\<lparr>t_result := Some res, t_status := TaskDone\<rparr>) s;
                     s2 = (if truthy_num (tr_ms res)
                           then sch_observe (run_model r) (t_complexity t) (tr_ms res) (tr_out res) True t1 s1 else s1);
                     (s3, e3) = sch_account t1 (run_model r) (t_by t) (tr_in res) (tr_out res) s2;
                     (s4, e4) = sch_finish t2 w s3
                 in (s4, e3 @ e4)))"

subsection \<open>Streaming execution\<close>

text \<open>A line of the stream that parses as JSON; other lines are \<open>None\<close>.\<close>

record stream_data =
  sd_chunk :: string
  sd_done :: bool
  sd_in :: "int option"
  sd_out :: "int option"
  sd_duration :: "int option"

definition stream_result :: "string \<Rightarrow> nat \<Rightarrow> string \<Rightarrow> stream_data \<Rightarrow> task_result" where
  "stream_result model tokens partial d =
     \<lparr>tr_response = partial, tr_model = model,
      tr_in = (case sd_in d of None \<Rightarrow> 0 | Some n \<Rightarrow> n),
      tr_out = (case sd_out d of None \<Rightarrow> int tokens | Some n \<Rightarrow> n),
      tr_ms = Some (py_round_dig 1 (of_int (case sd_duration d of None \<Rightarrow> 0 | Some n \<Rightarrow> n) / 1000000))\<rparr>"

text \<open>The part of a round that handles a chunk: accumulate, count, announce.\<close>

definition stream_chunk :: "time \<Rightarrow> nat \<Rightarrow> run \<Rightarrow> string \<Rightarrow> sched \<Rightarrow> sched \<times> eff list" where
  "stream_chunk now w r chunk s =
     (if chunk = [] then (s, [])
      else
        let i = run_task r; s1 = sch_upd i (\<lambda>t. t\<lparr>t_partial := t_partial t @ chunk\<rparr>) s;
            t = sch_task s1 i; n = run_tokens r + 1;
            e1 = (if s_events s1 \<and> n mod stream_chunk_every = 0
              then [Emit ''task.token_chunk'' (t_by t)
                      [(''task_id'', PStr i), (''chunk'', PStr chunk), (''tokens_so_far'', PInt (int n)),
                       (''model'', PStr (run_model r))]]
              else []);
            due = stream_partial_interval \<le> now - run_last r;
            e2 = (if due \<and> s_events s1
              then [Emit ''task.partial_available'' (t_by t)
                      [(''task_id'', PStr i), (''partial_length'', PInt (int (length (t_partial t)))),
                       (''tokens_so_far'', PInt (int n))]]
              else []);
            r' = r\<lparr>run_tokens := n, run_last := (if due then now else run_last r)\<rparr>
        in (s1\<lparr>s_workers := dict_set w r' (s_workers s1)\<rparr>, e1 @ e2))"

definition sch_line :: "time \<Rightarrow> time \<Rightarrow> nat \<Rightarrow> stream_data option \<Rightarrow> sched \<Rightarrow> sched \<times> eff list" where
  "sch_line now touch w line s =
     (case dict_get (s_workers s) w of
        None \<Rightarrow> (s, [])
      | Some r \<Rightarrow>
          if \<not> run_stream r \<or> run_over r then (s, [])
          else if t_cancelled (sch_task s (run_task r))
          then (s\<lparr>s_workers := dict_set w (r\<lparr>run_over := True\<rparr>) (s_workers s)\<rparr>, [])
          else (case line of
            None \<Rightarrow> (s, [])
          | Some d \<Rightarrow>
              let i = run_task r; (s1, e1) = stream_chunk now w r (sd_chunk d) s
              in if \<not> sd_done d then (s1, e1)
                 else
                   let n = (if sd_chunk d = [] then run_tokens r else run_tokens r + 1);
                       t = sch_task s1 i; res = stream_result (run_model r) n (t_partial t) d;
                       s2 = sch_upd i (\<lambda>t. t\<lparr>t_result := Some res,
                              t_status := (if t_cancelled t then Cancelled else TaskDone)\<rparr>) s1;
                       (s3, e3) = sch_account touch (run_model r) (t_by t) (tr_in res) (tr_out res) s2
                   in (s3\<lparr>s_workers := dict_upd w (\<lambda>r. r\<lparr>run_over := True\<rparr>) (s_workers s3)\<rparr>, e1 @ e3)))"

text \<open>
  The end of the stream: the loop was left, the server closed the connection, or an exception ended it
  (\<open>Some\<close> of its text; not after the loop was left). \<open>t1\<close> is the clock at the end of the stream, \<open>t2\<close>
  the finish time.
\<close>

definition sch_stream_end :: "time \<Rightarrow> time \<Rightarrow> nat \<Rightarrow> string option \<Rightarrow> sched \<Rightarrow> sched \<times> eff list" where
  "sch_stream_end t1 t2 w exn s =
     (case dict_get (s_workers s) w of
        None \<Rightarrow> (s, [])
      | Some r \<Rightarrow>
          if \<not> run_stream r then (s, [])
          else
            let i = run_task r; t = sch_task s i;
                elapsed = (if truthy_num (t_started t) then Some ((t1 - the (t_started t)) * 1000) else None);
                s1 = (case (if run_over r then None else exn) of
                        Some err \<Rightarrow>
                          let s' = sch_upd i (\<lambda>t. t\<lparr>t_status := TaskFailed, t_error := Some err, t_result := None\<rparr>) s
                          in if truthy_num (t_started t)
                             then sch_observe (run_model r) (t_complexity t) elapsed 0 False t1 s' else s'
                      | None \<Rightarrow>
                          if t_status t = Running
                          then sch_upd i (\<lambda>t. t\<lparr>t_result := Some \<lparr>tr_response = t_partial t, tr_model = run_model r,
                                   tr_in = 0, tr_out = int (run_tokens r), tr_ms = None\<rparr>,
                                 t_status := (if t_cancelled t then Cancelled else TaskDone)\<rparr>) s
                          else s);
                t' = sch_task s1 i;
                s2 = (case t_result t' of
                        None \<Rightarrow> s1
                      | Some res \<Rightarrow>
                          if t_status t' = TaskDone
                          then let ms = (if truthy_num (tr_ms res) then tr_ms res else elapsed)
                               in if truthy_num ms
                                  then sch_observe (run_model r) (t_complexity t') ms (tr_out res) True t1 s1 else s1
                          else s1)
            in sch_finish t2 w s2)"

section \<open>Cancellation and queries\<close>

datatype cancel_answer = CancelMissing | CancelAlready task_status | CancelDone | CancelPending

definition sch_cancel :: "time \<Rightarrow> string \<Rightarrow> sched \<Rightarrow> sched \<times> cancel_answer" where
  "sch_cancel now i s =
     (if i \<notin> set (s_tasks s) then (s, CancelMissing)
      else let t = sch_task s i
      in if t_status t = TaskDone \<or> t_status t = TaskFailed \<or> t_status t = Cancelled
         then (s, CancelAlready (t_status t))
         else if t_status t = Queued \<or> t_status t = Checkpointed
         then (sch_save (sch_upd i (\<lambda>t. t\<lparr>t_status := Cancelled, t_finished := Some now, t_cancelled := True\<rparr>) s),
               CancelDone)
         else (sch_upd i (\<lambda>t. t\<lparr>t_cancelled := True\<rparr>) s, CancelPending))"

definition sch_get_task :: "string \<Rightarrow> sched \<Rightarrow> task option" where
  "sch_get_task i s = (if i \<in> set (s_tasks s) then dict_get (s_objs s) i else None)"

definition sch_list_tasks :: "string option \<Rightarrow> int \<Rightarrow> sched \<Rightarrow> task list" where
  "sch_list_tasks agent limit s =
     (let ts = map (sch_task s) (s_tasks s);
          mine = (if truthy_str agent then filter (\<lambda>t. Some (t_by t) = agent) ts else ts)
      in py_take limit (sort_key (\<lambda>t. - t_created t) mine))"

record queue_status =
  qs_running :: nat
  qs_workers :: nat
  qs_depth :: "(int, int) dict"

definition sch_queue_status :: "sched \<Rightarrow> queue_status" where
  "sch_queue_status s =
     \<lparr>qs_running = tq_running_count (s_queue s), qs_workers = num_workers, qs_depth = tq_depth (s_queue s)\<rparr>"

section \<open>Sub-agents\<close>

text \<open>
  \<open>spawn_agent\<close> up to the submission of the child's task, on which it waits, and what follows the
  wait. \<open>cid\<close> and \<open>i\<close> are the fresh ids.
\<close>

record spawn_request =
  sp_parent :: string
  sp_name :: string
  sp_role :: string
  sp_task :: string
  sp_complexity :: int
  sp_caps :: "string list"
  sp_priority :: int
  sp_parent_task :: "string option"

definition sch_spawn :: "keying \<Rightarrow> string \<Rightarrow> string \<Rightarrow> time \<Rightarrow> time \<Rightarrow> spawn_request \<Rightarrow> sched
    \<Rightarrow> sched \<times> eff list \<times> (string + agent \<times> task)" where
  "sch_spawn kg cid i t1 t2 q s =
     (case dict_get (r_agents (s_reg s)) (sp_parent q) of
        None \<Rightarrow> (s, [], Inl ''parent agent lacks spawn capability'')
      | Some p \<Rightarrow>
          if \<not> has_cap p ''spawn'' then (s, [], Inl ''parent agent lacks spawn capability'')
          else
            (case reg_register kg cid t1
                \<lparr>q_name = sp_name q, q_role = sp_role q, q_caps = sp_caps q, q_budget = [],
                 q_parent = Some (sp_parent q), q_metadata = [], q_policies = [],
                 q_group = Some (sp_parent q), q_parent_task = sp_parent_task q\<rparr> (s_reg s) of
               (r, e1, Inl (ValueError msg)) \<Rightarrow> (s\<lparr>s_reg := r\<rparr>, e1, Inl msg)
             | (r, e1, Inl (KeyError msg)) \<Rightarrow> (s\<lparr>s_reg := r\<rparr>, e1, Inl msg)
             | (r, e1, Inl (RuntimeError msg)) \<Rightarrow> (s\<lparr>s_reg := r\<rparr>, e1, Inl msg)
             | (r, e1, Inr (child, token)) \<Rightarrow>
                 let note = Send ''scheduler'' (sp_parent q)
                       [(''spawned'', PStr (a_id child)), (''name'', PStr (sp_name q)), (''role'', PStr (sp_role q)),
                        (''task'', PStr (sp_task q))] ''log'';
                     s1 = s\<lparr>s_reg := reg_set_task (a_id child) (Some (sp_task q)) r\<rparr>;
                     (s2, e2, t) = sch_submit i t2
                       \<lparr>sub_description = sp_task q, sub_by = a_id child, sub_complexity = sp_complexity q,
                        sub_context = [], sub_priority = sp_priority q, sub_depends = [],
                        sub_parent = sp_parent_task q, sub_stream = False\<rparr> s1
                 in (s2, e1 @ [note] @ e2, Inr (child, t))))"

definition still_waiting :: "task_status \<Rightarrow> bool" where
  "still_waiting st = (st = Queued \<or> st = Running \<or> st = Checkpointed)"

text \<open>The end of \<open>spawn_agent\<close>: nothing while the task is still waited for, then the child is terminated.\<close>

definition sch_spawn_end :: "string \<Rightarrow> string \<Rightarrow> string \<Rightarrow> sched \<Rightarrow> sched \<times> eff list \<times> task option" where
  "sch_spawn_end stamp cid i s =
     (if still_waiting (t_status (sch_task s i)) then (s, [], None)
      else case reg_terminate stamp cid ''explicit'' ''system'' (s_reg s) of
             Inl e \<Rightarrow> (s, [], None)
           | Inr (r, effs) \<Rightarrow> (s\<lparr>s_reg := r\<rparr>, effs, Some (sch_task s i)))"

section \<open>The shell usage log\<close>

record shell_entry =
  sh_pattern :: string
  sh_count :: nat
  sh_agents :: "string list"
  sh_examples :: "string list"

definition shell_pattern :: "string \<Rightarrow> string" where
  "shell_pattern command =
     (let parts = py_split (py_strip command)
      in if 1 < length parts then py_join '' '' (take 2 parts) else hd parts)"

definition log_shell_usage :: "string \<Rightarrow> string \<Rightarrow> (string, shell_entry) dict \<Rightarrow> (string, shell_entry) dict" where
  "log_shell_usage command agent d =
     (if py_split (py_strip command) = [] then d
      else
        let p = shell_pattern command;
            e = dict_get_or \<lparr>sh_pattern = p, sh_count = 0, sh_agents = [], sh_examples = []\<rparr> d p
        in dict_set p
             (e\<lparr>sh_count := sh_count e + 1, sh_agents := add_key agent (sh_agents e),
                sh_examples := (if length (sh_examples e) < 5 \<and> command \<notin> set (sh_examples e)
                                then sh_examples e @ [take 200 command] else sh_examples e)\<rparr>) d)"

section \<open>Reachable states\<close>

text \<open>
  The steps of the running system: start, wiring, submissions with fresh ids, the workers, cancellation,
  sub-agents, restarts from the task file, and any change other components make to the registry.
\<close>

inductive sch_reach :: "string \<Rightarrow> keying \<Rightarrow> sched \<Rightarrow> bool" for dm kg where
  Start: "sch_reach dm kg (sch_init now None r)"
| Restart: "sch_reach dm kg s \<Longrightarrow> sch_reach dm kg (sch_init now (s_disk s) r)"
| Wire_Events: "sch_reach dm kg s \<Longrightarrow> sch_reach dm kg (sch_set_event_bus s)"
| Wire_Models: "sch_reach dm kg s \<Longrightarrow> sch_reach dm kg (sch_set_model_manager m s)"
| Wire_Router: "sch_reach dm kg s \<Longrightarrow> sch_reach dm kg (sch_set_adaptive_router rt s)"
| Wire_Saver: "sch_reach dm kg s \<Longrightarrow> sch_reach dm kg (sch_set_checkpoint_manager s)"
| Registry: "sch_reach dm kg s \<Longrightarrow> sch_reach dm kg (s\<lparr>s_reg := r\<rparr>)"
| Submit: "sch_reach dm kg s \<Longrightarrow> dict_get (s_objs s) i = None \<Longrightarrow> sch_reach dm kg (fst (sch_submit i now sub s))"
| Take: "sch_reach dm kg s \<Longrightarrow> w < num_workers \<Longrightarrow> dict_get (s_workers s) w = None
    \<Longrightarrow> sch_reach dm kg (fst (sch_take dm env w s))"
| Answer: "sch_reach dm kg s \<Longrightarrow> sch_reach dm kg (fst (sch_answer t1 t2 w ans s))"
| Line: "sch_reach dm kg s \<Longrightarrow> sch_reach dm kg (fst (sch_line t1 t2 w line s))"
| Stream_End: "sch_reach dm kg s \<Longrightarrow> sch_reach dm kg (fst (sch_stream_end t1 t2 w exn s))"
| Cancel: "sch_reach dm kg s \<Longrightarrow> sch_reach dm kg (fst (sch_cancel now i s))"
| Spawn: "sch_reach dm kg s \<Longrightarrow> dict_get (s_objs s) i = None \<Longrightarrow> sch_reach dm kg (fst (sch_spawn kg cid i t1 t2 q s))"
| Spawn_End: "sch_reach dm kg s \<Longrightarrow> sch_reach dm kg (fst (sch_spawn_end stamp cid i s))"

section \<open>Invariant\<close>

text \<open>
  Well-typed tasks, and where a task is that has not ended: one that waits is in the queue, one that
  runs is with a worker. \<open>X\<close> exempts the task an operation is just moving.
\<close>

definition task_ok :: "task \<Rightarrow> bool" where
  "task_ok t = (1 \<le> t_complexity t \<and> t_complexity t \<le> 5 \<and> 0 \<le> t_priority t \<and> t_priority t \<le> 2 \<and>
     (t_status t = TaskDone \<longrightarrow> t_result t \<noteq> None) \<and> (t_status t = TaskFailed \<longrightarrow> t_error t \<noteq> None) \<and>
     (t_status t = Running \<longrightarrow> t_started t \<noteq> None \<and> t_assigned t \<noteq> None) \<and>
     (t_status t = Cancelled \<longrightarrow> t_cancelled t))"

definition placed :: "task_queue \<Rightarrow> (nat, run) dict \<Rightarrow> string \<Rightarrow> task \<Rightarrow> bool" where
  "placed q ws i t = ((t_status t = Queued \<or> t_status t = Checkpointed \<longrightarrow> i \<in> set (q_pending q)) \<and>
     (t_status t = Running \<longrightarrow> (\<exists>w r. dict_get ws w = Some r \<and> run_task r = i)))"

definition objs_ok :: "string set \<Rightarrow> sched \<Rightarrow> bool" where
  "objs_ok X s = (\<forall>i t. dict_get (s_objs s) i = Some t \<longrightarrow>
     t_id t = i \<and> task_ok t \<and> (i \<in> X \<or> placed (s_queue s) (s_workers s) i t))"

definition known :: "sched \<Rightarrow> string set" where
  "known s = {i. dict_get (s_objs s) i \<noteq> None}"

definition refs_ok :: "sched \<Rightarrow> bool" where
  "refs_ok s = (wf_dict (s_objs s) \<and> distinct (s_tasks s) \<and> set (s_tasks s) \<subseteq> known s \<and> tq_wf (s_queue s) \<and>
     set (q_pending (s_queue s)) \<subseteq> known s \<and> set (q_running (s_queue s)) \<subseteq> known s \<and>
     (\<forall>w r. dict_get (s_workers s) w = Some r \<longrightarrow> run_task r \<in> known s \<and> w < num_workers))"

definition disk_ok :: "(string, task) dict option \<Rightarrow> bool" where
  "disk_ok disk = (case disk of None \<Rightarrow> True | Some d \<Rightarrow> list_all task_ok (vals d) \<and> length d \<le> max_tasks)"

definition sch_core :: "string set \<Rightarrow> sched \<Rightarrow> bool" where
  "sch_core X s = (objs_ok X s \<and> refs_ok s \<and> disk_ok (s_disk s))"

definition sch_inv :: "sched \<Rightarrow> bool" where
  "sch_inv s = (sch_core {} s \<and> length (s_tasks s) \<le> max_tasks)"

lemmas sch_core_defs = sch_core_def objs_ok_def refs_ok_def known_def

text \<open>The fields the invariant reads.\<close>

lemma sch_core_cong:
  "s_objs s' = s_objs s \<Longrightarrow> s_tasks s' = s_tasks s \<Longrightarrow> s_queue s' = s_queue s \<Longrightarrow> s_workers s' = s_workers s
    \<Longrightarrow> s_disk s' = s_disk s \<Longrightarrow> sch_core X s' = sch_core X s"
  by (simp add: sch_core_defs)

lemma sch_upd_fields [simp]:
  "s_tasks (sch_upd i f s) = s_tasks s" "s_queue (sch_upd i f s) = s_queue s" "s_workers (sch_upd i f s) = s_workers s"
  "s_disk (sch_upd i f s) = s_disk s" "s_events (sch_upd i f s) = s_events s" "s_reg (sch_upd i f s) = s_reg s"
  "s_models (sch_upd i f s) = s_models s" "s_router (sch_upd i f s) = s_router s"
  "keys (s_objs (sch_upd i f s)) = keys (s_objs s)" "s_objs (sch_upd i f s) = dict_upd i f (s_objs s)"
  by (simp_all add: sch_upd_def)

lemma sch_save_fields [simp]:
  "s_objs (sch_save s) = s_objs s" "s_queue (sch_save s) = s_queue s" "s_workers (sch_save s) = s_workers s"
  "s_events (sch_save s) = s_events s" "s_reg (sch_save s) = s_reg s" "s_models (sch_save s) = s_models s"
  "s_router (sch_save s) = s_router s"
  by (simp_all add: sch_save_def Let_def)

lemma known_get: "i \<in> known s \<Longrightarrow> dict_get (s_objs s) i = Some (sch_task s i)"
  by (auto simp: known_def sch_task_def)

lemma known_task:
  "sch_core X s \<Longrightarrow> i \<in> known s \<Longrightarrow> task_ok (sch_task s i) \<and> t_id (sch_task s i) = i \<and>
     (i \<in> X \<or> placed (s_queue s) (s_workers s) i (sch_task s i))"
  using known_get [of i s] by (simp add: sch_core_def objs_ok_def)

text \<open>Evicting the oldest leaves the bound.\<close>

lemma sch_evicted_length: "distinct (s_tasks s) \<Longrightarrow>
    length (filter (\<lambda>i. i \<notin> set (sch_evicted s)) (s_tasks s)) \<le> max_tasks"
proof -
  assume d: "distinct (s_tasks s)"
  let ?k = "sort_key (\<lambda>i. t_created (sch_task s i)) (s_tasks s)"
  have ds: "distinct ?k" using d by simp
  show ?thesis
  proof (cases "max_tasks < length (s_tasks s)")
    case True
    let ?n = "length (s_tasks s) - max_tasks"
    have "length (filter (\<lambda>i. i \<notin> set (sch_evicted s)) (s_tasks s)) = card (set (s_tasks s) - set (take ?n ?k))"
      using d True distinct_card [of "filter (\<lambda>i. i \<notin> set (sch_evicted s)) (s_tasks s)"]
      by (simp add: sch_evicted_def set_diff_eq)
    also have "\<dots> = length (s_tasks s) - ?n"
    proof -
      have sub: "set (take ?n ?k) \<subseteq> set (s_tasks s)" using set_take_subset [of ?n ?k] by simp
      have "card (set (take ?n ?k)) = ?n" using ds by (subst distinct_card) simp_all
      with sub d show ?thesis by (simp add: card_Diff_subset distinct_card)
    qed
    finally show ?thesis using True by simp
  qed (simp add: sch_evicted_def)
qed

lemma sch_save_core: "sch_core X s \<Longrightarrow> sch_core X (sch_save s) \<and> length (s_tasks (sch_save s)) \<le> max_tasks"
proof -
  assume core: "sch_core X s"
  let ?kept = "filter (\<lambda>i. i \<notin> set (sch_evicted s)) (s_tasks s)"
  have len: "length ?kept \<le> max_tasks"
    by (rule sch_evicted_length) (use core in \<open>simp add: sch_core_defs\<close>)
  have sub: "set ?kept \<subseteq> known s" using core by (auto simp: sch_core_defs)
  have "task_ok (sch_task s i)" if "i \<in> set ?kept" for i
    using known_task [OF core, of i] sub that by blast
  then have "disk_ok (s_disk (sch_save s))"
    using len by (auto simp: disk_ok_def sch_save_def Let_def list_all_iff)
  moreover have "refs_ok (sch_save s)" using core sub by (auto simp: sch_core_defs sch_save_def Let_def)
  moreover have "objs_ok X (sch_save s)" using core by (simp add: sch_core_defs)
  moreover have "length (s_tasks (sch_save s)) \<le> max_tasks" using len by (simp add: sch_save_def Let_def)
  ultimately show ?thesis by (simp add: sch_core_def)
qed

lemma sch_upd_core:
  assumes "sch_core X s" and "\<And>t. dict_get (s_objs s) i = Some t \<Longrightarrow> task_ok t \<Longrightarrow>
    t_id (f t) = t_id t \<and> task_ok (f t) \<and> (i \<in> X \<or> placed (s_queue s) (s_workers s) i (f t))"
  shows "sch_core X (sch_upd i f s)"
proof -
  have "known (sch_upd i f s) = known s" by (auto simp: known_def)
  then have "refs_ok (sch_upd i f s)" using assms(1) by (simp add: sch_core_def refs_ok_def)
  moreover have "objs_ok X (sch_upd i f s)"
    using assms by (auto simp: sch_core_def objs_ok_def split: if_splits)
  ultimately show ?thesis using assms(1) by (simp add: sch_core_def)
qed

lemma sch_core_mono: "sch_core X s \<Longrightarrow> X \<subseteq> Y \<Longrightarrow> sch_core Y s"
  by (auto simp: sch_core_def objs_ok_def)

lemma placed_mono: "placed q ws i t \<Longrightarrow> set (q_pending q) \<subseteq> set (q_pending q') \<Longrightarrow> placed q' ws i t"
  by (auto simp: placed_def)

lemma running_background_in:
  "t \<in> set (running_background objs q) \<Longrightarrow>
    (\<exists>i \<in> set (q_running q). dict_get objs i = Some t) \<and> t_priority t = 2 \<and> t_status t = Running"
  by (auto simp: running_background_def map_filter_def)

lemma tq_checkpoint_wf:
  assumes "tq_wf q" "i \<in> set (q_running q)"
  shows "tq_wf (q\<lparr>q_running := remove1 i (q_running q), q_pending := add_key i (q_pending q),
    q_heap := heap_push (p, q_seq q, i) (q_heap q), q_seq := q_seq q + 1\<rparr>)"
proof -
  have "i \<notin> set (q_pending q)" using assms by (auto simp: tq_wf_def)
  with assms show ?thesis
    by (auto simp: tq_wf_def heap_ids_def distinct_heap_push list_all_iff)
qed

lemma preempt_cases:
  assumes "sch_core X s"
  obtains (same) "fst (sch_preempt s) = s"
  | (moved) i v q where "fst (sch_preempt s) = s\<lparr>s_objs := dict_upd i (\<lambda>t. t\<lparr>t_status := Checkpointed\<rparr>) (s_objs s), s_queue := q\<rparr>"
      "i \<in> set (q_running (s_queue s))" "dict_get (s_objs s) i = Some v" "t_priority v = 2" "t_status v = Running" "tq_wf q"
      "set (q_pending q) = insert i (set (q_pending (s_queue s)))" "set (q_running q) = set (q_running (s_queue s)) - {i}"
proof (cases "num_workers \<le> tq_running_count (s_queue s) \<and> running_background (s_objs s) (s_queue s) \<noteq> []")
  case False
  then have "fst (sch_preempt s) = s" by (auto simp: sch_preempt_def tq_checkpoint_oldest_def split: list.splits)
  then show thesis by (rule same)
next
  case True
  then obtain t ts where bg: "running_background (s_objs s) (s_queue s) = t # ts" by (metis list.exhaust)
  define v where "v = first_min task_age t ts"
  have "v \<in> set (running_background (s_objs s) (s_queue s))" unfolding v_def bg by (rule first_min_in)
  from running_background_in [OF this] obtain i where
    i: "i \<in> set (q_running (s_queue s))" "dict_get (s_objs s) i = Some v" "t_priority v = 2" "t_status v = Running" by blast
  have id: "t_id v = i" using assms i(2) by (simp add: sch_core_defs)
  let ?q = "(s_queue s)\<lparr>q_running := remove1 i (q_running (s_queue s)), q_pending := add_key i (q_pending (s_queue s)),
    q_heap := heap_push (t_priority v, q_seq (s_queue s), i) (q_heap (s_queue s)), q_seq := q_seq (s_queue s) + 1\<rparr>"
  show thesis
  proof (rule moved [OF _ i])
    show "fst (sch_preempt s) = s\<lparr>s_objs := dict_upd i (\<lambda>t. t\<lparr>t_status := Checkpointed\<rparr>) (s_objs s), s_queue := ?q\<rparr>"
      using True by (simp add: sch_preempt_def tq_checkpoint_oldest_def bg Let_def v_def [symmetric] id)
    show "tq_wf ?q" by (rule tq_checkpoint_wf) (use assms i in \<open>simp_all add: sch_core_defs\<close>)
    show "set (q_running ?q) = set (q_running (s_queue s)) - {i}"
      using assms by (simp add: sch_core_defs tq_wf_def)
  qed simp
qed

lemma preempt_core:
  assumes "sch_core X s"
  shows "sch_core X (fst (sch_preempt s))"
  using assms
proof (cases rule: preempt_cases)
  case (moved i v q)
  have "known (fst (sch_preempt s)) = known s" by (auto simp: moved known_def)
  then have "refs_ok (fst (sch_preempt s))"
    using assms moved by (auto simp: sch_core_def refs_ok_def known_def)
  moreover have "objs_ok X (fst (sch_preempt s))"
    using assms moved by (auto simp: sch_core_def objs_ok_def task_ok_def placed_def split: if_splits)
  ultimately show ?thesis using assms moved by (simp add: sch_core_def)
qed (use assms in simp)

lemma preempt_keeps:
  assumes "sch_core X s"
  shows "known (fst (sch_preempt s)) = known s" and "s_tasks (fst (sch_preempt s)) = s_tasks s"
    and "set (q_pending (s_queue (fst (sch_preempt s)))) \<union> set (q_running (s_queue (fst (sch_preempt s)))) =
      set (q_pending (s_queue s)) \<union> set (q_running (s_queue s))"
    and "j \<notin> set (q_running (s_queue s)) \<Longrightarrow> dict_get (s_objs (fst (sch_preempt s))) j = dict_get (s_objs s) j"
  using assms by (cases rule: preempt_cases; auto simp: known_def)+

lemma tq_put_pending [simp]: "set (q_pending (tq_put p i q)) = insert i (set (q_pending q))" "q_running (tq_put p i q) = q_running q"
  by (simp_all add: tq_put_def)

lemma put_core:
  assumes "sch_core {i} s" "i \<in> known s" "i \<notin> set (q_pending (s_queue s))" "i \<notin> set (q_running (s_queue s))"
    and "t_status (sch_task s i) = Queued"
  shows "sch_core {} (s\<lparr>s_queue := tq_put p i (s_queue s)\<rparr>)"
proof -
  have "tq_wf (tq_put p i (s_queue s))"
    by (rule tq_put_wf) (use assms in \<open>simp_all add: sch_core_defs tq_fresh_def\<close>)
  then have "refs_ok (s\<lparr>s_queue := tq_put p i (s_queue s)\<rparr>)" using assms by (auto simp: sch_core_defs)
  moreover have "placed (tq_put p i (s_queue s)) (s_workers s) j t" if "dict_get (s_objs s) j = Some t" for j t
  proof (cases "j = i")
    case True
    then show ?thesis using assms(5) that by (auto simp: placed_def sch_task_def)
  next
    case False
    then have "placed (s_queue s) (s_workers s) j t" using assms(1) that by (auto simp: sch_core_def objs_ok_def)
    then show ?thesis by (rule placed_mono) auto
  qed
  ultimately show ?thesis using assms(1) by (auto simp: sch_core_def objs_ok_def)
qed

lemma new_task_ok: "task_ok (new_task i now sub)"
  by (simp add: task_ok_def new_task_def)

text \<open>What a submission returns, as a composition.\<close>

definition enlist :: "string \<Rightarrow> task \<Rightarrow> sched \<Rightarrow> sched" where
  "enlist i t s = sch_save (s\<lparr>s_objs := dict_set i t (s_objs s), s_tasks := add_key i (s_tasks s)\<rparr>)"

definition enlist_preempt :: "string \<Rightarrow> task \<Rightarrow> sched \<Rightarrow> sched" where
  "enlist_preempt i t s = (if t_priority t = 0 then fst (sch_preempt (enlist i t s)) else enlist i t s)"

lemma sch_submit_state:
  "fst (sch_submit i now sub s) =
     (let s2 = enlist_preempt i (new_task i now sub) s
      in s2\<lparr>s_queue := tq_put (t_priority (new_task i now sub)) i (s_queue s2)\<rparr>)"
  by (simp add: sch_submit_def enlist_preempt_def enlist_def Let_def split_beta)

lemma enlist_core:
  assumes "sch_inv s" "i \<notin> known s"
  shows "sch_core {i} (enlist i (new_task i now sub) s) \<and> length (s_tasks (enlist i (new_task i now sub) s)) \<le> max_tasks"
  unfolding enlist_def
proof (rule sch_save_core)
  let ?t = "new_task i now sub"
  have "objs_ok {i} (s\<lparr>s_objs := dict_set i ?t (s_objs s), s_tasks := add_key i (s_tasks s)\<rparr>)"
    using assms(1) new_task_ok [of i now sub] by (auto simp: sch_inv_def sch_core_defs new_task_def)
  moreover have "known (s\<lparr>s_objs := dict_set i ?t (s_objs s), s_tasks := add_key i (s_tasks s)\<rparr>) = insert i (known s)"
    by (auto simp: known_def)
  then have "refs_ok (s\<lparr>s_objs := dict_set i ?t (s_objs s), s_tasks := add_key i (s_tasks s)\<rparr>)"
    using assms(1) by (auto simp: sch_inv_def sch_core_def refs_ok_def)
  ultimately show "sch_core {i} (s\<lparr>s_objs := dict_set i ?t (s_objs s), s_tasks := add_key i (s_tasks s)\<rparr>)"
    using assms(1) by (simp add: sch_core_def sch_inv_def)
qed

lemma sch_submit_inv:
  assumes "sch_inv s" "i \<notin> known s"
  shows "sch_inv (fst (sch_submit i now sub s))"
proof -
  let ?t = "new_task i now sub"
  let ?s1 = "enlist i ?t s"
  let ?s2 = "enlist_preempt i ?t s"
  have c1: "sch_core {i} ?s1" "length (s_tasks ?s1) \<le> max_tasks" using enlist_core [OF assms] by blast+
  have q1: "s_queue ?s1 = s_queue s" "known ?s1 = insert i (known s)" "dict_get (s_objs ?s1) i = Some ?t"
    by (auto simp: enlist_def known_def)
  have "set (q_pending (s_queue s)) \<union> set (q_running (s_queue s)) \<subseteq> known s"
    using assms(1) by (simp add: sch_inv_def sch_core_def refs_ok_def)
  with assms(2) have new: "i \<notin> set (q_pending (s_queue s)) \<union> set (q_running (s_queue s))" by blast
  have c2: "sch_core {i} ?s2" "length (s_tasks ?s2) \<le> max_tasks" "i \<in> known ?s2"
    using c1 q1 preempt_core [OF c1(1)] preempt_keeps [OF c1(1)] by (simp_all add: enlist_preempt_def)
  have out: "i \<notin> set (q_pending (s_queue ?s2)) \<union> set (q_running (s_queue ?s2))"
    using new q1(1) preempt_keeps(3) [OF c1(1)] by (auto simp: enlist_preempt_def)
  have "dict_get (s_objs ?s2) i = Some ?t"
    using new q1 preempt_keeps(4) [OF c1(1), of i] by (simp add: enlist_preempt_def)
  then have "t_status (sch_task ?s2 i) = Queued" by (simp add: sch_task_def new_task_def)
  with put_core [OF c2(1,3)] out c2(2) show ?thesis
    by (simp add: sch_submit_state Let_def sch_inv_def)
qed

lemma route_fields:
  "s_objs (fst (sch_route dm env t s)) = s_objs s" "s_tasks (fst (sch_route dm env t s)) = s_tasks s"
  "s_queue (fst (sch_route dm env t s)) = s_queue s" "s_workers (fst (sch_route dm env t s)) = s_workers s"
  "s_disk (fst (sch_route dm env t s)) = s_disk s" "s_reg (fst (sch_route dm env t s)) = s_reg s"
  "s_events (fst (sch_route dm env t s)) = s_events s"
  by (simp_all add: sch_route_def Let_def split_beta split: option.splits)

lemma mark_done_fields [simp]:
  "q_pending (tq_mark_done i q) = q_pending q" "q_heap (tq_mark_done i q) = q_heap q"
  by (simp_all add: tq_mark_done_def)

lemma mark_done_core: "sch_core X s \<Longrightarrow> sch_core X (s\<lparr>s_queue := tq_mark_done i (s_queue s)\<rparr>)"
  by (auto simp: sch_core_defs placed_def tq_mark_done_wf) (auto simp: tq_mark_done_def dest: notin_set_remove1)

lemma worker_core:
  assumes "sch_core X s" "run_task r \<in> known s" "w < num_workers"
    and "\<And>r'. dict_get (s_workers s) w = Some r' \<Longrightarrow> run_task r' = run_task r"
  shows "sch_core X (s\<lparr>s_workers := dict_set w r (s_workers s)\<rparr>)"
proof -
  have keep: "placed q (dict_set w r (s_workers s)) i t" if "placed q (s_workers s) i t" for q i t
    using that assms(4) unfolding placed_def by (metis dict_get_set)
  have "objs_ok X (s\<lparr>s_workers := dict_set w r (s_workers s)\<rparr>)"
    unfolding objs_ok_def
  proof (intro allI impI)
    fix i t
    assume "dict_get (s_objs (s\<lparr>s_workers := dict_set w r (s_workers s)\<rparr>)) i = Some t"
    then have "t_id t = i \<and> task_ok t \<and> (i \<in> X \<or> placed (s_queue s) (s_workers s) i t)"
      using assms(1) by (simp add: sch_core_def objs_ok_def)
    with keep show "t_id t = i \<and> task_ok t \<and> (i \<in> X \<or> placed (s_queue (s\<lparr>s_workers := dict_set w r (s_workers s)\<rparr>))
        (s_workers (s\<lparr>s_workers := dict_set w r (s_workers s)\<rparr>)) i t)" by auto
  qed
  moreover have "refs_ok (s\<lparr>s_workers := dict_set w r (s_workers s)\<rparr>)"
    using assms(1-3) by (simp add: sch_core_def refs_ok_def known_def)
  ultimately show ?thesis using assms(1) by (simp add: sch_core_def)
qed

text \<open>Moving the exempt task to its place.\<close>

lemma sch_core_settle:
  assumes "sch_core {i} s"
    and "\<And>t. dict_get (s_objs s) i = Some t \<Longrightarrow> placed (s_queue s) (s_workers s) i t"
  shows "sch_core {} s"
  using assms by (auto simp: sch_core_def objs_ok_def)

lemma final_placed: "\<not> still_waiting (t_status t) \<Longrightarrow> placed q ws i t"
  by (simp add: placed_def still_waiting_def)

lemma begin_inv:
  assumes core: "sch_core {i} s" "length (s_tasks s) \<le> max_tasks" and i: "i \<in> known s"
    and w: "w < num_workers" "dict_get (s_workers s) w = None"
  shows "sch_inv (fst (sch_begin dm env w i s))"
proof -
  let ?t = "sch_task s i"
  let ?s1 = "fst (sch_route dm env ?t s)"
  let ?model = "snd (snd (sch_route dm env ?t s))"
  have c1: "sch_core {i} ?s1" "length (s_tasks ?s1) \<le> max_tasks" "i \<in> known ?s1"
    using core i by (simp_all add: route_fields sch_core_cong [OF route_fields(1-5)] known_def)
  show ?thesis
  proof (cases "dict_get (r_agents (s_reg ?s1)) (t_by ?t) \<noteq> None \<and> \<not> reg_check_model_policy (t_by ?t) ?model ''ollama'' (s_reg ?s1)")
    case True
    let ?f = "\<lambda>t. t\<lparr>t_status := TaskFailed, t_error := Some (policy_error ?model
      (dict_get_or ''general'' complexity_routing (t_complexity ?t))), t_finished := Some (en_now env)\<rparr>"
    let ?s2 = "sch_save (sch_upd i ?f ?s1)"
    have "sch_core {i} (sch_upd i ?f ?s1)"
      by (rule sch_upd_core [OF c1(1)]) (simp add: task_ok_def)
    from sch_save_core [OF this] have c2: "sch_core {i} ?s2" "length (s_tasks ?s2) \<le> max_tasks" by blast+
    have "sch_core {} ?s2"
      by (rule sch_core_settle [OF c2(1)]) (use c1(3) in \<open>auto simp: known_def intro!: final_placed simp: still_waiting_def\<close>)
    from mark_done_core [OF this] c2(2) show ?thesis
      using True by (simp add: sch_begin_def Let_def split_beta sch_inv_def)
  next
    case False
    let ?f = "\<lambda>t. t\<lparr>t_assigned := Some ?model, t_status := Running, t_started := Some (en_now env)\<rparr>"
    let ?r = "\<lparr>run_task = i, run_model = ?model, run_role = dict_get_or ''general'' complexity_routing (t_complexity ?t),
                    run_messages = task_messages (en_standards env) ?t, run_stream = t_stream ?t,
                    run_tokens = 0, run_last = en_stream env, run_over = False\<rparr>"
    let ?s2 = "sch_upd i ?f ?s1"
    let ?s3 = "?s2\<lparr>s_workers := dict_set w ?r (s_workers ?s2)\<rparr>"
    have c2: "sch_core {i} ?s2" by (rule sch_upd_core [OF c1(1)]) (simp add: task_ok_def)
    have "sch_core {i} ?s3"
      by (rule worker_core [OF c2]) (use c1(3) w in \<open>simp_all add: known_def route_fields\<close>)
    then have "sch_core {} ?s3"
      by (rule sch_core_settle) (auto simp: placed_def)
    moreover have "fst (sch_begin dm env w i s) = ?s3"
      using False by (auto simp: sch_begin_def Let_def split_beta)
    ultimately show ?thesis using c1(2) by (simp add: sch_inv_def)
  qed
qed

lemma sch_take_inv:
  assumes "sch_inv s" "w < num_workers" "dict_get (s_workers s) w = None"
  shows "sch_inv (fst (sch_take dm env w s))"
proof -
  have core: "sch_core {} s" and len: "length (s_tasks s) \<le> max_tasks" using assms(1) by (simp_all add: sch_inv_def)
  have wf: "tq_wf (s_queue s)" using core by (simp add: sch_core_def refs_ok_def)
  then show ?thesis
  proof (cases rule: tq_get_cases)
    case empty
    then show ?thesis using assms(1) by (simp add: sch_take_def)
  next
    case (taken p sq i h)
    let ?q = "fst (tq_get (s_queue s))"
    let ?f = "\<lambda>t. if t_status t = Checkpointed then t\<lparr>t_status := Queued\<rparr> else t"
    have i: "i \<in> known s" using core taken(2) by (auto simp: sch_core_def refs_ok_def)
    have "refs_ok (s\<lparr>s_queue := ?q\<rparr>)"
      using core tq_get_wf [OF wf] taken i unfolding sch_core_def refs_ok_def known_def
      by (auto dest: notin_set_remove1 set_remove1_subset [THEN subsetD])
    moreover have "set (q_pending ?q) = set (q_pending (s_queue s)) - {i}"
      using wf taken by (simp add: tq_wf_def)
    then have "objs_ok {i} (s\<lparr>s_queue := ?q\<rparr>)" using core by (auto simp: sch_core_def objs_ok_def placed_def)
    ultimately have "sch_core {i} (s\<lparr>s_queue := ?q\<rparr>)" using core by (simp add: sch_core_def)
    then have "sch_core {i} (sch_upd i ?f (s\<lparr>s_queue := ?q\<rparr>))"
      by (rule sch_upd_core) (simp add: task_ok_def)
    then have "sch_inv (fst (sch_begin dm env w i (sch_upd i ?f (s\<lparr>s_queue := ?q\<rparr>))))"
      by (rule begin_inv) (use len i assms(2,3) in \<open>auto simp: known_def\<close>)
    then show ?thesis by (simp add: sch_take_def taken)
  qed
qed

lemma account_core: "sch_core X (fst (sch_account touch model agent tin tout s)) = sch_core X s"
  by (simp add: sch_account_def split_beta Let_def sch_core_defs)

lemma account_fields [simp]:
  "s_workers (fst (sch_account touch model agent tin tout s)) = s_workers s"
  "s_objs (fst (sch_account touch model agent tin tout s)) = s_objs s"
  "s_tasks (fst (sch_account touch model agent tin tout s)) = s_tasks s"
  by (simp_all add: sch_account_def split_beta Let_def)

lemma observe_fields [simp]:
  "s_workers (sch_observe m c ms n ok now s) = s_workers s" "s_objs (sch_observe m c ms n ok now s) = s_objs s"
  "s_tasks (sch_observe m c ms n ok now s) = s_tasks s"
  by (simp_all add: sch_observe_def)

lemma observe_core: "sch_core X (sch_observe m c ms n ok now s) = sch_core X s"
  by (simp add: sch_observe_def sch_core_defs)

lemma auto_checkpoint_fields [simp]:
  "s_objs (auto_checkpoint i s) = s_objs s" "s_tasks (auto_checkpoint i s) = s_tasks s"
  "s_queue (auto_checkpoint i s) = s_queue s" "s_workers (auto_checkpoint i s) = s_workers s"
  "s_disk (auto_checkpoint i s) = s_disk s" "s_reg (auto_checkpoint i s) = s_reg s" "s_events (auto_checkpoint i s) = s_events s"
  by (simp_all add: auto_checkpoint_def Let_def)

lemma auto_checkpoint_core: "sch_core X (auto_checkpoint i s) = sch_core X s"
  by (rule sch_core_cong) simp_all

lemma drop_worker_core:
  assumes "sch_core {} s" "dict_get (s_workers s) w = Some r" "t_status (sch_task s (run_task r)) \<noteq> Running"
  shows "sch_core {} (s\<lparr>s_workers := dict_del w (s_workers s)\<rparr>)"
proof -
  have "placed (s_queue s) (dict_del w (s_workers s)) i t"
    if t: "dict_get (s_objs s) i = Some t" "placed (s_queue s) (s_workers s) i t" for i t
  proof -
    have "i \<noteq> run_task r" if "t_status t = Running" using that t(1) assms(3) by (auto simp: sch_task_def)
    then show ?thesis using t(2) assms(2) unfolding placed_def by (metis dict_get_del option.inject)
  qed
  then have "objs_ok {} (s\<lparr>s_workers := dict_del w (s_workers s)\<rparr>)"
    using assms(1) by (auto simp: sch_core_def objs_ok_def)
  then show ?thesis using assms(1) by (auto simp: sch_core_def refs_ok_def known_def)
qed

lemma finish_inv:
  assumes "sch_inv s" "dict_get (s_workers s) w = Some r" "t_status (sch_task s (run_task r)) \<noteq> Running"
  shows "sch_inv (fst (sch_finish now w s))"
proof -
  let ?i = "run_task r"
  let ?s0 = "sch_upd ?i (\<lambda>t. t\<lparr>t_finished := Some now\<rparr>) s"
  let ?s1 = "sch_save (auto_checkpoint ?i ?s0)"
  have "sch_core {} ?s0"
    by (rule sch_upd_core) (use assms(1) in \<open>auto simp: sch_inv_def sch_core_def objs_ok_def task_ok_def placed_def\<close>)
  then have "sch_core {} (auto_checkpoint ?i ?s0)" by (simp add: auto_checkpoint_core)
  from sch_save_core [OF this] have c1: "sch_core {} ?s1" "length (s_tasks ?s1) \<le> max_tasks" by blast+
  have r: "dict_get (s_workers ?s1) w = Some r" using assms(2) by simp
  have "?i \<in> known s" using assms(1,2) by (auto simp: sch_inv_def sch_core_def refs_ok_def)
  then have st: "t_status (sch_task ?s1 ?i) \<noteq> Running"
    using assms(3) by (auto simp: sch_task_def known_def)
  have "sch_core {} (?s1\<lparr>s_queue := tq_mark_done ?i (s_queue ?s1), s_workers := dict_del w (s_workers ?s1)\<rparr>)"
    using drop_worker_core [OF mark_done_core [OF c1(1), of ?i], of w r] r st by (simp add: sch_task_def)
  moreover have "fst (sch_finish now w s) = ?s1\<lparr>s_reg := reg_set_task (t_by (sch_task ?s1 ?i)) None (s_reg ?s1),
      s_queue := tq_mark_done ?i (s_queue ?s1), s_workers := dict_del w (s_workers ?s1)\<rparr>"
    using assms(2) by (simp add: sch_finish_def Let_def)
  ultimately show ?thesis using c1(2) by (simp add: sch_inv_def sch_core_defs)
qed

lemma final_upd_inv:
  assumes "sch_inv s" "\<And>t. dict_get (s_objs s) i = Some t \<Longrightarrow> task_ok t \<Longrightarrow>
    t_id (f t) = t_id t \<and> task_ok (f t) \<and> (still_waiting (t_status (f t)) \<longrightarrow> t_status (f t) = t_status t)"
  shows "sch_inv (sch_upd i f s)"
proof -
  have "sch_core {} (sch_upd i f s)"
  proof (rule sch_upd_core)
    show "sch_core {} s" using assms(1) by (simp add: sch_inv_def)
    fix t
    assume t: "dict_get (s_objs s) i = Some t" "task_ok t"
    then have "placed (s_queue s) (s_workers s) i t" using assms(1) by (auto simp: sch_inv_def sch_core_def objs_ok_def)
    with assms(2) [OF t] show "t_id (f t) = t_id t \<and> task_ok (f t) \<and> (i \<in> {} \<or> placed (s_queue s) (s_workers s) i (f t))"
      by (auto simp: placed_def still_waiting_def)
  qed
  then show ?thesis using assms(1) by (simp add: sch_inv_def)
qed

lemma inv_account: "sch_inv (fst (sch_account touch model agent tin tout s)) = sch_inv s"
  by (simp add: sch_inv_def account_core)

lemma inv_observe: "sch_inv (sch_observe m c ms n ok now s) = sch_inv s"
  by (simp add: sch_inv_def observe_core)

lemma upd_task: "i \<in> known s \<Longrightarrow> sch_task (sch_upd i f s) i = f (sch_task s i)"
  by (auto simp: sch_task_def known_def)

lemma worker_known: "sch_inv s \<Longrightarrow> dict_get (s_workers s) w = Some r \<Longrightarrow> run_task r \<in> known s"
  by (auto simp: sch_inv_def sch_core_def refs_ok_def)

lemma sch_answer_inv: "sch_inv s \<Longrightarrow> sch_inv (fst (sch_answer t1 t2 w ans s))"
proof (cases "dict_get (s_workers s) w")
  case None
  then show "sch_inv s \<Longrightarrow> ?thesis" by (simp add: sch_answer_def)
next
  case (Some r)
  assume inv: "sch_inv s"
  have i: "run_task r \<in> known s" by (rule worker_known [OF inv Some])
  show ?thesis
  proof (cases "run_stream r")
    case True
    then show ?thesis using inv Some by (simp add: sch_answer_def)
  next
    case False
    show ?thesis
    proof (cases ans)
      case (Inl err)
      let ?s = "sch_upd (run_task r) (\<lambda>t. t\<lparr>t_status := TaskFailed, t_error := Some err, t_result := None\<rparr>) s"
      have "sch_inv ?s" by (rule final_upd_inv [OF inv]) (simp add: task_ok_def still_waiting_def)
      then have "sch_inv (fst (sch_finish t2 w ?s))"
        by (rule finish_inv [where r = r]) (use Some i in \<open>simp_all add: upd_task\<close>)
      then show ?thesis using Some False Inl by (simp add: sch_answer_def Let_def)
    next
      case (Inr a)
      let ?t = "sch_task s (run_task r)" and ?res = "answer_result (run_model r) a"
      let ?s1 = "sch_upd (run_task r) (\<lambda>t. t\<lparr>t_result := Some ?res, t_status := TaskDone\<rparr>) s"
      let ?s2 = "if truthy_num (tr_ms ?res) then sch_observe (run_model r) (t_complexity ?t) (tr_ms ?res) (tr_out ?res) True t1 ?s1 else ?s1"
      let ?s3 = "fst (sch_account t1 (run_model r) (t_by ?t) (tr_in ?res) (tr_out ?res) ?s2)"
      have "sch_inv ?s1" by (rule final_upd_inv [OF inv]) (simp add: task_ok_def still_waiting_def)
      then have "sch_inv ?s3" by (simp add: inv_account inv_observe)
      moreover have "dict_get (s_workers ?s3) w = Some r" using Some by simp
      moreover have "t_status (sch_task ?s3 (run_task r)) \<noteq> Running"
        using i upd_task [OF i] by (auto simp: sch_task_def known_def)
      ultimately have "sch_inv (fst (sch_finish t2 w ?s3))" by (rule finish_inv)
      then show ?thesis using Some False Inr by (simp add: sch_answer_def Let_def split_beta)
    qed
  qed
qed

lemma stream_chunk_inv: "sch_inv s \<Longrightarrow> dict_get (s_workers s) w = Some r \<Longrightarrow> sch_inv (fst (stream_chunk now w r chunk s))"
proof (cases "chunk = []")
  case False
  assume inv: "sch_inv s" and r: "dict_get (s_workers s) w = Some r"
  let ?s1 = "sch_upd (run_task r) (\<lambda>t. t\<lparr>t_partial := t_partial t @ chunk\<rparr>) s"
  have inv1: "sch_inv ?s1" by (rule final_upd_inv [OF inv]) (simp add: task_ok_def)
  have "sch_core {} (?s1\<lparr>s_workers := dict_set w r' (s_workers ?s1)\<rparr>)" if "run_task r' = run_task r" for r'
    by (rule worker_core) (use inv1 inv r that worker_known [OF inv r] in
        \<open>auto simp: sch_inv_def known_def sch_core_def refs_ok_def\<close>)
  then show ?thesis using False inv1 by (simp add: stream_chunk_def Let_def sch_inv_def)
qed (simp add: stream_chunk_def)

lemma stream_chunk_worker:
  "dict_get (s_workers s) w = Some r \<Longrightarrow>
    \<exists>r'. dict_get (s_workers (fst (stream_chunk now w r chunk s))) w = Some r' \<and> run_task r' = run_task r"
  by (simp add: stream_chunk_def Let_def)

lemma over_inv:
  assumes "sch_inv s" "dict_get (s_workers s) w = Some r" "run_task r' = run_task r"
  shows "sch_inv (s\<lparr>s_workers := dict_set w r' (s_workers s)\<rparr>)"
proof -
  have "sch_core {} (s\<lparr>s_workers := dict_set w r' (s_workers s)\<rparr>)"
    by (rule worker_core) (use assms worker_known [OF assms(1,2)] in \<open>auto simp: sch_inv_def sch_core_def refs_ok_def\<close>)
  then show ?thesis using assms(1) by (simp add: sch_inv_def)
qed

lemma over_upd_inv: "sch_inv s \<Longrightarrow> sch_inv (s\<lparr>s_workers := dict_upd w (\<lambda>r. r\<lparr>run_over := True\<rparr>) (s_workers s)\<rparr>)"
proof -
  assume inv: "sch_inv s"
  have "placed (s_queue s) (dict_upd w (\<lambda>r. r\<lparr>run_over := True\<rparr>) (s_workers s)) i t"
    if "placed (s_queue s) (s_workers s) i t" for i t
  proof -
    have "\<exists>w' r'. dict_get (dict_upd w (\<lambda>r. r\<lparr>run_over := True\<rparr>) (s_workers s)) w' = Some r' \<and> run_task r' = i"
      if "dict_get (s_workers s) w1 = Some r1" "run_task r1 = i" for w1 r1
      using that by (intro exI [of _ w1] exI [of _ "if w1 = w then r1\<lparr>run_over := True\<rparr> else r1"]) auto
    then show ?thesis using that unfolding placed_def by blast
  qed
  then have "objs_ok {} (s\<lparr>s_workers := dict_upd w (\<lambda>r. r\<lparr>run_over := True\<rparr>) (s_workers s)\<rparr>)"
    using inv by (auto simp: sch_inv_def sch_core_def objs_ok_def)
  then show ?thesis using inv by (auto simp: sch_inv_def sch_core_def refs_ok_def known_def split: if_splits)
qed

lemma sch_line_inv: "sch_inv s \<Longrightarrow> sch_inv (fst (sch_line now touch w line s))"
proof (cases "dict_get (s_workers s) w")
  case None
  then show "sch_inv s \<Longrightarrow> ?thesis" by (simp add: sch_line_def)
next
  case (Some r)
  assume inv: "sch_inv s"
  show ?thesis
  proof (cases "\<not> run_stream r \<or> run_over r \<or> t_cancelled (sch_task s (run_task r)) \<or> line = None")
    case True
    then show ?thesis using inv Some over_inv [OF inv Some, of "r\<lparr>run_over := True\<rparr>"]
      by (auto simp: sch_line_def)
  next
    case False
    then obtain d where d: "line = Some d" and go: "run_stream r" "\<not> run_over r" "\<not> t_cancelled (sch_task s (run_task r))" by auto
    let ?s1 = "fst (stream_chunk now w r (sd_chunk d) s)"
    let ?n = "if sd_chunk d = [] then run_tokens r else run_tokens r + 1"
    let ?t = "sch_task ?s1 (run_task r)"
    let ?res = "stream_result (run_model r) ?n (t_partial ?t) d"
    let ?s2 = "sch_upd (run_task r) (\<lambda>t. t\<lparr>t_result := Some ?res, t_status := (if t_cancelled t then Cancelled else TaskDone)\<rparr>) ?s1"
    let ?s3 = "fst (sch_account touch (run_model r) (t_by ?t) (tr_in ?res) (tr_out ?res) ?s2)"
    have i1: "sch_inv ?s1" by (rule stream_chunk_inv [OF inv Some])
    have "sch_inv ?s2" by (rule final_upd_inv [OF i1]) (auto simp: task_ok_def still_waiting_def)
    then have "sch_inv (?s3\<lparr>s_workers := dict_upd w (\<lambda>r. r\<lparr>run_over := True\<rparr>) (s_workers ?s3)\<rparr>)"
      by (intro over_upd_inv) (simp only: inv_account)
    then show ?thesis using Some go d i1 by (simp add: sch_line_def Let_def split_beta)
  qed
qed

lemma sch_stream_end_inv: "sch_inv s \<Longrightarrow> sch_inv (fst (sch_stream_end t1 t2 w exn s))"
proof (cases "\<exists>r. dict_get (s_workers s) w = Some r \<and> run_stream r")
  case False
  then show "sch_inv s \<Longrightarrow> ?thesis" by (auto simp: sch_stream_end_def split: option.splits)
next
  case True
  assume inv: "sch_inv s"
  from True obtain r where r: "dict_get (s_workers s) w = Some r" "run_stream r" by blast
  have i: "run_task r \<in> known s" by (rule worker_known [OF inv r(1)])
  let ?t = "sch_task s (run_task r)"
  define elapsed where "elapsed = (if truthy_num (t_started ?t) then Some ((t1 - the (t_started ?t)) * 1000) else None)"
  define s1 where "s1 = (case (if run_over r then None else exn) of
      Some err \<Rightarrow>
        let s' = sch_upd (run_task r) (\<lambda>t. t\<lparr>t_status := TaskFailed, t_error := Some err, t_result := None\<rparr>) s
        in if truthy_num (t_started ?t) then sch_observe (run_model r) (t_complexity ?t) elapsed 0 False t1 s' else s'
    | None \<Rightarrow>
        if t_status ?t = Running
        then sch_upd (run_task r) (\<lambda>t. t\<lparr>t_result := Some \<lparr>tr_response = t_partial t, tr_model = run_model r,
                 tr_in = 0, tr_out = int (run_tokens r), tr_ms = None\<rparr>,
               t_status := (if t_cancelled t then Cancelled else TaskDone)\<rparr>) s
        else s)"
  define s2 where "s2 = (case t_result (sch_task s1 (run_task r)) of
      None \<Rightarrow> s1
    | Some res \<Rightarrow>
        if t_status (sch_task s1 (run_task r)) = TaskDone
        then let ms = (if truthy_num (tr_ms res) then tr_ms res else elapsed)
             in if truthy_num ms then sch_observe (run_model r) (t_complexity (sch_task s1 (run_task r))) ms (tr_out res) True t1 s1 else s1
        else s1)"
  have eq: "sch_stream_end t1 t2 w exn s = sch_finish t2 w s2"
    by (simp only: sch_stream_end_def r Let_def option.case not_True_eq_False if_False s2_def s1_def elapsed_def)
  have "sch_inv s1 \<and> t_status (sch_task s1 (run_task r)) \<noteq> Running \<and> dict_get (s_workers s1) w = Some r"
  proof (cases "if run_over r then None else exn")
    case None
    show ?thesis
    proof (cases "t_status ?t = Running")
      case True
      let ?f = "\<lambda>t. t\<lparr>t_result := Some \<lparr>tr_response = t_partial t, tr_model = run_model r,
          tr_in = 0, tr_out = int (run_tokens r), tr_ms = None\<rparr>, t_status := (if t_cancelled t then Cancelled else TaskDone)\<rparr>"
      have "sch_inv (sch_upd (run_task r) ?f s)"
        by (rule final_upd_inv [OF inv]) (auto simp: task_ok_def still_waiting_def)
      moreover have "s1 = sch_upd (run_task r) ?f s" by (simp add: s1_def None True)
      ultimately show ?thesis using r i by (simp add: upd_task)
    next
      case False
      then show ?thesis using inv r by (simp add: s1_def None)
    qed
  next
    case (Some err)
    let ?s' = "sch_upd (run_task r) (\<lambda>t. t\<lparr>t_status := TaskFailed, t_error := Some err, t_result := None\<rparr>) s"
    have "sch_inv ?s'" by (rule final_upd_inv [OF inv]) (simp add: task_ok_def still_waiting_def)
    moreover have "s_objs s1 = s_objs ?s'" "s_workers s1 = s_workers s" "sch_inv s1 = sch_inv ?s'"
      by (simp_all add: s1_def Some Let_def inv_observe)
    ultimately show ?thesis using r i upd_task [OF i] by (auto simp: sch_task_def known_def)
  qed
  moreover have "sch_inv s2 = sch_inv s1" "s_objs s2 = s_objs s1" "s_workers s2 = s_workers s1"
    by (simp_all add: s2_def Let_def inv_observe split: option.splits)
  ultimately have "sch_inv s2" "dict_get (s_workers s2) w = Some r" "t_status (sch_task s2 (run_task r)) \<noteq> Running"
    by (simp_all add: sch_task_def)
  then show ?thesis unfolding eq by (rule finish_inv)
qed

lemma sch_cancel_inv: "sch_inv s \<Longrightarrow> sch_inv (fst (sch_cancel now i s))"
proof -
  assume inv: "sch_inv s"
  let ?a = "sch_upd i (\<lambda>t. t\<lparr>t_status := Cancelled, t_finished := Some now, t_cancelled := True\<rparr>) s"
  let ?b = "sch_upd i (\<lambda>t. t\<lparr>t_cancelled := True\<rparr>) s"
  have "sch_inv ?a" by (rule final_upd_inv [OF inv]) (simp add: task_ok_def still_waiting_def)
  then have a: "sch_inv (sch_save ?a)" using sch_save_core [of "{}" ?a] by (simp add: sch_inv_def)
  have b: "sch_inv ?b" by (rule final_upd_inv [OF inv]) (simp add: task_ok_def)
  from inv a b show ?thesis by (simp add: sch_cancel_def Let_def)
qed

lemma sch_inv_reg: "sch_inv (s\<lparr>s_reg := r\<rparr>) = sch_inv s"
  by (simp add: sch_inv_def sch_core_defs)

lemma sch_spawn_state:
  "(\<exists>r. fst (sch_spawn kg cid i t1 t2 q s) = s\<lparr>s_reg := r\<rparr>) \<or>
   (\<exists>sub r. fst (sch_spawn kg cid i t1 t2 q s) = fst (sch_submit i t2 sub (s\<lparr>s_reg := r\<rparr>)))"
proof (cases "dict_get (r_agents (s_reg s)) (sp_parent q)")
  case None
  then have "fst (sch_spawn kg cid i t1 t2 q s) = s\<lparr>s_reg := s_reg s\<rparr>" by (simp add: sch_spawn_def)
  then show ?thesis by blast
next
  case (Some p)
  show ?thesis
  proof (cases "has_cap p ''spawn''")
    case False
    with Some have "fst (sch_spawn kg cid i t1 t2 q s) = s\<lparr>s_reg := s_reg s\<rparr>" by (simp add: sch_spawn_def)
    then show ?thesis by blast
  next
    case True
    obtain r e1 res where reg: "reg_register kg cid t1
        \<lparr>q_name = sp_name q, q_role = sp_role q, q_caps = sp_caps q, q_budget = [],
         q_parent = Some (sp_parent q), q_metadata = [], q_policies = [],
         q_group = Some (sp_parent q), q_parent_task = sp_parent_task q\<rparr> (s_reg s) = (r, e1, res)"
      by (metis surj_pair)
    show ?thesis
    proof (cases res)
      case (Inl e)
      then have "fst (sch_spawn kg cid i t1 t2 q s) = s\<lparr>s_reg := r\<rparr>"
        using Some True reg by (cases e) (simp_all add: sch_spawn_def)
      then show ?thesis by blast
    next
      case (Inr p)
      obtain child token where p: "p = (child, token)" by (cases p)
      have "fst (sch_spawn kg cid i t1 t2 q s) = fst (sch_submit i t2
          \<lparr>sub_description = sp_task q, sub_by = a_id child, sub_complexity = sp_complexity q,
           sub_context = [], sub_priority = sp_priority q, sub_depends = [],
           sub_parent = sp_parent_task q, sub_stream = False\<rparr> (s\<lparr>s_reg := reg_set_task (a_id child) (Some (sp_task q)) r\<rparr>))"
        using Some True reg Inr p by (simp add: sch_spawn_def Let_def split_beta)
      then show ?thesis by blast
    qed
  qed
qed

lemma sch_spawn_inv:
  assumes "sch_inv s" "i \<notin> known s"
  shows "sch_inv (fst (sch_spawn kg cid i t1 t2 q s))"
proof -
  have "sch_inv (s\<lparr>s_reg := r\<rparr>)" "i \<notin> known (s\<lparr>s_reg := r\<rparr>)" for r
    using assms by (simp_all add: sch_inv_reg known_def)
  then show ?thesis
    using sch_spawn_state [of kg cid i t1 t2 q s] sch_submit_inv by metis
qed
lemma sch_spawn_end_inv: "sch_inv s \<Longrightarrow> sch_inv (fst (sch_spawn_end stamp cid i s))"
  by (auto simp: sch_spawn_end_def sch_inv_reg split: sum.splits)

lemma load_task_ok: "task_ok t \<Longrightarrow> task_ok (load_task now t)"
  by (auto simp: task_ok_def load_task_def)

lemma load_task_final: "\<not> still_waiting (t_status (load_task now t))"
  by (auto simp: load_task_def still_waiting_def)

lemma dict_build_in: "dict_get (dict_build k v xs) i = Some y \<Longrightarrow> \<exists>x \<in> set xs. k x = i \<and> v x = y"
proof (induction xs rule: rev_induct)
  case (snoc x xs)
  then show ?case by (auto simp: dict_build_def split: if_splits)
qed (simp add: dict_build_def)

lemma dict_build_length: "length (dict_build k v xs) \<le> length xs"
proof (induction xs rule: rev_induct)
  case (snoc x xs)
  have "length (dict_set (k x) (v x) d) \<le> length d + 1" for d
    by (induction d) auto
  from this [of "dict_build k v xs"] snoc show ?case by (simp add: dict_build_def)
qed (simp add: dict_build_def)

lemma sch_init_inv: "disk_ok disk \<Longrightarrow> sch_inv (sch_init now disk r)"
proof -
  assume disk: "disk_ok disk"
  let ?o = "case disk of None \<Rightarrow> [] | Some d \<Rightarrow> dict_build t_id (load_task now) (vals d)"
  have get: "t_id t = i \<and> task_ok t \<and> \<not> still_waiting (t_status t)" if "dict_get ?o i = Some t" for i t
    using that disk dict_build_in [of t_id "load_task now"] load_task_ok load_task_final
    by (fastforce simp: disk_ok_def list_all_iff load_task_def split: option.splits)
  have wf: "wf_dict ?o" by (simp split: option.split)
  have "length ?o \<le> max_tasks"
  proof (cases disk)
    case (Some d)
    then show ?thesis using disk dict_build_length [of t_id "load_task now" "vals d"] by (simp add: disk_ok_def)
  qed simp
  moreover have "objs_ok {} (sch_init now disk r)"
    using get by (auto simp: objs_ok_def sch_init_def Let_def intro!: final_placed)
  moreover have "known (sch_init now disk r) = set (keys ?o)"
    by (auto simp: known_def sch_init_def Let_def dict_get_None simp del: set_map)
  then have "refs_ok (sch_init now disk r)"
    using wf by (auto simp: refs_ok_def sch_init_def Let_def tq_wf_def tq_empty_def heap_ids_def wf_dict_def)
  ultimately show ?thesis using disk by (simp add: sch_inv_def sch_core_def sch_init_def Let_def)
qed

lemma sch_inv_wire:
  "sch_inv (sch_set_event_bus s) = sch_inv s" "sch_inv (sch_set_model_manager m s) = sch_inv s"
  "sch_inv (sch_set_adaptive_router rt s) = sch_inv s" "sch_inv (sch_set_checkpoint_manager s) = sch_inv s"
  by (simp_all add: sch_inv_def sch_core_defs sch_set_event_bus_def sch_set_model_manager_def
      sch_set_adaptive_router_def sch_set_checkpoint_manager_def)

lemma sch_reach_inv: "sch_reach dm kg s \<Longrightarrow> sch_inv s"
proof (induction rule: sch_reach.induct)
  case (Start now r)
  show ?case by (rule sch_init_inv) (simp add: disk_ok_def)
next
  case (Restart s now r)
  then show ?case by (intro sch_init_inv) (simp add: sch_inv_def sch_core_def)
next
  case (Submit s i now sub)
  then show ?case by (intro sch_submit_inv) (simp_all add: known_def)
next
  case (Spawn s i cid t1 t2 q)
  then show ?case by (intro sch_spawn_inv) (simp_all add: known_def)
qed (simp_all add: sch_inv_wire sch_inv_reg sch_take_inv sch_answer_inv sch_line_inv sch_stream_end_inv
    sch_cancel_inv sch_spawn_end_inv)

end
