(* ===== verification/Scheduler_Behaviour.thy ===== *)
theory Scheduler_Behaviour imports Scheduler begin

text \<open>
  What the scheduler does, over the definitions of Scheduler: the consequences of its invariant for
  every reachable state, the effect of single operations, and runs on a small registry that show where
  it differs from what its comments say.
\<close>

section \<open>A reachable example\<close>

definition small_agent :: agent where
  "small_agent = \<lparr>a_id = ''w'', a_name = ''w'', a_role = ''worker'', a_caps = [''ollama''], a_token_hash = ''h'',
     a_workspace = ''/w'', a_status = Active, a_budget = [], a_usage = zero_usage, a_created_at = 0,
     a_parent = None, a_depth = 1, a_task = None, a_metadata = [], a_locks = [], a_policies = [],
     a_group = None, a_tombstone = None, a_parent_task = None\<rparr>"

definition small_registry :: registry where
  "small_registry = \<lparr>r_agents = [(''w'', small_agent)], r_index = [], r_master = ''m'', r_root_dir = ''/'',
     r_events = False, r_warned = [], r_exhausted = [], r_disk = None, r_tombs = []\<rparr>"

definition small_submission :: "int \<Rightarrow> submission" where
  "small_submission p = \<lparr>sub_description = ''d'', sub_by = ''w'', sub_complexity = 2, sub_context = [],
     sub_priority = p, sub_depends = [], sub_parent = None, sub_stream = False\<rparr>"

definition small_env :: start_env where
  "small_env = \<lparr>en_standards = None, en_refresh = 5, en_touch = 5, en_ps = None, en_now = 5, en_stream = 5\<rparr>"

definition small_answer :: chat_answer where
  "small_answer = \<lparr>ca_response = Some ''r'', ca_model = None, ca_tokens_prompt = Some 10, ca_tokens_in = None,
     ca_tokens_response = Some 7, ca_tokens_out = None, ca_total_ms = None, ca_ms = None\<rparr>"

definition ex_start :: sched where
  "ex_start = sch_init 0 None small_registry"

definition ex_submit :: "string \<Rightarrow> int \<Rightarrow> sched \<Rightarrow> sched" where
  "ex_submit i p s = fst (sch_submit i 1 (small_submission p) s)"

definition ex_take :: "nat \<Rightarrow> sched \<Rightarrow> sched" where
  "ex_take w s = fst (sch_take ''m'' small_env w s)"

definition ex_answer :: "nat \<Rightarrow> sched \<Rightarrow> sched" where
  "ex_answer w s = fst (sch_answer 6 7 w (Inr small_answer) s)"

text \<open>One task is executed by the first worker, one waits.\<close>

definition ex_busy :: sched where
  "ex_busy = ex_take 0 (ex_submit ''b'' 1 (ex_submit ''a'' 1 ex_start))"

lemmas ex_defs = ex_start_def ex_submit_def ex_take_def ex_answer_def small_agent_def small_registry_def
  small_submission_def small_env_def small_answer_def

lemmas sch_eval = sch_init_def sch_submit_def new_task_def sch_save_def sch_evicted_def sch_task_def
  sch_upd_def sch_take_def sch_begin_def sch_route_def sch_answer_def sch_finish_def sch_account_def sch_observe_def
  auto_checkpoint_def sch_preempt_def tq_empty_def tq_put_def tq_get_def tq_mark_done_def add_key_def
  tq_checkpoint_oldest_def running_background_def map_filter_def tq_running_count_def task_age_def
  max_tasks_def num_workers_def answer_result_def or_zero_def or_num_def dict_get_or_def
  reg_check_model_policy_def reg_update_usage_def reg_set_task_def reg_save_def add_usage_def zero_usage_def
  dict_upd_def Let_def complexity_routing_def role_model_def task_messages_def

lemma ex_busy_reach: "sch_reach ''m'' kg ex_busy"
proof -
  have start: "sch_reach ''m'' kg ex_start" unfolding ex_start_def by (rule sch_reach.Start)
  have a: "sch_reach ''m'' kg (ex_submit ''a'' 1 ex_start)"
    unfolding ex_submit_def by (rule sch_reach.Submit [OF start]) (simp add: ex_start_def sch_init_def)
  have b: "sch_reach ''m'' kg (ex_submit ''b'' 1 (ex_submit ''a'' 1 ex_start))"
    unfolding ex_submit_def [of "''b''"] by (rule sch_reach.Submit [OF a]) (simp add: ex_defs sch_eval)
  show ?thesis
    unfolding ex_busy_def ex_take_def by (rule sch_reach.Take [OF b]) (simp_all add: ex_defs sch_eval)
qed

section \<open>Consequences of the invariant\<close>

lemma reach_objs:
  assumes "sch_reach dm kg s" "(i, t) \<in> set (s_objs s)"
  shows "t_id t = i \<and> task_ok t \<and> placed (s_queue s) (s_workers s) i t"
proof -
  have "sch_core {} s" using sch_reach_inv [OF assms(1)] by (simp add: sch_inv_def)
  moreover from this have "dict_get (s_objs s) i = Some t"
    using assms(2) by (simp add: sch_core_def refs_ok_def in_dict_get)
  ultimately show ?thesis by (auto simp: sch_core_def objs_ok_def)
qed



text \<open>
  C40: every task of every reachable state is well typed: stored under its id, complexity 1 to 5,
  priority 0 to 2; a finished one has a result, a failed one an error, a running one a model and a start
  time, and only a task marked so is cancelled.
\<close>

theorem sch_tasks_typed:
  assumes "sch_reach dm kg s"
  shows "list_all (\<lambda>(i, t). t_id t = i \<and> t_complexity t \<in> {1..5} \<and> t_priority t \<in> {0..2} \<and>
    (case t_status t of
       TaskDone \<Rightarrow> t_result t \<noteq> None | TaskFailed \<Rightarrow> t_error t \<noteq> None
     | Running \<Rightarrow> t_started t \<noteq> None \<and> t_assigned t \<noteq> None | Cancelled \<Rightarrow> t_cancelled t
     | Queued \<Rightarrow> True | Checkpointed \<Rightarrow> True)) (s_objs s)"
  unfolding list_all_iff using reach_objs [OF assms]
  by (auto simp: task_ok_def split: task_status.split)

lemma sch_tasks_typed_witness:
  "list_all (\<lambda>(i, t). t_id t = i \<and> t_complexity t \<in> {1..5} \<and> t_priority t \<in> {0..2} \<and>
    (case t_status t of
       TaskDone \<Rightarrow> t_result t \<noteq> None | TaskFailed \<Rightarrow> t_error t \<noteq> None
     | Running \<Rightarrow> t_started t \<noteq> None \<and> t_assigned t \<noteq> None | Cancelled \<Rightarrow> t_cancelled t
     | Queued \<Rightarrow> True | Checkpointed \<Rightarrow> True)) (s_objs ex_busy)"
  by (rule sch_tasks_typed [OF ex_busy_reach])

text \<open>
  the task table and the task file hold at most 500 tasks in every reachable state.
\<close>

theorem sch_task_file_bounded:
  assumes "sch_reach dm kg s"
  shows "length (s_tasks s) \<le> max_tasks \<and> (case s_disk s of None \<Rightarrow> True | Some d \<Rightarrow> length d \<le> max_tasks)"
  using sch_reach_inv [OF assms] by (auto simp: sch_inv_def sch_core_def disk_ok_def split: option.splits)

lemma sch_task_file_bounded_witness:
  "length (s_tasks ex_busy) \<le> 500 \<and> (case s_disk ex_busy of None \<Rightarrow> True | Some d \<Rightarrow> length d \<le> 500)"
  using sch_task_file_bounded [OF ex_busy_reach] unfolding max_tasks_def .

text \<open>
  after a restart nothing waits and nothing runs: every task of the table is one of the file,
  unchanged when it had ended and failed with \<open>server_restart\<close> otherwise, and the queue is empty.
\<close>

theorem sch_restart_fails_unfinished:
  "let s = sch_init now (Some d) r in
   q_heap (s_queue s) = [] \<and>
   list_all (\<lambda>(i, t). \<not> still_waiting (t_status t) \<and>
     list_ex (\<lambda>(i0, t0). t_id t0 = i \<and>
       t = (if still_waiting (t_status t0)
            then t0\<lparr>t_status := TaskFailed, t_error := Some ''server_restart'', t_finished := Some now\<rparr> else t0)) d)
     (s_objs s)"
proof -
  have "\<not> still_waiting (t_status t) \<and> (\<exists>i0 t0. (i0, t0) \<in> set d \<and> t_id t0 = i \<and>
       t = (if still_waiting (t_status t0)
            then t0\<lparr>t_status := TaskFailed, t_error := Some ''server_restart'', t_finished := Some now\<rparr> else t0))"
    if "(i, t) \<in> set (dict_build t_id (load_task now) (vals d))" for i t
  proof -
    have "dict_get (dict_build t_id (load_task now) (vals d)) i = Some t" using that by (intro in_dict_get) auto
    from dict_build_in [OF this] obtain i0 t0 where t0: "(i0, t0) \<in> set d" "t_id t0 = i" "load_task now t0 = t" by auto
    then show ?thesis using load_task_final [of now t0]
      by (intro conjI exI [of _ i0] exI [of _ t0]) (auto simp: load_task_def still_waiting_def)
  qed
  then show ?thesis
    by (auto simp: Let_def sch_init_def tq_empty_def list_all_iff list_ex_iff) (fastforce split: if_splits)+
qed

section \<open>Single operations\<close>

text \<open>
  a plain answer is accounted once: in every reachable state, a worker whose request is answered ends
  its task as done with that answer, adds exactly the answer's tokens to the submitter's usage, clears
  the submitter's current task, becomes idle, and sends the result to the submitter as its last act.
\<close>

theorem sch_answer_accounts:
  assumes "sch_reach dm kg s"
  shows "case dict_get (s_workers s) w of
      None \<Rightarrow> sch_answer t1 t2 w (Inr a) s = (s, [])
    | Some r \<Rightarrow> if run_stream r then sch_answer t1 t2 w (Inr a) s = (s, [])
      else
        let (s', effs) = sch_answer t1 t2 w (Inr a) s; t = sch_task s (run_task r);
            res = answer_result (run_model r) a;
            t' = t\<lparr>t_result := Some res, t_status := TaskDone, t_finished := Some t2\<rparr>
        in dict_get (s_objs s') (run_task r) = Some t' \<and> dict_get (s_workers s') w = None \<and>
           s_reg s' = reg_set_task (t_by t) None (fst (reg_update_usage (t_by t) 0 (tr_in res) (tr_out res) (s_reg s))) \<and>
           effs \<noteq> [] \<and> last effs = result_message t'"
proof (cases "dict_get (s_workers s) w")
  case None
  then show ?thesis by (simp add: sch_answer_def)
next
  case (Some r)
  have i: "run_task r \<in> known s" by (rule worker_known [OF sch_reach_inv [OF assms] Some])
  then have t: "dict_get (s_objs s) (run_task r) = Some (sch_task s (run_task r))" by (rule known_get)
  show ?thesis
  proof (cases "run_stream r")
    case True
    then show ?thesis using Some by (simp add: sch_answer_def)
  next
    case False
    let ?res = "answer_result (run_model r) a"
    let ?t' = "(sch_task s (run_task r))\<lparr>t_result := Some ?res, t_status := TaskDone\<rparr>"
    let ?s3 = "fst (sch_account t1 (run_model r) (t_by (sch_task s (run_task r))) (tr_in ?res) (tr_out ?res)
      (let s1 = sch_upd (run_task r) (\<lambda>t. t\<lparr>t_result := Some ?res, t_status := TaskDone\<rparr>) s
       in if truthy_num (tr_ms ?res) then sch_observe (run_model r) (t_complexity (sch_task s (run_task r))) (tr_ms ?res)
            (tr_out ?res) True t1 s1 else s1))"
    have s3: "dict_get (s_workers ?s3) w = Some r" "dict_get (s_objs ?s3) (run_task r) = Some ?t'"
      "s_reg ?s3 = fst (reg_update_usage (t_by (sch_task s (run_task r))) 0 (tr_in ?res) (tr_out ?res) (s_reg s))"
      using Some t by (simp_all add: Let_def sch_account_def sch_observe_def split_beta)
    have ans: "fst (sch_answer t1 t2 w (Inr a) s) = fst (sch_finish t2 w ?s3)"
      "\<exists>e. snd (sch_answer t1 t2 w (Inr a) s) = e @ snd (sch_finish t2 w ?s3)"
      using Some False by (simp_all add: sch_answer_def Let_def split_beta)
    have fin: "dict_get (s_objs (fst (sch_finish t2 w ?s3))) (run_task r) = Some (?t'\<lparr>t_finished := Some t2\<rparr>)"
      "dict_get (s_workers (fst (sch_finish t2 w ?s3))) w = None"
      "s_reg (fst (sch_finish t2 w ?s3)) = reg_set_task (t_by (sch_task s (run_task r))) None (s_reg ?s3)"
      "\<exists>e. snd (sch_finish t2 w ?s3) = e @ [result_message (?t'\<lparr>t_finished := Some t2\<rparr>)]"
      using s3(1,2) unfolding sch_finish_def s3(1) option.case Let_def
      by (simp_all add: sch_task_def del: account_fields)
    show ?thesis
      using fin ans s3(3) False by (auto simp: Some Let_def split_beta)
  qed
qed

lemma sch_answer_accounts_witness:
  "let s' = ex_answer 0 ex_busy in
   t_status (sch_task s' ''a'') = TaskDone \<and> dict_get (s_workers s') 0 = None \<and>
   map_option (\<lambda>a. dict_get (a_usage a) ''tokens_out'') (dict_get (r_agents (s_reg s')) ''w'') = Some (Some 7)"
proof -
  have w: "dict_get (s_workers ex_busy) 0 = Some \<lparr>run_task = ''a'', run_model = ''m'', run_role = ''general'',
      run_messages = [chat_message ''user'' ''d''], run_stream = False, run_tokens = 0, run_last = 5, run_over = False\<rparr>"
    and u: "r_agents (s_reg ex_busy) = [(''w'', small_agent)]" "t_by (sch_task ex_busy ''a'') = ''w''"
    by (simp_all add: ex_busy_def ex_defs sch_eval)
  from sch_answer_accounts [OF ex_busy_reach, where w = 0 and ?t1.0 = 6 and ?t2.0 = 7 and a = small_answer, unfolded w]
  show ?thesis
    by (auto simp: Let_def split_beta ex_answer_def sch_task_def reg_set_task_def reg_update_usage_def reg_save_def
        add_usage_def small_agent_def zero_usage_def dict_get_or_def answer_result_def small_answer_def or_zero_def
        u [unfolded sch_task_def])
qed

text \<open>
  sub-agents: without the spawn capability nothing changes and an error is returned; otherwise the
  call is refused at the depth bound, or the child is registered one level below the parent, in the
  parent's group, with no capability its role does not give, and the task is submitted in its name.
\<close>

theorem sch_spawn_confined:
  "case dict_get (r_agents (s_reg s)) (sp_parent q) of
     None \<Rightarrow> sch_spawn kg cid i t1 t2 q s = (s, [], Inl ''parent agent lacks spawn capability'')
   | Some p \<Rightarrow>
       if \<not> has_cap p ''spawn''
       then sch_spawn kg cid i t1 t2 q s = (s, [], Inl ''parent agent lacks spawn capability'')
       else if sp_parent q = '''' then True
       else
         (case snd (snd (sch_spawn kg cid i t1 t2 q s)) of
            Inl msg \<Rightarrow> a_depth p = max_spawn_depth \<or> max_spawn_depth < a_depth p
          | Inr (child, t) \<Rightarrow>
              a_id child = cid \<and> a_parent child = Some (sp_parent q) \<and> a_group child = Some (sp_parent q) \<and>
              a_depth child = a_depth p + 1 \<and> a_depth child \<le> max_spawn_depth \<and>
              set (a_caps child) \<subseteq> set (dict_get_or [] role_defaults (a_role child)) \<and>
              t_by t = cid \<and> t_status t = Queued)"
proof (cases "dict_get (r_agents (s_reg s)) (sp_parent q)")
  case None
  then show ?thesis by (simp add: sch_spawn_def)
next
  case (Some p)
  show ?thesis
  proof (cases "has_cap p ''spawn'' \<and> sp_parent q \<noteq> ''''")
    case False
    then show ?thesis using Some by (auto simp: sch_spawn_def)
  next
    case True
    then have parent: "reg_parent (s_reg s) (Some (sp_parent q)) = Some p" using Some by (simp add: reg_parent_def)
    show ?thesis
    proof (cases "max_spawn_depth < a_depth p + 1")
      case deep: True
      then show ?thesis using Some True parent
        by (simp add: sch_spawn_def reg_register_def Let_def max_spawn_depth_def) linarith?
    next
      case False
      then show ?thesis using Some True parent
        by (auto simp: sch_spawn_def reg_register_def Let_def split_beta sch_submit_def new_task_def)
    qed
  qed
qed

section \<open>Runs that differ from the comments\<close>

text \<open>
  a cancelled task still runs: a task cancelled while it waits stays in the heap, a worker takes it
  and executes it to the end, and its status changes from cancelled to done.
\<close>

theorem sch_cancelled_still_runs:
  "let s1 = ex_submit ''a'' 1 ex_start; (s2, answer) = sch_cancel 2 ''a'' s1; s3 = ex_take 0 s2; s4 = ex_answer 0 s3 in
   answer = CancelDone \<and> t_status (sch_task s2 ''a'') = Cancelled \<and>
   t_status (sch_task s3 ''a'') = Running \<and> t_status (sch_task s4 ''a'') = TaskDone"
  by (simp add: ex_defs sch_eval sch_cancel_def)

definition ex_preempted :: sched where
  "ex_preempted = ex_submit ''u'' 0 (ex_take 3 (ex_take 2 (ex_take 1 (ex_take 0
     (ex_submit ''d'' 2 (ex_submit ''c'' 2 (ex_submit ''b'' 2 (ex_submit ''a'' 2 ex_start))))))))"

definition used_tokens :: "sched \<Rightarrow> int option" where
  "used_tokens s = (case dict_get (r_agents (s_reg s)) ''w'' of None \<Rightarrow> None | Some a \<Rightarrow> dict_get (a_usage a) ''tokens_out'')"

text \<open>
  preemption frees no worker and runs the task twice: with four background tasks executing, an
  urgent submission marks the oldest as checkpointed while its worker stays busy; that worker completes
  it, and it is then taken from the queue and executed again, so its tokens are accounted twice.
\<close>

theorem sch_preempted_runs_twice:
  "let s = ex_preempted; s1 = ex_answer 0 s; s2 = ex_answer 0 (ex_take 0 s1); s3 = ex_take 0 s2; s4 = ex_answer 0 s3 in
   t_status (sch_task s ''a'') = Checkpointed \<and> keys (s_workers s) = [0, 1, 2, 3] \<and>
   t_status (sch_task s1 ''a'') = TaskDone \<and> used_tokens s1 = Some 7 \<and>
   t_status (sch_task s2 ''u'') = TaskDone \<and> used_tokens s2 = Some 14 \<and>
   t_status (sch_task s3 ''a'') = Running \<and>
   t_status (sch_task s4 ''a'') = TaskDone \<and> used_tokens s4 = Some 21"
  by code_simp

text \<open>
  dependencies are recorded and not waited for: a task that depends on one not yet done is taken and
  started all the same.
\<close>

theorem sch_dependencies_ignored:
  "let s1 = ex_submit ''a'' 2 ex_start;
       s2 = fst (sch_submit ''b'' 1 ((small_submission 1)\<lparr>sub_depends := [''a'']\<rparr>) s1); s3 = ex_take 0 s2 in
   t_depends (sch_task s3 ''b'') = [''a''] \<and> t_status (sch_task s3 ''a'') = Queued \<and>
   t_status (sch_task s3 ''b'') = Running"
  by code_simp

section \<open>The shell usage log\<close>

text \<open>
  the shell log counts exactly: after any commands, the count of a pattern is the number of
  non-blank commands with that pattern, and an entry keeps at most five examples.
\<close>

theorem shell_log_exact:
  "case dict_get (foldl (\<lambda>d (c, ag). log_shell_usage c ag d) [] cmds) p of
     None \<Rightarrow> list_all (\<lambda>(c, ag). \<not> (py_split (py_strip c) \<noteq> [] \<and> shell_pattern c = p)) cmds
   | Some e \<Rightarrow> sh_pattern e = p \<and> length (sh_examples e) \<le> 5 \<and> 0 < sh_count e \<and>
       sh_count e = length (filter (\<lambda>(c, ag). py_split (py_strip c) \<noteq> [] \<and> shell_pattern c = p) cmds)"
proof (induction cmds rule: rev_induct)
  case (snoc x cmds)
  obtain c ag where x: "x = (c, ag)" by (cases x)
  define d where "d = foldl (\<lambda>d (c, ag). log_shell_usage c ag d) [] cmds"
  show ?case
  proof (cases "py_split (py_strip c) = [] \<or> shell_pattern c \<noteq> p")
    case True
    then have same: "dict_get (log_shell_usage c ag d) p = dict_get d p" by (auto simp: log_shell_usage_def Let_def)
    from True snoc show ?thesis unfolding x foldl_append foldl.simps case_prod_conv d_def [symmetric] same
      by (auto split: option.splits)
  next
    case False
    then have new: "dict_get (log_shell_usage c ag d) p =
        Some ((dict_get_or \<lparr>sh_pattern = p, sh_count = 0, sh_agents = [], sh_examples = []\<rparr> d p)
          \<lparr>sh_count := sh_count (dict_get_or \<lparr>sh_pattern = p, sh_count = 0, sh_agents = [], sh_examples = []\<rparr> d p) + 1,
           sh_agents := add_key ag (sh_agents (dict_get_or \<lparr>sh_pattern = p, sh_count = 0, sh_agents = [], sh_examples = []\<rparr> d p)),
           sh_examples := (let e = dict_get_or \<lparr>sh_pattern = p, sh_count = 0, sh_agents = [], sh_examples = []\<rparr> d p
             in if length (sh_examples e) < 5 \<and> c \<notin> set (sh_examples e) then sh_examples e @ [take 200 c] else sh_examples e)\<rparr>)"
      by (auto simp: log_shell_usage_def Let_def)
    have zero: "filter (\<lambda>(c, ag). py_split (py_strip c) \<noteq> [] \<and> shell_pattern c = p) cmds = []"
      if "list_all (\<lambda>(c, ag). \<not> (py_split (py_strip c) \<noteq> [] \<and> shell_pattern c = p)) cmds"
      using that by (auto simp: filter_empty_conv list_all_iff)
    from False snoc zero show ?thesis
      unfolding x foldl_append foldl.simps case_prod_conv d_def [symmetric] new
      by (auto simp: dict_get_or_def Let_def split: option.splits)
  qed
qed simp

end
