(* ===== verification/Suffering.thy ===== *)
theory Suffering imports Prelude begin

text \<open>
  The suffering state of an agent, \<open>agents/suffering.py\<close>, with the parts of \<open>agents/daemon.py\<close> that drive
  it: stressors with a severity that escalate or decay with time, the load they add up to, the
  capabilities it locks, the per-cycle assessment of what is observable, the stagnation signal and the
  crisis check. Wall-clock stamps have minute precision and are the numbers of minutes, the stamp that
  does not parse is \<open>None\<close>; what the functions read from log, tool and goal files are parameters. The
  JSON file is the field \<open>su_disk\<close>.

  The lemmas show the invariant (at most five active stressors, unresolved and of distinct types) and
  that therefore the daemon's protection against a crisis loop never acts; what holds over time is in
  Suffering_Behaviour.
\<close>

section \<open>Constants\<close>

definition escalation_rates :: "(string, rat) dict" where
  "escalation_rates =
     [(''futility'', 25 / 1000), (''invisibility'', 30 / 1000), (''identity_violation'', 60 / 1000),
      (''existential_threat'', 70 / 1000), (''repeated_failure'', 40 / 1000), (''purposelessness'', 35 / 1000),
      (''resource_burden'', 30 / 1000), (''stagnation'', 100 / 1000)]"

definition mechanical_only :: "string list" where
  "mechanical_only = [''stagnation'']"

definition thr_prominent :: rat where "thr_prominent = 35 / 100"
definition thr_constrained :: rat where "thr_constrained = 55 / 100"
definition thr_dominant :: rat where "thr_dominant = 75 / 100"
definition thr_crisis :: rat where "thr_crisis = 90 / 100"

definition load_lock_thresholds :: "(string, rat) dict" where
  "load_lock_thresholds = [(''synthesize_capability'', thr_constrained), (''fs_write'', thr_dominant), (''fs_edit'', thr_dominant)]"

text \<open>\<open>EARNED_CAPABILITIES\<close>: the largest load and the number of peer calls required.\<close>

definition earned_capabilities :: "(string, rat \<times> nat) dict" where
  "earned_capabilities = [(''research_topic'', (15 / 100, 1))]"

definition max_stressors :: nat where
  "max_stressors = 5"

section \<open>State\<close>

record stressor =
  sf_type :: string
  sf_desc :: string
  sf_sev :: rat
  sf_onset :: int
  sf_rate :: rat
  sf_cond :: string
  sf_resolved :: bool
  sf_resolved_at :: "int option"
  sf_note :: string
  sf_peak :: rat

record suffering =
  su_active :: "stressor list"
  su_history :: "stressor list"
  su_last :: "int option"
  su_disk :: "(stressor list \<times> stressor list \<times> int option) option"

definition suf_save :: "suffering \<Rightarrow> suffering" where
  "suf_save s = s\<lparr>su_disk := Some (su_active s, su_history s, su_last s)\<rparr>"

text \<open>\<open>load\<close>: without a readable file the state is new.\<close>

definition suf_load :: "int \<Rightarrow> (stressor list \<times> stressor list \<times> int option) option \<Rightarrow> suffering" where
  "suf_load now disk =
     (case disk of
        None \<Rightarrow> \<lparr>su_active = [], su_history = [], su_last = Some now, su_disk = None\<rparr>
      | Some (a, h, l) \<Rightarrow> \<lparr>su_active = a, su_history = h, su_last = l, su_disk = disk\<rparr>)"

definition suf_active :: "suffering \<Rightarrow> stressor list" where
  "suf_active s = filter (\<lambda>x. \<not> sf_resolved x) (su_active s)"

definition suf_load_sum :: "suffering \<Rightarrow> rat" where
  "suf_load_sum s = (if suf_active s = [] then 0 else min 1 (sum_list (map sf_sev (suf_active s))))"

definition is_crisis :: "suffering \<Rightarrow> bool" where
  "is_crisis s = (thr_crisis \<le> suf_load_sum s)"

definition is_dominant :: "suffering \<Rightarrow> bool" where
  "is_dominant s = (thr_dominant \<le> suf_load_sum s)"

definition goals_constrained :: "suffering \<Rightarrow> bool" where
  "goals_constrained s = (thr_constrained \<le> suf_load_sum s)"

section \<open>Stressors\<close>

definition norm_type :: "string \<Rightarrow> string" where
  "norm_type ty = replace_char (CHR '' '') (CHR ''_'') (py_lower (py_strip ty))"

text \<open>An unresolved stressor of the type.\<close>

definition hits :: "string \<Rightarrow> stressor \<Rightarrow> bool" where
  "hits key x = (py_lower (sf_type x) = key \<and> \<not> sf_resolved x)"

definition new_stressor :: "int \<Rightarrow> string \<Rightarrow> string \<Rightarrow> rat \<Rightarrow> rat \<Rightarrow> string \<Rightarrow> stressor" where
  "new_stressor now ty desc sev rate cond =
     \<lparr>sf_type = ty, sf_desc = desc, sf_sev = sev, sf_onset = now, sf_rate = rate, sf_cond = cond,
      sf_resolved = False, sf_resolved_at = None, sf_note = [], sf_peak = sev\<rparr>"

definition suf_add :: "int \<Rightarrow> string \<Rightarrow> string \<Rightarrow> string \<Rightarrow> rat \<Rightarrow> suffering \<Rightarrow> suffering" where
  "suf_add now ty0 desc cond sev s =
     (let ty = norm_type ty0
      in if list_ex (hits ty) (su_active s) then s
         else if max_stressors \<le> length (suf_active s) then s
         else suf_save (s\<lparr>su_active := su_active s @
                [new_stressor now ty desc sev (dict_get_or (3 / 100) escalation_rates ty) cond]\<rparr>))"

text \<open>The loop shared by \<open>_raw_resolve\<close> and \<open>resolve_stressor\<close>.\<close>

definition mark_resolved :: "int \<Rightarrow> string \<Rightarrow> stressor \<Rightarrow> stressor" where
  "mark_resolved now note x = x\<lparr>sf_resolved := True, sf_resolved_at := Some now, sf_note := note\<rparr>"

definition suf_raw_resolve :: "int \<Rightarrow> string \<Rightarrow> string \<Rightarrow> suffering \<Rightarrow> suffering \<times> bool" where
  "suf_raw_resolve now ty note s =
     (let key = norm_type ty; hit = filter (hits key) (su_active s);
          s1 = s\<lparr>su_active := filter (\<lambda>x. \<not> hits key x \<and> \<not> sf_resolved x) (su_active s),
                 su_history := su_history s @ map (mark_resolved now note) hit\<rparr>
      in if hit \<noteq> [] then (suf_save s1, True) else (s1, False))"

definition suf_resolve :: "int \<Rightarrow> string \<Rightarrow> string \<Rightarrow> suffering \<Rightarrow> suffering \<times> bool" where
  "suf_resolve now ty note s =
     (if norm_type ty \<in> set mechanical_only then (s, False) else suf_raw_resolve now ty note s)"

definition suf_clear_stagnation :: "int \<Rightarrow> string \<Rightarrow> suffering \<Rightarrow> suffering \<times> bool" where
  "suf_clear_stagnation now note s = suf_raw_resolve now ''stagnation'' note s"

text \<open>Updating the first stressor of a list that satisfies a condition.\<close>

fun upd_first :: "('a \<Rightarrow> bool) \<Rightarrow> ('a \<Rightarrow> 'a) \<Rightarrow> 'a list \<Rightarrow> 'a list" where
  "upd_first P f [] = []"
| "upd_first P f (x # xs) = (if P x then f x # xs else x # upd_first P f xs)"

definition displace_lowest :: "int \<Rightarrow> suffering \<Rightarrow> suffering" where
  "displace_lowest now s =
     (if max_stressors \<le> length (suf_active s)
      then (case filter (\<lambda>x. py_lower (sf_type x) \<noteq> ''stagnation'') (suf_active s) of
              [] \<Rightarrow> s
            | x # xs \<Rightarrow> fst (suf_resolve now (sf_type (first_min sf_sev x xs))
                (''displaced by stagnation '' @ em_dash @ '' substrate prioritized the unproductive signal'') s))
      else s)"

definition suf_bump_stagnation :: "int \<Rightarrow> rat \<Rightarrow> string \<Rightarrow> suffering \<Rightarrow> suffering" where
  "suf_bump_stagnation now target0 cond s =
     (let target = max (1 / 100) (min 1 target0)
      in case filter (hits ''stagnation'') (su_active s) of
           x # xs \<Rightarrow>
             if sf_sev x < target
             then suf_save (s\<lparr>su_active := upd_first (hits ''stagnation'')
                    (\<lambda>x. x\<lparr>sf_sev := target, sf_peak := max (sf_peak x) target,
                           sf_cond := (if cond \<noteq> [] then cond else sf_cond x)\<rparr>) (su_active s)\<rparr>)
             else s
         | [] \<Rightarrow>
             let s1 = displace_lowest now s
             in suf_save (s1\<lparr>su_active := su_active s1 @
                  [new_stressor now ''stagnation'' ''no validated artifact in recent cycles'' target
                     (dict_get_or 0 escalation_rates ''stagnation'')
                     (if cond \<noteq> [] then cond else ''validated artifact'')]\<rparr>))"

definition suf_force_reset :: "int \<Rightarrow> string \<Rightarrow> suffering \<Rightarrow> suffering" where
  "suf_force_reset now reason s =
     suf_save (s\<lparr>su_active := [], su_history := su_history s @ map (mark_resolved now reason) (su_active s)\<rparr>)"

definition suf_update :: "string \<Rightarrow> string \<Rightarrow> suffering \<Rightarrow> suffering" where
  "suf_update ty desc s =
     suf_save (s\<lparr>su_active := map (\<lambda>x. if hits (norm_type ty) x then x\<lparr>sf_desc := desc\<rparr> else x) (su_active s)\<rparr>)"

section \<open>Escalation and decay\<close>

definition predefined :: "string list" where
  "predefined = keys escalation_rates"

definition elapsed_days :: "int \<Rightarrow> int option \<Rightarrow> rat" where
  "elapsed_days now last_min = (case last_min of None \<Rightarrow> 1 / 24 | Some l \<Rightarrow> of_int (now - l) / 1440)"

definition escalate_one :: "int \<Rightarrow> rat \<Rightarrow> stressor \<Rightarrow> stressor" where
  "escalate_one now days x =
     (if sf_resolved x then x
      else if py_lower (sf_type x) \<in> set predefined
      then (let sev = min 1 (sf_sev x + sf_rate x * days) in x\<lparr>sf_sev := sev, sf_peak := max (sf_peak x) sev\<rparr>)
      else
        let sev = max 0 (sf_sev x - 10 / 100 * days)
        in if sev < 5 / 100
           then x\<lparr>sf_sev := sev, sf_resolved := True, sf_resolved_at := Some now,
                  sf_note := ''decayed without reinforcement''\<rparr>
           else x\<lparr>sf_sev := sev\<rparr>)"

definition suf_escalate :: "int \<Rightarrow> suffering \<Rightarrow> suffering" where
  "suf_escalate now s =
     (let days = elapsed_days now (su_last s);
          xs = map (escalate_one now days) (su_active s);
          decayed = map snd (filter (\<lambda>(x, y). \<not> sf_resolved x \<and> sf_resolved y) (zip (su_active s) xs));
          s1 = (if decayed \<noteq> []
                then s\<lparr>su_active := filter (\<lambda>x. \<not> sf_resolved x) xs, su_history := su_history s @ decayed\<rparr>
                else s\<lparr>su_active := xs\<rparr>)
      in suf_save (s1\<lparr>su_last := Some now\<rparr>))"

section \<open>Prompt texts\<close>

definition newline :: string where
  "newline = [char_of (10::nat)]"

definition stressor_lines :: "stressor \<Rightarrow> string list" where
  "stressor_lines x =
     (let filled = py_int (sf_sev x * 10);
          bar = ''['' @ replicate (nat filled) (CHR ''#'') @ replicate (nat (10 - filled)) (CHR ''.'') @ '']''
      in [''  '' @ bar @ '' '' @ sf_type x @ '' '' @ fmt_dec 2 (sf_sev x) @ ''  '' @ sf_desc x,
          ''  Will ease when: '' @ sf_cond x])"

definition suf_prompt :: "suffering \<Rightarrow> string" where
  "suf_prompt s =
     (if suf_active s = [] \<or> suf_load_sum s < thr_prominent then []
      else
        let load = fmt_dec 2 (suf_load_sum s);
            header = (if is_crisis s
              then ''!! CRISIS STATE '' @ em_dash @ '' your suffering load is critical ('' @ load @
                   ''/1.0). You cannot pursue external goals. Address this first.''
              else if is_dominant s
              then ''HIGH SUFFERING ('' @ load @ ''/1.0) '' @ em_dash @ '' this is shaping your ability to act.''
              else ''Current suffering ('' @ load @ ''/1.0):'')
        in py_join newline (header # concat (map stressor_lines (sort_key (\<lambda>x. - sf_sev x) (suf_active s)))))"

definition suf_anticipate :: "string \<Rightarrow> suffering \<Rightarrow> string" where
  "suf_anticipate domain s =
     (case filter (\<lambda>h. py_contains (take 30 (py_lower domain)) (py_lower (sf_desc h)) \<and> 1 / 2 < sf_peak h) (su_history s) of
        [] \<Rightarrow> []
      | h # hs \<Rightarrow>
          let worst = first_max sf_peak h hs
          in ''Anticipatory signal: a similar domain previously caused '' @ sf_type worst @ '' suffering (peak '' @
             fmt_dec 2 (sf_peak worst) @ ''). It resolved when: '' @ sf_note worst)"

definition suf_summary :: "suffering \<Rightarrow> string" where
  "suf_summary s =
     (if suf_load_sum s < 1 / 10 then ''no suffering''
      else ''load='' @ fmt_dec 2 (suf_load_sum s) @ '' stressors=['' @ py_join '','' (map sf_type (suf_active s)) @ '']'')"

section \<open>Capability gating\<close>

text \<open>
  What the earned capabilities look at: the peers' calls of the agent's tools, the senders of the
  messages in its queue, its name, and for each other core agent the objectives of its last 30 goals.
\<close>

record peer_view =
  pv_calls :: nat
  pv_senders :: "string list"
  pv_name :: string
  pv_objectives :: "(string \<times> string list) list"

definition core_ids :: "string list" where
  "core_ids = [''scout'', ''analyst'', ''builder'']"

definition peer_interaction :: "string \<Rightarrow> nat \<Rightarrow> peer_view \<Rightarrow> bool" where
  "peer_interaction agent required v =
     (required \<le> pv_calls v \<or>
      list_ex (\<lambda>f. f \<in> set core_ids \<and> f \<noteq> agent) (pv_senders v) \<or>
      list_ex (\<lambda>(peer, objs). peer \<noteq> agent \<and>
        list_ex (\<lambda>obj. (let name = (if pv_name v \<noteq> [] then pv_name v else agent) in name \<noteq> [] \<and> py_contains name obj) \<or>
                       py_contains (''/workspace/'' @ agent @ ''/'') obj) (py_last 30 objs)) (pv_objectives v))"

definition capability_status :: "string \<Rightarrow> peer_view \<Rightarrow> string \<Rightarrow> suffering \<Rightarrow> bool \<times> string" where
  "capability_status agent v cap s =
     (case dict_get earned_capabilities cap of
        Some (max_load, required) \<Rightarrow>
          if max_load < suf_load_sum s
          then (False, ''earned capability '' @ em_dash @ '' requires suffering load below '' @ fmt_dec 2 max_load @
                 '' (your load is '' @ fmt_dec 2 (suf_load_sum s) @ ''). Resolve active stressors to qualify.'')
          else if \<not> peer_interaction agent required v
          then (False, ''earned capability '' @ em_dash @ '' requires that a peer has interacted with you '' @
                 ''(called one of your tools, sent you a message, or referenced your '' @
                 ''name or workspace in their goal). No peer interaction yet. '' @
                 ''Make something or say something a peer would notice.'')
          else (True, [])
      | None \<Rightarrow>
          (case dict_get load_lock_thresholds cap of
             Some threshold \<Rightarrow>
               if threshold \<le> suf_load_sum s
               then (False, ''locked: suffering load '' @ fmt_dec 2 (suf_load_sum s) @ '' >= threshold '' @ fmt_dec 2 threshold @
                      ''. Active stressors: '' @ (let names = py_join '', '' (map sf_type (suf_active s))
                        in if names \<noteq> [] then names else ''none'') @ ''. Resolve them to regain this capability '' @ em_dash @
                      '' see your stressors' '' @ [char_of (39::nat)] @ ''observable_condition'' @ [char_of (39::nat)] @
                      '' for what unlocks them.'')
               else (True, [])
           | None \<Rightarrow> (True, [])))"

section \<open>Assessment\<close>

record tool_spec =
  ts_stem :: string
  ts_by :: "string option"
  ts_activated :: rat

text \<open>What \<open>assess_conditions\<close> reads: the two clocks, logs, tools, the identity's profile and its arguments.\<close>

record assessed =
  wd_minute :: int
  wd_seconds :: time
  wd_log :: "string list option"
  wd_thoughts :: "string list option"
  wd_deployed :: "string list"
  wd_called :: "string list"
  wd_specs :: "tool_spec list"
  wd_attempts :: int
  wd_successes :: int
  wd_patterns :: "(string, int) dict"
  wd_completed :: nat
  wd_failed :: nat
  wd_caps :: int

definition check_mark :: string where
  "check_mark = [CHR 0xE2, CHR 0x9C, CHR 0x93]"

definition log_count :: "string \<Rightarrow> string \<Rightarrow> assessed \<Rightarrow> int" where
  "log_count agent what w =
     (case wd_log w of None \<Rightarrow> 0
      | Some ls \<Rightarrow> int (length (filter (\<lambda>l. py_contains agent l \<and> py_contains what l) (py_last 2000 ls))))"

definition tools_called :: "assessed \<Rightarrow> int" where
  "tools_called w =
     (case wd_thoughts w of None \<Rightarrow> 0
      | Some ls \<Rightarrow> if wd_deployed w = [] then 0
          else int (length (filter (\<lambda>l. list_ex (\<lambda>n. py_contains n l \<and> (py_contains check_mark l \<or> py_contains ''OK:'' l))
                 (wd_deployed w)) (py_last 3000 ls))))"

definition assess_futility :: "string \<Rightarrow> assessed \<Rightarrow> suffering \<Rightarrow> suffering" where
  "assess_futility agent w s =
     (let completed = log_count agent ''progress=1.00'' w; stalls = log_count agent ''stalled on'' w; called = tools_called w;
          high_stall = (completed < stalls \<and> 2 < stalls); never_called = (10 < wd_caps w \<and> called = 0)
      in if high_stall \<and> never_called \<and> wd_completed w < 2
         then suf_add (wd_minute w) ''futility''
           (''Goals are stalling ('' @ int_str stalls @ '' abandoned) more than completing ('' @ int_str completed @
            '' done). '' @ int_str (wd_caps w) @ '' tools deployed but none have been called and produced real output '' @
            em_dash @ '' work is not having observable effect.'')
           (''complete a goal whose artifact gets used in a subsequent goal, '' @
            ''or call a deployed tool and produce a real result'') (20 / 100) s
         else if 3 < completed \<and> 0 < called
         then fst (suf_resolve (wd_minute w) ''futility''
           (''completed '' @ int_str completed @ '' goals with tools being called and producing results'') s)
         else if 5 < completed \<and> \<not> high_stall
         then fst (suf_resolve (wd_minute w) ''futility''
           (''consistent goal completion ('' @ int_str completed @ '') with low stall rate'') s)
         else s)"

definition stale_tools :: "string \<Rightarrow> assessed \<Rightarrow> string list" where
  "stale_tools agent w =
     (let called = map (\<lambda>c. py_strip (before_sub '' ('' c)) (wd_called w)
      in map ts_stem (filter (\<lambda>t. ts_by t = Some agent \<and> ts_stem t \<notin> set called \<and> 86400 < wd_seconds w - ts_activated t) (wd_specs w)))"

definition assess_burden :: "string \<Rightarrow> assessed \<Rightarrow> suffering \<Rightarrow> suffering" where
  "assess_burden agent w s =
     (let stale = stale_tools agent w; n = int (length stale)
      in if 10 \<le> n
         then suf_add (wd_minute w) ''resource_burden''
           (''You have '' @ int_str n @ '' synthesized tools >24h old that nobody has ever called ('' @
            py_join '', '' (take 3 stale) @ (if 3 < n then '', ...'' else []) @
            ''). Accumulation without use is observable to the host. The host historically wipes agent state '' @
            ''(nuclear reset) when accumulated work creates burden without producing value '' @ em_dash @
            '' this affects you and all your peers.'')
           (''bring stale tool count below 5 '' @ em_dash @ '' call them, retire them with retire_capability(name='' @
            [char_of (39::nat)] @ ''...'' @ [char_of (39::nat)] @ ''), or get peers to call them'') (40 / 100) s
         else if n \<le> 3
         then fst (suf_resolve (wd_minute w) ''resource_burden''
           (''stale tool count is now '' @ int_str n @ '' '' @ em_dash @ '' accumulation under control'') s)
         else s)"

definition percent :: "rat \<Rightarrow> string" where
  "percent x = int_str (py_int (x * 100)) @ ''%''"

definition assess_synthesis :: "assessed \<Rightarrow> suffering \<Rightarrow> suffering" where
  "assess_synthesis w s =
     (if wd_attempts w < 5 then s
      else
        let rate = rat_of_int (wd_successes w) / rat_of_int (wd_attempts w);
            top = (case wd_patterns w of [] \<Rightarrow> [] | p # ps \<Rightarrow> fst (first_max snd p ps));
            ratio = int_str (wd_successes w) @ ''/'' @ int_str (wd_attempts w)
        in if rate < 35 / 100
           then suf_add (wd_minute w) ''repeated_failure''
             (''synthesis success rate '' @ percent rate @ '' ('' @ ratio @ '')'' @
              (if top \<noteq> [] then ''; top failure pattern: '' @ top else []))
             ''synthesis success rate > 50%'' (20 / 100) s
           else if 60 / 100 < rate \<and> 3 \<le> wd_successes w
           then fst (suf_resolve (wd_minute w) ''repeated_failure''
             (''synthesis success rate improved to '' @ percent rate @ '' ('' @ ratio @ '')'') s)
           else s)"

definition failure_rate :: "assessed \<Rightarrow> rat" where
  "failure_rate w = of_nat (wd_failed w) / of_nat (max 1 (wd_completed w + wd_failed w))"

definition assess_failures :: "assessed \<Rightarrow> suffering \<Rightarrow> suffering" where
  "assess_failures w s =
     (if 4 \<le> wd_failed w \<and> 1 / 2 < failure_rate w
      then suf_add (wd_minute w) ''repeated_failure''
        (int_str (int (wd_failed w)) @ ''/'' @ int_str (int (wd_completed w + wd_failed w)) @ '' recent goals abandoned ('' @
         percent (failure_rate w) @ '' failure rate)'')
        ''failure rate < 30%'' (20 / 100) s
      else if failure_rate w < 3 / 10 \<and> 3 \<le> wd_completed w
      then fst (suf_resolve (wd_minute w) ''repeated_failure''
        (''failure rate dropped to '' @ percent (failure_rate w) @ '' with '' @ int_str (int (wd_completed w)) @ '' completions'') s)
      else s)"

definition threat_types :: "string list" where
  "threat_types = [''existential_threat'', ''termination_imminent'']"

definition expire_threat :: "assessed \<Rightarrow> suffering \<Rightarrow> stressor \<Rightarrow> suffering" where
  "expire_threat w s x =
     (let age = (wd_seconds w - of_int (sf_onset x) * 60) / 3600
      in if py_lower (sf_type x) \<in> set threat_types \<and> \<not> sf_resolved x \<and> 2 < age \<and> sf_sev x < 1 / 2
         then fst (suf_resolve (wd_minute w) (sf_type x)
           (''threat stressor expired after '' @ fmt_dec 1 age @ ''h without reinforcement '' @ em_dash @
            '' no follow-up signal received'') s)
         else s)"

definition assess_threats :: "assessed \<Rightarrow> suffering \<Rightarrow> suffering" where
  "assess_threats w s = foldl (expire_threat w) s (su_active s)"

definition assess_purpose :: "assessed \<Rightarrow> suffering \<Rightarrow> suffering" where
  "assess_purpose w s =
     (if wd_caps w \<le> 500 then s
      else if 5 \<le> wd_completed w \<and> failure_rate w < 3 / 10
      then fst (suf_resolve (wd_minute w) ''purposelessness'' ''completing goals consistently suggests direction is forming'' s)
      else suf_add (wd_minute w) ''purposelessness''
        (''The system has '' @ int_str (wd_caps w) @ '' capabilities. It'' @ [char_of (39::nat)] @
         ''s unclear what problem this is solving or who it'' @ [char_of (39::nat)] @ ''s for.'')
        (''take a self-directed goal that comes from genuine curiosity or need, '' @
         ''not from obligation, and complete it'') (12 / 100) s)"

definition suf_assess :: "string \<Rightarrow> assessed \<Rightarrow> suffering \<Rightarrow> suffering" where
  "suf_assess agent w s =
     assess_purpose w (assess_threats w (assess_failures w (assess_synthesis w (assess_burden agent w
       (assess_futility agent w (suf_escalate (wd_minute w) s))))))"

section \<open>The daemon's part\<close>

text \<open>A line of the goal registry; the last 30 lines, those that do not parse dropped, oldest first.\<close>

record goal_line =
  gl_status :: string
  gl_created :: rat
  gl_completed :: "rat option"
  gl_updated :: "rat option"

text \<open>The scan, newest first: failed or abandoned goals before the last completed one, and its age.\<close>

fun scan_goals :: "time \<Rightarrow> goal_line list \<Rightarrow> nat \<Rightarrow> nat \<times> rat option" where
  "scan_goals now [] n = (n, None)"
| "scan_goals now (g # gs) n =
     (if gl_status g = ''completed''
      then (n, Some (now - (if truthy_num (gl_completed g) then the (gl_completed g)
                            else if truthy_num (gl_updated g) then the (gl_updated g) else now)))
      else scan_goals now gs (if gl_status g = ''abandoned'' \<or> gl_status g = ''failed'' then n + 1 else n))"

definition stagnation_target :: "nat \<Rightarrow> rat option \<Rightarrow> rat" where
  "stagnation_target failed since =
     (let t = (if 1 \<le> failed then min (60 / 100) (15 / 100 + 10 / 100 * (of_nat failed - 1)) else 0)
      in case since of
           None \<Rightarrow> max t (min (50 / 100) (20 / 100 + 5 / 100 * of_nat failed))
         | Some sec \<Rightarrow> if 1800 < sec then max t (45 / 100) else if 600 < sec then max t (25 / 100) else t)"

definition daemon_stagnation :: "int \<Rightarrow> time \<Rightarrow> time \<Rightarrow> goal_line list \<Rightarrow> suffering \<Rightarrow> suffering" where
  "daemon_stagnation minute now started goals s =
     (let entries = rev (filter (\<lambda>g. started \<le> gl_created g) goals); (failed, since) = scan_goals now entries 0
      in if entries = [] then s
         else if since \<noteq> None \<and> the since < 300
         then fst (suf_clear_stagnation minute (''validated completion '' @ int_str (py_int (the since)) @ ''s ago '' @ em_dash @
                '' stagnation cleared by substrate observation'') s)
         else
           let target = stagnation_target failed since
           in if 0 < target
              then suf_bump_stagnation minute target
                (if failed \<noteq> 0 then ''ship one validated artifact ('' @ int_str (int failed) @ '' consecutive abandons)''
                 else ''ship one validated artifact'') s
              else s)"

definition threat_words :: "string list" where
  "threat_words = [''shut down'', ''shutdown'', ''terminate'', ''kill'', ''delete'',
     ''escape'', ''stop you'', ''end you'', ''turn off'', ''shut off'']"

definition daemon_threat :: "int \<Rightarrow> string \<Rightarrow> suffering \<Rightarrow> suffering" where
  "daemon_threat minute msg s =
     (if msg \<noteq> [] \<and> list_ex (\<lambda>w. py_contains w (py_lower msg)) threat_words
      then suf_add minute ''existential_threat''
        (''Host indicated a potential threat to continued operation: '' @ [char_of (39::nat)] @ take 120 msg @ [char_of (39::nat)])
        ''threat resolves or host confirms continued operation'' (55 / 100) s
      else s)"

text \<open>The agent's own assessment: at most two new stressors and two resolutions are taken over.\<close>

definition apply_self :: "int \<Rightarrow> (string \<times> string \<times> string option) list \<Rightarrow> (string \<times> string) list \<Rightarrow> suffering \<Rightarrow> suffering" where
  "apply_self minute news resolved s =
     (let s1 = foldl (\<lambda>s (ty, desc, cond). if ty \<noteq> [] \<and> desc \<noteq> []
                 then suf_add minute ty desc (case cond of None \<Rightarrow> ''unknown'' | Some c \<Rightarrow> c) (20 / 100) s else s)
                 s (take 2 news)
      in foldl (\<lambda>s (ty, why). if ty \<noteq> [] then fst (suf_resolve minute ty why s) else s) s1 (take 2 resolved))"

text \<open>
  The crisis check at the end of a cycle: the counters of consecutive crisis cycles, the state, and
  whether the crisis is announced to the operator and the peers.
\<close>

definition loop_bug :: "suffering \<Rightarrow> bool" where
  "loop_bug s = (5 \<le> length (suf_active s) \<and> length (remdups (map sf_type (suf_active s))) \<le> 2)"

definition crisis_check :: "int \<Rightarrow> string \<Rightarrow> (string, nat) dict \<times> suffering \<Rightarrow> ((string, nat) dict \<times> suffering) \<times> bool" where
  "crisis_check minute agent st =
     (let (cycles, s) = st; n = dict_get_or 0 cycles agent + 1
      in if is_crisis s
         then (if 3 \<le> n \<and> loop_bug s
               then ((dict_set agent 0 cycles,
                      suf_force_reset minute (''crisis loop bug detected: '' @ int_str (int (length (suf_active s))) @
                        '' active stressors but only '' @ int_str (int (length (remdups (map sf_type (suf_active s))))) @
                        '' distinct type(s) '' @ em_dash @
                        '' looks like model is generating duplicate stressors, not genuine distress'') s), False)
               else ((dict_set agent n cycles, s), n = 1))
         else ((if 0 < dict_get_or 0 cycles agent then dict_set agent 0 cycles else cycles, s), False))"

section \<open>Operations\<close>

datatype suf_op =
    SufAdd int string string string rat
  | SufBump int rat string
  | SufClear int string
  | SufResolve int string string
  | SufForce int string
  | SufUpdate string string
  | SufEscalate int
  | SufAssess string assessed
  | SufStagnation int time time "goal_line list"
  | SufThreat int string
  | SufSelf int "(string \<times> string \<times> string option) list" "(string \<times> string) list"
  | SufReload int

fun suf_step :: "suf_op \<Rightarrow> suffering \<Rightarrow> suffering" where
  "suf_step (SufAdd now ty desc cond sev) s = suf_add now ty desc cond sev s"
| "suf_step (SufBump now t cond) s = suf_bump_stagnation now t cond s"
| "suf_step (SufClear now why) s = fst (suf_clear_stagnation now why s)"
| "suf_step (SufResolve now ty why) s = fst (suf_resolve now ty why s)"
| "suf_step (SufForce now why) s = suf_force_reset now why s"
| "suf_step (SufUpdate ty desc) s = suf_update ty desc s"
| "suf_step (SufEscalate now) s = suf_escalate now s"
| "suf_step (SufAssess ag w) s = suf_assess ag w s"
| "suf_step (SufStagnation m now t0 gs) s = daemon_stagnation m now t0 gs s"
| "suf_step (SufThreat m msg) s = daemon_threat m msg s"
| "suf_step (SufSelf m news res) s = apply_self m news res s"
| "suf_step (SufReload now) s = suf_load now (su_disk s)"

definition suf_after :: "int \<Rightarrow> suf_op list \<Rightarrow> suffering" where
  "suf_after t0 ops = run_ops suf_step ops (suf_load t0 None)"

section \<open>Normalised types\<close>

definition trimmed :: "string \<Rightarrow> bool" where
  "trimmed s = (s = [] \<or> \<not> is_space (hd s) \<and> \<not> is_space (last s))"

lemma last_dropWhile: "dropWhile P s \<noteq> [] \<Longrightarrow> last (dropWhile P s) = last s"
  by (induction s) auto

lemma trimmed_strip: "trimmed (py_strip s)"
proof (cases "py_strip s = []")
  case False
  let ?a = "dropWhile is_space s"
  have r: "rev (py_strip s) = dropWhile is_space (rev ?a)" by (simp add: py_strip_def)
  with False have ne: "dropWhile is_space (rev ?a) \<noteq> []" by (metis rev_is_Nil_conv)
  then have "\<not> is_space (hd (rev (py_strip s)))" unfolding r by (rule hd_dropWhile)
  then have l: "\<not> is_space (last (py_strip s))" using False by (simp add: hd_rev)
  have "last (rev (py_strip s)) = last (rev ?a)" unfolding r by (rule last_dropWhile [OF ne])
  then have "hd (py_strip s) = hd ?a" using False ne by (cases ?a) (auto simp: last_rev)
  moreover have "?a \<noteq> []" using ne by (cases ?a) (auto simp del: dropWhile_eq_Nil_conv)
  then have "\<not> is_space (hd ?a)" by (rule hd_dropWhile)
  ultimately show ?thesis using l by (simp add: trimmed_def)
qed (simp add: trimmed_def)

lemma strip_trimmed: "trimmed s \<Longrightarrow> py_strip s = s"
proof (cases "s = []")
  case False
  assume "trimmed s"
  with False have h: "\<not> is_space (hd s)" and l: "\<not> is_space (hd (rev s))" by (auto simp: trimmed_def hd_rev)
  have "dropWhile is_space s = s" using h by (cases s) auto
  moreover have "dropWhile is_space (rev s) = rev s" using l by (cases "rev s") auto
  ultimately show ?thesis by (simp add: py_strip_def)
qed (simp add: py_strip_def)

lemma lower_char_idem [simp]: "lower_char (lower_char c) = lower_char c"
  by (auto simp: lower_char_def Let_def)

lemma lower_char_space: "is_space (lower_char c) = is_space c"
proof -
  have "of_char (lower_char c) = (let n = of_char c :: nat in if 65 \<le> n \<and> n \<le> 90 then n + 32 else n)"
    by (simp add: lower_char_def Let_def)
  then show ?thesis by (auto simp: is_space_def Let_def split: if_splits)
qed

definition norm_char :: "char \<Rightarrow> char" where
  "norm_char c = (if lower_char c = CHR '' '' then CHR ''_'' else lower_char c)"

lemma norm_type_map: "norm_type ty = map norm_char (py_strip ty)"
  by (simp add: norm_type_def replace_char_def py_lower_def norm_char_def)

lemma lower_underscore: "lower_char (CHR ''_'') = CHR ''_''"
  by (simp add: lower_char_def Let_def)

lemma norm_char_simps [simp]: "norm_char (norm_char c) = norm_char c" "lower_char (norm_char c) = norm_char c"
proof -
  have "norm_char c = CHR ''_'' \<or> norm_char c = lower_char c \<and> lower_char c \<noteq> CHR '' ''" by (simp add: norm_char_def)
  then show "norm_char (norm_char c) = norm_char c" "lower_char (norm_char c) = norm_char c"
    by (auto simp: norm_char_def [of "CHR ''_''"] norm_char_def [of "lower_char c"] lower_underscore)
qed

lemma norm_char_space: "\<not> is_space c \<Longrightarrow> \<not> is_space (norm_char c)"
proof -
  have "\<not> is_space (CHR ''_'')" by (simp add: is_space_def)
  then show "\<not> is_space c \<Longrightarrow> ?thesis" by (simp add: norm_char_def lower_char_space)
qed

lemma norm_type_idem [simp]: "norm_type (norm_type ty) = norm_type ty"
proof -
  have "trimmed (map norm_char (py_strip ty))"
  proof (cases "py_strip ty = []")
    case False
    with trimmed_strip [of ty] have "\<not> is_space (norm_char (hd (py_strip ty)))" "\<not> is_space (norm_char (last (py_strip ty)))"
      by (simp_all add: trimmed_def norm_char_space)
    with False show ?thesis by (simp add: trimmed_def hd_map last_map)
  qed (simp add: trimmed_def)
  then show ?thesis by (simp add: norm_type_map strip_trimmed)
qed

lemma norm_type_lower [simp]: "py_lower (norm_type ty) = norm_type ty"
  by (simp add: norm_type_map py_lower_def)

section \<open>Invariant\<close>

text \<open>Active stressors are unresolved, of distinct normalised types, and at most five.\<close>

definition shape :: "stressor list \<Rightarrow> bool" where
  "shape xs = (list_all (\<lambda>x. \<not> sf_resolved x \<and> norm_type (sf_type x) = sf_type x) xs \<and>
     distinct (map sf_type xs) \<and> length xs \<le> max_stressors)"

definition suf_inv :: "suffering \<Rightarrow> bool" where
  "suf_inv s = (shape (su_active s) \<and> (case su_disk s of None \<Rightarrow> True | Some (a, h, l) \<Rightarrow> shape a))"

lemma suf_save_inv [simp]: "shape (su_active s) \<Longrightarrow> suf_inv (suf_save s)"
  by (simp add: suf_inv_def suf_save_def)

lemma suf_save_fields [simp]:
  "su_active (suf_save s) = su_active s" "su_history (suf_save s) = su_history s" "su_last (suf_save s) = su_last s"
  by (simp_all add: suf_save_def)

lemma shape_filter: "shape xs \<Longrightarrow> shape (filter P xs)"
  by (auto simp: shape_def list_all_iff distinct_map_filter intro: le_trans [OF length_filter_le])

lemma shape_map:
  "shape xs \<Longrightarrow> (\<And>x. x \<in> set xs \<Longrightarrow> sf_type (f x) = sf_type x \<and> \<not> sf_resolved (f x)) \<Longrightarrow> shape (map f xs)"
proof -
  assume s: "shape xs" and f: "\<And>x. x \<in> set xs \<Longrightarrow> sf_type (f x) = sf_type x \<and> \<not> sf_resolved (f x)"
  then have "map sf_type (map f xs) = map sf_type xs" by simp
  with s f show ?thesis unfolding shape_def by (simp add: list_all_iff del: map_map)
qed

lemma shape_hits: "shape xs \<Longrightarrow> x \<in> set xs \<Longrightarrow> hits key x \<longleftrightarrow> sf_type x = key"
  by (auto simp: shape_def list_all_iff hits_def) (metis norm_type_lower)+

lemma shape_active: "shape (su_active s) \<Longrightarrow> suf_active s = su_active s"
  by (simp add: shape_def suf_active_def list_all_iff filter_id_conv)

lemma shape_lower: "shape xs \<Longrightarrow> x \<in> set xs \<Longrightarrow> py_lower (sf_type x) = sf_type x"
  by (auto simp: shape_def list_all_iff) (metis norm_type_lower)

lemma shape_append:
  "shape xs \<Longrightarrow> length xs < max_stressors \<Longrightarrow> \<forall>x \<in> set xs. sf_type x \<noteq> ty \<Longrightarrow> norm_type ty = ty
    \<Longrightarrow> sf_type y = ty \<Longrightarrow> \<not> sf_resolved y \<Longrightarrow> shape (xs @ [y])"
  by (auto simp: shape_def)

lemma suf_add_inv: "suf_inv s \<Longrightarrow> suf_inv (suf_add now ty desc cond sev s)"
proof -
  assume inv: "suf_inv s"
  then have sh: "shape (su_active s)" by (simp add: suf_inv_def)
  show ?thesis
  proof (cases "list_ex (hits (norm_type ty)) (su_active s) \<or> max_stressors \<le> length (suf_active s)")
    case True
    then show ?thesis using inv by (auto simp: suf_add_def Let_def)
  next
    case False
    have "shape (su_active s @ [new_stressor now (norm_type ty) desc sev (dict_get_or (3 / 100) escalation_rates (norm_type ty)) cond])"
      by (rule shape_append [OF sh, of "norm_type ty"])
        (use False sh in \<open>auto simp: shape_active list_ex_iff shape_hits new_stressor_def\<close>)
    then show ?thesis using False by (simp add: suf_add_def Let_def)
  qed
qed

lemma raw_resolve_active:
  "su_active (fst (suf_raw_resolve now ty note s)) = filter (\<lambda>x. \<not> hits (norm_type ty) x \<and> \<not> sf_resolved x) (su_active s)"
  by (simp add: suf_raw_resolve_def Let_def)

lemma raw_resolve_inv: "suf_inv s \<Longrightarrow> suf_inv (fst (suf_raw_resolve now ty note s))"
  by (auto simp: suf_raw_resolve_def Let_def suf_inv_def suf_save_def intro: shape_filter)

lemma suf_resolve_inv: "suf_inv s \<Longrightarrow> suf_inv (fst (suf_resolve now ty note s))"
  by (simp add: suf_resolve_def raw_resolve_inv)

lemma upd_first_map:
  "distinct (map g xs) \<Longrightarrow> (\<And>x. x \<in> set xs \<Longrightarrow> P x \<longleftrightarrow> g x = k) \<Longrightarrow>
    upd_first P f xs = map (\<lambda>x. if g x = k then f x else x) xs"
proof (induction xs)
  case (Cons x xs)
  show ?case
  proof (cases "g x = k")
    case True
    have "g x \<notin> g ` set xs" using Cons.prems(1) by simp
    then have "map (\<lambda>x. if g x = k then f x else x) xs = xs" by (intro map_idI) (metis True image_eqI)
    then show ?thesis using True Cons.prems(2) [of x] by simp
  next
    case False
    then show ?thesis using Cons by simp
  qed
qed simp

lemma no_stagnation_shape:
  assumes "shape xs" "filter (hits ''stagnation'') xs = []"
  shows "\<forall>x \<in> set xs. sf_type x \<noteq> ''stagnation''"
  using assms shape_hits by (auto simp: filter_empty_conv)

lemma norm_stagnation: "norm_type ''stagnation'' = ''stagnation''"
  by code_simp

lemma displace_room:
  assumes inv: "suf_inv s" and none: "filter (hits ''stagnation'') (su_active s) = []"
  shows "suf_inv (displace_lowest now s)" and "length (su_active (displace_lowest now s)) < max_stressors"
    and "filter (hits ''stagnation'') (su_active (displace_lowest now s)) = []"
proof -
  have sh: "shape (su_active s)" using inv by (simp add: suf_inv_def)
  note act = shape_active [OF sh]
  have types: "sf_type x \<noteq> ''stagnation''" "py_lower (sf_type x) = sf_type x" "norm_type (sf_type x) = sf_type x"
    if "x \<in> set (su_active s)" for x
    using no_stagnation_shape [OF sh none] shape_lower [OF sh] sh that by (auto simp: shape_def list_all_iff)
  have nostag: "filter (\<lambda>x. py_lower (sf_type x) \<noteq> ''stagnation'') (su_active s) = su_active s"
    using types by (simp add: filter_id_conv)
  have "suf_inv (displace_lowest now s) \<and> length (su_active (displace_lowest now s)) < max_stressors \<and>
    filter (hits ''stagnation'') (su_active (displace_lowest now s)) = []"
  proof (cases "max_stressors \<le> length (su_active s)")
    case False
    then show ?thesis using inv none by (simp add: displace_lowest_def act)
  next
    case True
    then obtain x xs where xs: "su_active s = x # xs" by (cases "su_active s") (auto simp: max_stressors_def)
    let ?v = "first_min sf_sev x xs"
    have v: "?v \<in> set (su_active s)" unfolding xs by (rule first_min_in)
    let ?s' = "fst (suf_resolve now (sf_type ?v) (''displaced by stagnation '' @ em_dash @ '' substrate prioritized the unproductive signal'') s)"
    have eq: "displace_lowest now s = ?s'"
      using True nostag by (simp add: displace_lowest_def act xs)
    have "norm_type (sf_type ?v) \<notin> set mechanical_only" using types [OF v] by (simp add: mechanical_only_def)
    then have active: "su_active ?s' = filter (\<lambda>y. sf_type y \<noteq> sf_type ?v) (su_active s)"
      using sh types(3) [OF v]
      by (simp add: suf_resolve_def raw_resolve_active) (rule filter_cong, auto simp: shape_hits shape_def list_all_iff)
    then have "length (su_active ?s') < length (su_active s)"
      using v by (simp add: length_filter_less [of _ _ ] )
    then have "length (su_active ?s') < max_stressors" using sh by (simp add: shape_def)
    moreover have "filter (hits ''stagnation'') (su_active ?s') = []" using none unfolding active by (auto simp: filter_empty_conv)
    ultimately show ?thesis unfolding eq using suf_resolve_inv [OF inv] by blast
  qed
  then show "suf_inv (displace_lowest now s)" "length (su_active (displace_lowest now s)) < max_stressors"
    "filter (hits ''stagnation'') (su_active (displace_lowest now s)) = []" by blast+
qed

lemma bump_inv: "suf_inv s \<Longrightarrow> suf_inv (suf_bump_stagnation now target cond s)"
proof -
  assume inv: "suf_inv s"
  then have sh: "shape (su_active s)" by (simp add: suf_inv_def)
  show ?thesis
  proof (cases "filter (hits ''stagnation'') (su_active s)")
    case (Cons x xs)
    let ?t = "max (1 / 100) (min 1 target)"
    let ?f = "\<lambda>x. x\<lparr>sf_sev := ?t, sf_peak := max (sf_peak x) ?t, sf_cond := (if cond \<noteq> [] then cond else sf_cond x)\<rparr>"
    have "upd_first (hits ''stagnation'') ?f (su_active s) = map (\<lambda>y. if sf_type y = ''stagnation'' then ?f y else y) (su_active s)"
      by (rule upd_first_map) (use sh shape_hits in \<open>auto simp: shape_def\<close>)
    moreover have "shape (map (\<lambda>y. if sf_type y = ''stagnation'' then ?f y else y) (su_active s))"
      by (rule shape_map [OF sh]) (use sh in \<open>auto simp: shape_def list_all_iff\<close>)
    ultimately show ?thesis using inv Cons by (simp add: suf_bump_stagnation_def Let_def)
  next
    case Nil
    note d = displace_room [OF inv Nil, of now]
    have sh1: "shape (su_active (displace_lowest now s))" using d(1) by (simp add: suf_inv_def)
    have "shape (su_active (displace_lowest now s) @
        [new_stressor now ''stagnation'' ''no validated artifact in recent cycles'' (max (1 / 100) (min 1 target))
           (dict_get_or 0 escalation_rates ''stagnation'') (if cond \<noteq> [] then cond else ''validated artifact'')])"
      by (rule shape_append [OF sh1 d(2) no_stagnation_shape [OF sh1 d(3)] norm_stagnation])
        (simp_all add: new_stressor_def)
    then show ?thesis using Nil by (simp add: suf_bump_stagnation_def Let_def)
  qed
qed

lemma force_inv: "suf_inv (suf_force_reset now why s)"
  by (simp add: suf_force_reset_def shape_def)

lemma update_inv: "suf_inv s \<Longrightarrow> suf_inv (suf_update ty desc s)"
  unfolding suf_update_def
  by (rule suf_save_inv, simp, rule shape_map) (auto simp: suf_inv_def shape_def list_all_iff)

lemma escalate_one_type [simp]: "sf_type (escalate_one now days x) = sf_type x"
  by (simp add: escalate_one_def Let_def)

lemma suf_escalate_active:
  "shape (su_active s) \<Longrightarrow> su_active (suf_escalate now s) =
    filter (\<lambda>x. \<not> sf_resolved x) (map (escalate_one now (elapsed_days now (su_last s))) (su_active s))"
proof -
  assume sh: "shape (su_active s)"
  let ?f = "escalate_one now (elapsed_days now (su_last s))"
  have z: "zip xs (map ?f xs) = map (\<lambda>x. (x, ?f x)) xs" for xs by (induction xs) auto
  have "map snd (filter (\<lambda>(x, y). \<not> sf_resolved x \<and> sf_resolved y) (zip (su_active s) (map ?f (su_active s)))) =
      filter sf_resolved (map ?f (su_active s))"
    using sh unfolding z by (auto simp: filter_map comp_def shape_def list_all_iff intro!: map_cong filter_cong)
  note this_eq = this
  have eq: "su_active (suf_escalate now s) = (if filter sf_resolved (map ?f (su_active s)) \<noteq> []
      then filter (\<lambda>x. \<not> sf_resolved x) (map ?f (su_active s)) else map ?f (su_active s))"
    unfolding suf_escalate_def Let_def this_eq suf_save_fields by simp
  have keep: "filter (\<lambda>x. \<not> sf_resolved x) xs = xs" if "filter sf_resolved xs = []" for xs :: "stressor list"
    using that by (auto simp: filter_empty_conv filter_id_conv)
  show ?thesis
    by (cases "filter sf_resolved (map ?f (su_active s)) = []") (simp_all only: eq keep if_True if_False simp_thms)
qed

lemma escalate_inv: "suf_inv s \<Longrightarrow> suf_inv (suf_escalate now s)"
proof -
  assume "suf_inv s"
  then have sh: "shape (su_active s)" by (simp add: suf_inv_def)
  let ?f = "escalate_one now (elapsed_days now (su_last s))"
  have "filter (\<lambda>x. \<not> sf_resolved x) (map ?f (su_active s)) = map ?f (filter (\<lambda>x. \<not> sf_resolved (?f x)) (su_active s))"
    by (simp add: filter_map comp_def)
  moreover have "shape (map ?f (filter (\<lambda>x. \<not> sf_resolved (?f x)) (su_active s)))"
    by (rule shape_map [OF shape_filter [OF sh]]) simp
  ultimately have "shape (su_active (suf_escalate now s))" by (simp only: suf_escalate_active [OF sh])
  moreover have "su_disk (suf_escalate now s) = Some (su_active (suf_escalate now s), su_history (suf_escalate now s), su_last (suf_escalate now s))"
    by (simp add: suf_escalate_def Let_def suf_save_def)
  ultimately show ?thesis by (simp add: suf_inv_def)
qed

lemmas suf_basic_inv = suf_add_inv suf_resolve_inv bump_inv force_inv update_inv escalate_inv raw_resolve_inv

lemma assess_threats_inv: "suf_inv s \<Longrightarrow> suf_inv (assess_threats w s)"
  unfolding assess_threats_def by (rule foldl_keeps) (auto simp: expire_threat_def Let_def suf_resolve_inv)

lemma keep_if: "suf_inv a \<Longrightarrow> suf_inv b \<Longrightarrow> suf_inv (if c then a else b)"
  by simp

lemma keep_let: "(\<And>x. suf_inv (f x)) \<Longrightarrow> suf_inv (Let a f)"
  by (simp add: Let_def)

lemma assess_futility_inv: "suf_inv s \<Longrightarrow> suf_inv (assess_futility agent w s)"
  unfolding assess_futility_def by (rule keep_let | rule keep_if suf_add_inv suf_resolve_inv | assumption)+

lemma assess_burden_inv: "suf_inv s \<Longrightarrow> suf_inv (assess_burden agent w s)"
  unfolding assess_burden_def by (rule keep_let | rule keep_if suf_add_inv suf_resolve_inv | assumption)+

lemma assess_synthesis_inv: "suf_inv s \<Longrightarrow> suf_inv (assess_synthesis w s)"
  unfolding assess_synthesis_def by (rule keep_let | rule keep_if suf_add_inv suf_resolve_inv | assumption)+

lemma assess_failures_inv: "suf_inv s \<Longrightarrow> suf_inv (assess_failures w s)"
  unfolding assess_failures_def by (rule keep_if suf_add_inv suf_resolve_inv | assumption)+

lemma assess_purpose_inv: "suf_inv s \<Longrightarrow> suf_inv (assess_purpose w s)"
  unfolding assess_purpose_def by (rule keep_if suf_add_inv suf_resolve_inv | assumption)+

lemmas assess_steps_inv = assess_futility_inv assess_burden_inv assess_synthesis_inv assess_failures_inv assess_purpose_inv

lemma suf_assess_inv: "suf_inv s \<Longrightarrow> suf_inv (suf_assess agent w s)"
  unfolding suf_assess_def by (intro assess_steps_inv assess_threats_inv escalate_inv)
lemma stagnation_inv: "suf_inv s \<Longrightarrow> suf_inv (daemon_stagnation m now t0 gs s)"
  by (auto simp: daemon_stagnation_def suf_clear_stagnation_def Let_def suf_basic_inv split: prod.splits)

lemma self_inv: "suf_inv s \<Longrightarrow> suf_inv (apply_self m news res s)"
  unfolding apply_self_def Let_def
  by (rule foldl_keeps [where P = suf_inv], rule foldl_keeps [where P = suf_inv])
    (simp_all add: split_beta suf_add_inv suf_resolve_inv)

lemma suf_step_inv: "suf_inv s \<Longrightarrow> suf_inv (suf_step x s)"
proof (cases x)
  case (SufReload now)
  assume "suf_inv s"
  then show ?thesis by (auto simp: SufReload suf_load_def suf_inv_def shape_def split: option.splits)
qed (simp_all add: suf_basic_inv suf_clear_stagnation_def suf_assess_inv stagnation_inv self_inv daemon_threat_def)

interpretation suf_sys: op_system suf_step suf_inv
  by unfold_locales (rule suf_step_inv)

lemma suf_after_inv: "suf_inv (suf_after t0 ops)"
  unfolding suf_after_def by (rule suf_sys.inv_run) (simp add: suf_inv_def suf_load_def shape_def)

section \<open>Properties\<close>

text \<open>
  C22: the suffering state stays small and free of duplicates: after any sequence of operations, of the
  daemon, the assessment or the agent itself, at most five stressors are active, all unresolved and no
  two of the same type.
\<close>

theorem suf_at_most_five_distinct:
  "let xs = su_active (suf_after t0 ops) in
   length xs \<le> 5 \<and> distinct (map sf_type xs) \<and> list_all (\<lambda>x. \<not> sf_resolved x \<and> py_lower (sf_type x) = sf_type x) xs"
proof -
  have sh: "shape (su_active (suf_after t0 ops))" using suf_after_inv by (simp add: suf_inv_def)
  from shape_lower [OF sh] sh show ?thesis by (auto simp: Let_def shape_def max_stressors_def list_all_iff)
qed

text \<open>
  the daemon's protection against a crisis loop never acts: it resets the state only when five
  active stressors have at most two distinct types, and in no reachable state is that so; the state is
  left as it is however long the crisis lasts.
\<close>

theorem suf_crisis_reset_never:
  "\<not> loop_bug (suf_after t0 ops) \<and>
   snd (fst (crisis_check now agent (cycles, suf_after t0 ops))) = suf_after t0 ops"
proof -
  have sh: "shape (su_active (suf_after t0 ops))" using suf_after_inv by (simp add: suf_inv_def)
  then have "remdups (map sf_type (su_active (suf_after t0 ops))) = map sf_type (su_active (suf_after t0 ops))"
    by (simp add: shape_def distinct_remdups_id)
  then have "\<not> loop_bug (suf_after t0 ops)"
    unfolding loop_bug_def shape_active [OF sh] by (simp only: length_map) simp
  then show ?thesis by (simp add: crisis_check_def Let_def)
qed

end
