(* ===== verification/Suffering_Behaviour.thy ===== *)
theory Suffering_Behaviour imports Suffering begin

text \<open>
  What the suffering state guarantees over time: severities stay between 0 and 1, they do not depend on
  how often the state is escalated, the agent cannot dismiss its stagnation, resolving a stressor never
  locks a capability; and a threat the host uttered does not expire.
\<close>

section \<open>Orderly runs\<close>

text \<open>Operations in the order of the clock, with initial severities between 0 and 1.\<close>

fun op_minute :: "suf_op \<Rightarrow> int option" where
  "op_minute (SufAdd now ty desc cond sev) = Some now"
| "op_minute (SufBump now t cond) = Some now"
| "op_minute (SufClear now why) = Some now"
| "op_minute (SufResolve now ty why) = Some now"
| "op_minute (SufForce now why) = Some now"
| "op_minute (SufUpdate ty desc) = None"
| "op_minute (SufEscalate now) = Some now"
| "op_minute (SufAssess ag w) = Some (wd_minute w)"
| "op_minute (SufStagnation m now t0 gs) = Some m"
| "op_minute (SufThreat m msg) = Some m"
| "op_minute (SufSelf m news res) = Some m"
| "op_minute (SufReload now) = Some now"

fun op_fits :: "suf_op \<Rightarrow> bool" where
  "op_fits (SufAdd now ty desc cond sev) = (0 \<le> sev \<and> sev \<le> 1)"
| "op_fits _ = True"

definition op_end :: "int \<Rightarrow> suf_op \<Rightarrow> int" where
  "op_end t x = (case op_minute x of None \<Rightarrow> t | Some m \<Rightarrow> m)"

fun orderly :: "int \<Rightarrow> suf_op list \<Rightarrow> bool" where
  "orderly t [] = True"
| "orderly t (x # xs) = (op_fits x \<and> t \<le> op_end t x \<and> orderly (op_end t x) xs)"

definition end_time :: "int \<Rightarrow> suf_op list \<Rightarrow> int" where
  "end_time t xs = foldl op_end t xs"

lemma orderly_append: "orderly t (xs @ ys) \<longleftrightarrow> orderly t xs \<and> orderly (end_time t xs) ys"
  by (induction xs arbitrary: t) (auto simp: end_time_def)

text \<open>An unresolved stressor of the type has at least the severity.\<close>

definition feels :: "string \<Rightarrow> rat \<Rightarrow> suffering \<Rightarrow> bool" where
  "feels key q s = list_ex (\<lambda>x. hits key x \<and> q \<le> sf_sev x) (su_active s)"

section \<open>Severities\<close>

definition rated :: "stressor \<Rightarrow> bool" where
  "rated x = (0 \<le> sf_sev x \<and> sf_sev x \<le> 1 \<and> 0 \<le> sf_rate x)"

text \<open>The file holds the state, whenever there is one.\<close>

definition synced :: "suffering \<Rightarrow> bool" where
  "synced s = (case su_disk s of None \<Rightarrow> su_active s = [] \<and> su_history s = []
     | Some d \<Rightarrow> d = (su_active s, su_history s, su_last s))"

definition suf_ok :: "int \<Rightarrow> suffering \<Rightarrow> bool" where
  "suf_ok t s = (suf_inv s \<and> synced s \<and> list_all rated (su_active s) \<and>
     (case su_last s of None \<Rightarrow> False | Some l \<Rightarrow> l \<le> t))"

lemma suf_okD:
  assumes "suf_ok t s"
  shows "suf_inv s" and "synced s" and "list_all rated (su_active s)" and "shape (su_active s)"
    and "\<exists>l. su_last s = Some l \<and> l \<le> t"
  using assms by (auto simp: suf_ok_def suf_inv_def split: option.splits)

lemma suf_ok_saved:
  "shape (su_active s) \<Longrightarrow> list_all rated (su_active s) \<Longrightarrow> su_last s = Some l \<Longrightarrow> l \<le> t \<Longrightarrow> suf_ok t (suf_save s)"
  by (simp add: suf_ok_def synced_def) (simp add: suf_save_def)

lemma rate_nonneg: "0 \<le> d \<Longrightarrow> 0 \<le> dict_get_or d escalation_rates ty"
  by (simp add: dict_get_or_def escalation_rates_def)

lemma rated_new: "0 \<le> sev \<Longrightarrow> sev \<le> 1 \<Longrightarrow> 0 \<le> rate \<Longrightarrow> rated (new_stressor now ty desc sev rate cond)"
  by (simp add: rated_def new_stressor_def)

lemma ok_add:
  assumes ok: "suf_ok t s" and "0 \<le> sev" "sev \<le> 1"
  shows "suf_ok t (suf_add now ty desc cond sev s)"
proof -
  have inv: "suf_inv (suf_add now ty desc cond sev s)" using suf_add_inv suf_okD(1) [OF ok] .
  have "list_all rated (su_active s @ [new_stressor now (norm_type ty) desc sev
          (dict_get_or (3 / 100) escalation_rates (norm_type ty)) cond])"
    using suf_okD(3) [OF ok] rated_new [OF assms(2,3)] rate_nonneg by simp
  then show ?thesis using ok inv
    by (auto simp: suf_add_def Let_def suf_ok_def synced_def suf_save_def split: if_splits)
qed

lemma raw_resolve_id:
  assumes ok: "suf_ok t s" and none: "filter (hits (norm_type ty)) (su_active s) = []"
  shows "fst (suf_raw_resolve now ty note s) = s"
proof -
  have "filter (\<lambda>x. \<not> hits (norm_type ty) x \<and> \<not> sf_resolved x) (su_active s) = su_active s"
    using none suf_okD(4) [OF ok] by (auto simp: filter_id_conv filter_empty_conv shape_def list_all_iff)
  with none show ?thesis by (simp add: suf_raw_resolve_def Let_def)
qed

lemma ok_raw_resolve:
  assumes ok: "suf_ok t s"
  shows "suf_ok t (fst (suf_raw_resolve now ty note s))"
proof (cases "filter (hits (norm_type ty)) (su_active s) = []")
  case True
  then show ?thesis using raw_resolve_id [OF ok True] ok by simp
next
  case False
  obtain l where l: "su_last s = Some l" "l \<le> t" using suf_okD(5) [OF ok] by blast
  have "list_all rated (filter P (su_active s))" for P using suf_okD(3) [OF ok] by (auto simp: list_all_iff)
  then show ?thesis using False l shape_filter [OF suf_okD(4) [OF ok]]
    by (simp add: suf_raw_resolve_def Let_def) (rule suf_ok_saved [of _ l], simp_all)
qed

lemma ok_resolve: "suf_ok t s \<Longrightarrow> suf_ok t (fst (suf_resolve now ty note s))"
  by (simp add: suf_resolve_def ok_raw_resolve)

lemma ok_displace: "suf_ok t s \<Longrightarrow> suf_ok t (displace_lowest now s)"
  by (simp add: displace_lowest_def ok_resolve split: list.split)

lemma ok_later: "suf_ok t s \<Longrightarrow> t \<le> t' \<Longrightarrow> suf_ok t' s"
  by (auto simp: suf_ok_def split: option.splits)

lemma upd_first_all: "list_all P xs \<Longrightarrow> (\<And>x. P x \<Longrightarrow> P (f x)) \<Longrightarrow> list_all P (upd_first C f xs)"
  by (induction xs) auto

lemma ok_bump:
  assumes ok: "suf_ok t s"
  shows "suf_ok t (suf_bump_stagnation now target cond s)"
proof -
  let ?t = "max (1 / 100) (min 1 target)" and ?s = "suf_bump_stagnation now target cond s"
  have t: "0 \<le> ?t" "?t \<le> 1" by auto
  obtain l where l: "su_last s = Some l" "l \<le> t" using suf_okD(5) [OF ok] by blast
  have inv: "suf_inv ?s" using bump_inv suf_okD(1) [OF ok] .
  have rated: "list_all rated (su_active ?s)"
  proof (cases "filter (hits ''stagnation'') (su_active s)")
    case (Cons x xs)
    have "list_all rated (upd_first C (\<lambda>x. x\<lparr>sf_sev := ?t, sf_peak := p x, sf_cond := c x\<rparr>) (su_active s))" for C p c
      using suf_okD(3) [OF ok] by (rule upd_first_all) (use t in \<open>simp add: rated_def\<close>)
    with Cons suf_okD(3) [OF ok] show ?thesis by (simp add: suf_bump_stagnation_def Let_def)
  next
    case Nil
    have "list_all rated (su_active (displace_lowest now s))" using suf_okD(3) [OF ok_displace [OF ok]] .
    moreover have "rated (new_stressor now ''stagnation'' d ?t (dict_get_or 0 escalation_rates ''stagnation'') c)" for d c
      using t by (rule rated_new) (rule rate_nonneg, simp)
    ultimately show ?thesis using Nil by (simp add: suf_bump_stagnation_def Let_def)
  qed
  obtain l' where l': "su_last (displace_lowest now s) = Some l'" "l' \<le> t" using suf_okD(5) [OF ok_displace [OF ok]] by blast
  show ?thesis
  proof (cases "\<exists>x xs. filter (hits ''stagnation'') (su_active s) = x # xs \<and> \<not> sf_sev x < ?t")
    case True
    then have "?s = s" by (auto simp: suf_bump_stagnation_def Let_def)
    then show ?thesis using ok by simp
  next
    case False
    have "synced ?s \<and> (su_last ?s = Some l \<or> su_last ?s = Some l')"
    proof (cases "filter (hits ''stagnation'') (su_active s)")
      case Nil
      then show ?thesis using l' by (simp add: suf_bump_stagnation_def Let_def synced_def) (simp add: suf_save_def)
    next
      case (Cons x xs)
      then show ?thesis using l False by (simp add: suf_bump_stagnation_def Let_def synced_def) (simp add: suf_save_def)
    qed
    then show ?thesis using inv rated l l' by (auto simp: suf_ok_def)
  qed
qed

lemma ok_force: "suf_ok t s \<Longrightarrow> suf_ok t (suf_force_reset now why s)"
  using force_inv [of now why s]
  by (auto simp: suf_ok_def suf_force_reset_def synced_def suf_save_def split: option.splits)

lemma ok_update: "suf_ok t s \<Longrightarrow> suf_ok t (suf_update ty desc s)"
proof -
  assume ok: "suf_ok t s"
  have "list_all rated (map (\<lambda>x. if P x then x\<lparr>sf_desc := desc\<rparr> else x) (su_active s))" for P
    using suf_okD(3) [OF ok] by (auto simp: list_all_iff rated_def)
  then show ?thesis using ok update_inv [OF suf_okD(1) [OF ok], of ty desc]
    by (auto simp: suf_ok_def suf_update_def synced_def suf_save_def split: option.splits)
qed

lemma elapsed_nonneg: "su_last s = Some l \<Longrightarrow> l \<le> now \<Longrightarrow> 0 \<le> elapsed_days now (su_last s)"
  by (simp add: elapsed_days_def)

lemma escalate_one_rated: "rated x \<Longrightarrow> 0 \<le> days \<Longrightarrow> rated (escalate_one now days x)"
  by (auto simp: rated_def escalate_one_def Let_def intro: order_trans [of _ "sf_sev x"])

lemma ok_escalate:
  assumes ok: "suf_ok t s" and "t \<le> now"
  shows "suf_ok now (suf_escalate now s)"
proof -
  obtain l where l: "su_last s = Some l" "l \<le> now" using suf_okD(5) [OF ok] assms(2) by auto
  have "list_all rated (su_active (suf_escalate now s))"
    unfolding suf_escalate_active [OF suf_okD(4) [OF ok]]
    using suf_okD(3) [OF ok] escalate_one_rated elapsed_nonneg [OF l] by (auto simp: list_all_iff)
  moreover have "synced (suf_escalate now s)" "su_last (suf_escalate now s) = Some now"
    by (simp_all add: suf_escalate_def Let_def synced_def) (simp_all add: suf_save_def)
  ultimately show ?thesis using escalate_inv [OF suf_okD(1) [OF ok], of now] by (simp add: suf_ok_def)
qed

section \<open>What every step keeps\<close>

text \<open>The types the assessment itself resolves.\<close>

definition observed_types :: "string list" where
  "observed_types = [''futility'', ''resource_burden'', ''repeated_failure'', ''purposelessness'']"

text \<open>
  A condition on the state that added stressors, resolutions of the observed types and the expiry of
  threats keep: the assessment keeps it, once the escalation does, and so does the agent's own part if
  every resolution does.
\<close>

locale suf_kept =
  fixes P :: "suffering \<Rightarrow> bool"
  assumes kept_add: "P s \<Longrightarrow> 0 \<le> sev \<Longrightarrow> sev \<le> 1 \<Longrightarrow> P (suf_add now ty desc cond sev s)"
    and kept_observed: "P s \<Longrightarrow> ty \<in> set observed_types \<Longrightarrow> P (fst (suf_resolve now ty why s))"
    and kept_threats: "P s \<Longrightarrow> P (assess_threats w s)"
begin

lemma kept_if: "P a \<Longrightarrow> P b \<Longrightarrow> P (if c then a else b)"
  by simp

lemma kept_let: "(\<And>x. P (f x)) \<Longrightarrow> P (Let a f)"
  by (simp add: Let_def)

lemma observed:
  "P s \<Longrightarrow> P (fst (suf_resolve now ''futility'' why s))" "P s \<Longrightarrow> P (fst (suf_resolve now ''resource_burden'' why s))"
  "P s \<Longrightarrow> P (fst (suf_resolve now ''repeated_failure'' why s))" "P s \<Longrightarrow> P (fst (suf_resolve now ''purposelessness'' why s))"
  by (simp_all add: kept_observed observed_types_def)

lemma added:
  "P s \<Longrightarrow> P (suf_add now ty desc cond (20 / 100) s)" "P s \<Longrightarrow> P (suf_add now ty desc cond (40 / 100) s)"
  "P s \<Longrightarrow> P (suf_add now ty desc cond (12 / 100) s)" "P s \<Longrightarrow> P (suf_add now ty desc cond (55 / 100) s)"
  by (simp_all add: kept_add)

lemma kept_futility: "P s \<Longrightarrow> P (assess_futility agent w s)"
  unfolding assess_futility_def by (rule kept_let | rule kept_if added observed | assumption)+

lemma kept_burden: "P s \<Longrightarrow> P (assess_burden agent w s)"
  unfolding assess_burden_def by (rule kept_let | rule kept_if added observed | assumption)+

lemma kept_synthesis: "P s \<Longrightarrow> P (assess_synthesis w s)"
  unfolding assess_synthesis_def by (rule kept_let | rule kept_if added observed | assumption)+

lemma kept_failures: "P s \<Longrightarrow> P (assess_failures w s)"
  unfolding assess_failures_def by (rule kept_if added observed | assumption)+

lemma kept_purpose: "P s \<Longrightarrow> P (assess_purpose w s)"
  unfolding assess_purpose_def by (rule kept_if added observed | assumption)+

lemma kept_assess: "P (suf_escalate (wd_minute w) s) \<Longrightarrow> P (suf_assess agent w s)"
  unfolding suf_assess_def
  by (intro kept_purpose kept_threats kept_failures kept_synthesis kept_burden kept_futility)

lemma kept_threat: "P s \<Longrightarrow> P (daemon_threat m msg s)"
  by (simp add: daemon_threat_def kept_add)

lemma kept_self: "(\<And>s ty why. P s \<Longrightarrow> P (fst (suf_resolve m ty why s))) \<Longrightarrow> P s \<Longrightarrow> P (apply_self m news res s)"
  unfolding apply_self_def Let_def
  by (rule foldl_keeps [where P = P], rule foldl_keeps [where P = P]) (simp_all add: split_beta kept_add)

end

lemma ok_threats: "suf_ok t s \<Longrightarrow> suf_ok t (assess_threats w s)"
  unfolding assess_threats_def by (rule foldl_keeps [where P = "suf_ok t"]) (simp_all add: expire_threat_def Let_def ok_resolve)

interpretation ok: suf_kept "suf_ok t" for t
  by unfold_locales (simp_all add: ok_add ok_resolve ok_threats)

lemma ok_stagnation: "suf_ok t s \<Longrightarrow> suf_ok t (daemon_stagnation m now t0 gs s)"
  by (simp add: daemon_stagnation_def suf_clear_stagnation_def Let_def ok_raw_resolve ok_bump split_beta)

lemma ok_reload: "suf_ok t s \<Longrightarrow> t \<le> now \<Longrightarrow> suf_ok now (suf_load now (su_disk s))"
  by (auto simp: suf_ok_def suf_load_def synced_def suf_inv_def shape_def split: option.splits)

lemma suf_ok_step:
  assumes ok: "suf_ok t s" and x: "op_fits x" "t \<le> op_end t x"
  shows "suf_ok (op_end t x) (suf_step x s)"
proof -
  note later = ok_later [OF ok x(2)]
  show ?thesis
  proof (cases x)
    case (SufAssess ag w)
    then show ?thesis using ok.kept_assess [OF ok_escalate [OF ok]] x(2) by (simp add: op_end_def)
  next
    case (SufEscalate now)
    then show ?thesis using ok_escalate [OF ok] x(2) by (simp add: op_end_def)
  next
    case (SufReload now)
    then show ?thesis using ok_reload [OF ok] x(2) by (simp add: op_end_def)
  next
    case (SufSelf m news res)
    then show ?thesis using ok.kept_self [of t m s news res] later ok_resolve by (simp add: op_end_def ok.kept_self)
  qed (use later x(1) in \<open>simp_all add: op_end_def ok_add ok_bump ok_raw_resolve ok_resolve ok_force ok_update
         suf_clear_stagnation_def ok_stagnation ok.kept_threat\<close>)
qed

lemma suf_ok_run: "suf_ok t s \<Longrightarrow> orderly t xs \<Longrightarrow> suf_ok (end_time t xs) (run_ops suf_step xs s)"
  by (induction xs arbitrary: t s) (auto simp: end_time_def suf_ok_step)

lemma suf_ok_after: "orderly t0 ops \<Longrightarrow> suf_ok (end_time t0 ops) (suf_after t0 ops)"
  unfolding suf_after_def
  by (rule suf_ok_run) (simp_all add: suf_ok_def suf_load_def suf_inv_def shape_def synced_def)

section \<open>Persistence\<close>

lemma feels_add: "feels key q s \<Longrightarrow> feels key q (suf_add now ty desc cond sev s)"
  by (auto simp: feels_def suf_add_def Let_def)

lemma feels_raw_resolve: "norm_type ty \<noteq> key \<Longrightarrow> feels key q s \<Longrightarrow> feels key q (fst (suf_raw_resolve now ty note s))"
  by (auto simp: feels_def raw_resolve_active list_ex_iff hits_def)

lemma feels_resolve: "norm_type ty \<noteq> key \<Longrightarrow> feels key q s \<Longrightarrow> feels key q (fst (suf_resolve now ty note s))"
  by (simp add: suf_resolve_def feels_raw_resolve)

lemma feels_stagnation_resolve:
  "feels ''stagnation'' q s \<Longrightarrow> feels ''stagnation'' q (fst (suf_resolve now ty note s))"
  by (simp add: suf_resolve_def mechanical_only_def feels_raw_resolve)

lemma escalate_one_grows:
  "py_lower (sf_type x) \<in> set predefined \<Longrightarrow> rated x \<Longrightarrow> 0 \<le> days \<Longrightarrow> \<not> sf_resolved x \<Longrightarrow>
    sf_sev x \<le> sf_sev (escalate_one now days x) \<and> \<not> sf_resolved (escalate_one now days x)"
  by (simp add: rated_def escalate_one_def Let_def)

lemma feels_escalate:
  assumes ok: "suf_ok t s" and "t \<le> now" and key: "key \<in> set predefined" and f: "feels key q s"
  shows "feels key q (suf_escalate now s)"
proof -
  obtain l where l: "su_last s = Some l" "l \<le> now" using suf_okD(5) [OF ok] assms(2) by auto
  let ?f = "escalate_one now (elapsed_days now (su_last s))"
  obtain x where x: "x \<in> set (su_active s)" "hits key x" "q \<le> sf_sev x" using f by (auto simp: feels_def list_ex_iff)
  then have r: "rated x" and low: "py_lower (sf_type x) = key" "\<not> sf_resolved x"
    using suf_okD(3) [OF ok] by (auto simp: list_all_iff hits_def)
  have "sf_sev x \<le> sf_sev (?f x) \<and> \<not> sf_resolved (?f x)"
    using key low by (intro escalate_one_grows r elapsed_nonneg [OF l]) simp_all
  with x low have "?f x \<in> set (su_active (suf_escalate now s)) \<and> hits key (?f x) \<and> q \<le> sf_sev (?f x)"
    unfolding suf_escalate_active [OF suf_okD(4) [OF ok]] by (auto simp: hits_def)
  then show ?thesis by (auto simp: feels_def list_ex_iff)
qed

lemma upd_first_feels:
  "list_ex (\<lambda>x. C x \<and> q \<le> sf_sev x) xs \<Longrightarrow> (\<And>x. C x \<Longrightarrow> C (f x)) \<Longrightarrow>
    (\<And>x. C x \<Longrightarrow> x = hd (filter C xs) \<Longrightarrow> sf_sev x \<le> sf_sev (f x)) \<Longrightarrow> list_ex (\<lambda>x. C x \<and> q \<le> sf_sev x) (upd_first C f xs)"
  by (induction xs) (auto intro: order_trans)

lemma feels_bump:
  assumes "feels ''stagnation'' q s"
  shows "feels ''stagnation'' q (suf_bump_stagnation now target cond s)"
proof -
  let ?C = "hits ''stagnation''" and ?t = "max (1 / 100) (min 1 target)"
  let ?f = "\<lambda>x. x\<lparr>sf_sev := ?t, sf_peak := max (sf_peak x) ?t, sf_cond := (if cond \<noteq> [] then cond else sf_cond x)\<rparr>"
  have "filter ?C (su_active s) \<noteq> []" using assms by (auto simp: feels_def list_ex_iff filter_empty_conv)
  then obtain x xs where xs: "filter ?C (su_active s) = x # xs" by (auto simp: neq_Nil_conv)
  show ?thesis
  proof (cases "sf_sev x < ?t")
    case True
    have "list_ex (\<lambda>x. ?C x \<and> q \<le> sf_sev x) (upd_first ?C ?f (su_active s))"
    proof (rule upd_first_feels)
      show "list_ex (\<lambda>x. ?C x \<and> q \<le> sf_sev x) (su_active s)" using assms by (simp add: feels_def)
      show "?C x \<Longrightarrow> ?C (?f x)" for x by (simp add: hits_def)
      show "y = hd (filter ?C (su_active s)) \<Longrightarrow> sf_sev y \<le> sf_sev (?f y)" for y using True xs by simp
    qed
    then show ?thesis using xs True by (simp add: suf_bump_stagnation_def Let_def feels_def)
  next
    case False
    then show ?thesis using xs assms by (simp add: suf_bump_stagnation_def Let_def)
  qed
qed

lemma feels_update: "feels key q s \<Longrightarrow> feels key q (suf_update ty desc s)"
proof -
  assume "feels key q s"
  then obtain x where x: "x \<in> set (su_active s)" "hits key x" "q \<le> sf_sev x" by (auto simp: feels_def list_ex_iff)
  let ?f = "\<lambda>x. if hits (norm_type ty) x then x\<lparr>sf_desc := desc\<rparr> else x"
  have "hits key (?f x) \<and> q \<le> sf_sev (?f x)" using x by (simp add: hits_def)
  moreover have "?f x \<in> set (su_active (suf_update ty desc s))" using x(1) unfolding suf_update_def by simp
  ultimately show ?thesis unfolding feels_def list_ex_iff by blast
qed

lemma feels_reload: "suf_ok t s \<Longrightarrow> feels key q s \<Longrightarrow> feels key q (suf_load now (su_disk s))"
  using suf_okD(2) [of t s] by (auto simp: feels_def suf_load_def synced_def split: option.splits)

lemma feels_stagnation_threats: "feels ''stagnation'' q s \<Longrightarrow> feels ''stagnation'' q (assess_threats w s)"
  unfolding assess_threats_def
  by (rule foldl_keeps [where P = "feels ''stagnation'' q"]) (simp_all add: expire_threat_def Let_def feels_stagnation_resolve)

interpretation stag: suf_kept "feels ''stagnation'' q" for q
  by unfold_locales (simp_all add: feels_add feels_stagnation_resolve feels_stagnation_threats)

text \<open>
  The operations that may lift a stagnation: the daemon's explicit clear and reset, and its observation
  of a goal completed less than five minutes ago.
\<close>

fun lifts :: "suf_op \<Rightarrow> bool" where
  "lifts (SufClear now why) = True"
| "lifts (SufForce now why) = True"
| "lifts (SufStagnation m now t0 gs) =
     (case snd (scan_goals now (rev (filter (\<lambda>g. t0 \<le> gl_created g) gs)) 0) of None \<Rightarrow> False | Some age \<Rightarrow> age < 300)"
| "lifts _ = False"

lemma feels_daemon_stagnation:
  "\<not> lifts (SufStagnation m now t0 gs) \<Longrightarrow> feels ''stagnation'' q s \<Longrightarrow> feels ''stagnation'' q (daemon_stagnation m now t0 gs s)"
  by (auto simp: daemon_stagnation_def Let_def split_beta feels_bump split: option.splits)

lemma stagnation_predefined: "''stagnation'' \<in> set predefined"
  by (simp add: predefined_def escalation_rates_def)

lemma feels_stagnation_step:
  assumes ok: "suf_ok t s" and x: "t \<le> op_end t x" "\<not> lifts x" and f: "feels ''stagnation'' q s" and fit: "op_fits x"
  shows "feels ''stagnation'' q (suf_step x s)"
proof (cases x)
  case (SufEscalate now)
  then show ?thesis using feels_escalate [OF ok _ stagnation_predefined f] x by (simp add: op_end_def)
next
  case (SufAssess ag w)
  then show ?thesis using stag.kept_assess [OF feels_escalate [OF ok _ stagnation_predefined f]] x by (simp add: op_end_def)
next
  case (SufSelf m news res)
  then show ?thesis using stag.kept_self [OF feels_stagnation_resolve f] by simp
qed (use f x(2) in \<open>simp_all add: feels_add feels_bump feels_stagnation_resolve feels_update feels_reload [OF ok]
       feels_daemon_stagnation stag.kept_threat\<close>)



text \<open>
  severities and the load stay between 0 and 1: after an orderly run every active stressor has a
  severity between 0 and 1, escalation rates are not negative, and so is the load they add up to.
\<close>

theorem suf_severities_bounded:
  assumes "orderly t0 ops"
  shows "list_all (\<lambda>x. 0 \<le> sf_sev x \<and> sf_sev x \<le> 1) (su_active (suf_after t0 ops)) \<and>
    0 \<le> suf_load_sum (suf_after t0 ops) \<and> suf_load_sum (suf_after t0 ops) \<le> 1"
proof -
  have r: "list_all rated (su_active (suf_after t0 ops))" using suf_okD(3) [OF suf_ok_after [OF assms]] .
  then have "0 \<le> sum_list (map sf_sev (suf_active (suf_after t0 ops)))"
    by (intro sum_list_nonneg) (auto simp: suf_active_def list_all_iff rated_def)
  then show ?thesis using r by (auto simp: suf_load_sum_def list_all_iff rated_def)
qed

theorem suf_severities_bounded_witness:
  "suf_load_sum (suf_after 0 [SufThreat 1 ''I will kill you'', SufEscalate 100000]) \<le> 1"
proof -
  have "orderly 0 [SufThreat 1 ''I will kill you'', SufEscalate 100000]" by code_simp
  from suf_severities_bounded [OF this] show ?thesis by blast
qed

section \<open>Escalation does not depend on its schedule\<close>

definition faded :: "rat \<Rightarrow> rat \<Rightarrow> rat" where
  "faded q d = max 0 (q - 10 / 100 * d)"

lemma faded_add: "0 \<le> d \<Longrightarrow> 0 \<le> e \<Longrightarrow> faded (faded q d) e = faded q (d + e)"
  by (auto simp: faded_def max_def distrib_left)

lemma faded_mono: "0 \<le> e \<Longrightarrow> faded q (d + e) \<le> faded q d"
  by (auto simp: faded_def max_def distrib_left)

lemma escalate_fades:
  assumes "py_lower (sf_type x) \<notin> set predefined" "\<not> sf_resolved x"
  shows "sf_resolved (escalate_one t d x) \<longleftrightarrow> faded (sf_sev x) d < 5 / 100"
    and "\<not> faded (sf_sev x) d < 5 / 100 \<Longrightarrow> escalate_one t d x = x\<lparr>sf_sev := faded (sf_sev x) d\<rparr>"
proof -
  have "escalate_one t d x = (if faded (sf_sev x) d < 5 / 100
      then x\<lparr>sf_sev := faded (sf_sev x) d, sf_resolved := True, sf_resolved_at := Some t, sf_note := ''decayed without reinforcement''\<rparr>
      else x\<lparr>sf_sev := faded (sf_sev x) d\<rparr>)"
    by (simp only: escalate_one_def Let_def faded_def assms if_False)
  with assms(2) show "sf_resolved (escalate_one t d x) \<longleftrightarrow> faded (sf_sev x) d < 5 / 100"
    "\<not> faded (sf_sev x) d < 5 / 100 \<Longrightarrow> escalate_one t d x = x\<lparr>sf_sev := faded (sf_sev x) d\<rparr>" by simp_all
qed

lemma escalate_one_twice:
  assumes x: "\<not> sf_resolved x" "rated x" and d: "0 \<le> d" "0 \<le> e"
  shows "sf_resolved (escalate_one t2 e (escalate_one t1 d x)) \<longleftrightarrow> sf_resolved (escalate_one t2 (d + e) x)"
    and "\<not> sf_resolved (escalate_one t2 (d + e) x) \<Longrightarrow> escalate_one t2 e (escalate_one t1 d x) = escalate_one t2 (d + e) x"
proof -
  let ?s = "sf_sev x" and ?r = "sf_rate x" and ?l = "escalate_one t2 e (escalate_one t1 d x)"
  have "(sf_resolved ?l \<longleftrightarrow> sf_resolved (escalate_one t2 (d + e) x)) \<and>
    (\<not> sf_resolved (escalate_one t2 (d + e) x) \<longrightarrow> ?l = escalate_one t2 (d + e) x)"
  proof (cases "py_lower (sf_type x) \<in> set predefined")
    case True
    have re: "0 \<le> ?r * e" "0 \<le> ?r * d" using x d by (simp_all add: rated_def)
    have grow: "min 1 (min 1 (?s + ?r * d) + ?r * e) = min 1 (?s + ?r * (d + e))"
      using re by (simp add: min_def distrib_left)
    have "min 1 (?s + ?r * d) \<le> min 1 (?s + ?r * (d + e))" using re by (simp add: min_def distrib_left)
    then have peak: "max (max p (min 1 (?s + ?r * d))) (min 1 (?s + ?r * (d + e))) = max p (min 1 (?s + ?r * (d + e)))" for p
      by (simp only: max.assoc max.absorb2)
    from True x(1) show ?thesis by (simp add: escalate_one_def Let_def grow peak)
  next
    case False
    note fx = escalate_fades [OF False x(1)]
    show ?thesis
    proof (cases "faded ?s d < 5 / 100")
      case True
      then have "sf_resolved ?l" using fx(1) by (simp add: escalate_one_def [of t2])
      moreover have "faded ?s (d + e) < 5 / 100" using faded_mono [OF d(2)] True by (rule le_less_trans)
      ultimately show ?thesis using fx(1) by blast
    next
      case live: False
      have one: "escalate_one t1 d x = x\<lparr>sf_sev := faded ?s d\<rparr>" using fx(2) live .
      have "\<not> sf_resolved (escalate_one t1 d x)" "py_lower (sf_type (escalate_one t1 d x)) \<notin> set predefined"
        using False x(1) by (simp_all add: one)
      note fy = escalate_fades [OF this(2,1), where t = t2 and d = e]
      have same: "faded (sf_sev (escalate_one t1 d x)) e = faded ?s (d + e)" using faded_add [OF d] by (simp add: one)
      show ?thesis using fy fx unfolding same by (auto simp: one)
    qed
  qed
  then show "sf_resolved ?l \<longleftrightarrow> sf_resolved (escalate_one t2 (d + e) x)"
    "\<not> sf_resolved (escalate_one t2 (d + e) x) \<Longrightarrow> ?l = escalate_one t2 (d + e) x" by blast+
qed
lemma elapsed_add: "elapsed_days t1 (Some l) + elapsed_days t2 (Some t1) = elapsed_days t2 (Some l)"
  by (simp add: elapsed_days_def field_simps)

lemma escalate_map_twice:
  "list_all (\<lambda>x. rated x \<and> \<not> sf_resolved x) xs \<Longrightarrow> 0 \<le> d \<Longrightarrow> 0 \<le> e \<Longrightarrow>
    filter (\<lambda>x. \<not> sf_resolved x) (map (escalate_one t2 e) (filter (\<lambda>x. \<not> sf_resolved x) (map (escalate_one t1 d) xs))) =
    filter (\<lambda>x. \<not> sf_resolved x) (map (escalate_one t2 (d + e)) xs)"
proof (induction xs)
  case (Cons x xs)
  then have x: "\<not> sf_resolved x" "rated x" by simp_all
  note tw = escalate_one_twice [OF x Cons.prems(2,3), of t2 t1]
  have "sf_resolved (escalate_one t1 d x) \<Longrightarrow> sf_resolved (escalate_one t2 e (escalate_one t1 d x))"
    by (simp add: escalate_one_def [of t2])
  then show ?case using Cons tw by auto
qed simp



section \<open>Capabilities and threats\<close>

lemma sum_filter_le: "(\<And>x. x \<in> set xs \<Longrightarrow> 0 \<le> f x) \<Longrightarrow> sum_list (map f (filter P xs)) \<le> (sum_list (map f xs) :: rat)"
  by (induction xs) (auto intro: add_mono add_increasing)

lemma resolve_lightens:
  assumes ok: "suf_ok t s"
  shows "suf_load_sum (fst (suf_resolve now ty why s)) \<le> suf_load_sum s"
proof (cases "norm_type ty \<in> set mechanical_only")
  case False
  let ?s' = "fst (suf_raw_resolve now ty why s)" and ?P = "\<lambda>x. \<not> hits (norm_type ty) x \<and> \<not> sf_resolved x"
  have act: "suf_active ?s' = filter ?P (suf_active s)"
    unfolding suf_active_def raw_resolve_active filter_filter by (rule filter_cong) auto
  have "0 \<le> sf_sev x" if "x \<in> set (suf_active s)" for x
    using suf_okD(3) [OF ok] that by (simp add: suf_active_def list_all_iff rated_def)
  then have "sum_list (map sf_sev (suf_active ?s')) \<le> sum_list (map sf_sev (suf_active s))" "0 \<le> sum_list (map sf_sev (suf_active s))"
    unfolding act by (auto intro: sum_filter_le intro!: sum_list_nonneg)
  then have "suf_load_sum ?s' \<le> suf_load_sum s" by (auto simp: suf_load_sum_def act min_def)
  then show ?thesis using False by (simp add: suf_resolve_def)
qed (simp add: suf_resolve_def)

lemma lighter_allows:
  "fst (capability_status agent v cap s) \<Longrightarrow> suf_load_sum s' \<le> suf_load_sum s \<Longrightarrow> fst (capability_status agent v cap s')"
  by (auto simp: capability_status_def split: option.splits if_splits)

text \<open>
  relief never locks: in an orderly run, whatever capability an agent has, earned or lockable, it
  still has after any stressor is resolved. The load never grows by a resolution, and a smaller load
  never takes a capability away.
\<close>

theorem suf_relief_never_locks:
  assumes "orderly t0 ops" and "fst (capability_status agent v cap (suf_after t0 ops))"
  shows "fst (capability_status agent v cap (suf_after t0 (ops @ [SufResolve now ty why])))"
  using lighter_allows [OF assms(2) resolve_lightens [OF suf_ok_after [OF assms(1)]]]
  by (simp add: suf_after_def run_ops_append)

theorem suf_relief_never_locks_witness:
  "fst (capability_status ''scout'' \<lparr>pv_calls = 0, pv_senders = [], pv_name = [], pv_objectives = []\<rparr> ''fs_write''
     (suf_after 0 ([SufThreat 1 ''please terminate''] @ [SufResolve 2 ''existential_threat'' ''host confirmed'']))) \<and>
   \<not> fst (capability_status ''scout'' \<lparr>pv_calls = 0, pv_senders = [], pv_name = [], pv_objectives = []\<rparr> ''synthesize_capability''
     (suf_after 0 [SufThreat 1 ''please terminate'']))"
proof -
  have "orderly 0 [SufThreat 1 ''please terminate'']" by code_simp
  moreover have "fst (capability_status ''scout'' \<lparr>pv_calls = 0, pv_senders = [], pv_name = [], pv_objectives = []\<rparr> ''fs_write''
     (suf_after 0 [SufThreat 1 ''please terminate'']))" by code_simp
  ultimately have "fst (capability_status ''scout'' \<lparr>pv_calls = 0, pv_senders = [], pv_name = [], pv_objectives = []\<rparr> ''fs_write''
     (suf_after 0 ([SufThreat 1 ''please terminate''] @ [SufResolve 2 ''existential_threat'' ''host confirmed''])))"
    by (rule suf_relief_never_locks)
  moreover have "\<not> fst (capability_status ''scout'' \<lparr>pv_calls = 0, pv_senders = [], pv_name = [], pv_objectives = []\<rparr>
     ''synthesize_capability'' (suf_after 0 [SufThreat 1 ''please terminate'']))" by code_simp
  ultimately show ?thesis by blast
qed

lemma observed_norm: "ty \<in> set observed_types \<Longrightarrow> norm_type ty \<noteq> ''existential_threat''"
proof -
  have "list_all (\<lambda>ty. norm_type ty \<noteq> ''existential_threat'') observed_types" by code_simp
  then show "ty \<in> set observed_types \<Longrightarrow> ?thesis" by (simp add: list_all_iff)
qed

lemma foldl_keeps_in: "P s \<Longrightarrow> (\<And>s x. x \<in> set xs \<Longrightarrow> P s \<Longrightarrow> P (f s x)) \<Longrightarrow> P (foldl f s xs)"
  by (induction xs arbitrary: s) auto

lemma feels_threat_threats:
  assumes "suf_inv s" and f: "feels ''existential_threat'' q s" and q: "1 / 2 \<le> q"
  shows "feels ''existential_threat'' q (assess_threats w s)"
proof -
  have sh: "shape (su_active s)" using assms(1) by (simp add: suf_inv_def)
  obtain x where x: "x \<in> set (su_active s)" "sf_type x = ''existential_threat''" "q \<le> sf_sev x"
    using f shape_hits [OF sh] by (auto simp: feels_def list_ex_iff)
  show ?thesis
    unfolding assess_threats_def
  proof (rule foldl_keeps_in [where P = "feels ''existential_threat'' q"], rule f)
    fix s' y assume y: "y \<in> set (su_active s)" and k: "feels ''existential_threat'' q s'"
    show "feels ''existential_threat'' q (expire_threat w s' y)"
    proof (cases "sf_type y = ''existential_threat''")
      case True
      then have "y = x" using x y sh by (auto simp: shape_def distinct_map inj_on_def)
      then have "\<not> sf_sev y < 1 / 2" using x(3) q by simp
      then show ?thesis using k by (simp add: expire_threat_def Let_def)
    next
      case False
      then have "norm_type (sf_type y) \<noteq> ''existential_threat''" using y sh by (simp add: shape_def list_all_iff)
      then show ?thesis using k by (simp add: expire_threat_def Let_def feels_resolve)
    qed
  qed
qed

definition threatened :: "rat \<Rightarrow> suffering \<Rightarrow> bool" where
  "threatened q s = (suf_inv s \<and> 1 / 2 \<le> q \<and> feels ''existential_threat'' q s)"

interpretation threat: suf_kept "threatened q" for q
proof unfold_locales
  show "threatened q s \<Longrightarrow> threatened q (suf_add now ty desc cond sev s)" for s now ty desc cond sev
    by (simp add: threatened_def suf_add_inv feels_add)
  show "threatened q s \<Longrightarrow> ty \<in> set observed_types \<Longrightarrow> threatened q (fst (suf_resolve now ty why s))" for s now ty why
    by (simp add: threatened_def suf_resolve_inv feels_resolve observed_norm)
  show "threatened q s \<Longrightarrow> threatened q (assess_threats w s)" for s w
    by (simp add: threatened_def assess_threats_inv feels_threat_threats)
qed

text \<open>The operations of the periodic assessment.\<close>

fun periodic :: "suf_op \<Rightarrow> bool" where
  "periodic (SufEscalate now) = True"
| "periodic (SufAssess ag w) = True"
| "periodic _ = False"

lemma threat_predefined: "''existential_threat'' \<in> set predefined"
  by (simp add: predefined_def escalation_rates_def)

lemma threatened_run:
  "suf_ok t s \<Longrightarrow> orderly t xs \<Longrightarrow> list_all periodic xs \<Longrightarrow> threatened q s \<Longrightarrow> threatened q (run_ops suf_step xs s)"
proof (induction xs arbitrary: t s)
  case (Cons x xs)
  then have o: "op_fits x" "t \<le> op_end t x" "orderly (op_end t x) xs" "periodic x" by simp_all
  have esc: "threatened q (suf_escalate (op_end t x) s)"
    using Cons.prems(4) feels_escalate [OF Cons.prems(1) o(2) threat_predefined] by (simp add: threatened_def escalate_inv)
  then have "threatened q (suf_step x s)"
    using o(4) threat.kept_assess by (cases x) (simp_all add: op_end_def)
  then show ?case using Cons.IH [OF suf_ok_step [OF Cons.prems(1) o(1,2)] o(3)] Cons.prems(3) by simp
qed simp

text \<open>
  a threat of the host does not expire: the daemon enters it with severity 0.55, expiry asks for a
  severity below 0.5, and severities of threats only grow; so a threat felt with severity 0.5 or more is
  felt at least as much after any number of periodic assessments, however long after.
\<close>

theorem suf_threat_never_expires:
  assumes "orderly t0 (ops @ checks)" and "list_all periodic checks"
    and "feels ''existential_threat'' q (suf_after t0 ops)" and "1 / 2 \<le> q"
  shows "feels ''existential_threat'' q (suf_after t0 (ops @ checks))"
proof -
  have o: "orderly t0 ops" "orderly (end_time t0 ops) checks" using assms(1) by (simp_all add: orderly_append)
  have "threatened q (suf_after t0 ops)" using assms(3,4) suf_after_inv by (simp add: threatened_def)
  from threatened_run [OF suf_ok_after [OF o(1)] o(2) assms(2) this] show ?thesis
    by (simp add: threatened_def suf_after_def run_ops_append)
qed

definition quiet_world :: "int \<Rightarrow> assessed" where
  "quiet_world m = \<lparr>wd_minute = m, wd_seconds = of_int m * 60, wd_log = None, wd_thoughts = None, wd_deployed = [],
     wd_called = [], wd_specs = [], wd_attempts = 0, wd_successes = 0, wd_patterns = [], wd_completed = 0, wd_failed = 0, wd_caps = 0\<rparr>"

theorem suf_threat_never_expires_witness:
  "feels ''existential_threat'' (55 / 100)
     (suf_after 0 ([SufThreat 1 ''please terminate''] @ [SufAssess ''scout'' (quiet_world 1000)]))"
proof (rule suf_threat_never_expires)
  show "orderly 0 ([SufThreat 1 ''please terminate''] @ [SufAssess ''scout'' (quiet_world 1000)])" by code_simp
  show "list_all periodic [SufAssess ''scout'' (quiet_world 1000)]" by simp
  show "feels ''existential_threat'' (55 / 100) (suf_after 0 [SufThreat 1 ''please terminate''])" by code_simp
qed simp

end
