(* ===== verification/Lineage.thy ===== *)
theory Lineage imports Scheduler Transactions begin

text \<open>
  The lineage graph, \<open>agents/lineage.py\<close>: recorded edges between agents, the ancestor chain, the tree of
  descendants, what a failing agent puts at risk, and the longest chain of dependent tasks. The registry,
  the scheduler and the transaction coordinator the graph asks are arguments, absent when not attached;
  the file \<open>lineage.json\<close> is the field \<open>ln_disk\<close>.

  The lemmas show that the recursions, which follow cyclic graphs, end; that the agents at risk are
  exactly those reachable from the failing one; and that the critical path is a longest chain.
\<close>

section \<open>Edges\<close>

record lineage_edge =
  le_id :: string
  le_parent :: string
  le_child :: string
  le_type :: string
  le_meta :: payload
  le_time :: time

record lineage =
  ln_edges :: "lineage_edge list"
  ln_disk :: "lineage_edge list option"

definition ln_load :: "lineage_edge list option \<Rightarrow> lineage" where
  "ln_load disk = \<lparr>ln_edges = (case disk of None \<Rightarrow> [] | Some es \<Rightarrow> es), ln_disk = disk\<rparr>"

definition ln_save :: "lineage \<Rightarrow> lineage" where
  "ln_save g = g\<lparr>ln_disk := Some (ln_edges g)\<rparr>"

definition ln_record_edge :: "string \<Rightarrow> time \<Rightarrow> string \<Rightarrow> string \<Rightarrow> string \<Rightarrow> payload \<Rightarrow> lineage \<Rightarrow> lineage \<times> string" where
  "ln_record_edge new now parent child kind meta g =
     (ln_save (g\<lparr>ln_edges := ln_edges g @ [\<lparr>le_id = new, le_parent = parent, le_child = child, le_type = kind,
        le_meta = meta, le_time = now\<rparr>]\<rparr>), new)"

definition ln_list_edges :: "string option \<Rightarrow> lineage \<Rightarrow> lineage_edge list" where
  "ln_list_edges agent g =
     (if truthy_str agent then filter (\<lambda>e. Some (le_parent e) = agent \<or> Some (le_child e) = agent) (ln_edges g)
      else ln_edges g)"

definition ln_lineage :: "registry option \<Rightarrow> string \<Rightarrow> agent list" where
  "ln_lineage reg i = (case reg of None \<Rightarrow> [] | Some r \<Rightarrow> lineage_loop (r_agents r) (Some i) [])"

section \<open>Descendants\<close>

text \<open>A node of the call tree: the agent's id, its record if it has one, its outgoing edges, its children.\<close>

datatype call_tree = CallNode string "agent option" "lineage_edge list" "(string \<times> call_tree) list"

lemma unseen_less:
  "i \<in> A \<Longrightarrow> i \<notin> set seen \<Longrightarrow> finite A \<Longrightarrow> card (A - set (i # seen)) < card (A - set seen)"
  by (rule psubset_card_mono) auto

function build_node :: "registry \<Rightarrow> lineage_edge list \<Rightarrow> string \<Rightarrow> string list \<Rightarrow> call_tree" where
  "build_node r es i visited =
     (if i \<in> set visited then CallNode i None [] []
      else let outgoing = filter (\<lambda>e. le_parent e = i) es
        in CallNode i (dict_get (r_agents r) i) outgoing
             (foldl (\<lambda>ch e. dict_set (le_child e) (build_node r es (le_child e) (i # visited)) ch) [] outgoing))"
  by pat_completeness auto
termination
proof (relation "measure (\<lambda>(r, es, i, visited). card (le_parent ` set es - set visited))")
  fix r :: registry and es :: "lineage_edge list" and i visited outgoing e
  assume "i \<notin> set visited" "outgoing = filter (\<lambda>e. le_parent e = i) es" "e \<in> set outgoing"
  then have "i \<in> le_parent ` set es" by auto
  from unseen_less [OF this \<open>i \<notin> set visited\<close>]
  show "((r, es, le_child e, i # visited), r, es, i, visited) \<in> measure (\<lambda>(r, es, i, visited). card (le_parent ` set es - set visited))"
    by simp
qed simp

declare build_node.simps [simp del]

primrec count_descendants :: "call_tree \<Rightarrow> nat" where
  "count_descendants (CallNode i a es ch) = sum_list (map (\<lambda>(c, n). 1 + n) (map (map_prod id count_descendants) ch))"

primrec collect_descendants :: "call_tree \<Rightarrow> string list" where
  "collect_descendants (CallNode i a es ch) = concat (map (\<lambda>(c, ds). c # ds) (map (map_prod id collect_descendants) ch))"

text \<open>The tree with its \<open>descendant_count\<close>.\<close>

definition ln_subtree :: "registry option \<Rightarrow> string \<Rightarrow> lineage \<Rightarrow> (call_tree \<times> nat) option" where
  "ln_subtree reg i g =
     (case reg of None \<Rightarrow> None
      | Some r \<Rightarrow> let node = build_node r (ln_edges g) i [] in Some (node, count_descendants node))"

record blast =
  bl_agent :: string
  bl_affected :: "string list"
  bl_count :: nat
  bl_locks :: "string list"
  bl_txns :: "string list"
  bl_tasks :: "string list"

definition ln_blast_radius :: "registry option \<Rightarrow> sched option \<Rightarrow> coord option \<Rightarrow> string \<Rightarrow> lineage \<Rightarrow> blast" where
  "ln_blast_radius reg sch txns i g =
     (let affected = (case ln_subtree reg i g of None \<Rightarrow> [] | Some (node, n) \<Rightarrow> collect_descendants node)
      in \<lparr>bl_agent = i, bl_affected = affected, bl_count = length affected,
          bl_locks = (case reg of None \<Rightarrow> []
                      | Some r \<Rightarrow> (case dict_get (r_agents r) i of None \<Rightarrow> [] | Some a \<Rightarrow> keys (a_locks a))),
          bl_txns = (case txns of None \<Rightarrow> []
                     | Some c \<Rightarrow> map fst (filter (\<lambda>(x, t). x_agent t = i \<and> x_status t = TxOpen) (x_txns c))),
          bl_tasks = (case sch of None \<Rightarrow> []
                      | Some s \<Rightarrow> map t_id (filter (\<lambda>t. t_status t = Queued \<or> t_status t = Running) (sch_list_tasks (Some i) 200 s)))\<rparr>)"

section \<open>The critical path\<close>

text \<open>For each task id the tasks that list it in \<open>depends_on\<close>, in the order of the listing.\<close>

definition add_forward :: "string \<Rightarrow> (string, string list) dict \<Rightarrow> string \<Rightarrow> (string, string list) dict" where
  "add_forward i fw dep = dict_set dep (dict_get_or [] fw dep @ [i]) fw"

definition forward_map :: "task list \<Rightarrow> (string, string list) dict" where
  "forward_map ts = foldl (\<lambda>fw t. foldl (add_forward (t_id t)) fw (t_depends t)) [] ts"

function longest_path :: "(string, string list) dict \<Rightarrow> string \<Rightarrow> string list \<Rightarrow> string list" where
  "longest_path fw i visited =
     (if i \<in> set visited then [i]
      else case dict_get_or [] fw i of
        [] \<Rightarrow> [i]
      | s # ss \<Rightarrow> i # foldl (\<lambda>best x. let path = longest_path fw x (i # visited)
                              in if length best < length path then path else best) [] (s # ss))"
  by pat_completeness auto
termination
proof (relation "measure (\<lambda>(fw, i, visited). card (set (keys fw) - set visited))")
  fix fw :: "(string, string list) dict" and i :: string and visited :: "string list" and s ss x
  assume "i \<notin> set visited" and s: "dict_get_or [] fw i = s # ss"
  have "dict_get fw i \<noteq> None" using s by (auto simp: dict_get_or_def split: option.splits)
  then have "i \<in> set (keys fw)" unfolding dict_get_None by simp
  then show "((fw, x, i # visited), fw, i, visited) \<in> measure (\<lambda>(fw, i, visited). card (set (keys fw) - set visited))"
    using unseen_less [of i "set (keys fw)" visited] \<open>i \<notin> set visited\<close> by (simp del: set_map)
qed simp

declare longest_path.simps [simp del]

definition ln_critical_path :: "sched option \<Rightarrow> string \<Rightarrow> string list" where
  "ln_critical_path sch i =
     (case sch of None \<Rightarrow> [i] | Some s \<Rightarrow> longest_path (forward_map (sch_list_tasks None 1000 s)) i [])"

section \<open>Reachability\<close>

definition edge_rel :: "lineage_edge list \<Rightarrow> (string \<times> string) set" where
  "edge_rel es = {(le_parent e, le_child e) |e. e \<in> set es}"

text \<open>The edges that leave vertices not visited.\<close>

definition unvisited :: "(string \<times> string) set \<Rightarrow> string set \<Rightarrow> (string \<times> string) set" where
  "unvisited r v = {(x, y). (x, y) \<in> r \<and> x \<notin> v}"

text \<open>A walk of one or more edges can be cut at the last visit of its first vertex.\<close>

lemma trancl_last_visit:
  "(i, b) \<in> r\<^sup>+ \<Longrightarrow> \<exists>c. (i, c) \<in> r \<and> (c = b \<or> (c, b) \<in> (unvisited r {i})\<^sup>+)"
proof (induction rule: trancl_induct)
  case (step y z)
  show ?case
  proof (cases "y = i")
    case False
    then have "(y, z) \<in> unvisited r {i}" using step.hyps(2) by (simp add: unvisited_def)
    with step.IH show ?thesis by (blast intro: trancl_into_trancl)
  qed (use step.hyps(2) in blast)
qed blast

lemma unvisited_insert: "unvisited (unvisited r v) {i} = unvisited r (insert i v)"
  by (auto simp: unvisited_def)

lemma trancl_from_visited: "i \<in> v \<Longrightarrow> (i, b) \<notin> (unvisited r v)\<^sup>+"
  by (auto simp: unvisited_def dest: tranclD)

lemma reach_step:
  assumes "i \<notin> v"
  shows "(i, b) \<in> (unvisited r v)\<^sup>+ \<longleftrightarrow> (\<exists>c. (i, c) \<in> r \<and> (c = b \<or> (c, b) \<in> (unvisited r (insert i v))\<^sup>+))"
proof
  assume "(i, b) \<in> (unvisited r v)\<^sup>+"
  from trancl_last_visit [OF this] show "\<exists>c. (i, c) \<in> r \<and> (c = b \<or> (c, b) \<in> (unvisited r (insert i v))\<^sup>+)"
    unfolding unvisited_insert by (auto simp: unvisited_def)
next
  assume "\<exists>c. (i, c) \<in> r \<and> (c = b \<or> (c, b) \<in> (unvisited r (insert i v))\<^sup>+)"
  then obtain c where c: "(i, c) \<in> r" "c = b \<or> (c, b) \<in> (unvisited r (insert i v))\<^sup>+" by blast
  have "(unvisited r (insert i v))\<^sup>+ \<subseteq> (unvisited r v)\<^sup>+" by (rule trancl_mono_subset) (auto simp: unvisited_def)
  moreover have "(i, c) \<in> unvisited r v" using c(1) assms by (simp add: unvisited_def)
  ultimately show "(i, b) \<in> (unvisited r v)\<^sup>+" using c(2) by (blast intro: trancl_into_trancl2)
qed

text \<open>The children of a node: one entry per distinct child, with the node built for it.\<close>

lemma children_entries:
  "set (foldl (\<lambda>ch e. dict_set (le_child e) (f (le_child e)) ch) d es) \<subseteq> set d \<union> (\<lambda>e. (le_child e, f (le_child e))) ` set es"
proof (induction es arbitrary: d)
  case (Cons e es)
  have "set (dict_set (le_child e) (f (le_child e)) d) \<subseteq> insert (le_child e, f (le_child e)) (set d)"
    by (induction d) auto
  then show ?case using Cons [of "dict_set (le_child e) (f (le_child e)) d"] by auto
qed simp

lemma children_keys:
  "set (keys (foldl (\<lambda>ch e. dict_set (le_child e) (f (le_child e)) ch) d es)) = set (keys d) \<union> le_child ` set es"
  by (induction es arbitrary: d) (auto simp: keys_set simp del: set_map split: if_splits)

lemma children_set:
  "set (foldl (\<lambda>ch e. dict_set (le_child e) (f (le_child e)) ch) [] es) = (\<lambda>e. (le_child e, f (le_child e))) ` set es"
proof
  show "set (foldl (\<lambda>ch e. dict_set (le_child e) (f (le_child e)) ch) [] es) \<subseteq> (\<lambda>e. (le_child e, f (le_child e))) ` set es"
    using children_entries [of f "[]" es] by simp
  show "(\<lambda>e. (le_child e, f (le_child e))) ` set es \<subseteq> set (foldl (\<lambda>ch e. dict_set (le_child e) (f (le_child e)) ch) [] es)"
  proof
    fix p assume "p \<in> (\<lambda>e. (le_child e, f (le_child e))) ` set es"
    then obtain e where e: "e \<in> set es" "p = (le_child e, f (le_child e))" by blast
    then have "le_child e \<in> set (keys (foldl (\<lambda>ch e. dict_set (le_child e) (f (le_child e)) ch) [] es))"
      unfolding children_keys by simp
    then obtain t where t: "(le_child e, t) \<in> set (foldl (\<lambda>ch e. dict_set (le_child e) (f (le_child e)) ch) [] es)" by auto
    then have "t = f (le_child e)" using children_entries [of f "[]" es] by auto
    then show "p \<in> set (foldl (\<lambda>ch e. dict_set (le_child e) (f (le_child e)) ch) [] es)" using t e(2) by simp
  qed
qed

lemma collect_node: "set (collect_descendants (CallNode i a es ch)) = {b. \<exists>(c, t) \<in> set ch. b = c \<or> b \<in> set (collect_descendants t)}"
  by force

lemma collect_reaches:
  "set (collect_descendants (build_node r es i visited)) = {b. (i, b) \<in> (unvisited (edge_rel es) (set visited))\<^sup>+}"
proof (induction r es i visited rule: build_node.induct)
  case (1 r es i visited)
  show ?case
  proof (cases "i \<in> set visited")
    case True
    then show ?thesis by (simp add: build_node.simps [of r es i visited] trancl_from_visited)
  next
    case False
    let ?out = "filter (\<lambda>e. le_parent e = i) es"
    have IH: "set (collect_descendants (build_node r es (le_child e) (i # visited))) =
        {b. (le_child e, b) \<in> (unvisited (edge_rel es) (insert i (set visited)))\<^sup>+}" if "e \<in> set ?out" for e
      using 1 [OF False refl that] by simp
    have "set (collect_descendants (build_node r es i visited)) =
        {b. \<exists>e \<in> set ?out. b = le_child e \<or> b \<in> set (collect_descendants (build_node r es (le_child e) (i # visited)))}"
      using False unfolding build_node.simps [of r es i visited] Let_def
      by (simp add: children_set [of "\<lambda>c. build_node r es c (i # visited)"] del: collect_descendants.simps)
        (auto simp: collect_node children_set [of "\<lambda>c. build_node r es c (i # visited)"] simp del: collect_descendants.simps)
    also have "\<dots> = {b. \<exists>e \<in> set ?out. b = le_child e \<or> (le_child e, b) \<in> (unvisited (edge_rel es) (insert i (set visited)))\<^sup>+}"
      using IH by blast
    also have "\<dots> = {b. (i, b) \<in> (unvisited (edge_rel es) (set visited))\<^sup>+}"
      unfolding reach_step [OF False] by (auto simp: edge_rel_def)
    finally show ?thesis .
  qed
qed

lemma count_collect: "count_descendants t = length (collect_descendants t)"
proof (induction t)
  case (CallNode i a es ch)
  then have "\<And>p. p \<in> set ch \<Longrightarrow> (\<lambda>(c, n). 1 + n) (map_prod id count_descendants p) = length ((\<lambda>(c, ds). c # ds) (map_prod id collect_descendants p))"
    by (auto simp: Basic_BNFs.snds.simps)
  then have "map (\<lambda>(c, n). 1 + n) (map (map_prod id count_descendants) ch) =
      map length (map (\<lambda>(c, ds). c # ds) (map (map_prod id collect_descendants) ch))"
    unfolding map_map comp_def by (rule map_cong [OF refl])
  then show ?case by (simp only: count_descendants.simps collect_descendants.simps length_concat)
qed

lemma unvisited_none [simp]: "unvisited r {} = r"
  by (auto simp: unvisited_def)

text \<open>
  C34: the agents at risk are exactly those that can be reached from the failing agent along recorded
  edges, however the edges run together or in circles; the count is the number of entries of the list,
  and the locks are those the agent holds.
\<close>

theorem ln_blast_radius_exact:
  "set (bl_affected (ln_blast_radius (Some r) sch txns i g)) = {b. (i, b) \<in> (edge_rel (ln_edges g))\<^sup>+} \<and>
   bl_count (ln_blast_radius (Some r) sch txns i g) = snd (the (ln_subtree (Some r) i g)) \<and>
   bl_locks (ln_blast_radius (Some r) sch txns i g) =
     (case dict_get (r_agents r) i of None \<Rightarrow> [] | Some a \<Rightarrow> keys (a_locks a))"
  using collect_reaches [of r "ln_edges g" i "[]"]
  by (simp add: ln_blast_radius_def ln_subtree_def Let_def count_collect)

text \<open>
  an agent reached on two ways is counted twice: with \<open>a\<close> above \<open>b\<close> and \<open>c\<close>, and both above \<open>d\<close>, three
  agents are at risk and four are counted.
\<close>

definition plain_edge :: "string \<Rightarrow> string \<Rightarrow> lineage_edge" where
  "plain_edge a b = \<lparr>le_id = a @ b, le_parent = a, le_child = b, le_type = ''spawned'', le_meta = [], le_time = 0\<rparr>"

theorem ln_diamond_counted_twice:
  "let b = ln_blast_radius (Some r) None None ''a''
         (ln_load (Some [plain_edge ''a'' ''b'', plain_edge ''a'' ''c'', plain_edge ''b'' ''d'', plain_edge ''c'' ''d'']))
   in bl_affected b = [''b'', ''d'', ''c'', ''d''] \<and> bl_count b = 4 \<and> length (remdups (bl_affected b)) = 3"
  by (simp add: Let_def ln_blast_radius_def ln_subtree_def ln_load_def plain_edge_def build_node.simps)

section \<open>Longest chains\<close>

text \<open>Task \<open>y\<close> waits for task \<open>x\<close>; a chain of waiting tasks repeats no task, except perhaps its last.\<close>

definition waits :: "task list \<Rightarrow> string \<Rightarrow> string \<Rightarrow> bool" where
  "waits ts x y = list_ex (\<lambda>t. t_id t = y \<and> x \<in> set (t_depends t)) ts"

definition chain :: "(string \<Rightarrow> string \<Rightarrow> bool) \<Rightarrow> string \<Rightarrow> string set \<Rightarrow> string list \<Rightarrow> bool" where
  "chain w i v q = (q \<noteq> [] \<and> hd q = i \<and> distinct (butlast q) \<and> set (butlast q) \<inter> v = {} \<and> successively w q)"

lemma chain_single [simp]: "chain w i v [i]"
  by (simp add: chain_def)

lemma chain_Cons:
  "q \<noteq> [] \<Longrightarrow> chain w i v (i # q) \<longleftrightarrow> i \<notin> v \<and> w i (hd q) \<and> chain w (hd q) (insert i v) q"
  by (cases q) (auto simp: chain_def)

lemma add_forward_all:
  "dict_get_or [] (foldl (add_forward i) fw ds) x = dict_get_or [] fw x @ replicate (count_list ds x) i"
  by (induction ds arbitrary: fw) (auto simp: add_forward_def replicate_append_same)

lemma forward_acc:
  "set (dict_get_or [] (foldl (\<lambda>fw t. foldl (add_forward (t_id t)) fw (t_depends t)) fw ts) x) =
    set (dict_get_or [] fw x) \<union> {y. waits ts x y}"
  by (induction ts arbitrary: fw) (auto simp: add_forward_all waits_def count_list_0_iff)

lemma forward_waits: "y \<in> set (dict_get_or [] (forward_map ts) x) \<longleftrightarrow> waits ts x y"
  unfolding forward_map_def forward_acc by (simp add: dict_get_or_def)

definition longer :: "('b \<Rightarrow> 'a list) \<Rightarrow> 'a list \<Rightarrow> 'b \<Rightarrow> 'a list" where
  "longer f best x = (let path = f x in if length best < length path then path else best)"

lemma longest_of:
  "foldl (longer f) b xs \<in> insert b (f ` set xs)" "length b \<le> length (foldl (longer f) b xs)"
  "x \<in> set xs \<Longrightarrow> length (f x) \<le> length (foldl (longer f) b xs)"
proof -
  show le: "length b \<le> length (foldl (longer f) b xs)" for b xs
    by (induction xs arbitrary: b) (auto simp: longer_def Let_def intro: order_trans [OF less_imp_le])
  show "foldl (longer f) b xs \<in> insert b (f ` set xs)"
  proof (induction xs arbitrary: b)
    case (Cons a xs)
    from Cons [of "longer f b a"] show ?case by (auto simp: longer_def Let_def split: if_splits)
  qed simp
  show "x \<in> set xs \<Longrightarrow> length (f x) \<le> length (foldl (longer f) b xs)"
  proof (induction xs arbitrary: b)
    case (Cons a xs)
    show ?case
    proof (cases "x = a")
      case True
      have "length (f a) \<le> length (longer f b a)" by (simp add: longer_def Let_def)
      with le [of "longer f b a" xs] True show ?thesis by simp
    qed (use Cons in simp)
  qed simp
qed

lemma longest_path_unfold:
  "longest_path fw i v =
     (if i \<in> set v then [i]
      else case dict_get_or [] fw i of [] \<Rightarrow> [i]
      | s # ss \<Rightarrow> i # foldl (longer (\<lambda>x. longest_path fw x (i # v))) [] (s # ss))"
  by (subst longest_path.simps) (simp only: longer_def [abs_def])

lemma longest_path_chain: "chain (\<lambda>x y. y \<in> set (dict_get_or [] fw x)) i (set v) (longest_path fw i v)"
proof (induction fw i v rule: longest_path.induct)
  case (1 fw i v)
  show ?case
  proof (cases "i \<in> set v \<or> dict_get_or [] fw i = []")
    case True
    then have "longest_path fw i v = [i]" by (subst longest_path_unfold) auto
    then show ?thesis by simp
  next
    case False
    then obtain s ss where ss: "dict_get_or [] fw i = s # ss" by (auto simp: neq_Nil_conv)
    let ?f = "\<lambda>x. longest_path fw x (i # v)" and ?b = "foldl (longer (\<lambda>x. longest_path fw x (i # v))) [] (s # ss)"
    have IH: "chain (\<lambda>x y. y \<in> set (dict_get_or [] fw x)) x (insert i (set v)) (?f x)" if "x \<in> set (s # ss)" for x
      using 1 [OF _ ss that] False by simp
    have "?f s \<noteq> []" using IH [of s] by (simp add: chain_def)
    then have "?b \<noteq> []" using longest_of(3) [of s "s # ss" ?f "[]"] by auto
    then obtain x where x: "x \<in> set (s # ss)" "?b = ?f x" using longest_of(1) [of ?f "[]" "s # ss"] by auto
    have "hd (?f x) = x" using IH [OF x(1)] by (simp add: chain_def)
    then have "chain (\<lambda>x y. y \<in> set (dict_get_or [] fw x)) i (set v) (i # ?f x)"
      using IH [OF x(1)] x \<open>?b \<noteq> []\<close> False ss by (subst chain_Cons) auto
    moreover have "longest_path fw i v = i # ?f x"
      using False ss x(2) by (subst longest_path_unfold) simp
    ultimately show ?thesis by simp
  qed
qed

lemma longest_path_max:
  "chain (\<lambda>x y. y \<in> set (dict_get_or [] fw x)) i (set v) q \<Longrightarrow> length q \<le> length (longest_path fw i v)"
proof (induction fw i v arbitrary: q rule: longest_path.induct)
  case (1 fw i v)
  have ne: "longest_path fw i v \<noteq> []" using longest_path_chain [of fw i v] by (simp add: chain_def)
  from 1(2) obtain q' where q: "q = i # q'" by (cases q) (auto simp: chain_def)
  show ?case
  proof (cases "q' = []")
    case True
    then show ?thesis using ne q by (simp add: Suc_le_eq)
  next
    case False
    then have c: "i \<notin> set v" "hd q' \<in> set (dict_get_or [] fw i)"
      "chain (\<lambda>x y. y \<in> set (dict_get_or [] fw x)) (hd q') (insert i (set v)) q'"
      using 1(2) unfolding q chain_Cons [OF False] by simp_all
    then obtain s ss where ss: "dict_get_or [] fw i = s # ss" by (cases "dict_get_or [] fw i") auto
    have hd: "hd q' \<in> set (s # ss)" using c(2) unfolding ss .
    from 1(1) [OF c(1) ss hd, of q'] c(3) have "length q' \<le> length (longest_path fw (hd q') (i # v))" by simp
    also have "\<dots> \<le> length (foldl (longer (\<lambda>x. longest_path fw x (i # v))) [] (s # ss))" by (rule longest_of(3) [OF hd])
    finally show ?thesis using c(1) ss by (subst longest_path_unfold) (simp add: q)
  qed
qed

text \<open>
  C33: the critical path is one: it is a chain of tasks starting at the given one, each waiting for the
  one before it, repeating no task except perhaps the last; and no longer chain exists. Circular
  dependencies do not make the search run on.
\<close>

theorem ln_critical_path_longest:
  "let ts = sch_list_tasks None 1000 s; p = ln_critical_path (Some s) i
   in chain (waits ts) i {} p \<and> \<not> (\<exists>q. chain (waits ts) i {} q \<and> length p < length q)"
proof -
  let ?fw = "forward_map (sch_list_tasks None 1000 s)"
  have w: "(\<lambda>x y. y \<in> set (dict_get_or [] ?fw x)) = waits (sch_list_tasks None 1000 s)"
    by (intro ext) (rule forward_waits)
  show ?thesis
    using longest_path_chain [of ?fw i "[]"] longest_path_max [of ?fw i "[]"]
    unfolding w by (auto simp: ln_critical_path_def Let_def not_less)
qed

end
