(* ===== verification/Goals.thy ===== *)
theory Goals imports Prelude "HOL-Library.Product_Lexorder" begin

text \<open>
  Persistent goals, \<open>agents/persistent_goal.py\<close>, and their HTTP routes, \<open>api/goal_routes.py\<close>. Each agent
  has a directory with a registry of goals (one line per goal, \<open>ag_lines\<close>), an index from goal ids to
  line numbers (\<open>ag_index\<close>) and one embedding vector per embedded goal (\<open>ag_vecs\<close>, absent before the
  first). The embedding model and the similarity of vectors are parameters. The lines are those the
  class itself has written. The detail texts of HTTP errors are not modelled, their codes are.

  The lemmas show that index and registry agree, so that the engine refines a map from ids to goals,
  and how the next goal to work on is chosen.
\<close>

section \<open>State\<close>

datatype goal_status = GActive | GPaused | GCompleted | GAbandoned

record goal =
  g_id :: string
  g_agent :: string
  g_objective :: string
  g_priority :: int
  g_status :: goal_status
  g_parent :: "string option"
  g_subgoals :: "string list"
  g_metrics :: payload
  g_created :: time
  g_updated :: time
  g_completed :: "time option"
  g_last :: "time option"

record 'v agent_goals =
  ag_lines :: "goal list"
  ag_index :: "(string, nat) dict"
  ag_vecs :: "'v list option"

type_synonym 'v goal_store = "(string, 'v agent_goals) dict"

text \<open>What reading or writing the files can raise: no index file, or a row that is not there.\<close>

datatype goal_error = NoGoalFiles | NoGoalRow

definition no_goals :: "'v agent_goals" where
  "no_goals = \<lparr>ag_lines = [], ag_index = [], ag_vecs = None\<rparr>"

section \<open>Operations\<close>

definition new_goal :: "string \<Rightarrow> time \<Rightarrow> string \<Rightarrow> string \<Rightarrow> int \<Rightarrow> goal" where
  "new_goal i now agent objective priority =
     \<lparr>g_id = i, g_agent = agent, g_objective = objective, g_priority = priority, g_status = GActive, g_parent = None,
      g_subgoals = [], g_metrics = [], g_created = now, g_updated = now, g_completed = None, g_last = None\<rparr>"

definition gl_create :: "(string \<Rightarrow> 'v option) \<Rightarrow> string \<Rightarrow> time \<Rightarrow> string \<Rightarrow> string \<Rightarrow> int \<Rightarrow> 'v goal_store \<Rightarrow> 'v goal_store" where
  "gl_create emb i now agent objective priority s =
     (let a = dict_get_or no_goals s agent; existing = length (ag_lines a)
      in dict_set agent
           \<lparr>ag_lines = ag_lines a @ [new_goal i now agent objective priority],
            ag_index = dict_set i existing (ag_index a),
            ag_vecs = (case emb objective of
                None \<Rightarrow> ag_vecs a
              | Some v \<Rightarrow> (case ag_vecs a of None \<Rightarrow> Some [v] | Some vs \<Rightarrow> Some (vs @ [v])))\<rparr> s)"

definition gl_get :: "string \<Rightarrow> string \<Rightarrow> 'v goal_store \<Rightarrow> goal option" where
  "gl_get agent i s =
     (case dict_get s agent of None \<Rightarrow> None
      | Some a \<Rightarrow> (case dict_get (ag_index a) i of None \<Rightarrow> None
          | Some idx \<Rightarrow> if length (ag_lines a) \<le> idx then None else Some (ag_lines a ! idx)))"

definition gl_list_active :: "string \<Rightarrow> int \<Rightarrow> 'v goal_store \<Rightarrow> goal list" where
  "gl_list_active agent limit s =
     (case dict_get s agent of None \<Rightarrow> []
      | Some a \<Rightarrow> py_take limit (sort_key (\<lambda>g. (- g_priority g, g_created g))
                    (filter (\<lambda>g. g_status g = GActive) (ag_lines a))))"

definition gl_search :: "(string \<Rightarrow> 'v option) \<Rightarrow> ('v \<Rightarrow> 'v \<Rightarrow> rat) \<Rightarrow> string \<Rightarrow> string \<Rightarrow> int \<Rightarrow> rat \<Rightarrow> 'v goal_store \<Rightarrow> goal list" where
  "gl_search emb sim agent query top_k threshold s =
     (case emb query of None \<Rightarrow> []
      | Some q \<Rightarrow> (case dict_get s agent of None \<Rightarrow> []
          | Some a \<Rightarrow> (case ag_vecs a of None \<Rightarrow> []
              | Some vs \<Rightarrow>
                  let sims = filter (\<lambda>(i, x). threshold \<le> x) (map (\<lambda>(i, v). (i, sim q v)) (enumerate 0 vs))
                  in map (\<lambda>(i, x). ag_lines a ! i) (filter (\<lambda>(i, x). i < length (ag_lines a))
                       (py_take top_k (sort_key (\<lambda>(i, x). - x) sims))))))"

text \<open>The read, change and write of one row, shared by the operations below.\<close>

definition gl_change :: "(goal \<Rightarrow> goal) \<Rightarrow> string \<Rightarrow> string \<Rightarrow> 'v goal_store \<Rightarrow> goal_error + 'v goal_store" where
  "gl_change f agent i s =
     (case dict_get s agent of None \<Rightarrow> Inl NoGoalFiles
      | Some a \<Rightarrow> (case dict_get (ag_index a) i of None \<Rightarrow> Inr s
          | Some idx \<Rightarrow> if length (ag_lines a) \<le> idx then Inl NoGoalRow
              else Inr (dict_set agent (a\<lparr>ag_lines := (ag_lines a)[idx := f (ag_lines a ! idx)]\<rparr>) s)))"

text \<open>\<open>except Exception: pass\<close>\<close>

definition swallow :: "'s \<Rightarrow> 'e + 's \<Rightarrow> 's" where
  "swallow s r = (case r of Inl e \<Rightarrow> s | Inr s' \<Rightarrow> s')"

definition gl_update_progress :: "time \<Rightarrow> time \<Rightarrow> string \<Rightarrow> string \<Rightarrow> payload \<Rightarrow> 'v goal_store \<Rightarrow> 'v goal_store" where
  "gl_update_progress now now' agent i metrics s =
     swallow s (gl_change (\<lambda>g. g\<lparr>g_metrics := metrics, g_updated := now, g_last := Some now'\<rparr>) agent i s)"

definition gl_complete :: "time \<Rightarrow> time \<Rightarrow> string \<Rightarrow> string \<Rightarrow> 'v goal_store \<Rightarrow> 'v goal_store" where
  "gl_complete now now' agent i s =
     swallow s (gl_change (\<lambda>g. g\<lparr>g_status := GCompleted, g_updated := now, g_completed := Some now'\<rparr>) agent i s)"

definition gl_abandon :: "time \<Rightarrow> string \<Rightarrow> string \<Rightarrow> 'v goal_store \<Rightarrow> 'v goal_store" where
  "gl_abandon now agent i s = swallow s (gl_change (\<lambda>g. g\<lparr>g_status := GAbandoned, g_updated := now\<rparr>) agent i s)"

definition gl_pause :: "time \<Rightarrow> string \<Rightarrow> string \<Rightarrow> 'v goal_store \<Rightarrow> goal_error + 'v goal_store" where
  "gl_pause now = gl_change (\<lambda>g. g\<lparr>g_status := GPaused, g_updated := now\<rparr>)"

definition gl_resume :: "time \<Rightarrow> string \<Rightarrow> string \<Rightarrow> 'v goal_store \<Rightarrow> goal_error + 'v goal_store" where
  "gl_resume now = gl_change (\<lambda>g. g\<lparr>g_status := GActive, g_updated := now\<rparr>)"

text \<open>The subgoals come with the ids and the clock readings their creation draws.\<close>

definition gl_decompose :: "(string \<Rightarrow> 'v option) \<Rightarrow> time \<Rightarrow> string \<Rightarrow> string \<Rightarrow> (string \<times> string \<times> time) list \<Rightarrow> 'v goal_store
    \<Rightarrow> 'v goal_store \<times> goal_error option" where
  "gl_decompose emb now agent i subs s =
     (case gl_get agent i s of None \<Rightarrow> (s, None)
      | Some parent \<Rightarrow>
          let s' = foldl (\<lambda>s (objective, new, t). gl_create emb new t agent objective (g_priority parent) s) s subs
          in (case gl_change (\<lambda>g. g\<lparr>g_subgoals := map (\<lambda>(objective, new, t). new) subs, g_updated := now\<rparr>) agent i s' of
                Inl e \<Rightarrow> (s', Some e) | Inr changed \<Rightarrow> (changed, None)))"

definition focus_key :: "time \<Rightarrow> goal \<Rightarrow> int \<times> time" where
  "focus_key now g = (- g_priority g, if truthy_num (g_last g) then the (g_last g) else now)"

definition gl_next_focus :: "time \<Rightarrow> string \<Rightarrow> int \<Rightarrow> 'v goal_store \<Rightarrow> goal list" where
  "gl_next_focus now agent top_k s =
     (let xs = gl_list_active agent 100 s in if xs = [] then [] else py_take top_k (sort_key (focus_key now) xs))"

section \<open>Routes\<close>

datatype 'a http = HttpOk 'a | HttpError nat

definition route_create_goal :: "(string \<Rightarrow> 'v option) \<Rightarrow> string \<Rightarrow> time \<Rightarrow> string \<Rightarrow> string \<Rightarrow> int \<Rightarrow> 'v goal_store option
    \<Rightarrow> 'v goal_store option \<times> (string \<times> goal option) http" where
  "route_create_goal emb i now agent objective priority eng =
     (case eng of None \<Rightarrow> (None, HttpError 503)
      | Some s \<Rightarrow> let s' = gl_create emb i now agent objective priority s
                  in (Some s', HttpOk (i, gl_get agent i s')))"

definition route_list_goals :: "string \<Rightarrow> string \<Rightarrow> int \<Rightarrow> 'v goal_store option \<Rightarrow> (goal list \<times> nat) http" where
  "route_list_goals agent status limit eng =
     (case eng of None \<Rightarrow> HttpError 503
      | Some s \<Rightarrow> let goals = (if status = ''active'' then gl_list_active agent limit s else gl_list_active agent limit s)
                  in HttpOk (goals, length goals))"

definition route_next_goal :: "time \<Rightarrow> string \<Rightarrow> 'v goal_store option \<Rightarrow> goal option http" where
  "route_next_goal now agent eng =
     (case eng of None \<Rightarrow> HttpError 503
      | Some s \<Rightarrow> (case gl_next_focus now agent 1 s of [] \<Rightarrow> HttpOk None | g # gs \<Rightarrow> HttpOk (Some g)))"

definition route_get_goal :: "string \<Rightarrow> string \<Rightarrow> 'v goal_store option \<Rightarrow> goal http" where
  "route_get_goal agent i eng =
     (case eng of None \<Rightarrow> HttpError 503
      | Some s \<Rightarrow> (case gl_get agent i s of None \<Rightarrow> HttpError 404 | Some g \<Rightarrow> HttpOk g))"

text \<open>The change of status; \<open>active\<close> changes nothing.\<close>

definition route_status :: "time \<Rightarrow> time \<Rightarrow> string \<Rightarrow> string \<Rightarrow> string option \<Rightarrow> 'v goal_store \<Rightarrow> 'v goal_store \<times> nat option" where
  "route_status now now' agent i status s =
     (if \<not> truthy_str status then (s, None)
      else if the status \<notin> {''active'', ''paused'', ''completed'', ''abandoned''} then (s, Some 400)
      else if the status = ''completed'' then (gl_complete now now' agent i s, None)
      else if the status = ''abandoned'' then (gl_abandon now agent i s, None)
      else if the status = ''paused'' then (case gl_pause now agent i s of Inl e \<Rightarrow> (s, Some 500) | Inr s' \<Rightarrow> (s', None))
      else (s, None))"

definition route_update_goal :: "time \<Rightarrow> time \<Rightarrow> string \<Rightarrow> string \<Rightarrow> string option \<Rightarrow> payload option \<Rightarrow> 'v goal_store option
    \<Rightarrow> 'v goal_store option \<times> goal option http" where
  "route_update_goal now now' agent i status metrics eng =
     (case eng of None \<Rightarrow> (None, HttpError 503)
      | Some s \<Rightarrow>
          if gl_get agent i s = None then (Some s, HttpError 404)
          else
            let s1 = (case metrics of None \<Rightarrow> s | Some m \<Rightarrow> if m = [] then s else gl_update_progress now now' agent i m s);
                (s2, err) = route_status now now' agent i status s1
            in (Some s2, case err of Some code \<Rightarrow> HttpError code | None \<Rightarrow> HttpOk (gl_get agent i s2)))"

section \<open>Index and registry\<close>

definition agent_ok :: "'v agent_goals \<Rightarrow> bool" where
  "agent_ok a = (ag_index a = map (\<lambda>(n, g). (g_id g, n)) (enumerate 0 (ag_lines a)) \<and> distinct (map g_id (ag_lines a)))"

definition goals_ok :: "'v goal_store \<Rightarrow> bool" where
  "goals_ok s = list_all (\<lambda>(ag, a). agent_ok a) s"

definition row :: "string \<Rightarrow> goal list \<Rightarrow> goal option" where
  "row i gs = find (\<lambda>g. g_id g = i) gs"

lemmas index_lookup = position_lookup [of g_id]

lemma row_lookup:
  assumes "agent_ok a"
  shows "dict_get (ag_index a) i = None \<Longrightarrow> row i (ag_lines a) = None"
    and "dict_get (ag_index a) i = Some m \<Longrightarrow> m < length (ag_lines a) \<and> row i (ag_lines a) = Some (ag_lines a ! m)
      \<and> (\<forall>n < length (ag_lines a). g_id (ag_lines a ! n) = i \<longleftrightarrow> n = m)"
proof -
  have ix: "ag_index a = map (\<lambda>(n, g). (g_id g, n)) (enumerate 0 (ag_lines a))" and d: "distinct (map g_id (ag_lines a))"
    using assms by (auto simp: agent_ok_def)
  note look = index_lookup [OF d, of 0, folded ix, simplified]
  show "dict_get (ag_index a) i = None \<Longrightarrow> row i (ag_lines a) = None"
    using look [of i] unfolding row_def find_None_iff by (metis in_set_conv_nth option.distinct(1))
  assume m: "dict_get (ag_index a) i = Some m"
  then have "m < length (ag_lines a)" "g_id (ag_lines a ! m) = i" using look by auto
  moreover have "n = m" if "n < length (ag_lines a)" "g_id (ag_lines a ! n) = i" for n
    using that look m by (metis option.inject)
  moreover from calculation have "row i (ag_lines a) = Some (ag_lines a ! m)"
    unfolding row_def find_Some_iff by (metis less_irrefl less_trans)
  ultimately show "m < length (ag_lines a) \<and> row i (ag_lines a) = Some (ag_lines a ! m)
      \<and> (\<forall>n < length (ag_lines a). g_id (ag_lines a ! n) = i \<longleftrightarrow> n = m)"
    by blast
qed

lemma goals_okD: "goals_ok s \<Longrightarrow> dict_get s ag = Some a \<Longrightarrow> agent_ok a"
  by (auto simp: goals_ok_def list_all_iff dest: dict_get_in)

lemma get_row: "goals_ok s \<Longrightarrow> gl_get ag i s = (case dict_get s ag of None \<Rightarrow> None | Some a \<Rightarrow> row i (ag_lines a))"
proof (cases "dict_get s ag")
  case (Some a)
  assume "goals_ok s"
  from row_lookup [OF goals_okD [OF this Some], of i] Some show ?thesis
    by (cases "dict_get (ag_index a) i") (auto simp: gl_get_def)
qed (simp add: gl_get_def)

lemma ok_set: "goals_ok s \<Longrightarrow> agent_ok a \<Longrightarrow> goals_ok (dict_set ag a s)"
  unfolding goals_ok_def by (induction s) auto

lemma row_append: "row i gs = None \<Longrightarrow> row j (gs @ [g]) = (if j = g_id g \<and> j = i then Some g else if row j gs = None \<and> j = g_id g then Some g else row j gs)"
  by (induction gs) (auto simp: row_def)

lemma row_None: "row i gs = None \<longleftrightarrow> i \<notin> g_id ` set gs"
  by (auto simp: row_def find_None_iff)

lemma agent_ok_none [simp]: "agent_ok no_goals"
  by (simp add: agent_ok_def no_goals_def)

lemma agent_or_none: "goals_ok s \<Longrightarrow> agent_ok (dict_get_or no_goals s ag)"
  by (auto simp: dict_get_or_def split: option.split dest: goals_okD)

lemma row_or_none: "goals_ok s \<Longrightarrow> row i (ag_lines (dict_get_or no_goals s ag)) = gl_get ag i s"
  by (auto simp: get_row dict_get_or_def no_goals_def row_def split: option.split)

lemma agent_ok_append:
  assumes ok: "agent_ok a" and fresh: "row i (ag_lines a) = None" and g: "g_id g = i"
  shows "agent_ok \<lparr>ag_lines = ag_lines a @ [g], ag_index = dict_set i (length (ag_lines a)) (ag_index a), ag_vecs = vs\<rparr>"
proof -
  have "i \<notin> set (keys (ag_index a))"
    using fresh ok by (auto simp: row_None agent_ok_def in_set_enumerate_eq)
  then have "dict_set i (length (ag_lines a)) (ag_index a) = ag_index a @ [(i, length (ag_lines a))]" by (rule dict_set_new)
  moreover have "distinct (map g_id (ag_lines a @ [g]))" using ok fresh g by (auto simp: agent_ok_def row_None)
  ultimately show ?thesis using ok g by (simp add: agent_ok_def enumerate_append_eq)
qed

lemma ok_create: "goals_ok s \<Longrightarrow> gl_get ag i s = None \<Longrightarrow> goals_ok (gl_create emb i now ag obj pr s)"
  unfolding gl_create_def Let_def
  by (intro ok_set agent_ok_append agent_or_none) (simp_all add: row_or_none new_goal_def)

lemma get_create:
  assumes ok: "goals_ok s" and fresh: "gl_get ag i s = None"
  shows "gl_get ag' i' (gl_create emb i now ag obj pr s) =
    (if ag' = ag \<and> i' = i then Some (new_goal i now ag obj pr) else gl_get ag' i' s)"
proof -
  have "gl_get ag' i' (gl_create emb i now ag obj pr s) =
      (if ag' = ag then row i' (ag_lines (dict_get_or no_goals s ag) @ [new_goal i now ag obj pr]) else gl_get ag' i' s)"
    using ok_create [OF ok fresh, of emb now obj pr] ok
    by (simp add: get_row) (simp add: gl_create_def Let_def)
  also have "\<dots> = (if ag' = ag \<and> i' = i then Some (new_goal i now ag obj pr) else gl_get ag' i' s)"
    using row_or_none [OF ok] fresh by (auto simp: row_append [of i] new_goal_def)
  finally show ?thesis .
qed

lemma row_update:
  "m < length gs \<Longrightarrow> (\<And>n. n < length gs \<Longrightarrow> g_id (gs ! n) = i \<longleftrightarrow> n = m) \<Longrightarrow> g_id (f (gs ! m)) = g_id (gs ! m) \<Longrightarrow>
    row j (gs[m := f (gs ! m)]) = (if j = i then map_option f (row i gs) else row j gs)"
proof (induction gs arbitrary: m)
  case (Cons g gs)
  show ?case
  proof (cases m)
    case 0
    then have "g_id g = i" "g_id (f g) = i" using Cons.prems(2) [of 0] Cons.prems(3) by auto
    then show ?thesis using 0 by (simp add: row_def)
  next
    case (Suc m')
    have "g_id g \<noteq> i" using Cons.prems(2) [of 0] Suc by auto
    moreover have "g_id (gs ! n) = i \<longleftrightarrow> n = m'" if "n < length gs" for n using Cons.prems(2) [of "Suc n"] that Suc by simp
    ultimately show ?thesis using Cons.IH [of m'] Cons.prems Suc by (auto simp: row_def)
  qed
qed simp

lemma agent_ok_update:
  "agent_ok a \<Longrightarrow> m < length (ag_lines a) \<Longrightarrow> g_id g = g_id (ag_lines a ! m) \<Longrightarrow> agent_ok (a\<lparr>ag_lines := (ag_lines a)[m := g]\<rparr>)"
proof -
  assume a: "agent_ok a" "m < length (ag_lines a)" "g_id g = g_id (ag_lines a ! m)"
  then have ids: "map g_id ((ag_lines a)[m := g]) = map g_id (ag_lines a)" by (simp add: map_update list_update_same_conv)
  have "map (\<lambda>(n, g). (g_id g, n)) (enumerate k gs) = map (\<lambda>(n, i). (i, n)) (enumerate k (map g_id gs))" for k and gs :: "goal list"
    by (induction gs arbitrary: k) auto
  with ids a(1) show ?thesis by (simp add: agent_ok_def)
qed

definition gl_apply :: "(goal \<Rightarrow> goal) \<Rightarrow> string \<Rightarrow> string \<Rightarrow> 'v goal_store \<Rightarrow> 'v goal_store" where
  "gl_apply f ag i s = swallow s (gl_change f ag i s)"

lemma change_ok:
  assumes ok: "goals_ok s" and f: "\<And>g. g_id (f g) = g_id g"
  shows "goals_ok (gl_apply f ag i s) \<and>
    gl_get ag' i' (gl_apply f ag i s) = (if ag' = ag \<and> i' = i then map_option f (gl_get ag i s) else gl_get ag' i' s)"
proof (cases "dict_get s ag")
  case None
  then show ?thesis using ok by (auto simp: gl_apply_def gl_change_def swallow_def gl_get_def)
next
  case (Some a)
  note a = goals_okD [OF ok Some]
  show ?thesis
  proof (cases "dict_get (ag_index a) i")
    case None
    then show ?thesis using ok Some by (auto simp: gl_apply_def gl_change_def swallow_def gl_get_def)
  next
    case m: (Some m)
    note r = row_lookup(2) [OF a m]
    let ?a = "a\<lparr>ag_lines := (ag_lines a)[m := f (ag_lines a ! m)]\<rparr>"
    have eq: "gl_apply f ag i s = dict_set ag ?a s"
      using Some m r by (simp add: gl_apply_def gl_change_def swallow_def)
    have ok': "goals_ok (dict_set ag ?a s)" using r by (intro ok_set ok agent_ok_update a) (simp_all add: f)
    have "row j (ag_lines ?a) = (if j = i then map_option f (row i (ag_lines a)) else row j (ag_lines a))" for j
      using row_update [of m "ag_lines a" i f j] r f by simp
    then show ?thesis using ok' Some by (simp add: eq get_row [OF ok] get_row [OF ok'])
  qed
qed

section \<open>The engine as a map\<close>

text \<open>The abstract state: goals by agent and id.\<close>

type_synonym goal_map = "string \<Rightarrow> string \<Rightarrow> goal option"

definition map_create :: "string \<Rightarrow> goal \<Rightarrow> goal_map \<Rightarrow> goal_map" where
  "map_create ag g m = m(ag := (m ag)(g_id g \<mapsto> g))"

definition map_change :: "(goal \<Rightarrow> goal) \<Rightarrow> string \<Rightarrow> string \<Rightarrow> goal_map \<Rightarrow> goal_map" where
  "map_change f ag i m = m(ag := (m ag)(i := map_option f (m ag i)))"

text \<open>What the engine's clients rely on.\<close>

locale goal_engine =
  fixes get :: "string \<Rightarrow> string \<Rightarrow> 's \<Rightarrow> goal option"
    and create :: "string \<Rightarrow> time \<Rightarrow> string \<Rightarrow> string \<Rightarrow> int \<Rightarrow> 's \<Rightarrow> 's"
    and change :: "(goal \<Rightarrow> goal) \<Rightarrow> string \<Rightarrow> string \<Rightarrow> 's \<Rightarrow> 's"
    and ok :: "'s \<Rightarrow> bool"
  assumes get_created: "ok s \<Longrightarrow> get ag i s = None \<Longrightarrow>
      get ag' i' (create i now ag obj pr s) = (if ag' = ag \<and> i' = i then Some (new_goal i now ag obj pr) else get ag' i' s)"
    and ok_created: "ok s \<Longrightarrow> get ag i s = None \<Longrightarrow> ok (create i now ag obj pr s)"
    and get_changed: "ok s \<Longrightarrow> (\<And>g. g_id (f g) = g_id g) \<Longrightarrow>
      get ag' i' (change f ag i s) = (if ag' = ag \<and> i' = i then map_option f (get ag i s) else get ag' i' s)"
    and ok_changed: "ok s \<Longrightarrow> (\<And>g. g_id (f g) = g_id g) \<Longrightarrow> ok (change f ag i s)"
begin

text \<open>Creating several goals, as a decomposition does.\<close>

lemma create_several:
  "ok s \<Longrightarrow> distinct (map (fst \<circ> snd) subs) \<Longrightarrow> list_all (\<lambda>(obj, i, t). get ag i s = None) subs \<Longrightarrow>
    ok (foldl (\<lambda>s (obj, i, t). create i t ag obj pr s) s subs) \<and>
    (\<lambda>ag' i'. get ag' i' (foldl (\<lambda>s (obj, i, t). create i t ag obj pr s) s subs)) =
      foldl (\<lambda>m (obj, i, t). map_create ag (new_goal i t ag obj pr) m) (\<lambda>ag' i'. get ag' i' s) subs"
proof (induction subs arbitrary: s)
  case (Cons x subs)
  obtain obj i t where x: "x = (obj, i, t)" by (cases x)
  let ?s = "create i t ag obj pr s"
  have fresh: "get ag i s = None" using Cons.prems(3) x by simp
  have m: "(\<lambda>ag' i'. get ag' i' ?s) = map_create ag (new_goal i t ag obj pr) (\<lambda>ag' i'. get ag' i' s)"
    using get_created [OF Cons.prems(1) fresh] by (auto simp: fun_eq_iff map_create_def new_goal_def)
  have "list_all (\<lambda>(obj', i', t'). get ag i' ?s = None) subs"
    using Cons.prems(2,3) x get_created [OF Cons.prems(1) fresh] by (force simp: list_all_iff)
  from Cons.IH [OF ok_created [OF Cons.prems(1) fresh] _ this] Cons.prems(2) show ?case by (simp add: x m)
qed simp

end


interpretation engine: goal_engine gl_get "gl_create emb" gl_apply goals_ok for emb
  by unfold_locales (simp_all add: get_create ok_create change_ok)

text \<open>The operations of the engine that change it; an error of \<open>pause\<close> or \<open>resume\<close> changes nothing.\<close>

datatype goal_op =
    GlCreate string time string string int
  | GlDecompose time string string "(string \<times> string \<times> time) list"
  | GlProgress time time string string payload
  | GlComplete time time string string
  | GlAbandon time string string
  | GlPause time string string
  | GlResume time string string

fun goal_step :: "(string \<Rightarrow> 'v option) \<Rightarrow> goal_op \<Rightarrow> 'v goal_store \<Rightarrow> 'v goal_store" where
  "goal_step emb (GlCreate i now ag obj pr) s = gl_create emb i now ag obj pr s"
| "goal_step emb (GlDecompose now ag i subs) s = fst (gl_decompose emb now ag i subs s)"
| "goal_step emb (GlProgress now now' ag i m) s = gl_update_progress now now' ag i m s"
| "goal_step emb (GlComplete now now' ag i) s = gl_complete now now' ag i s"
| "goal_step emb (GlAbandon now ag i) s = gl_abandon now ag i s"
| "goal_step emb (GlPause now ag i) s = swallow s (gl_pause now ag i s)"
| "goal_step emb (GlResume now ag i) s = swallow s (gl_resume now ag i s)"

text \<open>The same operations on the abstract state.\<close>

fun goal_spec :: "goal_op \<Rightarrow> goal_map \<Rightarrow> goal_map" where
  "goal_spec (GlCreate i now ag obj pr) m = map_create ag (new_goal i now ag obj pr) m"
| "goal_spec (GlDecompose now ag i subs) m =
     (case m ag i of None \<Rightarrow> m
      | Some p \<Rightarrow> map_change (\<lambda>g. g\<lparr>g_subgoals := map (\<lambda>(obj, new, t). new) subs, g_updated := now\<rparr>) ag i
          (foldl (\<lambda>m (obj, new, t). map_create ag (new_goal new t ag obj (g_priority p)) m) m subs))"
| "goal_spec (GlProgress now now' ag i ms) m = map_change (\<lambda>g. g\<lparr>g_metrics := ms, g_updated := now, g_last := Some now'\<rparr>) ag i m"
| "goal_spec (GlComplete now now' ag i) m =
     map_change (\<lambda>g. g\<lparr>g_status := GCompleted, g_updated := now, g_completed := Some now'\<rparr>) ag i m"
| "goal_spec (GlAbandon now ag i) m = map_change (\<lambda>g. g\<lparr>g_status := GAbandoned, g_updated := now\<rparr>) ag i m"
| "goal_spec (GlPause now ag i) m = map_change (\<lambda>g. g\<lparr>g_status := GPaused, g_updated := now\<rparr>) ag i m"
| "goal_spec (GlResume now ag i) m = map_change (\<lambda>g. g\<lparr>g_status := GActive, g_updated := now\<rparr>) ag i m"

text \<open>The ids the operations draw are new.\<close>

fun goal_fresh :: "goal_op \<Rightarrow> goal_map \<Rightarrow> bool" where
  "goal_fresh (GlCreate i now ag obj pr) m = (m ag i = None)"
| "goal_fresh (GlDecompose now ag i subs) m =
     (distinct (map (fst \<circ> snd) subs) \<and> list_all (\<lambda>(obj, new, t). m ag new = None) subs)"
| "goal_fresh _ m = True"

fun goals_fresh :: "goal_op list \<Rightarrow> goal_map \<Rightarrow> bool" where
  "goals_fresh [] m = True"
| "goals_fresh (x # xs) m = (goal_fresh x m \<and> goals_fresh xs (goal_spec x m))"

definition view :: "'v goal_store \<Rightarrow> goal_map" where
  "view s = (\<lambda>ag i. gl_get ag i s)"

lemma apply_view: "goals_ok s \<Longrightarrow> (\<And>g. g_id (f g) = g_id g) \<Longrightarrow>
    goals_ok (gl_apply f ag i s) \<and> view (gl_apply f ag i s) = map_change f ag i (view s)"
  by (auto simp: change_ok view_def map_change_def fun_eq_iff)

lemma step_refines:
  assumes ok: "goals_ok s" and fresh: "goal_fresh x (view s)"
  shows "goals_ok (goal_step emb x s) \<and> view (goal_step emb x s) = goal_spec x (view s)"
proof (cases x)
  case (GlCreate i now ag obj pr)
  then show ?thesis using fresh get_create [OF ok] ok_create [OF ok]
    by (auto simp: view_def map_create_def fun_eq_iff new_goal_def)
next
  case (GlDecompose now ag i subs)
  show ?thesis
  proof (cases "gl_get ag i s")
    case None
    then show ?thesis using GlDecompose ok by (simp add: gl_decompose_def view_def)
  next
    case (Some p)
    let ?s = "foldl (\<lambda>s (obj, new, t). gl_create emb new t ag obj (g_priority p) s) s subs"
    have several: "goals_ok ?s" "view ?s = foldl (\<lambda>m (obj, new, t). map_create ag (new_goal new t ag obj (g_priority p)) m) (view s) subs"
      using engine.create_several [OF ok, of subs ag emb "g_priority p"] fresh GlDecompose by (simp_all add: view_def)
    have "goal_step emb x s = gl_apply (\<lambda>g. g\<lparr>g_subgoals := map (\<lambda>(obj, new, t). new) subs, g_updated := now\<rparr>) ag i ?s"
      using GlDecompose Some by (simp add: gl_decompose_def gl_apply_def swallow_def Let_def split: sum.split)
    with several apply_view [OF several(1), of "\<lambda>g. g\<lparr>g_subgoals := map (\<lambda>(obj, new, t). new) subs, g_updated := now\<rparr>" ag i]
    show ?thesis using GlDecompose Some by (simp add: view_def)
  qed
qed (use ok in \<open>simp_all add: gl_update_progress_def gl_complete_def gl_abandon_def gl_pause_def gl_resume_def
       gl_apply_def [symmetric] apply_view\<close>)

lemma run_refines:
  "goals_ok s \<Longrightarrow> goals_fresh ops (view s) \<Longrightarrow>
    goals_ok (run_ops (goal_step emb) ops s) \<and> view (run_ops (goal_step emb) ops s) = run_ops goal_spec ops (view s)"
  by (induction ops arbitrary: s) (auto simp: step_refines)

text \<open>
  C24: the files of the goal engine implement a map from agents and ids to goals: as long as new ids are
  new, creating, decomposing, progressing, completing, abandoning, pausing and resuming goals have,
  seen through \<open>get\<close>, exactly the effect of the corresponding updates of the map, on the goal named
  and on no other; lines and index never come apart.
\<close>

theorem gl_refines_map:
  assumes "goals_fresh ops (\<lambda>ag i. None)"
  shows "(\<lambda>ag i. gl_get ag i (run_ops (goal_step emb) ops [])) = run_ops goal_spec ops (\<lambda>ag i. None)"
proof -
  have v: "view ([] :: 'a goal_store) = (\<lambda>ag i. None)" by (simp add: view_def gl_get_def)
  have "goals_ok ([] :: 'a goal_store)" by (simp add: goals_ok_def)
  from run_refines [OF this, of ops emb] assms show ?thesis by (simp add: v) (simp add: view_def)
qed

theorem gl_refines_map_witness:
  "(\<lambda>ag i. gl_get ag i (run_ops (goal_step (\<lambda>_. None :: nat option))
       [GlCreate ''g1'' 1 ''ada'' ''ship'' 5, GlDecompose 3 ''ada'' ''g1'' [(''plan'', ''g2'', 2)], GlComplete 4 4 ''ada'' ''g2''] [])) =
     run_ops goal_spec
       [GlCreate ''g1'' 1 ''ada'' ''ship'' 5, GlDecompose 3 ''ada'' ''g1'' [(''plan'', ''g2'', 2)], GlComplete 4 4 ''ada'' ''g2'']
       (\<lambda>ag i. None)"
  by (rule gl_refines_map) (simp add: map_create_def map_change_def new_goal_def)

section \<open>The next goal\<close>

lemma hd_sort_key_le: "y \<in> set xs \<Longrightarrow> k (hd (sort_key k xs)) \<le> k y"
proof -
  assume y: "y \<in> set xs"
  then obtain z zs where z: "sort_key k xs = z # zs" by (cases "sort_key k xs") (metis empty_iff list.set(1) set_sort, simp)
  have "sorted (map k (z # zs))" unfolding z [symmetric] by simp
  moreover have "y \<in> set (z # zs)" using y unfolding z [symmetric] by simp
  ultimately show ?thesis unfolding z by auto
qed

definition active_goals :: "string \<Rightarrow> 'v goal_store \<Rightarrow> goal list" where
  "active_goals ag s = (case dict_get s ag of None \<Rightarrow> [] | Some a \<Rightarrow> filter (\<lambda>g. g_status g = GActive) (ag_lines a))"

lemma focus_least:
  assumes few: "length (active_goals ag s) \<le> 100" and f: "gl_next_focus now ag 1 s = g # gs" and y: "y \<in> set (active_goals ag s)"
  shows "g \<in> set (active_goals ag s)" and "focus_key now g \<le> focus_key now y"
proof -
  let ?k = "\<lambda>g. (- g_priority g, g_created g)"
  have l: "gl_list_active ag 100 s = sort_key ?k (active_goals ag s)"
    using few by (simp add: gl_list_active_def active_goals_def split: option.splits)
  then have ne: "gl_list_active ag 100 s \<noteq> []" using y by (metis empty_iff list.set(1) set_sort)
  have g: "g # gs = take 1 (sort_key (focus_key now) (gl_list_active ag 100 s))"
    using f ne by (simp add: gl_next_focus_def Let_def)
  then have hd: "g = hd (sort_key (focus_key now) (gl_list_active ag 100 s))"
    by (cases "sort_key (focus_key now) (gl_list_active ag 100 s)") simp_all
  moreover have "sort_key (focus_key now) (gl_list_active ag 100 s) \<noteq> []" using g by auto
  ultimately have "g \<in> set (gl_list_active ag 100 s)" by (metis hd_in_set set_sort)
  then show "g \<in> set (active_goals ag s)" by (simp add: l)
  show "focus_key now g \<le> focus_key now y" unfolding hd by (rule hd_sort_key_le) (simp add: l y)
qed

text \<open>An agent that works, round after round, on the goal it is given and reports its progress.\<close>

record work_round =
  wr_focus :: time
  wr_updated :: time
  wr_worked :: time
  wr_metrics :: payload

definition work :: "string \<Rightarrow> work_round \<Rightarrow> 'v goal_store \<Rightarrow> 'v goal_store" where
  "work ag r s =
     (case gl_next_focus (wr_focus r) ag 1 s of [] \<Rightarrow> s
      | g # gs \<Rightarrow> gl_update_progress (wr_updated r) (wr_worked r) ag (g_id g) (wr_metrics r) s)"

fun ticking :: "time \<Rightarrow> work_round list \<Rightarrow> bool" where
  "ticking t [] = True"
| "ticking t (r # rs) = (t < wr_focus r \<and> wr_focus r \<le> wr_worked r \<and> ticking (wr_worked r) rs)"

text \<open>\<open>g0\<close> has not been worked on, a goal of no lower priority has, by time \<open>t\<close>.\<close>

definition starved :: "string \<Rightarrow> string \<Rightarrow> time \<Rightarrow> 'v goal_store \<Rightarrow> bool" where
  "starved ag i0 t s =
     (goals_ok s \<and> length (active_goals ag s) \<le> 100 \<and> 0 \<le> t \<and>
      (case gl_get ag i0 s of None \<Rightarrow> False
       | Some g0 \<Rightarrow> g_status g0 = GActive \<and> g_last g0 = None \<and>
           list_ex (\<lambda>g. g_priority g0 \<le> g_priority g \<and> (case g_last g of None \<Rightarrow> False | Some l \<Rightarrow> 0 < l \<and> l \<le> t)) (active_goals ag s)))"

lemma active_get: "goals_ok s \<Longrightarrow> g \<in> set (active_goals ag s) \<Longrightarrow> gl_get ag (g_id g) s = Some g \<and> g_status g = GActive"
proof -
  assume ok: "goals_ok s" and g: "g \<in> set (active_goals ag s)"
  then obtain a where a: "dict_get s ag = Some a" "g \<in> set (ag_lines a)" "g_status g = GActive"
    by (cases "dict_get s ag") (auto simp: active_goals_def)
  then obtain n where n: "n < length (ag_lines a)" "ag_lines a ! n = g" by (auto simp: in_set_conv_nth)
  show ?thesis
  proof (cases "dict_get (ag_index a) (g_id g)")
    case None
    from row_lookup(1) [OF goals_okD [OF ok a(1)] None] a(2) show ?thesis by (auto simp: row_None)
  next
    case (Some m)
    from row_lookup(2) [OF goals_okD [OF ok a(1)] Some] n a show ?thesis by (auto simp: get_row [OF ok])
  qed
qed

lemma active_apply:
  assumes ok: "goals_ok s" and f: "\<And>g. g_id (f g) = g_id g" "\<And>g. g_status (f g) = g_status g"
  shows "active_goals ag (gl_apply f ag i s) = map (\<lambda>h. if g_id h = i then f h else h) (active_goals ag s)"
proof (cases "dict_get s ag")
  case None
  then show ?thesis by (simp add: gl_apply_def gl_change_def swallow_def active_goals_def)
next
  case (Some a)
  note a = goals_okD [OF ok Some]
  let ?h = "\<lambda>h. if g_id h = i then f h else h"
  have "\<exists>b. dict_get (gl_apply f ag i s) ag = Some b \<and> ag_lines b = map ?h (ag_lines a)"
  proof (cases "dict_get (ag_index a) i")
    case None
    from row_lookup(1) [OF a None] have "map ?h (ag_lines a) = ag_lines a" by (auto simp: row_None intro!: map_idI)
    with Some None show ?thesis by (simp add: gl_apply_def gl_change_def swallow_def)
  next
    case m: (Some m)
    note r = row_lookup(2) [OF a m]
    have "(ag_lines a)[m := f (ag_lines a ! m)] = map ?h (ag_lines a)"
      by (rule nth_equalityI) (use r in \<open>auto simp: nth_list_update\<close>)
    with Some m r show ?thesis by (simp add: gl_apply_def gl_change_def swallow_def)
  qed
  then obtain b where "dict_get (gl_apply f ag i s) ag = Some b" "ag_lines b = map ?h (ag_lines a)" by blast
  moreover have "(\<lambda>g. g_status (?h g) = GActive) = (\<lambda>g. g_status g = GActive)" using f(2) by auto
  ultimately show ?thesis using Some by (simp add: active_goals_def filter_map comp_def)
qed

lemma starved_work:
  assumes st: "starved ag i0 t s" and tick: "t < wr_focus r" "wr_focus r \<le> wr_worked r"
  shows "starved ag i0 (wr_worked r) (work ag r s) \<and> gl_get ag i0 (work ag r s) = gl_get ag i0 s"
proof -
  obtain g0 y l where ok: "goals_ok s" and few: "length (active_goals ag s) \<le> 100" and t: "0 \<le> t"
    and g0: "gl_get ag i0 s = Some g0" "g_status g0 = GActive" "g_last g0 = None"
    and y: "y \<in> set (active_goals ag s)" "g_priority g0 \<le> g_priority y" "g_last y = Some l" "0 < l" "l \<le> t"
    using st by (auto simp: starved_def list_ex_iff split: option.splits)
  show ?thesis
  proof (cases "gl_next_focus (wr_focus r) ag 1 s")
    case Nil
    have "list_ex (\<lambda>g. g_priority g0 \<le> g_priority g \<and> (case g_last g of None \<Rightarrow> False | Some l \<Rightarrow> 0 < l \<and> l \<le> wr_worked r)) (active_goals ag s)"
      using y tick by (auto simp: list_ex_iff intro!: bexI [of _ y])
    then show ?thesis using Nil ok few t g0 tick by (simp add: work_def starved_def)
  next
    case (Cons g gs)
    note least = focus_least [OF few Cons y(1)]
    have "focus_key (wr_focus r) y < focus_key (wr_focus r) g0"
      using y g0(3) tick by (auto simp: focus_key_def)
    then have "g \<noteq> g0" using least(2) by auto
    then have id: "g_id g \<noteq> i0" using active_get [OF ok least(1)] g0(1) by auto
    let ?f = "\<lambda>g. g\<lparr>g_metrics := wr_metrics r, g_updated := wr_updated r, g_last := Some (wr_worked r)\<rparr>"
    have w: "work ag r s = gl_apply ?f ag (g_id g) s" by (simp add: work_def Cons gl_update_progress_def gl_apply_def)
    have ch: "goals_ok (gl_apply ?f ag (g_id g) s)" "gl_get ag i0 (gl_apply ?f ag (g_id g) s) = Some g0"
      using change_ok [OF ok, of ?f ag "g_id g" ag i0] id g0(1) by auto
    have act: "active_goals ag (gl_apply ?f ag (g_id g) s) = map (\<lambda>h. if g_id h = g_id g then ?f h else h) (active_goals ag s)"
      by (rule active_apply [OF ok]) simp_all
    let ?y = "if g_id y = g_id g then ?f y else y"
    have "?y \<in> set (active_goals ag (gl_apply ?f ag (g_id g) s))" unfolding act set_map using y(1) by blast
    moreover have "g_priority g0 \<le> g_priority ?y" "case g_last ?y of None \<Rightarrow> False | Some l \<Rightarrow> 0 < l \<and> l \<le> wr_worked r"
      using y tick t by auto
    ultimately have "list_ex (\<lambda>g. g_priority g0 \<le> g_priority g \<and> (case g_last g of None \<Rightarrow> False | Some l \<Rightarrow> 0 < l \<and> l \<le> wr_worked r))
        (active_goals ag (gl_apply ?f ag (g_id g) s))" unfolding list_ex_iff by blast
    moreover have "length (active_goals ag (gl_apply ?f ag (g_id g) s)) \<le> 100" using few by (simp add: act)
    ultimately show ?thesis using ch g0 t tick unfolding w starved_def by simp
  qed
qed


text \<open>
  Two goals of the same priority: the first is worked on, the second, created before that, waits.
\<close>

definition two_goals :: "nat goal_store" where
  "two_goals = run_ops (goal_step (\<lambda>_. None))
     [GlCreate ''g1'' 1 ''ada'' ''one'' 5, GlCreate ''g2'' 2 ''ada'' ''two'' 5, GlProgress 3 3 ''ada'' ''g1'' []] []"

definition round_at :: "time \<Rightarrow> work_round" where
  "round_at t = \<lparr>wr_focus = t, wr_updated = t, wr_worked = t, wr_metrics = []\<rparr>"


section \<open>Requests\<close>

datatype route_op =
    RouteCreate string time string string int
  | RouteUpdate time time string string "string option" "payload option"

fun route_step :: "(string \<Rightarrow> 'v option) \<Rightarrow> route_op \<Rightarrow> 'v goal_store \<Rightarrow> 'v goal_store" where
  "route_step emb (RouteCreate i now ag obj pr) s =
     (case fst (route_create_goal emb i now ag obj pr (Some s)) of None \<Rightarrow> s | Some s' \<Rightarrow> s')"
| "route_step emb (RouteUpdate now now' ag i status metrics) s =
     (case fst (route_update_goal now now' ag i status metrics (Some s)) of None \<Rightarrow> s | Some s' \<Rightarrow> s')"

fun routes_fresh :: "(string \<Rightarrow> 'v option) \<Rightarrow> route_op list \<Rightarrow> 'v goal_store \<Rightarrow> bool" where
  "routes_fresh emb [] s = True"
| "routes_fresh emb (x # xs) s =
     ((case x of RouteCreate i now ag obj pr \<Rightarrow> gl_get ag i s = None | RouteUpdate now now' ag i status metrics \<Rightarrow> True) \<and>
      routes_fresh emb xs (route_step emb x s))"

definition shelved :: "string \<Rightarrow> string \<Rightarrow> 'v goal_store \<Rightarrow> bool" where
  "shelved ag i s = (case gl_get ag i s of None \<Rightarrow> False | Some g \<Rightarrow> g_status g \<noteq> GActive)"

lemma shelved_apply:
  "goals_ok s \<Longrightarrow> shelved ag i s \<Longrightarrow> (\<And>g. g_id (f g) = g_id g) \<Longrightarrow> (\<And>g. g_status g \<noteq> GActive \<Longrightarrow> g_status (f g) \<noteq> GActive) \<Longrightarrow>
    goals_ok (gl_apply f ag' i' s) \<and> shelved ag i (gl_apply f ag' i' s)"
  by (auto simp: change_ok shelved_def split: option.splits)

lemma shelved_status:
  assumes ok: "goals_ok s" and sh: "shelved ag i s"
  shows "goals_ok (fst (route_status now now' ag' j status s)) \<and> shelved ag i (fst (route_status now now' ag' j status s))"
proof -
  note kept = shelved_apply [OF ok sh]
  have p: "(case gl_pause now ag' j s of Inl e \<Rightarrow> (s, Some 500) | Inr s' \<Rightarrow> (s', None)) =
      (gl_apply (\<lambda>g. g\<lparr>g_status := GPaused, g_updated := now\<rparr>) ag' j s, if isl (gl_pause now ag' j s) then Some (500 :: nat) else None)"
    by (simp add: gl_pause_def gl_apply_def swallow_def split: sum.split)
  show ?thesis
    unfolding route_status_def p gl_complete_def gl_abandon_def gl_apply_def [symmetric]
    using ok sh kept by simp
qed

lemma shelved_route:
  assumes ok: "goals_ok s" and sh: "shelved ag i s" and fresh: "routes_fresh emb [x] s"
  shows "goals_ok (route_step emb x s) \<and> shelved ag i (route_step emb x s)"
proof (cases x)
  case (RouteCreate j now ag' obj pr)
  then have "gl_get ag' j s = None" using fresh by simp
  then show ?thesis using RouteCreate ok_create [OF ok] get_create [OF ok] sh
    by (auto simp: route_create_goal_def Let_def shelved_def)
next
  case (RouteUpdate now now' ag' j status metrics)
  let ?s = "case metrics of None \<Rightarrow> s | Some m \<Rightarrow> if m = [] then s else gl_update_progress now now' ag' j m s"
  have s1: "goals_ok ?s \<and> shelved ag i ?s"
    using ok sh shelved_apply [OF ok sh] by (simp add: gl_update_progress_def gl_apply_def [symmetric] split: option.split)
  note shelved_status [OF conjunct1 [OF s1] conjunct2 [OF s1], of now now' ag' j status]
  then show ?thesis using RouteUpdate ok sh by (simp add: route_update_goal_def Let_def split_beta)
qed

text \<open>
  over HTTP a goal that is not active never becomes active again: a paused goal stays paused
  whatever sequence of requests is made, a request for the status \<open>active\<close> included, which is answered
  as a success and changes nothing.
\<close>

theorem gl_routes_never_reactivate:
  assumes "goals_fresh past (\<lambda>ag i. None)" and "routes_fresh emb reqs (run_ops (goal_step emb) past [])"
    and "shelved ag i (run_ops (goal_step emb) past [])"
  shows "shelved ag i (run_ops (route_step emb) reqs (run_ops (goal_step emb) past []))"
proof -
  have v: "view ([] :: 'a goal_store) = (\<lambda>ag i. None)" by (simp add: view_def gl_get_def)
  have "goals_ok s \<Longrightarrow> shelved ag i s \<Longrightarrow> routes_fresh emb reqs s \<Longrightarrow> shelved ag i (run_ops (route_step emb) reqs s)"
    for s :: "'a goal_store"
  proof (induction reqs arbitrary: s)
    case (Cons x xs)
    from shelved_route [OF Cons.prems(1,2), of emb x] Cons.prems(3) Cons.IH [of "route_step emb x s"] show ?case by simp
  qed simp
  moreover have "goals_ok (run_ops (goal_step emb) past ([] :: 'a goal_store))"
    using run_refines [of "[] :: 'a goal_store" past emb] assms(1) by (simp add: v goals_ok_def)
  ultimately show ?thesis using assms(2,3) by blast
qed

theorem gl_routes_never_reactivate_witness:
  "shelved ''ada'' ''g1''
     (run_ops (route_step (\<lambda>_. None :: nat option)) [RouteUpdate 3 3 ''ada'' ''g1'' (Some ''active'') None]
       (run_ops (goal_step (\<lambda>_. None)) [GlCreate ''g1'' 1 ''ada'' ''one'' 5, GlPause 2 ''ada'' ''g1''] []))"
  by (rule gl_routes_never_reactivate)
    (code_simp, simp, code_simp)

text \<open>
  search can answer with the wrong goal: vectors are stored without a reference to their goal, so after
  a goal whose text could not be embedded every later vector is taken for the goal before.
\<close>

theorem gl_search_misaligned:
  "let emb = (\<lambda>t. if t = ''one'' then None else Some (length t));
       s = run_ops (goal_step emb) [GlCreate ''g1'' 1 ''ada'' ''one'' 5, GlCreate ''g2'' 2 ''ada'' ''three'' 5] []
   in map g_objective (gl_search emb (\<lambda>v w. if v = w then 1 else 0) ''ada'' ''three'' 5 (1 / 2) s) = [''one'']"
  by code_simp

end
