(* ===== verification/Delegation.thy ===== *)
theory Delegation imports Goals "HOL-Library.Multiset" begin

text \<open>
  Delegation of goals between agents, \<open>agents/delegation.py\<close>, and goals shared by several agents,
  \<open>agents/shared_goal.py\<close>, on top of the goal engine of Goals. The outbound and inbound files are
  dictionaries by agent; a delegation is found by scanning the outbound ones in their order. The
  semantic memory is what has been stored in it (\<open>dg_notes\<close>, absent without a memory); what a search of
  it returns, the language model's split of an objective and the JSON text of a result are parameters.
  A result \<open>{"ok": True, "result": r}\<close> is the text \<open>r\<close>.

  The lemmas show that sender and receiver keep the same records, when a delegation has a result and
  that it is final, and when a shared goal is complete.
\<close>

section \<open>Delegations\<close>

datatype deleg_status = DPending | DCompleted | DFailed

record deleg =
  d_id :: string
  d_from :: string
  d_to :: string
  d_task :: string
  d_context :: string
  d_goal :: string
  d_status :: deleg_status
  d_result :: "string option"
  d_created :: time
  d_completed :: time

record 'v delegs =
  dg_out :: "(string, deleg list) dict"
  dg_in :: "(string, deleg list) dict"
  dg_goals :: "'v goal_store option"
  dg_notes :: "(string \<times> string) list option"

definition dg_note :: "string \<Rightarrow> string \<Rightarrow> 'v delegs \<Rightarrow> 'v delegs" where
  "dg_note agent txt s = s\<lparr>dg_notes := map_option (\<lambda>ns. ns @ [(agent, txt)]) (dg_notes s)\<rparr>"

text \<open>\<open>_write_outbound\<close> and \<open>_write_inbound\<close>, \<open>_rewrite_record\<close>, \<open>_find_record\<close>\<close>

definition file_append :: "string \<Rightarrow> deleg \<Rightarrow> (string, deleg list) dict \<Rightarrow> (string, deleg list) dict" where
  "file_append agent r files = dict_set agent (dict_get_or [] files agent @ [r]) files"

definition file_rewrite :: "string \<Rightarrow> deleg \<Rightarrow> (string, deleg list) dict \<Rightarrow> (string, deleg list) dict" where
  "file_rewrite agent r files = dict_upd agent (map (\<lambda>d. if d_id d = d_id r then r else d)) files"

definition find_record :: "string \<Rightarrow> 'v delegs \<Rightarrow> deleg option" where
  "find_record i s = find (\<lambda>d. d_id d = i) (concat (vals (dg_out s)))"

definition quote :: string where
  "quote = [char_of (39 :: nat)]"

definition dg_delegate :: "(string \<Rightarrow> 'v option) \<Rightarrow> string \<Rightarrow> string \<Rightarrow> time \<Rightarrow> time \<Rightarrow> string \<Rightarrow> string \<Rightarrow> string \<Rightarrow> string
    \<Rightarrow> 'v delegs \<Rightarrow> 'v delegs \<times> string option" where
  "dg_delegate emb goal_id new now now' from to task context s =
     (case dg_goals s of None \<Rightarrow> (s, None)
      | Some gs \<Rightarrow>
          let objective = (if context \<noteq> [] then task @ [char_of (10 :: nat)] @ ''[Context from '' @ from @ '': '' @ take 200 context @ '']''
                           else task);
              gs' = gl_create emb goal_id now to objective 5 gs;
              r = \<lparr>d_id = new, d_from = from, d_to = to, d_task = task, d_context = context, d_goal = goal_id,
                   d_status = DPending, d_result = None, d_created = now', d_completed = 0\<rparr>;
              s' = s\<lparr>dg_goals := Some gs', dg_out := file_append from r (dg_out s), dg_in := file_append to r (dg_in s)\<rparr>
          in (dg_note from (''Delegated to '' @ to @ '': '' @ quote @ take 80 task @ quote @ '' (del_id='' @ new @ '')'') s', Some new))"

text \<open>
  The result of a completed goal: the first thought found that names the goal; nothing is found without
  a memory (\<open>None\<close>) or when the search fails (\<open>Some None\<close>).
\<close>

definition harvest :: "string list option option \<Rightarrow> string \<Rightarrow> string" where
  "harvest search goal_id =
     (case search of None \<Rightarrow> ''completed'' | Some None \<Rightarrow> ''completed''
      | Some (Some thoughts) \<Rightarrow>
          (case find (\<lambda>t. py_contains (take 8 goal_id) t \<or> py_contains ''Goal completed'' t) thoughts of
             Some t \<Rightarrow> take 300 t | None \<Rightarrow> ''goal completed''))"

definition result_note :: "(string \<Rightarrow> string) \<Rightarrow> deleg \<Rightarrow> string \<Rightarrow> string" where
  "result_note dumps r result =
     ''Delegation result from '' @ d_to r @ '': '' @ ''task='' @ quote @ take 60 (d_task r) @ quote @ '' '' @ ''result='' @ take 200 (dumps result)"

definition mark_completed :: "(string \<Rightarrow> string) \<Rightarrow> time \<Rightarrow> deleg \<Rightarrow> string \<Rightarrow> 'v delegs \<Rightarrow> 'v delegs" where
  "mark_completed dumps now r result s =
     (let r' = r\<lparr>d_status := DCompleted, d_result := Some result, d_completed := now\<rparr>
      in dg_note (d_from r) (result_note dumps r' result)
           (s\<lparr>dg_out := file_rewrite (d_from r) r' (dg_out s), dg_in := file_rewrite (d_to r) r' (dg_in s)\<rparr>))"

text \<open>
  \<open>search\<close> gives, for an agent, what its memory answers when it is searched.
\<close>

definition dg_check :: "(string \<Rightarrow> string) \<Rightarrow> (string \<Rightarrow> string list option) \<Rightarrow> time \<Rightarrow> string \<Rightarrow> 'v delegs \<Rightarrow> 'v delegs \<times> string option" where
  "dg_check dumps search now i s =
     (case dg_goals s of None \<Rightarrow> (s, None)
      | Some gs \<Rightarrow>
          (case find_record i s of None \<Rightarrow> (s, None)
           | Some r \<Rightarrow>
               if d_status r = DCompleted then (s, d_result r)
               else (case gl_get (d_to r) (d_goal r) gs of
                       None \<Rightarrow> (s, None)
                     | Some g \<Rightarrow>
                         if g_status g = GCompleted
                         then let result = harvest (if dg_notes s = None then None else Some (search (d_to r))) (d_goal r)
                              in (mark_completed dumps now r result s, Some result)
                         else (s, None))))"

record absorbed =
  ab_id :: string
  ab_to :: string
  ab_task :: string
  ab_result :: string

definition absorb_one :: "(string \<Rightarrow> string) \<Rightarrow> (string \<Rightarrow> string list option) \<Rightarrow> (string \<Rightarrow> time) \<Rightarrow> string
    \<Rightarrow> 'v delegs \<times> absorbed list \<Rightarrow> deleg \<Rightarrow> 'v delegs \<times> absorbed list" where
  "absorb_one dumps search clk agent st r =
     (if d_status r \<noteq> DPending then st
      else (case dg_check dumps search (clk (d_id r)) (d_id r) (fst st) of
              (s, None) \<Rightarrow> (s, snd st)
            | (s, Some result) \<Rightarrow>
                (dg_note agent (result_note dumps r result) s,
                 snd st @ [\<lparr>ab_id = d_id r, ab_to = d_to r, ab_task = d_task r, ab_result = result\<rparr>])))"

definition dg_absorb :: "(string \<Rightarrow> string) \<Rightarrow> (string \<Rightarrow> string list option) \<Rightarrow> (string \<Rightarrow> time) \<Rightarrow> string \<Rightarrow> 'v delegs
    \<Rightarrow> 'v delegs \<times> absorbed list" where
  "dg_absorb dumps search clk agent s =
     foldl (absorb_one dumps search clk agent) (s, []) (dict_get_or [] (dg_out s) agent)"

definition dg_lineage :: "string \<Rightarrow> 'v delegs \<Rightarrow> deleg list" where
  "dg_lineage agent s =
     sort_key (\<lambda>r. - d_created r)
       (vals (dict_build d_id (\<lambda>r. r) (dict_get_or [] (dg_out s) agent @ dict_get_or [] (dg_in s) agent)))"

section \<open>Shared goals\<close>

datatype sub_status = SubPending | SubCompleted | SubFailed
datatype shared_status = SharedActive | SharedCompleted | SharedPartial

record subtask =
  sub_agent :: string
  sub_deleg :: string
  sub_objective :: string
  sub_status :: sub_status
  sub_result :: "string option"

record shared_goal =
  sg_id :: string
  sg_coord :: string
  sg_objective :: string
  sg_subs :: "subtask list"
  sg_status :: shared_status
  sg_created :: time
  sg_completed :: time

text \<open>
  The engine's state: the shared goals' files, the delegation engine, if it is attached, and what the
  engine itself has stored in the semantic memory, if there is one.
\<close>

record 'v shared =
  sh_goals :: "(string, shared_goal) dict"
  sh_deleg :: "'v delegs option"
  sh_notes :: "(string \<times> string) list option"

definition sh_note :: "string \<Rightarrow> string \<Rightarrow> 'v shared \<Rightarrow> 'v shared" where
  "sh_note agent txt s = s\<lparr>sh_notes := map_option (\<lambda>ns. ns @ [(agent, txt)]) (sh_notes s)\<rparr>"

text \<open>The split of an objective: the model's list, if it is one and not empty, or numbered parts.\<close>

definition sg_split :: "string list option \<Rightarrow> string \<Rightarrow> nat \<Rightarrow> string list" where
  "sg_split answer objective n =
     (case answer of
        Some (t # ts) \<Rightarrow> take n (t # ts)
      | _ \<Rightarrow> map (\<lambda>i. ''Subtask '' @ nat_str (i + 1) @ '' of '' @ nat_str n @ '' for: '' @ take 80 objective) [0..<n])"

definition sg_objectives :: "string list option \<Rightarrow> string \<Rightarrow> nat \<Rightarrow> string list" where
  "sg_objectives answer objective n =
     (let parts = sg_split answer objective n
      in take n (parts @ replicate (n - length parts) (''Support task for: '' @ take 60 objective)))"

text \<open>For each agent its id, the ids of goal and delegation and the clock readings drawn for it.\<close>

record sub_ids =
  si_agent :: string
  si_goal :: string
  si_deleg :: string
  si_now :: time
  si_now2 :: time

definition sg_delegate :: "(string \<Rightarrow> 'v option) \<Rightarrow> string \<Rightarrow> string \<Rightarrow> string \<Rightarrow> 'v delegs option \<times> subtask list \<Rightarrow> sub_ids \<times> string
    \<Rightarrow> 'v delegs option \<times> subtask list" where
  "sg_delegate emb i coord objective st x =
     (let (ids, obj) = x;
          (d, del) = (case fst st of None \<Rightarrow> (None, None)
             | Some d \<Rightarrow> map_prod Some id (dg_delegate emb (si_goal ids) (si_deleg ids) (si_now ids) (si_now2 ids) coord (si_agent ids) obj
                 (''Shared goal '' @ i @ '': '' @ take 100 objective) d))
      in (d, snd st @ [\<lparr>sub_agent = si_agent ids, sub_deleg = (case del of None \<Rightarrow> [] | Some x \<Rightarrow> x),
            sub_objective = obj, sub_status = SubPending, sub_result = None\<rparr>]))"

definition sg_create :: "(string \<Rightarrow> 'v option) \<Rightarrow> string list option \<Rightarrow> string \<Rightarrow> time \<Rightarrow> string \<Rightarrow> string \<Rightarrow> sub_ids list \<Rightarrow> 'v shared \<Rightarrow> 'v shared" where
  "sg_create emb answer i now coord objective agents s =
     (let (d, subs) = foldl (sg_delegate emb i coord objective) (sh_deleg s, [])
            (zip agents (sg_objectives answer objective (length agents)))
      in sh_note coord (''Shared goal '' @ i @ '' created: '' @ quote @ take 80 objective @ quote @ '' ('' @ nat_str (length agents) @ '' agents)'')
           (s\<lparr>sh_deleg := d, sh_goals := dict_set i
              \<lparr>sg_id = i, sg_coord = coord, sg_objective = objective, sg_subs = subs, sg_status = SharedActive,
               sg_created = now, sg_completed = 0\<rparr> (sh_goals s)\<rparr>))"

text \<open>The poll of one subtask.\<close>

definition poll_sub :: "(string \<Rightarrow> string) \<Rightarrow> (string \<Rightarrow> string list option) \<Rightarrow> (string \<Rightarrow> time) \<Rightarrow> 'v delegs option \<times> subtask list \<Rightarrow> subtask
    \<Rightarrow> 'v delegs option \<times> subtask list" where
  "poll_sub dumps search clk st x =
     (if sub_status x \<noteq> SubPending then (fst st, snd st @ [x])
      else (case fst st of None \<Rightarrow> (None, snd st @ [x])
        | Some d \<Rightarrow>
            if sub_deleg x = [] then (Some d, snd st @ [x])
            else (case dg_check dumps search (clk (sub_deleg x)) (sub_deleg x) d of
                    (d', None) \<Rightarrow> (Some d', snd st @ [x])
                  | (d', Some r) \<Rightarrow> (Some d', snd st @ [x\<lparr>sub_status := SubCompleted, sub_result := Some r\<rparr>]))))"

record progress =
  pr_status :: shared_status
  pr_total :: nat
  pr_completed :: nat
  pr_failed :: nat
  pr_pending :: nat

definition count_status :: "sub_status \<Rightarrow> subtask list \<Rightarrow> nat" where
  "count_status k xs = length (filter (\<lambda>x. sub_status x = k) xs)"

definition sg_check :: "(string \<Rightarrow> string) \<Rightarrow> (string \<Rightarrow> string list option) \<Rightarrow> (string \<Rightarrow> time) \<Rightarrow> time \<Rightarrow> string \<Rightarrow> 'v shared
    \<Rightarrow> 'v shared \<times> progress option" where
  "sg_check dumps search clk now i s =
     (case dict_get (sh_goals s) i of None \<Rightarrow> (s, None)
      | Some r \<Rightarrow>
          let (d, subs) = foldl (poll_sub dumps search clk) (sh_deleg s, []) (sg_subs r);
              total = length subs; completed = count_status SubCompleted subs; failed = count_status SubFailed subs;
              updated = (subs \<noteq> sg_subs r);
              r' = (if \<not> updated then r
                    else if completed = total then r\<lparr>sg_subs := subs, sg_status := SharedCompleted, sg_completed := now\<rparr>
                    else if completed + failed = total then r\<lparr>sg_subs := subs, sg_status := SharedPartial\<rparr>
                    else r\<lparr>sg_subs := subs\<rparr>);
              s1 = s\<lparr>sh_deleg := d\<rparr>;
              s2 = (if updated then s1\<lparr>sh_goals := dict_set i r' (sh_goals s)\<rparr> else s1);
              s3 = (if updated \<and> completed = total
                    then sh_note (sg_coord r) (''Shared goal '' @ i @ '' COMPLETED: '' @ ''all '' @ nat_str total @ '' subtasks done'') s2 else s2)
          in (s3, Some \<lparr>pr_status = sg_status r', pr_total = total, pr_completed = completed, pr_failed = failed,
                pr_pending = total - completed - failed\<rparr>))"

definition sg_is_complete :: "(string \<Rightarrow> string) \<Rightarrow> (string \<Rightarrow> string list option) \<Rightarrow> (string \<Rightarrow> time) \<Rightarrow> time \<Rightarrow> string \<Rightarrow> 'v shared \<Rightarrow> 'v shared \<times> bool" where
  "sg_is_complete dumps search clk now i s =
     (case sg_check dumps search clk now i s of (s', None) \<Rightarrow> (s', False) | (s', Some p) \<Rightarrow> (s', pr_status p = SharedCompleted))"

definition sg_results :: "string \<Rightarrow> 'v shared \<Rightarrow> (string \<times> string \<times> string option) list" where
  "sg_results i s =
     (case dict_get (sh_goals s) i of None \<Rightarrow> []
      | Some r \<Rightarrow> map (\<lambda>x. (sub_agent x, sub_objective x, sub_result x)) (filter (\<lambda>x. sub_status x = SubCompleted) (sg_subs r)))"

section \<open>The records of both sides\<close>

definition dlog :: "(string, deleg list) dict \<Rightarrow> deleg list" where
  "dlog files = concat (vals files)"

definition keyed :: "(deleg \<Rightarrow> string) \<Rightarrow> (string, deleg list) dict \<Rightarrow> bool" where
  "keyed f files = list_all (\<lambda>(k, ds). list_all (\<lambda>d. f d = k) ds) files"

text \<open>Every delegation is in the sender's outbound and the receiver's inbound file, the same in both.\<close>

definition deleg_ok :: "'v delegs \<Rightarrow> bool" where
  "deleg_ok s =
     (wf_dict (dg_out s) \<and> wf_dict (dg_in s) \<and> keyed d_from (dg_out s) \<and> keyed d_to (dg_in s) \<and>
      distinct (map d_id (dlog (dg_out s))) \<and> mset (dlog (dg_in s)) = mset (dlog (dg_out s)))"

lemma dg_note_fields [simp]:
  "dg_out (dg_note a x s) = dg_out s" "dg_in (dg_note a x s) = dg_in s" "dg_goals (dg_note a x s) = dg_goals s"
  by (simp_all add: dg_note_def)

lemma ok_note [simp]: "deleg_ok (dg_note a x s) = deleg_ok s"
  by (simp add: deleg_ok_def)

lemma ok_goals [simp]: "deleg_ok (s\<lparr>dg_goals := gs\<rparr>) = deleg_ok s"
  by (simp add: deleg_ok_def)

lemma mset_append: "mset (dlog (file_append a r f)) = add_mset r (mset (dlog f))"
  by (induction f) (auto simp: dlog_def file_append_def dict_get_or_def)

lemma keyed_append: "keyed g f \<Longrightarrow> g r = a \<Longrightarrow> keyed g (file_append a r f)"
  by (induction f) (auto simp: keyed_def file_append_def dict_get_or_def)

definition replace :: "deleg \<Rightarrow> deleg \<Rightarrow> deleg" where
  "replace r d = (if d_id d = d_id r then r else d)"

lemma log_rewrite:
  "keyed g f \<Longrightarrow> (\<And>d. d \<in> set (dlog f) \<Longrightarrow> d_id d = d_id r \<Longrightarrow> g d = a) \<Longrightarrow> dlog (file_rewrite a r f) = map (replace r) (dlog f)"
proof (induction f)
  case (Cons p f)
  obtain k ds where p: "p = (k, ds)" by (cases p)
  have "map (replace r) ds = ds" if "k \<noteq> a"
  proof (rule map_idI)
    fix d assume "d \<in> set ds"
    then have "g d = k" "d \<in> set (dlog (p # f))" using Cons.prems(1) p by (auto simp: keyed_def list_all_iff dlog_def)
    then show "replace r d = d" using Cons.prems(2) [of d] that by (auto simp: replace_def)
  qed
  moreover have "dlog (file_rewrite a r f) = map (replace r) (dlog f)"
    by (rule Cons.IH) (use Cons.prems p in \<open>auto simp: keyed_def dlog_def\<close>)
  moreover have "file_rewrite a r (p # f) = (k, if k = a then map (replace r) ds else ds) # file_rewrite a r f"
    by (simp add: p file_rewrite_def dict_upd_def replace_def [abs_def])
  ultimately show ?case using p by (simp add: dlog_def)
qed (simp add: dlog_def file_rewrite_def dict_upd_def)

lemma keyed_rewrite: "keyed g f \<Longrightarrow> g r = a \<Longrightarrow> keyed g (file_rewrite a r f)"
  by (induction f) (auto simp: keyed_def file_rewrite_def dict_upd_def list_all_iff split: if_splits)

lemma wf_rewrite [simp]: "wf_dict (file_rewrite a r f) = wf_dict f"
  by (simp add: file_rewrite_def)

lemma wf_append [simp]: "wf_dict f \<Longrightarrow> wf_dict (file_append a r f)"
  by (simp add: file_append_def)

lemma map_replace_ids: "map d_id (map (replace r) ds) = map d_id ds"
  by (simp add: replace_def)

lemma find_by_id: "distinct (map d_id ds) \<Longrightarrow> find (\<lambda>d. d_id d = i) ds = Some r \<longleftrightarrow> r \<in> set ds \<and> d_id r = i"
  by (induction ds) (auto simp: image_iff)

lemma find_record_iff: "deleg_ok s \<Longrightarrow> find_record i s = Some r \<longleftrightarrow> r \<in> set (dlog (dg_out s)) \<and> d_id r = i"
  unfolding find_record_def by (simp add: find_by_id deleg_ok_def dlog_def)

lemma find_record_None: "find_record i s = None \<longleftrightarrow> i \<notin> d_id ` set (dlog (dg_out s))"
  by (auto simp: find_record_def find_None_iff dlog_def)

lemma find_note [simp]: "find_record i (dg_note a x s) = find_record i s"
  by (simp add: find_record_def)

lemma ok_delegate:
  assumes ok: "deleg_ok s" and new: "find_record new s = None"
  shows "deleg_ok (fst (dg_delegate emb gid new now now' from to task context s))"
proof (cases "dg_goals s")
  case (Some gs)
  let ?r = "\<lparr>d_id = new, d_from = from, d_to = to, d_task = task, d_context = context, d_goal = gid,
                   d_status = DPending, d_result = None, d_created = now', d_completed = 0\<rparr>"
  have "mset (map d_id (dlog (file_append from ?r (dg_out s)))) = mset (map d_id (?r # dlog (dg_out s)))"
    by (simp add: mset_append)
  then have "distinct (map d_id (dlog (file_append from ?r (dg_out s)))) = distinct (map d_id (?r # dlog (dg_out s)))"
    by (rule mset_eq_imp_distinct_iff)
  then show ?thesis using ok new Some
    by (simp add: dg_delegate_def Let_def deleg_ok_def keyed_append mset_append find_record_None)
qed (simp add: dg_delegate_def ok)

lemma find_delegate:
  assumes ok: "deleg_ok s" and new: "find_record new s = None" and g: "dg_goals s = Some gs"
  shows "find_record i (fst (dg_delegate emb gid new now now' from to task context s)) =
    (if i = new then Some \<lparr>d_id = new, d_from = from, d_to = to, d_task = task, d_context = context, d_goal = gid,
                   d_status = DPending, d_result = None, d_created = now', d_completed = 0\<rparr> else find_record i s)"
proof -
  let ?r = "\<lparr>d_id = new, d_from = from, d_to = to, d_task = task, d_context = context, d_goal = gid,
                   d_status = DPending, d_result = None, d_created = now', d_completed = 0\<rparr>"
  let ?s = "fst (dg_delegate emb gid new now now' from to task context s)"
  have "set_mset (mset (dlog (dg_out ?s))) = set_mset (add_mset ?r (mset (dlog (dg_out s))))"
    using g by (simp only: dg_delegate_def Let_def) (simp add: mset_append)
  then have set: "set (dlog (dg_out ?s)) = insert ?r (set (dlog (dg_out s)))" by simp
  have "find_record i ?s = Some x \<longleftrightarrow> (if i = new then Some ?r else find_record i s) = Some x" for x
    unfolding find_record_iff [OF ok_delegate [OF ok new]] set
    using find_record_iff [OF ok, of i x] new by (auto simp: find_record_None)
  then show ?thesis by (metis option.exhaust)
qed

lemma mark_log:
  fixes result :: string and now :: time
  assumes ok: "deleg_ok s" and r: "find_record i s = Some r"
  defines "r' \<equiv> r\<lparr>d_status := DCompleted, d_result := Some result, d_completed := now\<rparr>"
  shows "dlog (dg_out (mark_completed dumps now r result s)) = map (replace r') (dlog (dg_out s))"
    and "dlog (dg_in (mark_completed dumps now r result s)) = map (replace r') (dlog (dg_in s))"
proof -
  have d: "distinct (map d_id (dlog (dg_out s)))" and m: "set (dlog (dg_in s)) = set (dlog (dg_out s))"
    using ok by (auto simp: deleg_ok_def dest: mset_eq_setD)
  have "r \<in> set (dlog (dg_out s))" using r find_record_iff [OF ok] by blast
  then have same: "x = r" if "x \<in> set (dlog (dg_out s))" "d_id x = d_id r" for x
    using that d by (auto simp: distinct_map inj_on_def)
  show "dlog (dg_out (mark_completed dumps now r result s)) = map (replace r') (dlog (dg_out s))"
    using ok same by (simp add: mark_completed_def Let_def r'_def [symmetric])
      (rule log_rewrite [where g = d_from], auto simp: deleg_ok_def r'_def)
  show "dlog (dg_in (mark_completed dumps now r result s)) = map (replace r') (dlog (dg_in s))"
    using ok same m by (simp add: mark_completed_def Let_def r'_def [symmetric])
      (rule log_rewrite [where g = d_to], auto simp: deleg_ok_def r'_def)
qed

lemma ok_mark:
  assumes ok: "deleg_ok s" and r: "find_record i s = Some r"
  shows "deleg_ok (mark_completed dumps now r result s)"
proof -
  have "keyed d_from (dg_out (mark_completed dumps now r result s))" "keyed d_to (dg_in (mark_completed dumps now r result s))"
    using ok by (simp_all add: mark_completed_def Let_def deleg_ok_def keyed_rewrite)
  moreover have "wf_dict (dg_out (mark_completed dumps now r result s))" "wf_dict (dg_in (mark_completed dumps now r result s))"
    using ok by (simp_all add: mark_completed_def Let_def deleg_ok_def)
  ultimately show ?thesis using ok unfolding deleg_ok_def mark_log [OF ok r]
    by (simp only: map_replace_ids mset_map)
qed

lemma find_mark:
  assumes ok: "deleg_ok s" and r: "find_record i s = Some r"
  shows "find_record j (mark_completed dumps now r result s) =
    (if j = i then Some (r\<lparr>d_status := DCompleted, d_result := Some result, d_completed := now\<rparr>) else find_record j s)"
proof -
  let ?r = "r\<lparr>d_status := DCompleted, d_result := Some result, d_completed := now\<rparr>"
  have ri: "d_id r = i" "r \<in> set (dlog (dg_out s))" using r find_record_iff [OF ok] by auto
  have "find_record j (mark_completed dumps now r result s) = Some x \<longleftrightarrow> (if j = i then Some ?r else find_record j s) = Some x" for x
    unfolding find_record_iff [OF ok_mark [OF ok r]] mark_log [OF ok r]
    using find_record_iff [OF ok, of j x] ri by (auto simp: replace_def image_iff intro: bexI [of _ r] bexI [of _ x])
  then show ?thesis by (metis option.exhaust)
qed

section \<open>Operations\<close>

text \<open>
  The operations on delegations and on the goals they create; an id that is taken is not drawn.
\<close>

datatype dg_op =
    DgDelegate string string time time string string string string
  | DgCheck "string \<Rightarrow> string list option" time string
  | DgAbsorb "string \<Rightarrow> string list option" "string \<Rightarrow> time" string
  | DgGoal goal_op

fun dg_step :: "(string \<Rightarrow> 'v option) \<Rightarrow> (string \<Rightarrow> string) \<Rightarrow> dg_op \<Rightarrow> 'v delegs \<Rightarrow> 'v delegs" where
  "dg_step emb dumps (DgDelegate gid new now now' from to task context) s =
     (if find_record new s \<noteq> None then s else fst (dg_delegate emb gid new now now' from to task context s))"
| "dg_step emb dumps (DgCheck search now i) s = fst (dg_check dumps search now i s)"
| "dg_step emb dumps (DgAbsorb search clk agent) s = fst (dg_absorb dumps search clk agent s)"
| "dg_step emb dumps (DgGoal x) s = s\<lparr>dg_goals := map_option (goal_step emb x) (dg_goals s)\<rparr>"

lemma check_cases:
  obtains "fst (dg_check dumps search now i s) = s"
  | r result where "find_record i s = Some r" "d_status r \<noteq> DCompleted" "fst (dg_check dumps search now i s) = mark_completed dumps now r result s"
proof (cases "dg_goals s")
  case None
  then show ?thesis by (intro that(1)) (simp add: dg_check_def)
next
  case (Some gs)
  show ?thesis
  proof (cases "find_record i s")
    case None
    then show ?thesis using Some by (intro that(1)) (simp add: dg_check_def)
  next
    case r: (Some r)
    show ?thesis
    proof (cases "d_status r = DCompleted \<or> (case gl_get (d_to r) (d_goal r) gs of None \<Rightarrow> True | Some g \<Rightarrow> g_status g \<noteq> GCompleted)")
      case True
      then show ?thesis using Some r by (intro that(1)) (auto simp: dg_check_def Let_def split: option.splits)
    next
      case False
      then show ?thesis using Some r
        by (intro that(2) [of r "harvest (if dg_notes s = None then None else Some (search (d_to r))) (d_goal r)"])
          (auto simp: dg_check_def Let_def split: option.splits)
    qed
  qed
qed

lemma ok_check: "deleg_ok s \<Longrightarrow> deleg_ok (fst (dg_check dumps search now i s))"
  by (rule check_cases [of dumps search now i s]) (simp_all add: ok_mark)

text \<open>A delegation with its result, which no operation changes.\<close>

definition settled :: "string \<Rightarrow> deleg \<Rightarrow> 'v delegs \<Rightarrow> bool" where
  "settled i r s = (deleg_ok s \<and> find_record i s = Some r \<and> d_status r = DCompleted)"

lemma settled_check: "settled i r s \<Longrightarrow> settled i r (fst (dg_check dumps search now j s))"
  by (rule check_cases [of dumps search now j s]) (auto simp: settled_def ok_mark find_mark)

lemma settled_note [simp]: "settled i r (dg_note a x s) = settled i r s"
  by (simp add: settled_def)

lemma absorb_keeps:
  assumes "P s" and check: "\<And>s j now. P s \<Longrightarrow> P (fst (dg_check dumps search now j s))" and noted: "\<And>s a x. P s \<Longrightarrow> P (dg_note a x s)"
  shows "P (fst (dg_absorb dumps search clk agent s))"
  unfolding dg_absorb_def
proof (rule foldl_keeps [where P = "\<lambda>st. P (fst st)"])
  fix st :: "'a delegs \<times> absorbed list" and r assume st: "P (fst st)"
  show "P (fst (absorb_one dumps search clk agent st r))"
    using check [OF st, of "clk (d_id r)" "d_id r"] st noted
    by (auto simp: absorb_one_def split: prod.splits option.splits)
qed (simp add: assms(1))

lemma ok_step: "deleg_ok s \<Longrightarrow> deleg_ok (dg_step emb dumps x s)"
proof (cases x)
  case (DgDelegate gid new now now' sender receiver task ctx)
  then show "deleg_ok s \<Longrightarrow> ?thesis" by (simp add: ok_delegate)
next
  case (DgAbsorb search clk agent)
  then show "deleg_ok s \<Longrightarrow> ?thesis" by (simp add: absorb_keeps [where P = deleg_ok] ok_check)
qed (simp_all add: ok_check)

lemma settled_step: "settled i r s \<Longrightarrow> settled i r (dg_step emb dumps x s)"
proof (cases x)
  case (DgDelegate gid new now now' sender receiver task ctx)
  assume st: "settled i r s"
  then have ok: "deleg_ok s" and f: "find_record i s = Some r" by (simp_all add: settled_def)
  show ?thesis
  proof (cases "find_record new s")
    case None
    then have "new \<noteq> i" using f by auto
    then show ?thesis using DgDelegate None st find_delegate [OF ok None] ok_delegate [OF ok None]
      by (cases "dg_goals s") (auto simp: settled_def dg_delegate_def)
  qed (use DgDelegate st in simp)
next
  case (DgAbsorb search clk agent)
  then show "settled i r s \<Longrightarrow> ?thesis" by (simp add: absorb_keeps [where P = "settled i r"] settled_check)
next
  case (DgGoal y)
  then show "settled i r s \<Longrightarrow> ?thesis" by (auto simp: settled_def deleg_ok_def find_record_def)
qed (simp add: settled_check)

interpretation deleg: lifecycle "dg_step emb dumps" deleg_ok "\<lambda>s i. find_record i s" "\<lambda>r. d_status r = DCompleted" "\<lambda>x i. False"
  for emb dumps
proof unfold_locales
  show "deleg_ok s \<Longrightarrow> deleg_ok (dg_step emb dumps x s)" for s x by (rule ok_step)
  show "deleg_ok s \<Longrightarrow> find_record k s = Some a \<Longrightarrow> d_status a = DCompleted \<Longrightarrow> \<not> False \<Longrightarrow> find_record k (dg_step emb dumps x s) = Some a"
    for s k a x
    using settled_step [of k a s emb dumps x] by (simp add: settled_def)
qed

definition no_delegs :: "'v goal_store option \<Rightarrow> (string \<times> string) list option \<Rightarrow> 'v delegs" where
  "no_delegs gs notes = \<lparr>dg_out = [], dg_in = [], dg_goals = gs, dg_notes = notes\<rparr>"

lemma ok_reached: "deleg_ok (run_ops (dg_step emb dumps) ops (no_delegs gs notes))"
  by (rule deleg.inv_run) (simp add: no_delegs_def deleg_ok_def dlog_def keyed_def)

text \<open>
  sender and receiver keep the same books: after any operations what an agent has in its inbound file
  are exactly the delegations of all agents' outbound files that are addressed to it, in the same state,
  and what it has in its outbound file are those it sent.
\<close>

theorem dg_books_agree:
  "let s = run_ops (dg_step emb dumps) ops (no_delegs gs notes); sent = concat (vals (dg_out s))
   in distinct (map d_id sent) \<and>
      set (dict_get_or [] (dg_in s) agent) = {r \<in> set sent. d_to r = agent} \<and>
      set (dict_get_or [] (dg_out s) agent) = {r \<in> set sent. d_from r = agent}"
proof -
  have entries: "set (dict_get_or [] f agent) = {r \<in> set (dlog f). g r = agent}" if "wf_dict f" "keyed g f" for f g
  proof -
    have "(k, ds) \<in> set f \<Longrightarrow> r \<in> set ds \<Longrightarrow> g r = k" for k ds r using that(2) by (force simp: keyed_def list_all_iff)
    then show ?thesis using that(1)
      by (cases "dict_get f agent") (force simp: dict_get_or_def dlog_def dest: in_dict_get dict_get_in)+
  qed
  let ?s = "run_ops (dg_step emb dumps) ops (no_delegs gs notes)"
  have ok: "deleg_ok ?s" by (rule ok_reached)
  then have "set (dlog (dg_in ?s)) = set (dlog (dg_out ?s))" by (auto simp: deleg_ok_def dest: mset_eq_setD)
  then show ?thesis using ok entries [of "dg_in ?s" d_to] entries [of "dg_out ?s" d_from]
    by (simp add: deleg_ok_def Let_def dlog_def)
qed

definition goal_done :: "string \<Rightarrow> string \<Rightarrow> 'v goal_store \<Rightarrow> bool" where
  "goal_done agent i gs = (case gl_get agent i gs of None \<Rightarrow> False | Some g \<Rightarrow> g_status g = GCompleted)"

lemma check_pending:
  assumes ok: "deleg_ok s" and g: "dg_goals s = Some gs" and r: "find_record i s = Some r" "d_status r \<noteq> DCompleted"
  shows "snd (dg_check dumps search now i s) \<noteq> None \<longleftrightarrow> goal_done (d_to r) (d_goal r) gs"
    and "dg_goals (fst (dg_check dumps search now i s)) = Some gs"
    and "j \<noteq> i \<Longrightarrow> find_record j (fst (dg_check dumps search now i s)) = find_record j s"
  using assms find_mark [OF ok r(1)]
  by (auto simp: dg_check_def goal_done_def Let_def mark_completed_def split: option.splits)

lemma check_settled: "settled i r s \<Longrightarrow> dg_goals s = Some gs \<Longrightarrow> dg_check dumps search now i s = (s, d_result r)"
  by (simp add: settled_def dg_check_def)

lemma settled_run: "settled i r s \<Longrightarrow> settled i r (run_ops (dg_step emb dumps) ops s)"
  by (induction ops arbitrary: s) (simp_all add: settled_step)

lemma check_settles:
  assumes ok: "deleg_ok s" and c: "snd (dg_check dumps search now i s) = Some x"
  shows "\<exists>r. settled i r (fst (dg_check dumps search now i s)) \<and> d_result r = Some x"
proof -
  obtain gs r where g: "dg_goals s = Some gs" and r: "find_record i s = Some r"
    using c by (auto simp: dg_check_def split: option.splits)
  show ?thesis
  proof (cases "d_status r = DCompleted")
    case True
    then have "settled i r s" using ok r by (simp add: settled_def)
    with check_settled [OF this g, of dumps search now] c show ?thesis by auto
  next
    case False
    then have "fst (dg_check dumps search now i s) = mark_completed dumps now r x s"
      using c g r by (auto simp: dg_check_def Let_def split: option.splits if_splits)
    then show ?thesis using ok_mark [OF ok r] find_mark [OF ok r] by (auto simp: settled_def)
  qed
qed

definition attached :: "'v delegs \<Rightarrow> bool" where
  "attached s = (dg_goals s \<noteq> None)"

lemma mark_goals [simp]: "dg_goals (mark_completed dumps now r x s) = dg_goals s"
  by (simp add: mark_completed_def Let_def)

lemma attached_check [simp]: "attached (fst (dg_check dumps search now i s)) = attached s"
  by (rule check_cases [of dumps search now i s]) (simp_all add: attached_def)

lemma attached_step: "attached s \<Longrightarrow> attached (dg_step emb dumps x s)"
proof (cases x)
  case (DgDelegate gid new now now' sender receiver task ctx)
  then show "attached s \<Longrightarrow> ?thesis" by (auto simp: attached_def dg_delegate_def Let_def split: option.splits)
next
  case (DgAbsorb search clk agent)
  then show "attached s \<Longrightarrow> ?thesis"
    by (simp add: absorb_keeps [where P = attached]) (rule absorb_keeps [where P = attached], simp_all, simp add: attached_def)
qed (simp_all, simp add: attached_def)

lemma attached_run: "attached s \<Longrightarrow> attached (run_ops (dg_step emb dumps) ops s)"
  by (induction ops arbitrary: s) (simp_all add: attached_step)

text \<open>
  the result of a delegation is final: once a check has given a result, every later check gives the
  same one, whatever has been delegated, absorbed, searched or done to the goals in between, reopening
  the goal included.
\<close>

theorem dg_result_final:
  assumes "snd (dg_check dumps search now i (run_ops (dg_step emb dumps) ops (no_delegs (Some gs) notes))) = Some x"
  shows "snd (dg_check dumps search' now' i (run_ops (dg_step emb dumps) (ops @ [DgCheck search now i] @ later) (no_delegs (Some gs) notes))) = Some x"
proof -
  let ?s = "run_ops (dg_step emb dumps) ops (no_delegs (Some gs) notes)"
  let ?t = "run_ops (dg_step emb dumps) later (fst (dg_check dumps search now i ?s))"
  obtain r where r: "settled i r (fst (dg_check dumps search now i ?s))" "d_result r = Some x"
    using check_settles [OF ok_reached assms] by blast
  have "attached (no_delegs (Some gs) notes)" by (simp add: attached_def no_delegs_def)
  then have "attached ?t" by (intro attached_run) (simp add: attached_run)
  then obtain gs' where "dg_goals ?t = Some gs'" by (auto simp: attached_def)
  from check_settled [OF settled_run [OF r(1)] this, of dumps search' now'] r(2) show ?thesis by (simp add: run_ops_append)
qed

text \<open>A delegation whose goal is completed.\<close>

definition one_done :: "dg_op list" where
  "one_done = [DgDelegate ''g1'' ''del-1'' 1 1 ''ada'' ''bob'' ''count'' [], DgGoal (GlComplete 2 2 ''bob'' ''g1'')]"

theorem dg_result_final_witness:
  "snd (dg_check id (\<lambda>_. None) 9 ''del-1'' (run_ops (dg_step (\<lambda>_. None :: nat option) id)
     (one_done @ [DgCheck (\<lambda>_. Some [''Goal completed: 7'']) 3 ''del-1''] @ [DgGoal (GlResume 4 ''bob'' ''g1'')])
     (no_delegs (Some []) (Some [])))) = Some ''Goal completed: 7''"
  by (rule dg_result_final) code_simp

text \<open>
  absorbing a completed delegation notes its result twice in the sender's memory, once by the check and
  once by the absorption.
\<close>

theorem dg_absorb_notes_twice:
  "let s = run_ops (dg_step (\<lambda>_. None :: nat option) id) one_done (no_delegs (Some []) (Some []));
       notes = the (dg_notes (fst (dg_absorb id (\<lambda>_. None) (\<lambda>_. 3) ''ada'' s)))
   in length notes = 3 \<and> notes ! 1 = notes ! 2"
  by code_simp

section \<open>Progress of shared goals\<close>

text \<open>A poll leaves a subtask as it is or completes a pending one.\<close>

definition polled :: "subtask \<Rightarrow> subtask \<Rightarrow> bool" where
  "polled x y = (y = x \<or> sub_status x = SubPending \<and> sub_status y = SubCompleted)"

lemma poll_one: "\<exists>d' y. poll_sub dumps search clk (d, acc) x = (d', acc @ [y]) \<and> polled x y"
  by (simp add: poll_sub_def polled_def split: option.split prod.split)

lemma poll_polled:
  "\<exists>ys. snd (foldl (poll_sub dumps search clk) (d, acc) xs) = acc @ ys \<and> list_all2 polled xs ys"
proof (induction xs arbitrary: d acc)
  case (Cons x xs)
  obtain d' y where y: "poll_sub dumps search clk (d, acc) x = (d', acc @ [y])" "polled x y" using poll_one by blast
  obtain ys where "snd (foldl (poll_sub dumps search clk) (d', acc @ [y]) xs) = (acc @ [y]) @ ys" "list_all2 polled xs ys"
    using Cons by blast
  then show ?case using y by (intro exI [of _ "y # ys"]) simp
qed simp
definition sub_ok :: "shared_goal \<Rightarrow> bool" where
  "sub_ok r = (list_all (\<lambda>x. sub_status x \<noteq> SubFailed) (sg_subs r) \<and> sg_status r \<noteq> SharedPartial \<and>
     (sg_status r = SharedCompleted \<longleftrightarrow> sg_subs r \<noteq> [] \<and> list_all (\<lambda>x. sub_status x = SubCompleted) (sg_subs r)))"

lemma count_all: "count_status k xs = length xs \<longleftrightarrow> list_all (\<lambda>x. sub_status x = k) xs"
proof (induction xs)
  case (Cons x xs)
  have "length (filter (\<lambda>x. sub_status x = k) xs) \<le> length xs" by simp
  then have "length (filter (\<lambda>x. sub_status x = k) xs) \<noteq> Suc (length xs)" by linarith
  with Cons show ?case by (simp add: count_status_def)
qed (simp add: count_status_def)

lemma count_none: "list_all (\<lambda>x. sub_status x \<noteq> k) xs \<Longrightarrow> count_status k xs = 0"
  by (auto simp: count_status_def list_all_iff)

lemma polled_subs:
  assumes "list_all2 polled xs ys" "list_all (\<lambda>x. sub_status x \<noteq> SubFailed) xs"
  shows "list_all (\<lambda>x. sub_status x \<noteq> SubFailed) ys"
    and "list_all (\<lambda>x. sub_status x = SubCompleted) xs \<Longrightarrow> ys = xs"
  using assms by (induction rule: list_all2_induct) (auto simp: polled_def)

lemma list_all_set:
  "list_all P (vals d) \<Longrightarrow> P x \<Longrightarrow> list_all P (vals (dict_set k x d))"
  by (induction d) auto

lemma sub_ok_check:
  assumes ok: "list_all sub_ok (vals (sh_goals s))"
  shows "list_all sub_ok (vals (sh_goals (fst (sg_check dumps search clk now i s))))"
proof (cases "dict_get (sh_goals s) i")
  case (Some r)
  have r: "sub_ok r" using ok dict_get_in [OF Some] by (force simp: list_all_iff)
  obtain d ys where f: "foldl (poll_sub dumps search clk) (sh_deleg s, []) (sg_subs r) = (d, ys)" and p: "list_all2 polled (sg_subs r) ys"
    using poll_polled [of dumps search clk "sh_deleg s" "[]" "sg_subs r"] by (metis append_Nil prod.collapse)
  note ys = polled_subs [OF p]
  have nf: "list_all (\<lambda>x. sub_status x \<noteq> SubFailed) ys" using ys(1) r by (simp add: sub_ok_def)
  let ?r = "if count_status SubCompleted ys = length ys then r\<lparr>sg_subs := ys, sg_status := SharedCompleted, sg_completed := now\<rparr>
      else if count_status SubCompleted ys + count_status SubFailed ys = length ys then r\<lparr>sg_subs := ys, sg_status := SharedPartial\<rparr>
      else r\<lparr>sg_subs := ys\<rparr>"
  have new: "sub_ok ?r" if "ys \<noteq> sg_subs r"
    using r nf that ys(2) count_none [OF nf] list_all2_lengthD [OF p] by (auto simp: sub_ok_def count_all)
  have "sh_goals (fst (sg_check dumps search clk now i s)) = (if ys \<noteq> sg_subs r then dict_set i ?r (sh_goals s) else sh_goals s)"
    using Some f by (auto simp: sg_check_def Let_def sh_note_def)
  then show ?thesis using ok list_all_set [OF ok new] by simp
qed (use ok in \<open>simp add: sg_check_def\<close>)

datatype sh_op =
    ShCreate "string list option" string time string string "sub_ids list"
  | ShCheck "string \<Rightarrow> string list option" "string \<Rightarrow> time" time string
  | ShDeleg dg_op

fun sh_step :: "(string \<Rightarrow> 'v option) \<Rightarrow> (string \<Rightarrow> string) \<Rightarrow> sh_op \<Rightarrow> 'v shared \<Rightarrow> 'v shared" where
  "sh_step emb dumps (ShCreate answer i now coord objective agents) s = sg_create emb answer i now coord objective agents s"
| "sh_step emb dumps (ShCheck search clk now i) s = fst (sg_check dumps search clk now i s)"
| "sh_step emb dumps (ShDeleg x) s = s\<lparr>sh_deleg := map_option (dg_step emb dumps x) (sh_deleg s)\<rparr>"


lemma create_pending:
  "list_all (\<lambda>x. sub_status x = SubPending) (snd (foldl (sg_delegate emb i coord objective) st xs)) =
    list_all (\<lambda>x. sub_status x = SubPending) (snd st) \<and>
   length (snd (foldl (sg_delegate emb i coord objective) st xs)) = length (snd st) + length xs"
  by (induction xs arbitrary: st) (simp_all add: sg_delegate_def split_beta Let_def)

lemma sub_ok_step: "list_all sub_ok (vals (sh_goals s)) \<Longrightarrow> list_all sub_ok (vals (sh_goals (sh_step emb dumps x s)))"
proof (cases x)
  case (ShCreate answer i now coord objective agents)
  let ?subs = "snd (foldl (sg_delegate emb i coord objective) (sh_deleg s, []) (zip agents (sg_objectives answer objective (length agents))))"
  have "list_all (\<lambda>x. sub_status x = SubPending) ?subs" using create_pending [of emb i coord objective "(sh_deleg s, [])"] by simp
  then have "sub_ok \<lparr>sg_id = i, sg_coord = coord, sg_objective = objective, sg_subs = ?subs, sg_status = SharedActive,
       sg_created = now, sg_completed = 0\<rparr>"
    by (cases ?subs) (auto simp: sub_ok_def list_all_iff)
  then show "list_all sub_ok (vals (sh_goals s)) \<Longrightarrow> ?thesis"
    by (simp add: ShCreate sg_create_def split_beta Let_def sh_note_def list_all_set)
qed (simp_all add: sub_ok_check)

interpretation shared: op_system "sh_step emb dumps" "\<lambda>s. list_all sub_ok (vals (sh_goals s))" for emb dumps
  by unfold_locales (rule sub_ok_step)

text \<open>
  a shared goal is complete exactly when it has subtasks and all are completed: in every state
  reached by creating shared goals, polling them and working on the delegations, no subtask has failed
  and no shared goal is partial, a status the code knows but never gives; and a goal shared with no
  agents is never complete.
\<close>

theorem sg_never_partial:
  "list_all (\<lambda>r. sg_status r \<noteq> SharedPartial \<and> list_all (\<lambda>x. sub_status x \<noteq> SubFailed) (sg_subs r) \<and>
      (sg_status r = SharedCompleted \<longleftrightarrow> sg_subs r \<noteq> [] \<and> list_all (\<lambda>x. sub_status x = SubCompleted) (sg_subs r)))
    (vals (sh_goals (run_ops (sh_step emb dumps) ops \<lparr>sh_goals = [], sh_deleg = d, sh_notes = notes\<rparr>)))"
  using shared.inv_run [of "\<lparr>sh_goals = [], sh_deleg = d, sh_notes = notes\<rparr>" emb dumps ops]
  by (simp add: sub_ok_def list_all_iff)

section \<open>From the shared goal to the goals of its agents\<close>

lemma objectives_length: "length (sg_objectives answer objective n) = n"
proof -
  have "length (sg_split answer objective n) \<le> n" by (simp add: sg_split_def split: option.split list.split)
  then show ?thesis by (simp add: sg_objectives_def Let_def)
qed

definition pending_for :: "sub_ids \<Rightarrow> 'v delegs \<Rightarrow> bool" where
  "pending_for x d = (case find_record (si_deleg x) d of None \<Rightarrow> False
     | Some r \<Rightarrow> d_to r = si_agent x \<and> d_goal r = si_goal x \<and> d_status r = DPending)"

lemma create_delegates:
  "deleg_ok d \<Longrightarrow> attached d \<Longrightarrow> distinct (map si_deleg (map fst xs)) \<Longrightarrow>
    list_all (\<lambda>(x, o'). find_record (si_deleg x) d = None) xs \<Longrightarrow> list_all (\<lambda>x. pending_for x d) ys \<Longrightarrow>
    set (map si_deleg ys) \<inter> set (map si_deleg (map fst xs)) = {} \<Longrightarrow>
    \<exists>d'. fst (foldl (sg_delegate emb i coord objective) (Some d, acc) xs) = Some d' \<and> deleg_ok d' \<and> attached d' \<and>
      list_all (\<lambda>x. pending_for x d') (ys @ map fst xs) \<and>
      map sub_deleg (snd (foldl (sg_delegate emb i coord objective) (Some d, acc) xs)) = map sub_deleg acc @ map si_deleg (map fst xs)"
proof (induction xs arbitrary: d acc ys)
  case (Cons p xs)
  obtain x obj where p: "p = (x, obj)" by (cases p)
  obtain gs where gs: "dg_goals d = Some gs" using Cons.prems(2) by (auto simp: attached_def)
  let ?r = "dg_delegate emb (si_goal x) (si_deleg x) (si_now x) (si_now2 x) coord (si_agent x) obj
      (''Shared goal '' @ i @ '': '' @ take 100 objective) d"
  define e where "e = fst ?r"
  have fresh: "find_record (si_deleg x) d = None" using Cons.prems(4) p by simp
  have e: "deleg_ok e" "attached e" and r: "?r = (e, Some (si_deleg x))"
    using ok_delegate [OF Cons.prems(1) fresh] gs by (simp_all add: e_def attached_def) (simp_all add: dg_delegate_def Let_def)
  have here: "pending_for x e"
    using find_delegate [OF Cons.prems(1) fresh gs] by (simp add: e_def pending_for_def)
  have there: "find_record j e = find_record j d" if "j \<noteq> si_deleg x" for j
    using find_delegate [OF Cons.prems(1) fresh gs] that by (simp add: e_def)
  have other: "si_deleg y \<noteq> si_deleg x" if "y \<in> set ys" for y
  proof -
    have "si_deleg y \<in> set (map si_deleg ys)" using that by simp
    moreover have "si_deleg x \<in> set (map si_deleg (map fst (p # xs)))" by (simp add: p)
    ultimately show ?thesis using Cons.prems(6) by (metis disjoint_iff)
  qed
  have "pending_for y e" if "y \<in> set ys" for y
    using Cons.prems(5) that there [OF other [OF that]] by (simp add: list_all_iff pending_for_def)
  then have pend: "list_all (\<lambda>y. pending_for y e) (ys @ [x])" using here by (simp add: list_all_iff)
  let ?s = "\<lparr>sub_agent = si_agent x, sub_deleg = si_deleg x, sub_objective = obj, sub_status = SubPending, sub_result = None\<rparr>"
  have st: "sg_delegate emb i coord objective (Some d, acc) (x, obj) = (Some e, acc @ [?s])"
    by (simp only: sg_delegate_def Let_def prod.case fst_conv snd_conv option.case r) simp
  have "find_record (si_deleg (fst y)) e = None" if "y \<in> set xs" for y
  proof -
    have "si_deleg (fst y) \<in> set (map si_deleg (map fst xs))" using that by simp
    then have "si_deleg (fst y) \<noteq> si_deleg x" using Cons.prems(3) by (auto simp: p simp del: set_map)
    from there [OF this] show ?thesis using Cons.prems(4) that by (auto simp: list_all_iff)
  qed
  then have "list_all (\<lambda>(x', o'). find_record (si_deleg x') e = None) xs" by (auto simp: list_all_iff)
  moreover have "distinct (map si_deleg (map fst xs))" using Cons.prems(3) by simp
  moreover have "set (map si_deleg (ys @ [x])) \<inter> set (map si_deleg (map fst xs)) = {}"
    using Cons.prems(3,6) by (simp add: p)
  ultimately obtain d' where "fst (foldl (sg_delegate emb i coord objective) (Some e, acc @ [?s]) xs) = Some d'"
    "deleg_ok d'" "attached d'" "list_all (\<lambda>x. pending_for x d') ((ys @ [x]) @ map fst xs)"
    "map sub_deleg (snd (foldl (sg_delegate emb i coord objective) (Some e, acc @ [?s]) xs)) = map sub_deleg (acc @ [?s]) @ map si_deleg (map fst xs)"
    using Cons.IH [OF e _ _ pend, of "acc @ [?s]"] by blast
  then show ?case using p by (simp add: st)
qed simp

lemma poll_goals:
  "deleg_ok d \<Longrightarrow> dg_goals d = Some gs \<Longrightarrow> list_all2 (\<lambda>y x. sub_deleg y = si_deleg x \<and> sub_status y = SubPending) ys xs \<Longrightarrow>
    distinct (map si_deleg xs) \<Longrightarrow> list_all (\<lambda>x. si_deleg x \<noteq> [] \<and> pending_for x d) xs \<Longrightarrow>
    map sub_status (snd (foldl (poll_sub dumps search clk) (Some d, acc) ys)) =
      map sub_status acc @ map (\<lambda>x. if goal_done (si_agent x) (si_goal x) gs then SubCompleted else SubPending) xs"
proof (induction ys arbitrary: d acc xs)
  case (Cons y ys)
  then obtain x xs' where xs: "xs = x # xs'" by (cases xs) auto
  have y: "sub_deleg y = si_deleg x" "sub_status y = SubPending" "si_deleg x \<noteq> []" "pending_for x d" using Cons.prems xs by simp_all
  then obtain r where r: "find_record (si_deleg x) d = Some r" "d_to r = si_agent x" "d_goal r = si_goal x" "d_status r \<noteq> DCompleted"
    by (auto simp: pending_for_def split: option.splits)
  let ?c = "dg_check dumps search (clk (si_deleg x)) (si_deleg x) d"
  note c = check_pending [OF Cons.prems(1,2) r(1,4), where dumps = dumps and search = search and now = "clk (si_deleg x)"]
  have ok: "deleg_ok (fst ?c)" using ok_check [OF Cons.prems(1)] .
  have "si_deleg x' \<noteq> [] \<and> pending_for x' (fst ?c)" if x': "x' \<in> set xs'" for x'
  proof -
    have "si_deleg x' \<in> si_deleg ` set xs'" using x' by simp
    then have "si_deleg x' \<noteq> si_deleg x" using Cons.prems(4) by (auto simp: xs)
    from c(3) [OF this] Cons.prems(5) x' show ?thesis by (simp add: xs list_all_iff pending_for_def)
  qed
  then have rest: "list_all (\<lambda>x'. si_deleg x' \<noteq> [] \<and> pending_for x' (fst ?c)) xs'" by (simp add: list_all_iff)
  obtain z where z: "poll_sub dumps search clk (Some d, acc) y = (Some (fst ?c), acc @ [z])"
      "sub_status z = (if goal_done (si_agent x) (si_goal x) gs then SubCompleted else SubPending)"
  proof (cases "snd ?c")
    case None
    then have "poll_sub dumps search clk (Some d, acc) y = (Some (fst ?c), acc @ [y])"
      using y by (cases ?c) (simp add: poll_sub_def)
    with None c(1) y r that show ?thesis by simp
  next
    case (Some a)
    then have "poll_sub dumps search clk (Some d, acc) y = (Some (fst ?c), acc @ [y\<lparr>sub_status := SubCompleted, sub_result := Some a\<rparr>])"
      using y by (cases ?c) (simp add: poll_sub_def)
    with Some c(1) r that show ?thesis by simp
  qed
  have "list_all2 (\<lambda>y x. sub_deleg y = si_deleg x \<and> sub_status y = SubPending) ys xs'" "distinct (map si_deleg xs')"
    using Cons.prems(3,4) by (simp_all add: xs)
  from Cons.IH [OF ok c(2) this rest, of "acc @ [z]"] z show ?case by (simp add: xs)
qed simp

lemma check_status:
  assumes g: "dict_get (sh_goals s) i = Some r" "sg_status r = SharedActive" "sg_subs r \<noteq> []"
    and p: "list_all (\<lambda>x. sub_status x = SubPending) (sg_subs r)"
    and st: "map sub_status (snd (foldl (poll_sub dumps search clk) (sh_deleg s, []) (sg_subs r))) =
      map (\<lambda>b. if b then SubCompleted else SubPending) bs"
  shows "map_option pr_status (snd (sg_check dumps search clk now i s)) =
    Some (if list_all id bs then SharedCompleted else SharedActive)"
proof -
  obtain d ys where f: "foldl (poll_sub dumps search clk) (sh_deleg s, []) (sg_subs r) = (d, ys)" by (cases "foldl (poll_sub dumps search clk) (sh_deleg s, []) (sg_subs r)")
  have ys: "map sub_status ys = map (\<lambda>b. if b then SubCompleted else SubPending) bs" using st f by simp
  have "length ys = length (sg_subs r)"
    using poll_polled [of dumps search clk "sh_deleg s" "[]" "sg_subs r"] f by (auto dest: list_all2_lengthD)
  then have ne: "ys \<noteq> []" using g(3) by auto
  have count: "count_status k ys = length (filter (\<lambda>x. x = k) (map sub_status ys))" for k
    by (simp add: count_status_def filter_map comp_def)
  have nf: "count_status SubFailed ys = 0" unfolding count ys by (auto simp: filter_empty_conv)
  have "list_all (\<lambda>x. x = SubCompleted) (map sub_status ys) = list_all id bs"
    unfolding ys by (auto simp: list_all_iff split: if_splits)
  then have all: "count_status SubCompleted ys = length ys \<longleftrightarrow> list_all id bs"
    by (simp add: count_all list_all_iff)
  have "ys = sg_subs r \<Longrightarrow> \<not> list_all id bs"
  proof
    assume same: "ys = sg_subs r" and "list_all id bs"
    then have "list_all (\<lambda>x. sub_status x = SubCompleted) ys" using all by (simp add: count_all)
    moreover have "hd ys \<in> set ys" using ne by simp
    ultimately show False using p unfolding same list_all_iff by fastforce
  qed
  then show ?thesis using g f nf all by (simp add: sg_check_def Let_def)
qed

text \<open>
  C23: a shared goal is complete exactly when every agent has completed its part: after a goal is shared
  with some agents, whatever then happens to the goals, the next poll reports it complete if and only if
  in the goal engine every one of the goals created for the agents is completed.
\<close>

theorem sg_complete_exact:
  assumes d: "d = run_ops (dg_step emb dumps) past (no_delegs (Some gs0) notes)"
    and "agents \<noteq> []" and "distinct (map si_deleg agents)"
    and "list_all (\<lambda>x. si_deleg x \<noteq> [] \<and> find_record (si_deleg x) d = None) agents"
    and s: "s = sg_create emb answer i now coord objective agents \<lparr>sh_goals = shared, sh_deleg = Some d, sh_notes = ns\<rparr>"
  shows "map_option pr_status (snd (sg_check dumps search clk now' i (s\<lparr>sh_deleg := map_option (\<lambda>d. d\<lparr>dg_goals := Some gs\<rparr>) (sh_deleg s)\<rparr>))) =
    Some (if list_all (\<lambda>x. goal_done (si_agent x) (si_goal x) gs) agents then SharedCompleted else SharedActive)"
proof -
  let ?xs = "zip agents (sg_objectives answer objective (length agents))"
  let ?f = "foldl (sg_delegate emb i coord objective) (Some d, []) ?xs"
  have fst: "map fst ?xs = agents" by (rule map_fst_zip) (simp add: objectives_length)
  have "attached (no_delegs (Some gs0) notes)" by (simp add: attached_def no_delegs_def)
  then have a: "attached d" unfolding d by (rule attached_run)
  have ok: "deleg_ok d" unfolding d by (rule ok_reached)
  have fresh: "list_all (\<lambda>(x, o'). find_record (si_deleg x) d = None) ?xs"
    using assms(4) by (auto simp: list_all_iff dest: set_zip_leftD)
  obtain d' where d': "fst ?f = Some d'" "deleg_ok d'" "list_all (\<lambda>x. pending_for x d') agents"
      "map sub_deleg (snd ?f) = map si_deleg agents"
    using create_delegates [OF ok a _ fresh, of "[]" emb i coord objective "[]"] assms(3) unfolding fst by auto
  have pend: "list_all (\<lambda>x. sub_status x = SubPending) (snd ?f)" and len: "length (snd ?f) = length agents"
    using create_pending [of emb i coord objective "(Some d, [])" ?xs] by (simp_all add: objectives_length)
  let ?s = "s\<lparr>sh_deleg := map_option (\<lambda>d. d\<lparr>dg_goals := Some gs\<rparr>) (sh_deleg s)\<rparr>" and ?d = "d'\<lparr>dg_goals := Some gs\<rparr>"
  let ?r = "\<lparr>sg_id = i, sg_coord = coord, sg_objective = objective, sg_subs = snd ?f, sg_status = SharedActive, sg_created = now, sg_completed = 0\<rparr>"
  have r: "dict_get (sh_goals ?s) i = Some ?r" "sh_deleg ?s = Some ?d"
    using d'(1) unfolding s by (simp_all add: sg_create_def Let_def split_beta sh_note_def)
  have "list_all2 (\<lambda>y x. sub_deleg y = si_deleg x \<and> sub_status y = SubPending) (snd ?f) agents"
    using pend len nth_map [of _ "snd ?f" sub_deleg] unfolding d'(4)
    by (auto simp: list_all2_conv_all_nth list_all_length)
  then have st: "map sub_status (snd (foldl (poll_sub dumps search clk) (sh_deleg ?s, []) (sg_subs ?r))) =
      map (\<lambda>b. if b then SubCompleted else SubPending) (map (\<lambda>x. goal_done (si_agent x) (si_goal x) gs) agents)"
    using poll_goals [of ?d gs "snd ?f" agents dumps search clk "[]"] d' assms(3,4)
    unfolding r(2) by (simp add: pending_for_def find_record_def list_all_iff comp_def)
  have "snd ?f \<noteq> []" using len assms(2) by (metis length_0_conv)
  from check_status [OF r(1) _ _ _ st, of now'] pend this show ?thesis by (simp add: list_all_iff)
qed

definition two_agents :: "sub_ids list" where
  "two_agents = [\<lparr>si_agent = ''bob'', si_goal = ''g1'', si_deleg = ''del-1'', si_now = 1, si_now2 = 1\<rparr>,
     \<lparr>si_agent = ''cal'', si_goal = ''g2'', si_deleg = ''del-2'', si_now = 1, si_now2 = 1\<rparr>]"

definition goals_of_two :: "goal_op list \<Rightarrow> nat goal_store" where
  "goals_of_two xs = run_ops (goal_step (\<lambda>_. None))
     ([GlCreate ''g1'' 1 ''bob'' ''a'' 5, GlCreate ''g2'' 1 ''cal'' ''b'' 5, GlComplete 2 2 ''bob'' ''g1''] @ xs) []"

theorem sg_complete_exact_witness:
  "map (\<lambda>xs. map_option pr_status (snd (sg_check id (\<lambda>_. None) (\<lambda>_. 3) 3 ''sg-1''
       ((sg_create (\<lambda>_. None) None ''sg-1'' 1 ''ada'' ''all'' two_agents
           \<lparr>sh_goals = [], sh_deleg = Some (no_delegs (Some []) None), sh_notes = None\<rparr>)
        \<lparr>sh_deleg := map_option (\<lambda>d. d\<lparr>dg_goals := Some (goals_of_two xs)\<rparr>)
           (sh_deleg (sg_create (\<lambda>_. None) None ''sg-1'' 1 ''ada'' ''all'' two_agents
             \<lparr>sh_goals = [], sh_deleg = Some (no_delegs (Some []) None), sh_notes = None\<rparr>))\<rparr>))))
     [[], [GlComplete 3 3 ''cal'' ''g2'']] = [Some SharedActive, Some SharedCompleted]"
proof -
  have d: "no_delegs (Some []) None = run_ops (dg_step (\<lambda>_. None :: nat option) id) [] (no_delegs (Some []) None)" by simp
  have ids: "distinct (map si_deleg two_agents)" "two_agents \<noteq> []" by (simp_all add: two_agents_def)
  have fresh: "list_all (\<lambda>x. si_deleg x \<noteq> [] \<and> find_record (si_deleg x) (no_delegs (Some ([] :: nat goal_store)) None) = None) two_agents"
    by (simp add: two_agents_def find_record_def no_delegs_def)
  have fin: "list_all (\<lambda>x. goal_done (si_agent x) (si_goal x) (goals_of_two [GlComplete 3 3 ''cal'' ''g2''])) two_agents"
    "\<not> list_all (\<lambda>x. goal_done (si_agent x) (si_goal x) (goals_of_two [])) two_agents"
    by code_simp+
  note exact = sg_complete_exact [OF d ids(2,1) fresh refl, where answer = None and i = "''sg-1''" and now = 1 and coord = "''ada''"
      and objective = "''all''" and shared = "[]" and ns = None and search = "\<lambda>_. None" and clk = "\<lambda>_. 3" and now' = 3]
  show ?thesis using exact [of "goals_of_two []"] exact [of "goals_of_two [GlComplete 3 3 ''cal'' ''g2'']"] fin by simp
qed

end
