(* ===== verification/Checkpoint.thy ===== *)
theory Checkpoint imports Comms Memory_Heap Scheduler "HOL-Library.List_Lexorder" "HOL-Library.Char_ord" begin

text \<open>
  Checkpoints, \<open>agents/checkpoint.py\<close>, and process signals, \<open>agents/signals.py\<close>: the operations of
  the server that reach into several services at once. The state \<open>site\<close> holds the communication layer,
  the scheduler with its registry, the heaps, the checkpoint files and the watchdog threads that wait
  for a grace period to end. The digests of snapshots are parameters; a checkpoint file is a value, or
  \<open>None\<close> when it cannot be parsed.

  The lemmas show that a restore brings back the heap and the record of the moment of the save, what it
  does not bring back (the inbox, which the save reads), that restored locks ignore the locks granted
  since, what the end of a grace period does, and what the consistency score of a replay says.
\<close>

section \<open>State\<close>

text \<open>
  The fields of the agent record (the empty dictionary is \<open>None\<close>). The snapshot of the current task is
  never built, as the lines that build it read a field that tasks do not have, so it is always \<open>PNone\<close>.
\<close>

record agent_state =
  st_status :: agent_status
  st_usage :: "(string, int) dict"
  st_metadata :: payload
  st_locks :: "(string, agent_lock) dict"
  st_task :: "string option"

record checkpoint =
  ck_id :: string
  ck_agent :: string
  ck_label :: "string option"
  ck_created :: time
  ck_memory :: "(string, mem_obj) dict"
  ck_inbox :: "message list"
  ck_task :: pyval
  ck_state :: "agent_state option"
  ck_hash :: string

text \<open>
  The subsystems that \<open>set_subsystems\<close> has provided; a directory per agent, a file per checkpoint, in
  the order in which \<open>iterdir\<close> yields them.
\<close>

record subsystems =
  has_heaps :: bool
  has_registry :: bool
  has_bus :: bool
  has_scheduler :: bool
  has_events :: bool

record watchdog =
  wd_agent :: string
  wd_by :: string
  wd_due :: time

record site =
  w_comms :: comms
  w_sched :: sched
  w_heaps :: heaps
  w_subs :: subsystems
  w_checks :: "(string, (string, checkpoint option) dict) dict"
  w_dogs :: "watchdog list"

record digests =
  heap_digest :: "(string, mem_obj) dict \<Rightarrow> string"
  msg_digest :: "message \<Rightarrow> string"

abbreviation site_reg :: "site \<Rightarrow> registry" where
  "site_reg w \<equiv> s_reg (w_sched w)"

definition set_reg :: "registry \<Rightarrow> site \<Rightarrow> site" where
  "set_reg r w = w\<lparr>w_sched := (w_sched w)\<lparr>s_reg := r\<rparr>\<rparr>"

definition site_effs :: "env \<Rightarrow> eff list \<Rightarrow> site \<Rightarrow> site" where
  "site_effs env effs w = w\<lparr>w_comms := run_effs env effs (w_comms w)\<rparr>"

definition site_emit :: "env \<Rightarrow> string \<Rightarrow> string \<Rightarrow> payload \<Rightarrow> site \<Rightarrow> site" where
  "site_emit env t src pl w = (if has_events (w_subs w) then site_effs env [Emit t src pl] w else w)"

definition no_subsystems :: subsystems where
  "no_subsystems = \<lparr>has_heaps = False, has_registry = False, has_bus = False, has_scheduler = False,
                    has_events = False\<rparr>"

definition ck_set_subsystems :: "subsystems \<Rightarrow> site \<Rightarrow> site" where
  "ck_set_subsystems s w = w\<lparr>w_subs := s\<rparr>"

section \<open>Saving\<close>

text \<open>\<open>_hash_snapshot\<close>: the keys are sorted before the snapshot is hashed.\<close>

definition hash_snapshot :: "digests \<Rightarrow> (string, mem_obj) dict \<Rightarrow> string" where
  "hash_snapshot dg snap = heap_digest dg (sort_key fst snap)"

definition snap_heap :: "string \<Rightarrow> site \<Rightarrow> site \<times> (string, mem_obj) dict" where
  "snap_heap i w =
     (if has_heaps (w_subs w)
      then let (hs, h) = hr_get i (w_heaps w) in (w\<lparr>w_heaps := hs\<rparr>, h_objs h)
      else (w, []))"

text \<open>The inbox is read with \<open>receive\<close>, at most 200 unread messages; the reading of the clock is the communication layer's.\<close>

definition snap_inbox :: "env \<Rightarrow> string \<Rightarrow> site \<Rightarrow> site \<times> message list" where
  "snap_inbox env i w =
     (if has_bus (w_subs w)
      then let c = w_comms w; (b, msgs) = bus_receive (clock env (c_tick c)) i True 200 (c_bus c)
           in (w\<lparr>w_comms := c\<lparr>c_bus := b, c_tick := Suc (c_tick c)\<rparr>\<rparr>, msgs)
      else (w, []))"

text \<open>
  The snapshot of the task the agent is working on: \<open>task.prompt\<close> raises, since the class \<open>Task\<close> has
  no such field; without a task the snapshot is \<open>None\<close>.
\<close>

definition snap_task :: "string \<Rightarrow> site \<Rightarrow> string + pyval" where
  "snap_task i w =
     (if has_scheduler (w_subs w) \<and> has_registry (w_subs w)
      then case dict_get (r_agents (site_reg w)) i of
             None \<Rightarrow> Inr PNone
           | Some a \<Rightarrow>
               if truthy_str (a_task a) \<and> sch_get_task (the (a_task a)) (w_sched w) \<noteq> None
               then Inl (py_repr ''Task'' @ '' object has no attribute '' @ py_repr ''prompt'')
               else Inr PNone
      else Inr PNone)"

definition snap_agent :: "string \<Rightarrow> site \<Rightarrow> agent_state option" where
  "snap_agent i w =
     (if has_registry (w_subs w)
      then map_option (\<lambda>a. \<lparr>st_status = a_status a, st_usage = a_usage a, st_metadata = a_metadata a,
                            st_locks = a_locks a, st_task = a_task a\<rparr>) (dict_get (r_agents (site_reg w)) i)
      else None)"

definition put_check :: "string \<Rightarrow> string \<Rightarrow> checkpoint option \<Rightarrow> site \<Rightarrow> site" where
  "put_check i cid f w =
     w\<lparr>w_checks := dict_set i (dict_set cid f (dict_get_or [] (w_checks w) i)) (w_checks w)\<rparr>"

definition find_check :: "string \<Rightarrow> string \<Rightarrow> site \<Rightarrow> checkpoint option option" where
  "find_check i cid w = dict_get (dict_get_or [] (w_checks w) i) cid"

text \<open>\<open>save\<close>: the id of the checkpoint, or the error that ends the method after heap and inbox have been read.\<close>

definition ck_save :: "env \<Rightarrow> digests \<Rightarrow> string \<Rightarrow> time \<Rightarrow> string \<Rightarrow> string option \<Rightarrow> site
    \<Rightarrow> site \<times> (string + string)" where
  "ck_save env dg cid now i label w =
     (let (w1, mem) = snap_heap i w;
          (w2, msgs) = snap_inbox env i w1
      in case snap_task i w2 of
           Inl err \<Rightarrow> (w2, Inl err)
         | Inr task \<Rightarrow>
             let chk = \<lparr>ck_id = cid, ck_agent = i, ck_label = label, ck_created = now, ck_memory = mem,
                        ck_inbox = msgs, ck_task = task, ck_state = snap_agent i w2,
                        ck_hash = hash_snapshot dg mem\<rparr>;
                 w3 = put_check i cid (Some chk) w2
             in (site_emit env ''agent.checkpointed'' i
                   [(''agent_id'', PStr i), (''checkpoint_id'', PStr cid), (''label'', py_opt_str label),
                    (''memory_keys'', py_strs (keys mem))] w3, Inr cid))"

section \<open>Restoring\<close>

definition restore_heap :: "string \<Rightarrow> (string, mem_obj) dict \<Rightarrow> site \<Rightarrow> site" where
  "restore_heap i mem w =
     (if has_heaps (w_subs w)
      then let (hs, h) = hr_get i (w_heaps w);
               objs = foldl (\<lambda>d (k, v). dict_set k v d) [] mem
           in w\<lparr>w_heaps := hr_put i (heap_save (h\<lparr>h_objs := objs\<rparr>)) hs\<rparr>
      else w)"

definition restored_agent :: "agent_state \<Rightarrow> agent \<Rightarrow> agent" where
  "restored_agent st a = a\<lparr>a_usage := st_usage st, a_metadata := st_metadata st, a_locks := st_locks st\<rparr>"

definition restore_agent :: "string \<Rightarrow> agent_state option \<Rightarrow> site \<Rightarrow> site" where
  "restore_agent i st w =
     (if has_registry (w_subs w)
      then case (dict_get (r_agents (site_reg w)) i, st) of
             (Some a, Some st) \<Rightarrow>
               set_reg (reg_save ((site_reg w)\<lparr>r_agents :=
                 dict_upd i (restored_agent st) (r_agents (site_reg w))\<rparr>)) w
           | _ \<Rightarrow> w
      else w)"

definition ck_restore :: "env \<Rightarrow> string \<Rightarrow> string \<Rightarrow> site \<Rightarrow> site \<times> bool" where
  "ck_restore env i cid w =
     (case find_check i cid w of
        None \<Rightarrow> (w, False)
      | Some None \<Rightarrow> (w, False)
      | Some (Some chk) \<Rightarrow>
          (site_emit env ''agent.restored'' i
             [(''agent_id'', PStr i), (''checkpoint_id'', PStr cid),
              (''memory_keys'', py_strs (keys (ck_memory chk)))]
             (restore_agent i (ck_state chk) (restore_heap i (ck_memory chk) w)), True))"

section \<open>Listing and comparing\<close>

record check_info =
  ci_id :: string
  ci_agent :: string
  ci_label :: "string option"
  ci_created :: time
  ci_hash :: string
  ci_memory :: nat
  ci_inbox :: nat
  ci_task :: bool

definition ck_list :: "string \<Rightarrow> site \<Rightarrow> check_info list" where
  "ck_list i w =
     List.map_filter (\<lambda>(cid, f). map_option (\<lambda>c.
        \<lparr>ci_id = ck_id c, ci_agent = ck_agent c, ci_label = ck_label c, ci_created = ck_created c,
         ci_hash = ck_hash c, ci_memory = length (ck_memory c), ci_inbox = length (ck_inbox c),
         ci_task = (ck_task c \<noteq> PNone)\<rparr>) f)
       (rev (sort_key (\<lambda>(cid, f). cid @ ''.json'') (dict_get_or [] (w_checks w) i)))"

text \<open>\<open>get_checkpoint\<close>: the first directory that has a file of that name decides.\<close>

fun first_check :: "string \<Rightarrow> (string, (string, checkpoint option) dict) dict \<Rightarrow> checkpoint option" where
  "first_check cid [] = None"
| "first_check cid ((i, files) # dirs) =
     (case dict_get files cid of None \<Rightarrow> first_check cid dirs | Some f \<Rightarrow> f)"

definition ck_get :: "string \<Rightarrow> site \<Rightarrow> checkpoint option" where
  "ck_get cid w = first_check cid (w_checks w)"

section \<open>Differences\<close>

text \<open>
  Python's \<open>==\<close> on JSON values: numbers are compared by value, dictionaries without regard to their order.
\<close>

fun py_num :: "pyval \<Rightarrow> rat option" where
  "py_num (PBool b) = Some (if b then 1 else 0)"
| "py_num (PInt n) = Some (of_int n)"
| "py_num (PFlt x) = Some x"
| "py_num v = None"

lemma size_in_list: "x \<in> set xs \<Longrightarrow> size x < Suc (size_list size xs)"
  by (induction xs) auto

lemma size_in_dict: "(k, v) \<in> set d \<Longrightarrow> size v < Suc (size_list (size_prod f size) d)"
  by (induction d) auto

function py_eq :: "pyval \<Rightarrow> pyval \<Rightarrow> bool" where
  "py_eq a b =
     (case (py_num a, py_num b) of
        (Some x, Some y) \<Rightarrow> x = y
      | _ \<Rightarrow>
          (case a of
             PNone \<Rightarrow> b = PNone
           | PStr s \<Rightarrow> b = PStr s
           | PList xs \<Rightarrow>
               (case b of PList ys \<Rightarrow> length xs = length ys \<and> list_all (\<lambda>(x, y). py_eq x y) (zip xs ys) | _ \<Rightarrow> False)
           | PDict d \<Rightarrow>
               (case b of
                  PDict e \<Rightarrow> length d = length e \<and>
                    list_all (\<lambda>(k, v). case dict_get e k of None \<Rightarrow> False | Some w \<Rightarrow> py_eq v w) d
                | _ \<Rightarrow> False)
           | _ \<Rightarrow> False))"
  by pat_completeness auto

termination
  by (relation "measure (\<lambda>(a, b). size a)")
    (auto dest!: set_zip_leftD simp: size_in_list size_in_dict)

declare py_eq.simps [simp del]

definition locks_val :: "(string, agent_lock) dict \<Rightarrow> pyval" where
  "locks_val ls = PDict (dict_map (\<lambda>_ l.
     PDict [(''acquired_at'', PFlt (l_acquired_at l)), (''expires_at'', PFlt (l_expires_at l))]) ls)"

definition state_fields :: "agent_state option \<Rightarrow> payload" where
  "state_fields st =
     (case st of
        None \<Rightarrow> []
      | Some s \<Rightarrow>
          [(''status'', PStr (status_str (st_status s))), (''usage'', usage_val (st_usage s)),
           (''metadata'', PDict (st_metadata s)), (''locks'', locks_val (st_locks s)),
           (''current_task'', py_opt_str (st_task s))])"

text \<open>\<open>set(state_a) | set(state_b)\<close> is listed in the order of the record's fields.\<close>

definition state_changes :: "agent_state option \<Rightarrow> agent_state option \<Rightarrow> (string, pyval \<times> pyval) dict" where
  "state_changes sa sb =
     (let a = state_fields sa; b = state_fields sb; ks = (if a \<noteq> [] then keys a else keys b)
      in map (\<lambda>k. (k, dict_get_or PNone a k, dict_get_or PNone b k))
           (filter (\<lambda>k. \<not> py_eq (dict_get_or PNone a k) (dict_get_or PNone b k)) ks))"

record check_diff =
  cd_new :: "string list"
  cd_removed :: "string list"
  cd_changed :: "string list"
  cd_inbox :: nat
  cd_state :: "(string, pyval \<times> pyval) dict"
  cd_hash :: bool

definition diff_checks :: "digests \<Rightarrow> checkpoint \<Rightarrow> checkpoint \<Rightarrow> check_diff" where
  "diff_checks dg a b =
     (let ma = ck_memory a; mb = ck_memory b;
          ids_a = map (msg_digest dg) (ck_inbox a); ids_b = map (msg_digest dg) (ck_inbox b)
      in \<lparr>cd_new = sort (filter (\<lambda>k. k \<notin> set (keys ma)) (keys mb)),
          cd_removed = sort (filter (\<lambda>k. k \<notin> set (keys mb)) (keys ma)),
          cd_changed = sort (map fst (filter (\<lambda>(k, x). case dict_get mb k of
                         None \<Rightarrow> False | Some y \<Rightarrow> o_content x \<noteq> o_content y) ma)),
          cd_inbox = length (remdups (filter (\<lambda>d. d \<notin> set ids_a) ids_b)),
          cd_state = state_changes (ck_state a) (ck_state b),
          cd_hash = (ck_hash a \<noteq> ck_hash b)\<rparr>)"

definition ck_diff :: "digests \<Rightarrow> string \<Rightarrow> string \<Rightarrow> site \<Rightarrow> string + check_diff" where
  "ck_diff dg ida idb w =
     (case (ck_get ida w, ck_get idb w) of
        (Some a, Some b) \<Rightarrow> Inr (diff_checks dg a b)
      | (ca, cb) \<Rightarrow>
          let missing = (if ca = None then [ida] else []) @ (if cb = None then [idb] else [])
          in Inl (''Checkpoint(s) not found: ['' @ py_join '', '' (map py_repr missing) @ '']''))"

section \<open>Replaying\<close>

text \<open>\<open>_similarity\<close>: the Jaccard index of the word sets.\<close>

definition similarity :: "string \<Rightarrow> string \<Rightarrow> rat" where
  "similarity a b =
     (if a = [] \<and> b = [] then 1
      else let wa = set (py_split (py_lower a)); wb = set (py_split (py_lower b))
           in if wa = {} \<and> wb = {} then 1
              else of_nat (card (wa \<inter> wb)) / of_nat (card (wa \<union> wb)))"

text \<open>
  A run of a replay asks the scheduler for a task and waits until it is final; what the system does
  meanwhile, and how the task ends, is an argument. An exception's text is its \<open>str\<close>.
\<close>

datatype outcome =
    Ended task_status "task_result option"
  | Raised string

fun run_response :: "outcome \<Rightarrow> string" where
  "run_response (Ended st res) =
     (case res of None \<Rightarrow> [] | Some r \<Rightarrow> if st = TaskDone then tr_response r else [])"
| "run_response (Raised e) = ''[error: '' @ e @ '']''"

definition replay_run :: "env \<Rightarrow> string \<Rightarrow> string \<Rightarrow> (site \<Rightarrow> site \<times> outcome) \<Rightarrow> site \<Rightarrow> site \<times> string" where
  "replay_run env i cid work w =
     (let w1 = fst (ck_restore env i cid w)
      in if has_scheduler (w_subs w1)
         then let (w2, out) = work w1 in (w2, run_response out)
         else (w1, []))"

definition replay_runs :: "env \<Rightarrow> string \<Rightarrow> string \<Rightarrow> (nat \<Rightarrow> site \<Rightarrow> site \<times> outcome) \<Rightarrow> nat \<Rightarrow> site
    \<Rightarrow> site \<times> string list" where
  "replay_runs env i cid work n w =
     foldl (\<lambda>(w, rs) k. let (w', r) = replay_run env i cid (work k) w in (w', rs @ [r])) (w, []) [0..<n]"

definition consistency :: "string list \<Rightarrow> rat" where
  "consistency rs =
     (case rs of
        [] \<Rightarrow> 0
      | base # others \<Rightarrow>
          if others = [] then 1
          else sum_list (map (similarity base) others) / of_nat (length others))"

definition divergences :: "string list \<Rightarrow> string list" where
  "divergences rs =
     (case rs of
        [] \<Rightarrow> []
      | base # others \<Rightarrow>
          map (\<lambda>(k, r). ''run_'' @ nat_str k)
            (filter (\<lambda>(k, r). similarity base r < 4 / 5) (enumerate 1 others)))"

record replay =
  rp_checkpoint :: string
  rp_task :: string
  rp_runs :: int
  rp_responses :: "string list"
  rp_score :: rat
  rp_divergence :: "string list"
  rp_ms :: rat

definition ck_replay :: "env \<Rightarrow> time \<Rightarrow> time \<Rightarrow> string \<Rightarrow> string \<Rightarrow> int
    \<Rightarrow> (nat \<Rightarrow> site \<Rightarrow> site \<times> outcome) \<Rightarrow> site \<Rightarrow> site \<times> replay" where
  "ck_replay env start end_time cid task n work w =
     (case ck_get cid w of
        None \<Rightarrow> (w, \<lparr>rp_checkpoint = cid, rp_task = task, rp_runs = n, rp_responses = [], rp_score = 0,
                     rp_divergence = [''checkpoint not found''], rp_ms = 0\<rparr>)
      | Some chk \<Rightarrow>
          let i = ck_agent chk;
              (w1, rs) = replay_runs env i cid work (nat n) w;
              score = py_round_dig 4 (consistency rs);
              divs = divergences rs
          in (site_emit env ''checkpoint.replay_complete'' i
                [(''checkpoint_id'', PStr cid), (''agent_id'', PStr i), (''n_runs'', PInt n),
                 (''consistency_score'', PFlt score), (''divergence_points'', py_strs divs)] w1,
              \<lparr>rp_checkpoint = cid, rp_task = task, rp_runs = n, rp_responses = rs, rp_score = score,
               rp_divergence = divs, rp_ms = py_round_dig 1 (end_time * 1000 - start * 1000)\<rparr>))"

section \<open>Signals\<close>

definition signals :: "(string, string) dict" where
  "signals =
     [(''SIGTERM'', ''graceful shutdown '' @ em_dash @ '' write handoff and exit''),
      (''SIGPAUSE'', ''checkpoint current work, enter suspended state''),
      (''SIGINFO'', ''report current status to sender'')]"

definition upd_agent :: "string \<Rightarrow> (agent \<Rightarrow> agent) \<Rightarrow> site \<Rightarrow> site" where
  "upd_agent i f w =
     set_reg (reg_save ((site_reg w)\<lparr>r_agents := dict_upd i f (r_agents (site_reg w))\<rparr>)) w"

definition put_meta :: "string \<Rightarrow> pyval \<Rightarrow> agent \<Rightarrow> agent" where
  "put_meta k v a = a\<lparr>a_metadata := dict_set k v (a_metadata a)\<rparr>"

text \<open>SIGTERM: the record is marked, the message sent, the watchdog started.\<close>

definition sig_term :: "env \<Rightarrow> time \<Rightarrow> string \<Rightarrow> string \<Rightarrow> rat \<Rightarrow> site \<Rightarrow> site" where
  "sig_term env now i by grace w =
     (let due = now + grace;
          w1 = (if dict_get (r_agents (site_reg w)) i = None then w
                else upd_agent i (\<lambda>a. put_meta ''sigterm_sent_by'' (PStr by)
                                       (put_meta ''terminating_after'' (PFlt due) a)) w);
          w2 = site_effs env [Send by i
                 [(''signal'', PStr ''SIGTERM''),
                  (''description'', PStr (dict_get_or [] signals ''SIGTERM'')),
                  (''grace_seconds'', PFlt grace), (''terminating_after'', PFlt due)] ''signal''] w1
      in w2\<lparr>w_dogs := w_dogs w2 @ [\<lparr>wd_agent = i, wd_by = by, wd_due = due\<rparr>]\<rparr>)"

text \<open>SIGPAUSE: \<open>mgr\<close> says whether a checkpoint manager was passed, with the id it will draw and its clock reading.\<close>

definition paused_agent :: "time \<Rightarrow> string \<Rightarrow> string option \<Rightarrow> agent \<Rightarrow> agent" where
  "paused_agent now by cid a =
     (let b = put_meta ''paused_by'' (PStr by) (put_meta ''paused_at'' (PFlt now) (a\<lparr>a_status := Suspended\<rparr>))
      in if truthy_str cid then put_meta ''paused_checkpoint_id'' (PStr (the cid)) b else b)"

definition sig_pause :: "env \<Rightarrow> digests \<Rightarrow> time \<Rightarrow> (string \<times> time) option \<Rightarrow> string \<Rightarrow> string \<Rightarrow> site \<Rightarrow> site" where
  "sig_pause env dg now mgr i by w =
     (let (w1, cid) = (case mgr of
             None \<Rightarrow> (w, None)
           | Some (fresh, t) \<Rightarrow>
               let (w', res) = ck_save env dg fresh t i (Some ''sigpause'') w
               in (w', case res of Inl err \<Rightarrow> None | Inr c \<Rightarrow> Some c));
          paused = (case dict_get (r_agents (site_reg w1)) i of None \<Rightarrow> False | Some a \<Rightarrow> a_status a = Active);
          w2 = (if paused then upd_agent i (paused_agent now by cid) w1 else w1);
          w3 = site_effs env [Send by i
                 [(''signal'', PStr ''SIGPAUSE''),
                  (''description'', PStr (dict_get_or [] signals ''SIGPAUSE'')),
                  (''checkpoint_id'', py_opt_str cid)] ''signal''] w2
      in if paused
         then site_effs env [Emit ''agent.suspended'' i
                [(''agent_id'', PStr i), (''reason'', PStr ''SIGPAUSE''), (''sent_by'', PStr by),
                 (''checkpoint_id'', py_opt_str cid)]] w3
         else w3)"

text \<open>SIGINFO: the agent's status goes to the sender's inbox.\<close>

definition lock_info :: "agent_lock \<times> rat \<Rightarrow> pyval" where
  "lock_info p =
     PDict [(''acquired_at'', PFlt (l_acquired_at (fst p))), (''expires_at'', PFlt (l_expires_at (fst p))),
            (''ttl_remaining'', PFlt (snd p))]"

definition sig_info :: "env \<Rightarrow> time \<Rightarrow> string \<Rightarrow> string \<Rightarrow> site \<Rightarrow> site" where
  "sig_info env now i by w =
     (case dict_get (r_agents (site_reg w)) i of
        None \<Rightarrow> w
      | Some a \<Rightarrow>
          site_effs env [Send i by
            [(''signal'', PStr ''SIGINFO''), (''agent_id'', PStr i), (''status'', PStr (status_str (a_status a))),
             (''current_task'', py_opt_str (a_task a)), (''usage'', usage_val (a_usage a)),
             (''locks'', PDict (dict_map (\<lambda>_ p. lock_info p) (reg_get_locks now i (site_reg w)))),
             (''uptime_seconds'', PInt (py_round (now - a_created_at a)))] ''result''] w)"

definition signal_dispatch :: "env \<Rightarrow> digests \<Rightarrow> time \<Rightarrow> (string \<times> time) option \<Rightarrow> string \<Rightarrow> string \<Rightarrow> string
    \<Rightarrow> rat \<Rightarrow> site \<Rightarrow> site \<times> (string + string \<times> string)" where
  "signal_dispatch env dg now mgr i sig by grace w =
     (if dict_get signals sig = None
      then (w, Inl (''Unknown signal '' @ [char_of (39::nat)] @ sig @ [char_of (39::nat)] @ ''. Valid: ['' @
                    py_join '', '' (map py_repr (keys signals)) @ '']''))
      else case dict_get (r_agents (site_reg w)) i of
             None \<Rightarrow> (w, Inl (''Agent '' @ [char_of (39::nat)] @ i @ [char_of (39::nat)] @ '' not found''))
           | Some a \<Rightarrow>
               if a_status a = Terminated
               then (w, Inl (''Agent '' @ [char_of (39::nat)] @ i @ [char_of (39::nat)] @ '' is already terminated''))
               else
                 let w1 = site_effs env [Emit ''agent.signal_received'' by
                            [(''agent_id'', PStr i), (''signal'', PStr sig), (''sent_by'', PStr by)]] w
                 in (if sig = ''SIGTERM'' then sig_term env now i by grace w1
                     else if sig = ''SIGPAUSE'' then sig_pause env dg now mgr i by w1
                     else if sig = ''SIGINFO'' then sig_info env now i by w1
                     else w1,
                     Inr (sig, i)))"

text \<open>A watchdog wakes up when its grace period is over; it is gone afterwards.\<close>

definition watchdog_wakes :: "env \<Rightarrow> string \<Rightarrow> time \<Rightarrow> nat \<Rightarrow> site \<Rightarrow> site" where
  "watchdog_wakes env stamp now k w =
     (if k < length (w_dogs w) \<and> wd_due (w_dogs w ! k) \<le> now
      then let d = w_dogs w ! k;
               w1 = w\<lparr>w_dogs := take k (w_dogs w) @ drop (Suc k) (w_dogs w)\<rparr>
           in case dict_get (r_agents (site_reg w)) (wd_agent d) of
                None \<Rightarrow> w1
              | Some a \<Rightarrow>
                  if a_status a = Terminated then w1
                  else let (r, effs) = reg_force_terminate stamp (wd_agent d) ''grace_period_exceeded'' (wd_by d) (site_reg w)
                       in site_effs env effs (set_reg r w1)
      else w)"

text \<open>\<open>terminate_group\<close> with the route's signal function, which passes no checkpoint manager.\<close>

definition signal_group :: "env \<Rightarrow> digests \<Rightarrow> time \<Rightarrow> string \<Rightarrow> string \<Rightarrow> rat \<Rightarrow> site \<Rightarrow> site \<times> string list" where
  "signal_group env dg now group_id by grace w =
     (let members = group_members group_id (site_reg w)
      in (foldl (\<lambda>w i. fst (signal_dispatch env dg now None i ''SIGTERM'' by grace w)) w members, members))"

section \<open>Steps\<close>

text \<open>
  What can happen to a site: checkpoints, signals, waking watchdogs, and the operations of the
  registry (with the events they emit), of a heap and of the communication layer. Other services reach
  the registry through these operations.
\<close>

datatype site_op =
    OSave string time string "string option"
  | ORestore string string
  | OSignal time "(string \<times> time) option" string string string rat
  | OGroup time string string rat
  | OWakes string time nat
  | OReg reg_op
  | OHeap string heap_op
  | OComms comms_op

record surroundings =
  wo_env :: env
  wo_dig :: digests
  wo_keying :: keying
  wo_llm :: "string \<Rightarrow> string option"

fun site_step :: "surroundings \<Rightarrow> site_op \<Rightarrow> site \<Rightarrow> site" where
  "site_step wo (OSave cid now i label) w = fst (ck_save (wo_env wo) (wo_dig wo) cid now i label w)"
| "site_step wo (ORestore i cid) w = fst (ck_restore (wo_env wo) i cid w)"
| "site_step wo (OSignal now mgr i sig by grace) w =
     fst (signal_dispatch (wo_env wo) (wo_dig wo) now mgr i sig by grace w)"
| "site_step wo (OGroup now g by grace) w = fst (signal_group (wo_env wo) (wo_dig wo) now g by grace w)"
| "site_step wo (OWakes stamp now k) w = watchdog_wakes (wo_env wo) stamp now k w"
| "site_step wo (OReg x) w =
     site_effs (wo_env wo) (reg_out (wo_keying wo) x (site_reg w)) (set_reg (reg_step (wo_keying wo) x (site_reg w)) w)"
| "site_step wo (OHeap i x) w =
     (let (hs, h) = hr_get i (w_heaps w) in w\<lparr>w_heaps := hr_put i (heap_step (wo_llm wo) x h) hs\<rparr>)"
| "site_step wo (OComms x) w = w\<lparr>w_comms := comms_step (wo_env wo) x (w_comms w)\<rparr>"

definition site_init :: "time \<Rightarrow> registry \<Rightarrow> string \<Rightarrow> site" where
  "site_init now r root_dir =
     \<lparr>w_comms = comms_init, w_sched = sch_set_checkpoint_manager (sch_set_event_bus (sch_init now None r)),
      w_heaps = \<lparr>hr_heaps = [], hr_disk = [], hr_root = root_dir, hr_events = True\<rparr>,
      w_subs = \<lparr>has_heaps = True, has_registry = True, has_bus = True, has_scheduler = True, has_events = True\<rparr>,
      w_checks = [], w_dogs = []\<rparr>"

section \<open>What the operations leave alone\<close>

lemma set_reg_fields [simp]:
  "w_comms (set_reg r w) = w_comms w" "s_reg (w_sched (set_reg r w)) = r" "w_heaps (set_reg r w) = w_heaps w"
  "w_subs (set_reg r w) = w_subs w" "w_checks (set_reg r w) = w_checks w" "w_dogs (set_reg r w) = w_dogs w"
  by (simp_all add: set_reg_def)

lemma site_effs_fields [simp]:
  "w_sched (site_effs env effs w) = w_sched w" "w_heaps (site_effs env effs w) = w_heaps w"
  "w_subs (site_effs env effs w) = w_subs w" "w_checks (site_effs env effs w) = w_checks w"
  "w_dogs (site_effs env effs w) = w_dogs w"
  by (simp_all add: site_effs_def)

lemma site_emit_fields [simp]:
  "w_sched (site_emit env t src pl w) = w_sched w" "w_heaps (site_emit env t src pl w) = w_heaps w"
  "w_subs (site_emit env t src pl w) = w_subs w" "w_checks (site_emit env t src pl w) = w_checks w"
  "w_dogs (site_emit env t src pl w) = w_dogs w"
  by (simp_all add: site_emit_def)

lemma put_check_fields [simp]:
  "w_comms (put_check i cid f w) = w_comms w" "w_sched (put_check i cid f w) = w_sched w"
  "w_heaps (put_check i cid f w) = w_heaps w" "w_subs (put_check i cid f w) = w_subs w"
  "w_dogs (put_check i cid f w) = w_dogs w"
  "find_check j cid' (put_check i cid f w) = (if j = i \<and> cid' = cid then Some f else find_check j cid' w)"
  by (simp_all add: put_check_def find_check_def)

lemma find_check_cong: "w_checks w = w_checks w' \<Longrightarrow> find_check i cid w = find_check i cid w'"
  by (simp add: find_check_def)

lemma upd_agent_fields [simp]:
  "w_comms (upd_agent i f w) = w_comms w" "w_heaps (upd_agent i f w) = w_heaps w"
  "w_subs (upd_agent i f w) = w_subs w" "w_checks (upd_agent i f w) = w_checks w"
  "w_dogs (upd_agent i f w) = w_dogs w"
  "r_agents (site_reg (upd_agent i f w)) = dict_upd i f (r_agents (site_reg w))"
  by (simp_all add: upd_agent_def reg_save_def)

lemma snap_heap_fields [simp]:
  "w_comms (fst (snap_heap i w)) = w_comms w" "w_sched (fst (snap_heap i w)) = w_sched w"
  "w_subs (fst (snap_heap i w)) = w_subs w" "w_checks (fst (snap_heap i w)) = w_checks w"
  "w_dogs (fst (snap_heap i w)) = w_dogs w"
  by (simp_all add: snap_heap_def Let_def split_def)

lemma snap_inbox_fields [simp]:
  "w_heaps (fst (snap_inbox env i w)) = w_heaps w" "w_sched (fst (snap_inbox env i w)) = w_sched w"
  "w_subs (fst (snap_inbox env i w)) = w_subs w" "w_checks (fst (snap_inbox env i w)) = w_checks w"
  "w_dogs (fst (snap_inbox env i w)) = w_dogs w"
  by (simp_all add: snap_inbox_def split_def Let_def)

lemma restore_heap_fields [simp]:
  "w_comms (restore_heap i mem w) = w_comms w" "w_sched (restore_heap i mem w) = w_sched w"
  "w_subs (restore_heap i mem w) = w_subs w" "w_checks (restore_heap i mem w) = w_checks w"
  "w_dogs (restore_heap i mem w) = w_dogs w"
  by (simp_all add: restore_heap_def split_def Let_def)

lemma restore_agent_fields [simp]:
  "w_comms (restore_agent i st w) = w_comms w" "w_heaps (restore_agent i st w) = w_heaps w"
  "w_subs (restore_agent i st w) = w_subs w" "w_checks (restore_agent i st w) = w_checks w"
  "w_dogs (restore_agent i st w) = w_dogs w"
  by (simp_all add: restore_agent_def split: option.split prod.split)

lemma ck_save_fields [simp]:
  "w_sched (fst (ck_save env dg cid now i label w)) = w_sched w"
  "w_subs (fst (ck_save env dg cid now i label w)) = w_subs w"
  "w_dogs (fst (ck_save env dg cid now i label w)) = w_dogs w"
  "w_heaps (fst (ck_save env dg cid now i label w)) = w_heaps (fst (snap_heap i w))"
  by (simp_all add: ck_save_def Let_def split_def split: sum.split)

lemma ck_restore_fields [simp]:
  "w_subs (fst (ck_restore env i cid w)) = w_subs w" "w_checks (fst (ck_restore env i cid w)) = w_checks w"
  "w_dogs (fst (ck_restore env i cid w)) = w_dogs w"
  by (simp_all add: ck_restore_def split: option.split)

text \<open>The file a save writes, and the ones it leaves alone.\<close>

lemma snap_task_same:
  "snap_task i (fst (snap_inbox env i (fst (snap_heap i w)))) = snap_task i w"
  by (simp add: snap_task_def split: option.split)

lemma ck_save_find:
  "find_check j cid' (fst (ck_save env dg cid now i label w)) =
     (if j = i \<and> cid' = cid \<and> \<not> isl (snap_task i w)
      then Some (Some \<lparr>ck_id = cid, ck_agent = i, ck_label = label, ck_created = now,
             ck_memory = snd (snap_heap i w), ck_inbox = snd (snap_inbox env i (fst (snap_heap i w))),
             ck_task = projr (snap_task i w),
             ck_state = snap_agent i w, ck_hash = hash_snapshot dg (snd (snap_heap i w))\<rparr>)
      else find_check j cid' w)"
proof -
  have "snap_agent i (fst (snap_inbox env i (fst (snap_heap i w)))) = snap_agent i w"
    by (simp add: snap_agent_def)
  moreover have "find_check j cid' (fst (snap_inbox env i (fst (snap_heap i w)))) = find_check j cid' w"
    by (rule find_check_cong) simp
  moreover have "find_check j c (site_emit env t src pl v) = find_check j c v" for c t src pl v
    by (rule find_check_cong) simp
  ultimately show ?thesis
    by (cases "snap_task i w") (simp_all add: ck_save_def Let_def split_def snap_task_same)
qed

lemma ck_save_result:
  "snd (ck_save env dg cid now i label w) = (case snap_task i w of Inl e \<Rightarrow> Inl e | Inr t \<Rightarrow> Inr cid)"
  by (simp add: ck_save_def Let_def split_def snap_task_same split: sum.split)

fun writes_check :: "site_op \<Rightarrow> string \<Rightarrow> string \<Rightarrow> bool" where
  "writes_check (OSave cid now i label) j c \<longleftrightarrow> i = j \<and> cid = c"
| "writes_check (OSignal now mgr i sig by grace) j c \<longleftrightarrow> i = j \<and> map_option fst mgr = Some c"
| "writes_check _ j c \<longleftrightarrow> False"

lemma sig_term_fields [simp]:
  "w_subs (sig_term env now i by grace w) = w_subs w" "w_checks (sig_term env now i by grace w) = w_checks w"
  "w_heaps (sig_term env now i by grace w) = w_heaps w"
  "w_dogs (sig_term env now i by grace w) = w_dogs w @ [\<lparr>wd_agent = i, wd_by = by, wd_due = now + grace\<rparr>]"
  by (simp_all add: sig_term_def Let_def)

lemma sig_info_fields [simp]:
  "w_subs (sig_info env now i by w) = w_subs w" "w_checks (sig_info env now i by w) = w_checks w"
  "w_heaps (sig_info env now i by w) = w_heaps w" "w_sched (sig_info env now i by w) = w_sched w"
  "w_dogs (sig_info env now i by w) = w_dogs w"
  by (simp_all add: sig_info_def split: option.split)

definition pause_saved :: "env \<Rightarrow> digests \<Rightarrow> (string \<times> time) option \<Rightarrow> string \<Rightarrow> site \<Rightarrow> site" where
  "pause_saved env dg mgr i w =
     (case mgr of None \<Rightarrow> w | Some (fresh, t) \<Rightarrow> fst (ck_save env dg fresh t i (Some ''sigpause'') w))"

lemma pause_saved_fields [simp]:
  "w_sched (pause_saved env dg mgr i w) = w_sched w" "w_subs (pause_saved env dg mgr i w) = w_subs w"
  "w_dogs (pause_saved env dg mgr i w) = w_dogs w"
  by (simp_all add: pause_saved_def split: option.split prod.split)

lemma sig_pause_fields [simp]:
  "w_subs (sig_pause env dg now mgr i by w) = w_subs w" "w_dogs (sig_pause env dg now mgr i by w) = w_dogs w"
  "w_checks (sig_pause env dg now mgr i by w) = w_checks (pause_saved env dg mgr i w)"
  by (simp_all add: sig_pause_def Let_def split_def pause_saved_def split: option.split)

lemma dispatch_fields [simp]:
  "w_subs (fst (signal_dispatch env dg now mgr i sig by grace w)) = w_subs w"
  by (simp add: signal_dispatch_def Let_def split: option.split)

lemma dispatch_checks:
  "map_option fst mgr \<noteq> Some c \<or> i \<noteq> j \<Longrightarrow>
   find_check j c (fst (signal_dispatch env dg now mgr i sig by grace w)) = find_check j c w"
proof -
  assume other: "map_option fst mgr \<noteq> Some c \<or> i \<noteq> j"
  have "find_check j c (pause_saved env dg mgr i v) = find_check j c v" for v
    using other by (auto simp: pause_saved_def ck_save_find split: option.split prod.split)
  then show ?thesis
    by (simp add: signal_dispatch_def Let_def find_check_def split: option.split)
qed

lemma group_fold_fields [simp]:
  "w_subs (foldl (\<lambda>w i. fst (signal_dispatch env dg now None i sig by grace w)) w is) = w_subs w"
  "find_check j c (foldl (\<lambda>w i. fst (signal_dispatch env dg now None i sig by grace w)) w is) = find_check j c w"
  by (induction "is" arbitrary: w) (simp_all add: dispatch_checks)

lemma wakes_fields [simp]:
  "w_subs (watchdog_wakes env stamp now k w) = w_subs w"
  "w_checks (watchdog_wakes env stamp now k w) = w_checks w"
  "w_heaps (watchdog_wakes env stamp now k w) = w_heaps w"
  by (simp_all add: watchdog_wakes_def Let_def split_def split: option.split)

lemma step_subs [simp]: "w_subs (site_step wo x w) = w_subs w"
  by (cases x) (simp_all add: signal_group_def Let_def split_def)

lemma run_subs: "w_subs (run_ops (site_step wo) ops w) = w_subs w"
  by (induction ops arbitrary: w) simp_all

lemma step_check:
  assumes "\<not> writes_check x i c"
  shows "find_check i c (site_step wo x w) = find_check i c w"
proof (cases x)
  case (OSave cid now j label)
  with assms show ?thesis by (auto simp: ck_save_find)
next
  case (OSignal now mgr j sig sender grace)
  with assms show ?thesis by (auto simp: dispatch_checks)
qed (auto simp: signal_group_def Let_def split_def intro: find_check_cong)

lemma run_check:
  "list_all (\<lambda>x. \<not> writes_check x i c) ops \<Longrightarrow>
   find_check i c (run_ops (site_step wo) ops w) = find_check i c w"
  by (induction ops arbitrary: w) (simp_all add: step_check)

section \<open>What a restore brings back\<close>

definition heap_of :: "string \<Rightarrow> site \<Rightarrow> heap" where
  "heap_of i w = snd (hr_get i (w_heaps w))"

lemma hr_get_same [simp]: "snd (hr_get j (fst (hr_get i hs))) = snd (hr_get j hs)"
  by (auto simp: hr_get_def split_def Let_def split: option.splits)

lemma hr_get_put [simp]: "snd (hr_get j (hr_put i h hs)) = (if j = i then h else snd (hr_get j hs))"
  by (auto simp: hr_get_def hr_put_def split_def Let_def split: option.splits)

lemma heap_of_cong: "w_heaps w = w_heaps w' \<Longrightarrow> heap_of i w = heap_of i w'"
  by (simp add: heap_of_def)

lemma heap_of_simps [simp]:
  "heap_of i (site_emit env t src pl w) = heap_of i w" "heap_of i (restore_agent j st w) = heap_of i w"
  "heap_of i (site_effs env effs w) = heap_of i w" "heap_of i (set_reg r w) = heap_of i w"
  by (rule heap_of_cong, simp)+

lemma snap_heap_value: "has_heaps (w_subs w) \<Longrightarrow> snd (snap_heap i w) = h_objs (heap_of i w)"
  by (simp add: snap_heap_def heap_of_def Let_def split_def)

lemma rebuilt: "wf_dict d \<Longrightarrow> foldl (\<lambda>e (k, v). dict_set k v e) [] d = d"
  using dict_build_acc [of "[]" fst d snd] by (simp add: wf_dict_def split_def)

lemma heap_of_restore:
  assumes "has_heaps (w_subs w)" and "wf_dict mem"
  shows "heap_of j (restore_heap i mem w) =
     (if j = i then heap_save ((heap_of i w)\<lparr>h_objs := mem\<rparr>) else heap_of j w)"
  using assms by (auto simp: restore_heap_def heap_of_def Let_def split_def rebuilt [unfolded split_def])

lemma agents_restore:
  assumes "has_registry (w_subs w)"
  shows "dict_get (r_agents (site_reg (restore_agent i (Some st) w))) j =
     (if j = i then map_option (restored_agent st) (dict_get (r_agents (site_reg w)) i)
      else dict_get (r_agents (site_reg w)) j)"
  using assms by (cases "dict_get (r_agents (site_reg w)) i") (auto simp: restore_agent_def reg_save_def)

lemma restore_found:
  assumes "find_check i cid w = Some (Some chk)"
  shows "fst (ck_restore env i cid w) = site_emit env ''agent.restored'' i
             [(''agent_id'', PStr i), (''checkpoint_id'', PStr cid),
              (''memory_keys'', py_strs (keys (ck_memory chk)))]
             (restore_agent i (ck_state chk) (restore_heap i (ck_memory chk) w))"
    and "snd (ck_restore env i cid w)"
  using assms by (simp_all add: ck_restore_def)

text \<open>The state an agent's record and heap had when a checkpoint was saved, in the file as it is found later.\<close>

lemma saved_later:
  assumes "has_registry (w_subs w)" and "has_heaps (w_subs w)"
    and "dict_get (r_agents (site_reg w)) i = Some a"
    and "list_all (\<lambda>x. \<not> writes_check x i cid) ops" and "snd (ck_save env dg cid now i label w) = Inr res"
  obtains chk where
    "find_check i cid (run_ops (site_step wo) ops (fst (ck_save env dg cid now i label w))) = Some (Some chk)"
    "ck_memory chk = h_objs (heap_of i w)"
    "ck_state chk = Some \<lparr>st_status = a_status a, st_usage = a_usage a, st_metadata = a_metadata a,
       st_locks = a_locks a, st_task = a_task a\<rparr>"
  using assms by (simp add: run_check ck_save_find ck_save_result snap_heap_value snap_agent_def split: sum.splits)

text \<open>
  C25: a checkpoint round trip: whatever happens to the site between a save and a restore of that
  checkpoint, short of the file being overwritten, the restore succeeds and the agent's heap holds
  exactly the slots of the moment of the save; its record keeps its present status, task and budget
  but has the usage, metadata and locks of that moment; no other heap and no other agent is touched.
\<close>

theorem ck_restore_roundtrip:
  assumes "has_registry (w_subs w)" and "has_heaps (w_subs w)" and "wf_dict (h_objs (heap_of i w))"
    and "dict_get (r_agents (site_reg w)) i = Some a"
    and "list_all (\<lambda>x. \<not> writes_check x i cid) ops" and "snd (ck_save env dg cid now i label w) = Inr res"
    and "dict_get (r_agents (site_reg (run_ops (site_step wo) ops (fst (ck_save env dg cid now i label w))))) i = Some b"
  shows "let w2 = run_ops (site_step wo) ops (fst (ck_save env dg cid now i label w));
             (w3, ok) = ck_restore env i cid w2
         in ok \<and> h_objs (heap_of i w3) = h_objs (heap_of i w)
            \<and> dict_get (r_agents (site_reg w3)) i =
                Some (b\<lparr>a_usage := a_usage a, a_metadata := a_metadata a, a_locks := a_locks a\<rparr>)
            \<and> (if j = i then True
               else heap_of j w3 = heap_of j w2
                  \<and> dict_get (r_agents (site_reg w3)) j = dict_get (r_agents (site_reg w2)) j)"
proof -
  define w2 where "w2 = run_ops (site_step wo) ops (fst (ck_save env dg cid now i label w))"
  obtain chk where chk: "find_check i cid w2 = Some (Some chk)" "ck_memory chk = h_objs (heap_of i w)"
    "ck_state chk = Some \<lparr>st_status = a_status a, st_usage = a_usage a, st_metadata = a_metadata a,
       st_locks = a_locks a, st_task = a_task a\<rparr>"
    unfolding w2_def by (rule saved_later [OF assms(1,2,4,5,6), where wo = wo])
  have subs: "has_registry (w_subs w2)" "has_heaps (w_subs w2)"
    using assms(1,2) by (simp_all add: w2_def run_subs)
  show ?thesis
    unfolding w2_def [symmetric] using assms(7) [folded w2_def] subs(1)
    by (simp add: Let_def split_def restore_found [OF chk(1)] chk(2,3) heap_of_restore [OF subs(2) assms(3)]
        heap_save_def agents_restore restored_agent_def)
qed

section \<open>What a restore does not bring back\<close>

text \<open>A small site to try things on: the core agents, no checkpoints.\<close>

definition tick_env :: env where
  "tick_env = \<lparr>uuid = nat_str, clock = of_nat\<rparr>"

definition plain_world :: surroundings where
  "plain_world = \<lparr>wo_env = tick_env, wo_dig = \<lparr>heap_digest = (\<lambda>d. []), msg_digest = m_id\<rparr>,
                  wo_keying = example_keying, wo_llm = (\<lambda>p. None)\<rparr>"

definition small_site :: site where
  "small_site = site_init 0 (reg_init example_keying 0 ''m'' ''ws'' None) ''heaps''"

text \<open>
  the snapshot of a slot that is swapped out holds no content, only the name of its swap file, and
  a restore does not bring the file back: after the slot has been given another content and swapped out
  again, the restored slot reads as the later content.
\<close>

theorem ck_swapped_slot_changes:
  "let w1 = run_ops (site_step plain_world)
        [OHeap ''scout'' (HAlloc 1 ''plan'' ''first'' 5 None False), OHeap ''scout'' (HSwapOut ''plan'')] small_site;
       w2 = run_ops (site_step plain_world)
        [OSave ''c1'' 2 ''scout'' None, OHeap ''scout'' (HAlloc 3 ''plan'' ''second'' 5 None False),
         OHeap ''scout'' (HSwapOut ''plan''), ORestore ''scout'' ''c1''] w1
   in snd (heap_read 4 5 ''plan'' (heap_of ''scout'' w1)) = Inr ''first''
      \<and> h_objs (heap_of ''scout'' w2) = h_objs (heap_of ''scout'' w1)
      \<and> snd (heap_read 4 5 ''plan'' (heap_of ''scout'' w2)) = Inr ''second''"
  by code_simp

text \<open>
  a restore ignores what has been granted since: if an agent held a lock when the checkpoint was
  saved and another agent holds that lock now, after the restore both hold it, the first until the
  deadline of the checkpoint and the second until its own, and neither lease could have been granted
  while the other ran.
\<close>

theorem ck_restore_shares_lock:
  assumes "has_registry (w_subs w)" and "has_heaps (w_subs w)"
    and "lock_deadline (site_reg w) i n = Some d"
    and "list_all (\<lambda>x. \<not> writes_check x i cid) ops" and "snd (ck_save env dg cid now i label w) = Inr res"
    and "w2 = run_ops (site_step wo) ops (fst (ck_save env dg cid now i label w))"
    and "dict_get (r_agents (site_reg w2)) i \<noteq> None" and "j \<noteq> i"
    and "lock_deadline (site_reg w2) j n = Some d'"
    and "r3 = site_reg (fst (ck_restore env i cid w2))" and "t \<le> d" and "t \<le> d'"
  shows "lock_deadline r3 i n = Some d \<and> lock_deadline r3 j n = Some d' \<and>
         held_by_other t i n r3 \<and> held_by_other t j n r3"
proof -
  obtain a where a: "dict_get (r_agents (site_reg w)) i = Some a" "map_option l_expires_at (dict_get (a_locks a) n) = Some d"
    using assms(3) by (auto simp: lock_deadline_def split: option.splits)
  obtain chk where chk: "find_check i cid w2 = Some (Some chk)" "ck_memory chk = h_objs (heap_of i w)"
    "ck_state chk = Some \<lparr>st_status = a_status a, st_usage = a_usage a, st_metadata = a_metadata a,
       st_locks = a_locks a, st_task = a_task a\<rparr>"
    unfolding assms(6) by (rule saved_later [OF assms(1,2) a(1) assms(4,5), where wo = wo])
  have subs: "has_registry (w_subs w2)" using assms(1,6) by (simp add: run_subs)
  have "lock_deadline r3 i n = Some d \<and> lock_deadline r3 j n = Some d'"
    using assms(7,8,9) a(2)
    by (auto simp: assms(10) restore_found(1) [OF chk(1)] chk(3) lock_deadline_def agents_restore subs restored_agent_def)
  then show ?thesis using assms(8,11,12) by (blast intro: lock_held_by_other)
qed

definition lock_ops :: "site_op list" where
  "lock_ops = [OReg (RegRelease ''scout'' ''build''), OReg (RegAcquire 3 ''analyst'' ''build'' 100)]"

theorem ck_restore_shares_lock_witness:
  "let w = site_step plain_world (OReg (RegAcquire 1 ''scout'' ''build'' 50)) small_site;
       w2 = run_ops (site_step plain_world) lock_ops (fst (ck_save tick_env (wo_dig plain_world) ''c1'' 2 ''scout'' None w));
       r3 = site_reg (fst (ck_restore tick_env ''scout'' ''c1'' w2))
   in lock_deadline r3 ''scout'' ''build'' = Some 51 \<and> lock_deadline r3 ''analyst'' ''build'' = Some 103"
proof -
  define w where "w = site_step plain_world (OReg (RegAcquire 1 ''scout'' ''build'' 50)) small_site"
  define w2 where "w2 = run_ops (site_step plain_world) lock_ops
    (fst (ck_save tick_env (wo_dig plain_world) ''c1'' 2 ''scout'' None w))"
  have start: "has_registry (w_subs w)" "has_heaps (w_subs w)" "lock_deadline (site_reg w) ''scout'' ''build'' = Some 51"
    unfolding w_def by code_simp+
  have free: "list_all (\<lambda>x. \<not> writes_check x ''scout'' ''c1'') lock_ops" by (simp add: lock_ops_def)
  have saved: "snd (ck_save tick_env (wo_dig plain_world) ''c1'' 2 ''scout'' None w) = Inr ''c1''"
    unfolding w_def by code_simp
  have later: "dict_get (r_agents (site_reg w2)) ''scout'' \<noteq> None"
    "lock_deadline (site_reg w2) ''analyst'' ''build'' = Some 103"
    unfolding w2_def w_def by code_simp+
  have "lock_deadline (site_reg (fst (ck_restore tick_env ''scout'' ''c1'' w2))) ''scout'' ''build'' = Some 51 \<and>
        lock_deadline (site_reg (fst (ck_restore tick_env ''scout'' ''c1'' w2))) ''analyst'' ''build'' = Some 103"
    using ck_restore_shares_lock [OF start free saved w2_def later(1) _ later(2) refl, where t = 4] by simp
  then show ?thesis unfolding Let_def w_def [symmetric] w2_def [symmetric] .
qed

theorem ck_restore_roundtrip_witness:
  "let w = site_step plain_world (OHeap ''scout'' (HAlloc 1 ''plan'' ''first'' 5 None False)) small_site;
       w2 = run_ops (site_step plain_world) [OHeap ''scout'' (HFree ''plan''), OReg (RegUsage ''scout'' 1 2 3)]
              (fst (ck_save tick_env (wo_dig plain_world) ''c1'' 2 ''scout'' None w))
   in h_objs (heap_of ''scout'' (fst (ck_restore tick_env ''scout'' ''c1'' w2))) = h_objs (heap_of ''scout'' w)"
proof -
  define w where "w = site_step plain_world (OHeap ''scout'' (HAlloc 1 ''plan'' ''first'' 5 None False)) small_site"
  define ops where "ops = [OHeap ''scout'' (HFree ''plan''), OReg (RegUsage ''scout'' 1 2 3)]"
  have start: "has_registry (w_subs w)" "has_heaps (w_subs w)" "wf_dict (h_objs (heap_of ''scout'' w))"
    unfolding w_def by code_simp+
  have "dict_get (r_agents (site_reg w)) ''scout'' \<noteq> None" unfolding w_def by code_simp
  then obtain a where a: "dict_get (r_agents (site_reg w)) ''scout'' = Some a" by blast
  have free: "list_all (\<lambda>x. \<not> writes_check x ''scout'' ''c1'') ops" by (simp add: ops_def)
  have saved: "snd (ck_save tick_env (wo_dig plain_world) ''c1'' 2 ''scout'' None w) = Inr ''c1''"
    unfolding w_def by code_simp
  have "dict_get (r_agents (site_reg (run_ops (site_step plain_world) ops
      (fst (ck_save tick_env (wo_dig plain_world) ''c1'' 2 ''scout'' None w))))) ''scout'' \<noteq> None"
    unfolding w_def ops_def by code_simp
  then obtain b where "dict_get (r_agents (site_reg (run_ops (site_step plain_world) ops
      (fst (ck_save tick_env (wo_dig plain_world) ''c1'' 2 ''scout'' None w))))) ''scout'' = Some b" by blast
  from ck_restore_roundtrip [OF start a free saved this, where j = "''scout''"]
  show ?thesis unfolding Let_def w_def [symmetric] ops_def [symmetric] split_def by (elim conjE)
qed

section \<open>The inbox of a checkpoint\<close>

text \<open>Message objects are never removed from the bus, and one that has been read stays read.\<close>

definition stay_read :: "bus \<Rightarrow> bus \<Rightarrow> bool" where
  "stay_read b b' \<longleftrightarrow> length (b_objs b) \<le> length (b_objs b') \<and>
     (\<forall>r < length (b_objs b). m_read (b_objs b ! r) \<longrightarrow> m_read (b_objs b' ! r))"

lemma stay_read_refl [simp, intro]: "stay_read b b"
  by (simp add: stay_read_def)

lemma stay_read_trans [trans]: "stay_read b c \<Longrightarrow> stay_read c d \<Longrightarrow> stay_read b d"
  unfolding stay_read_def by (meson le_trans less_le_trans)

lemma stay_read_append: "b_objs b' = b_objs b @ ms \<Longrightarrow> stay_read b b'"
  by (simp add: stay_read_def nth_append)

lemma marked_read: "m_read (objs ! k) \<Longrightarrow> k < length objs \<Longrightarrow> m_read (objs[r := mark_read (objs ! r)] ! k)"
  by (cases "k = r") (simp_all add: mark_read_def)

lemma recv_loop_marks:
  "length (fst (recv_loop u limit rs objs res)) = length objs \<and>
   (\<forall>r < length objs. m_read (objs ! r) \<longrightarrow> m_read (fst (recv_loop u limit rs objs res) ! r))"
proof (induction u limit rs objs res rule: recv_loop.induct)
  case (2 u limit r rs objs res)
  then show ?case by (auto simp: Let_def marked_read)
qed simp

lemma stay_read_receive: "stay_read b (fst (bus_receive now a u limit b))"
  using recv_loop_marks [of u limit "filter (\<lambda>r. msg_live now (b_objs b ! r)) (bus_refs b a)" "b_objs b" "[]"]
  by (simp add: stay_read_def bus_receive_def Let_def split_def)

lemma stay_read_send: "stay_read b (fst (bus_send m t1 t2 f t c mt rt ttl b))"
  by (rule stay_read_append) (simp add: bus_send_def Let_def)

lemma stay_read_deliver: "stay_read b (foldl (\<lambda>b a. bus_deliver_event a e b) b as)"
proof (induction as arbitrary: b)
  case (Cons a as)
  have "stay_read b (bus_deliver_event a e b)"
    by (rule stay_read_append) (simp add: bus_deliver_event_def Let_def)
  also have "stay_read \<dots> (foldl (\<lambda>b a. bus_deliver_event a e b) (bus_deliver_event a e b) as)"
    by (rule Cons.IH)
  finally show ?case by simp
qed simp

lemma stay_read_ev: "stay_read b (snd (ev_emit eid t1 now et src pl (eb, b)))"
  by (simp add: ev_emit_bus stay_read_deliver)

lemma stay_read_emit: "stay_read (c_bus c) (c_bus (comms_emit env et src pl c))"
  by (simp add: comms_emit_fields stay_read_ev)

lemma stay_read_csend: "stay_read (c_bus c) (c_bus (fst (comms_send env f t p mt rt ttl c)))"
proof -
  let ?b = "fst (bus_send (uuid env (c_tick c)) (clock env (c_tick c)) (clock env (Suc (c_tick c))) f t p mt rt ttl (c_bus c))"
  have "stay_read (c_bus c) ?b" by (rule stay_read_send)
  also have "stay_read ?b (c_bus (fst (comms_send env f t p mt rt ttl c)))"
    using stay_read_emit [of "c\<lparr>c_bus := ?b, c_tick := c_tick c + 2\<rparr>"] by (simp add: comms_send_eq Let_def)
  finally show ?thesis .
qed

lemma stay_read_eff: "stay_read (c_bus c) (c_bus (run_eff env c e))"
  by (cases e) (simp_all add: stay_read_emit stay_read_csend)

lemma stay_read_effs: "stay_read (c_bus c) (c_bus (run_effs env effs c))"
proof (induction effs arbitrary: c)
  case (Cons e effs)
  have "stay_read (c_bus c) (c_bus (run_eff env c e))" by (rule stay_read_eff)
  also have "stay_read \<dots> (c_bus (run_effs env effs (run_eff env c e)))" by (rule Cons.IH)
  finally show ?case by (simp add: run_effs_def)
qed (simp add: run_effs_def)

lemma stay_read_cstep: "stay_read (c_bus c) (c_bus (comms_step env x c))"
  by (cases x) (simp_all add: stay_read_eff stay_read_csend stay_read_receive)

abbreviation site_bus :: "site \<Rightarrow> bus" where
  "site_bus w \<equiv> c_bus (w_comms w)"

lemma stay_read_site_effs: "stay_read (site_bus w) (site_bus (site_effs env effs w))"
  by (simp add: site_effs_def stay_read_effs)

lemma stay_read_site_emit: "stay_read (site_bus w) (site_bus (site_emit env t src pl w))"
  by (simp add: site_emit_def stay_read_site_effs)

lemma stay_read_snap: "stay_read (site_bus w) (site_bus (fst (snap_inbox env i w)))"
  by (simp add: snap_inbox_def Let_def split_def stay_read_receive)

lemma stay_read_after_snap:
  "stay_read (site_bus (fst (snap_inbox env i (fst (snap_heap i w)))))
     (site_bus (fst (ck_save env dg cid now i label w)))"
  using stay_read_site_emit [of "put_check i cid f (fst (snap_inbox env i (fst (snap_heap i w))))" for f]
  by (simp add: ck_save_def Let_def split_def split: sum.split)

lemma stay_read_save: "stay_read (site_bus w) (site_bus (fst (ck_save env dg cid now i label w)))"
proof -
  let ?v = "fst (snap_inbox env i (fst (snap_heap i w)))"
  have "stay_read (site_bus w) (site_bus ?v)"
    using stay_read_snap [of "fst (snap_heap i w)" env i] by simp
  also have "stay_read (site_bus ?v) (site_bus (fst (ck_save env dg cid now i label w)))"
    by (rule stay_read_after_snap)
  finally show ?thesis .
qed

lemma stay_read_restore: "stay_read (site_bus w) (site_bus (fst (ck_restore env i cid w)))"
proof -
  have "stay_read (site_bus w) (site_bus (site_emit env t src pl (restore_agent i st (restore_heap i mem w))))" for t src pl st mem
    using stay_read_site_emit [of "restore_agent i st (restore_heap i mem w)"] by simp
  then show ?thesis by (simp add: ck_restore_def split: option.split)
qed

lemma stay_read_term: "stay_read (site_bus w) (site_bus (sig_term env now i by_id grace w))"
  using stay_read_site_effs [of "upd_agent i f w" for f] stay_read_site_effs [of w]
  by (simp add: sig_term_def Let_def)

lemma stay_read_info: "stay_read (site_bus w) (site_bus (sig_info env now i by_id w))"
  by (simp add: sig_info_def stay_read_site_effs split: option.split)

lemma stay_read_pause: "stay_read (site_bus w) (site_bus (sig_pause env dg now mgr i by_id w))"
proof -
  have more: "stay_read b (site_bus v) \<Longrightarrow> stay_read b (site_bus (site_effs env effs v))" for b v effs
    using stay_read_site_effs stay_read_trans by blast
  show ?thesis
    by (auto simp: sig_pause_def Let_def split_def intro!: more split: option.split simp: stay_read_save)
qed

lemma stay_read_dispatch: "stay_read (site_bus w) (site_bus (fst (signal_dispatch env dg now mgr i sig by_id grace w)))"
proof -
  have first: "stay_read (site_bus (site_effs env effs w)) b \<Longrightarrow> stay_read (site_bus w) b" for b effs
    using stay_read_site_effs stay_read_trans by blast
  show ?thesis
    by (auto simp: signal_dispatch_def Let_def split: option.split
        intro: first [OF stay_read_term] first [OF stay_read_pause] first [OF stay_read_info] stay_read_site_effs)
qed

lemma stay_read_wakes: "stay_read (site_bus w) (site_bus (watchdog_wakes env stamp now k w))"
  using stay_read_site_effs [of "set_reg r (w\<lparr>w_dogs := ds\<rparr>)" for r ds]
  by (simp add: watchdog_wakes_def Let_def split_def split: option.split)

lemma stay_read_step: "stay_read (site_bus w) (site_bus (site_step wo x w))"
proof (cases x)
  case (OGroup now g sender grace)
  have "stay_read (site_bus w) (site_bus (foldl (\<lambda>w i. fst (signal_dispatch env dg now None i sig by_id gr w)) w is))" for env dg now sig by_id gr "is"
  proof (induction "is" arbitrary: w)
    case (Cons i "is")
    show ?case using stay_read_trans [OF stay_read_dispatch Cons.IH] by simp
  qed simp
  with OGroup show ?thesis by (simp add: signal_group_def Let_def)
next
  case (OReg y)
  show ?thesis using stay_read_site_effs [of "set_reg (reg_step (wo_keying wo) y (site_reg w)) w"] by (simp add: OReg)
qed (simp_all add: stay_read_save stay_read_restore stay_read_dispatch stay_read_wakes stay_read_cstep Let_def split_def)

lemma stay_read_run: "stay_read (site_bus w) (site_bus (run_ops (site_step wo) ops w))"
proof (induction ops arbitrary: w)
  case (Cons x ops)
  show ?case using stay_read_trans [OF stay_read_step Cons.IH] by simp
qed simp

text \<open>
  saving a checkpoint consumes the mail: it reads the inbox as the agent would, so when at most 200
  messages are unread, none of the messages then in the inbox is ever handed out again as unread,
  whatever happens later, the restoring of that very checkpoint included.
\<close>

theorem ck_save_consumes_inbox:
  assumes "comms_wf (w_comms w)" and "has_bus (w_subs w)" and "t = clock env (c_tick (w_comms w))"
    and "length (bus_pending t True (site_bus w) i) \<le> 200"
    and "r \<in> set (bus_refs (site_bus w) i)" and "msg_live t (b_objs (site_bus w) ! r)"
  shows "r \<notin> set (recv_refs t' i True limit
     (site_bus (run_ops (site_step wo) ops (fst (ck_save env dg cid now i label w)))))"
proof -
  let ?b = "site_bus w" and ?v = "fst (snap_inbox env i (fst (snap_heap i w)))"
  let ?w2 = "run_ops (site_step wo) ops (fst (ck_save env dg cid now i label w))"
  have wf: "bus_wf ?b" using assms(1) by (simp add: comms_wf_def)
  have r: "r < length (b_objs ?b)" by (rule bus_refs_wf(2) [OF wf assms(5)])
  have v: "site_bus ?v = fst (bus_receive t i True 200 ?b)"
    using assms(2,3) by (simp add: snap_inbox_def Let_def split_def)
  have "length (filter (\<lambda>r. msg_live t (b_objs ?b ! r) \<and> wanted True (b_objs ?b) r) (bus_refs ?b i)) \<le> 200"
    using assms(4) by (simp add: bus_pending_def inbox_def filter_map o_def)
  then have refs: "recv_refs t i True 200 ?b =
      filter (\<lambda>r. msg_live t (b_objs ?b ! r) \<and> wanted True (b_objs ?b) r) (bus_refs ?b i)"
    by (simp add: recv_refs_def)
  have "m_read (b_objs (site_bus ?v) ! r)"
  proof (cases "m_read (b_objs ?b ! r)")
    case True
    then show ?thesis using stay_read_receive [of ?b t i True 200] r by (simp add: v stay_read_def)
  next
    case False
    with assms(5,6) have "r \<in> set (recv_refs t i True 200 ?b)" by (simp add: refs)
    moreover have "\<forall>r \<in> set (recv_refs t i True 200 ?b). r < length (b_objs ?b)"
      using recv_refs_sub bus_refs_wf(2) [OF wf] by blast
    ultimately show ?thesis using r
      by (simp add: v bus_receive_state(1) [OF wf] nth_mark_refs mark_read_def)
  qed
  moreover have "r < length (b_objs (site_bus ?v))"
    using stay_read_receive [of ?b t i True 200] r by (simp add: v stay_read_def)
  moreover have "stay_read (site_bus ?v) (site_bus ?w2)"
  proof (rule stay_read_trans)
    show "stay_read (site_bus ?v) (site_bus (fst (ck_save env dg cid now i label w)))"
      by (rule stay_read_after_snap)
  qed (rule stay_read_run)
  ultimately have "m_read (b_objs (site_bus ?w2) ! r)" by (simp add: stay_read_def)
  then show ?thesis by (auto simp: recv_refs_def dest: in_set_takeD)
qed

theorem ck_save_consumes_inbox_witness:
  "let w = site_step plain_world (OComms (CSend ''root'' ''scout'' [] ''data'' None None)) small_site
   in recv_refs 9 ''scout'' True 10 (site_bus w) = [0] \<and>
      0 \<notin> set (recv_refs 9 ''scout'' True 10 (site_bus (run_ops (site_step plain_world) [ORestore ''scout'' ''c1'']
             (fst (ck_save tick_env (wo_dig plain_world) ''c1'' 5 ''scout'' None w)))))"
proof -
  define w where "w = site_step plain_world (OComms (CSend ''root'' ''scout'' [] ''data'' None None)) small_site"
  have wf: "comms_wf (w_comms w)"
    unfolding w_def by (simp add: small_site_def site_init_def comms_wf_send)
  have start: "has_bus (w_subs w)" "length (bus_pending (clock tick_env (c_tick (w_comms w))) True (site_bus w) ''scout'') \<le> 200"
    "0 \<in> set (bus_refs (site_bus w) ''scout'')"
    "msg_live (clock tick_env (c_tick (w_comms w))) (b_objs (site_bus w) ! 0)"
    "recv_refs 9 ''scout'' True 10 (site_bus w) = [0]"
    unfolding w_def by code_simp+
  from ck_save_consumes_inbox [OF wf start(1) refl start(2,3,4)] start(5)
  show ?thesis unfolding Let_def w_def [symmetric] by blast
qed

section \<open>The end of a grace period\<close>

definition status_in :: "registry \<Rightarrow> string \<Rightarrow> agent_status option" where
  "status_in r i = map_option a_status (dict_get (r_agents r) i)"

lemma status_save [simp]: "status_in (reg_save r) i = status_in r i"
  by (simp add: status_in_def reg_save_def)

lemma status_cong: "r_agents r = r_agents r' \<Longrightarrow> status_in r i = status_in r' i"
  by (simp add: status_in_def)

text \<open>A change of records that leaves the status of terminated ones alone.\<close>

lemma status_upd:
  assumes "\<And>a. a_status a = Terminated \<Longrightarrow> a_status (f a) = Terminated"
  shows "status_in r i = Some Terminated \<Longrightarrow>
     status_in (r\<lparr>r_agents := dict_upd j f (r_agents r)\<rparr>) i = Some Terminated"
  using assms by (auto simp: status_in_def)

lemma status_map:
  assumes "\<And>k a. a_status (f k a) = a_status a"
  shows "status_in (r\<lparr>r_agents := dict_map f (r_agents r)\<rparr>) i = status_in r i"
  using assms by (cases "dict_get (r_agents r) i") (simp_all add: status_in_def)

lemma status_tombstone [simp]: "status_in (fst (reg_write_tombstone stamp j reason by_id r)) i = status_in r i"
  by (auto simp: reg_write_tombstone_def Let_def status_in_def reg_save_def split: option.splits)

lemma status_terminate:
  "reg_terminate stamp j reason by_id r = Inr st \<Longrightarrow> status_in (fst st) i =
     (if i = j then map_option (\<lambda>_. Terminated) (status_in r i) else status_in r i)"
proof -
  assume t: "reg_terminate stamp j reason by_id r = Inr st"
  let ?r0 = "fst (reg_write_tombstone stamp j reason by_id r)"
  have same: "map_option a_status (dict_get (adopt_orphans j (r_agents ?r0)) k) = status_in r k" for k
    using status_tombstone [of stamp j reason by_id r k]
    by (cases "dict_get (r_agents ?r0) k") (auto simp: adopt_orphans_def status_in_def)
  show ?thesis
  proof (cases "dict_get (adopt_orphans j (r_agents ?r0)) j")
    case None
    with t have "fst st = ?r0" by (auto simp: reg_terminate_def Let_def split: if_splits)
    moreover have "status_in r j = None" using same [of j] None by simp
    ultimately show ?thesis by auto
  next
    case (Some a)
    with t have "r_agents (fst st) = dict_upd j (\<lambda>a. a\<lparr>a_status := Terminated\<rparr>) (adopt_orphans j (r_agents ?r0))"
      by (auto simp: reg_terminate_def Let_def reg_save_def split: if_splits)
    moreover have "status_in r j = Some (a_status a)" using same [of j] Some by simp
    ultimately show ?thesis using same [of i] Some by (auto simp: status_in_def)
  qed
qed

lemma status_force:
  "status_in (fst (reg_force_terminate stamp j reason by_id r)) i =
     (if i = j \<and> j \<noteq> ''root'' then map_option (\<lambda>_. Terminated) (status_in r i) else status_in r i)"
proof (cases "reg_terminate stamp j reason by_id r")
  case (Inl e)
  then have "j = ''root''" by (auto simp: reg_terminate_def Let_def split: if_splits option.splits)
  then show ?thesis by (simp add: reg_force_terminate_def)
next
  case (Inr st)
  then show ?thesis using status_terminate [OF Inr, of i] by (auto simp: reg_force_terminate_def)
qed

lemma force_keeps: "status_in r i = Some Terminated \<Longrightarrow> status_in (fst (reg_force_terminate stamp j reason by_id r)) i = Some Terminated"
  by (auto simp: status_force)

lemma group_keeps: "status_in r i = Some Terminated \<Longrightarrow> status_in (fst (reg_terminate_group stamp g by_id r)) i = Some Terminated"
proof -
  have "status_in (fst st) i = Some Terminated \<Longrightarrow> status_in (fst (foldl (\<lambda>(r, effs) mid.
      let (r', e) = reg_force_terminate stamp mid ''group_terminate'' by_id r in (r', effs @ e)) st ms)) i = Some Terminated" for st ms
    by (induction ms arbitrary: st) (auto simp: split_def Let_def force_keeps)
  then show "status_in r i = Some Terminated \<Longrightarrow> ?thesis" by (simp add: reg_terminate_group_def Let_def split_def)
qed

fun revives :: "site_op \<Rightarrow> string \<Rightarrow> bool" where
  "revives (OReg (RegRegister j now q)) i \<longleftrightarrow> j = i"
| "revives (OReg (RegRestart now)) i \<longleftrightarrow> True"
| "revives _ i \<longleftrightarrow> False"

lemma usage_keeps: "status_in (fst (reg_update_usage j n m k r)) i = status_in r i"
proof (cases "dict_get (r_agents r) j")
  case (Some a)
  then show ?thesis
    by (auto simp: reg_update_usage_def Let_def split_def status_in_def reg_save_def)
qed (simp add: reg_update_usage_def)

lemma acquire_keeps: "status_in (fst (reg_acquire_lock now j n ttl r)) i = status_in r i"
  by (cases "dict_get (r_agents r) i") (auto simp: reg_acquire_lock_def Let_def status_in_def reg_save_def purge_locks_def)

lemma reg_terminated_stays:
  assumes "status_in r i = Some Terminated" and "\<not> revives (OReg x) i"
  shows "status_in (reg_step kg x r) i = Some Terminated"
proof (cases x)
  case (RegRegister j now q)
  with assms show ?thesis
    by (simp add: reg_register_def Let_def reg_save_def status_in_def)
next
  case (RegTask j t)
  with assms show ?thesis by (auto simp: reg_set_task_def status_upd)
next
  case (RegTerminate d j reason sender)
  then show ?thesis using assms(1) status_terminate [of d j reason sender r _ i]
    by (auto split: sum.split)
next
  case (RegSuspend j)
  with assms(1) show ?thesis
    by (auto simp: reg_suspend_def status_in_def reg_save_def split: option.split)
next
  case (RegResume j)
  with assms(1) show ?thesis
    by (auto simp: reg_resume_def status_in_def reg_save_def split: option.split)
next
  case (RegRelease j n)
  with assms(1) show ?thesis
    by (auto simp: reg_release_lock_def status_in_def reg_save_def split: option.split)
next
  case RegEventBus
  with assms(1) show ?thesis by (simp add: status_in_def)
qed (use assms in \<open>simp_all add: usage_keeps force_keeps group_keeps acquire_keeps\<close>)

lemma restore_status [simp]: "status_in (site_reg (fst (ck_restore env j cid w))) i = status_in (site_reg w) i"
proof -
  have same: "site_reg (restore_heap j mem v) = site_reg v" for mem v by simp
  have "status_in (site_reg (restore_agent j st v)) i = status_in (site_reg v) i" for st v
    by (auto simp: restore_agent_def status_in_def reg_save_def restored_agent_def split: option.split)
  then show ?thesis by (simp add: ck_restore_def same split: option.split)
qed

lemma put_meta_status [simp]: "a_status (put_meta k v a) = a_status a"
  by (simp add: put_meta_def)

lemma term_status [simp]: "status_in (site_reg (sig_term env now j by_id grace w)) i = status_in (site_reg w) i"
  by (cases "dict_get (r_agents (site_reg w)) i") (auto simp: sig_term_def Let_def status_in_def)

lemma pause_keeps:
  "status_in (site_reg w) i = Some Terminated \<Longrightarrow>
   status_in (site_reg (sig_pause env dg now mgr j by_id w)) i = Some Terminated"
  by (auto simp: sig_pause_def Let_def split_def status_in_def split: option.split)

lemma dispatch_keeps:
  "status_in (site_reg w) i = Some Terminated \<Longrightarrow>
   status_in (site_reg (fst (signal_dispatch env dg now mgr j sig by_id grace w))) i = Some Terminated"
  by (simp add: signal_dispatch_def Let_def pause_keeps split: option.split)

lemma wakes_keeps:
  "status_in (site_reg w) i = Some Terminated \<Longrightarrow>
   status_in (site_reg (watchdog_wakes env stamp now k w)) i = Some Terminated"
  by (simp add: watchdog_wakes_def Let_def split_def force_keeps split: option.split)

text \<open>Every operation keeps the communication layer well formed.\<close>

definition site_wf :: "site \<Rightarrow> bool" where
  "site_wf w \<longleftrightarrow> comms_wf (w_comms w)"

lemma wf_site_effs [intro]: "site_wf w \<Longrightarrow> site_wf (site_effs env effs w)"
  by (simp add: site_wf_def site_effs_def comms_wf_run_effs)

lemma wf_site_emit [intro]: "site_wf w \<Longrightarrow> site_wf (site_emit env t src pl w)"
  by (simp add: site_emit_def wf_site_effs)

lemma wf_same: "w_comms w = w_comms w' \<Longrightarrow> site_wf w = site_wf w'"
  by (simp add: site_wf_def)

lemma wf_simps [simp]:
  "site_wf (set_reg r w) = site_wf w" "site_wf (put_check i cid f w) = site_wf w" "site_wf (upd_agent i g w) = site_wf w"
  "site_wf (restore_agent i st w) = site_wf w" "site_wf (restore_heap i mem w) = site_wf w"
  "site_wf (w\<lparr>w_dogs := ds\<rparr>) = site_wf w" "site_wf (fst (snap_heap i w)) = site_wf w"
  by (rule wf_same, simp)+

lemma wf_snap_inbox: "site_wf w \<Longrightarrow> site_wf (fst (snap_inbox env i w))"
  by (simp add: site_wf_def snap_inbox_def Let_def split_def comms_wf_def)

lemma wf_save: "site_wf w \<Longrightarrow> site_wf (fst (ck_save env dg cid now i label w))"
  by (simp add: ck_save_def Let_def split_def wf_site_emit wf_snap_inbox split: sum.split)

lemma wf_restore: "site_wf w \<Longrightarrow> site_wf (fst (ck_restore env i cid w))"
  by (simp add: ck_restore_def wf_site_emit split: option.split)

lemma wf_term: "site_wf w \<Longrightarrow> site_wf (sig_term env now i by_id grace w)"
  by (simp add: sig_term_def Let_def wf_site_effs)

lemma wf_pause: "site_wf w \<Longrightarrow> site_wf (sig_pause env dg now mgr i by_id w)"
  by (simp add: sig_pause_def Let_def split_def wf_site_effs wf_save split: option.split)

lemma wf_info: "site_wf w \<Longrightarrow> site_wf (sig_info env now i by_id w)"
  by (simp add: sig_info_def wf_site_effs split: option.split)

lemma wf_dispatch: "site_wf w \<Longrightarrow> site_wf (fst (signal_dispatch env dg now mgr i sig by_id grace w))"
  by (simp add: signal_dispatch_def Let_def wf_site_effs wf_term wf_pause wf_info split: option.split)

lemma group_fold:
  "site_wf w \<Longrightarrow> site_wf (foldl (\<lambda>w i. fst (signal_dispatch env dg now None i sig by_id grace w)) w is)"
  "status_in (site_reg w) i = Some Terminated \<Longrightarrow> status_in (site_reg
      (foldl (\<lambda>w i. fst (signal_dispatch env dg now None i sig by_id grace w)) w is)) i = Some Terminated"
  by (induction "is" arbitrary: w) (simp_all add: wf_dispatch dispatch_keeps)

lemma wf_wakes: "site_wf w \<Longrightarrow> site_wf (watchdog_wakes env stamp now k w)"
  by (simp add: watchdog_wakes_def Let_def split_def wf_site_effs split: option.split)

interpretation site_life: lifecycle "site_step wo" site_wf "\<lambda>w. status_in (site_reg w)" "\<lambda>s. s = Terminated" revives for wo
proof
  fix w x assume w: "site_wf w"
  show "site_wf (site_step wo x w)"
  proof (cases x)
    case (OComms y)
    with w show ?thesis by (simp add: site_wf_def comms_sys.inv_step del: comms_step.simps)
  next
    case (OHeap i y)
    then have "w_comms (site_step wo x w) = w_comms w" by (simp add: Let_def split_def)
    with w show ?thesis by (simp add: site_wf_def)
  qed (use w in \<open>simp_all add: wf_save wf_restore wf_dispatch signal_group_def Let_def group_fold(1) wf_wakes wf_site_effs\<close>)
next
  fix w i s x assume "status_in (site_reg w) i = Some s" "s = Terminated" "\<not> revives x i"
  then show "status_in (site_reg (site_step wo x w)) i = Some s"
    by (cases x) (simp_all add: dispatch_keeps signal_group_def Let_def group_fold(2) wakes_keeps reg_terminated_stays split_def)
qed

text \<open>Nobody leaves the registry.\<close>

lemma force_domain: "status_in (fst (reg_force_terminate stamp j reason by_id r)) i = None \<longleftrightarrow> status_in r i = None"
  by (simp add: status_force)

lemma group_domain: "status_in (fst (reg_terminate_group stamp g by_id r)) i = None \<longleftrightarrow> status_in r i = None"
proof -
  have "status_in (fst (foldl (\<lambda>(r, effs) mid.
      let (r', e) = reg_force_terminate stamp mid ''group_terminate'' by_id r in (r', effs @ e)) st ms)) i = None
      \<longleftrightarrow> status_in (fst st) i = None" for st ms
    by (induction ms arbitrary: st) (simp_all add: split_def Let_def force_domain)
  then show ?thesis by (simp add: reg_terminate_group_def Let_def split_def)
qed

lemma reg_domain:
  assumes "\<not> revives (OReg x) i"
  shows "status_in (reg_step kg x r) i = None \<longleftrightarrow> status_in r i = None"
proof (cases x)
  case (RegRegister j now q)
  with assms show ?thesis by (simp add: reg_register_def Let_def reg_save_def status_in_def)
next
  case (RegTask j t)
  then show ?thesis by (auto simp: reg_set_task_def status_in_def reg_save_def)
next
  case (RegTerminate d j reason sender)
  then show ?thesis using status_terminate [of d j reason sender r _ i] by (auto split: sum.split if_splits)
next
  case (RegSuspend j)
  then show ?thesis by (auto simp: reg_suspend_def status_in_def reg_save_def split: option.split)
next
  case (RegResume j)
  then show ?thesis by (auto simp: reg_resume_def status_in_def reg_save_def split: option.split)
next
  case (RegRelease j n)
  then show ?thesis by (auto simp: reg_release_lock_def status_in_def reg_save_def split: option.split)
next
  case RegEventBus
  then show ?thesis by (simp add: status_in_def)
qed (use assms in \<open>simp_all add: usage_keeps force_domain group_domain acquire_keeps\<close>)

lemma pause_domain: "status_in (site_reg (sig_pause env dg now mgr j by_id w)) i = None \<longleftrightarrow> status_in (site_reg w) i = None"
  by (simp add: sig_pause_def Let_def split_def status_in_def split: option.split)

lemma dispatch_domain:
  "status_in (site_reg (fst (signal_dispatch env dg now mgr j sig by_id grace w))) i = None \<longleftrightarrow> status_in (site_reg w) i = None"
  by (simp add: signal_dispatch_def Let_def pause_domain split: option.split)

lemma group_fold_domain:
  "status_in (site_reg (foldl (\<lambda>w i. fst (signal_dispatch env dg now None i sig by_id grace w)) w is)) i = None
     \<longleftrightarrow> status_in (site_reg w) i = None"
  by (induction "is" arbitrary: w) (simp_all add: dispatch_domain)

lemma step_domain:
  assumes "\<not> revives x i"
  shows "status_in (site_reg (site_step wo x w)) i = None \<longleftrightarrow> status_in (site_reg w) i = None"
proof (cases x)
  case (OWakes stamp now k)
  then show ?thesis
    by (auto simp: watchdog_wakes_def Let_def split_def force_domain split: option.split)
qed (use assms in \<open>simp_all add: dispatch_domain signal_group_def Let_def group_fold_domain reg_domain split_def\<close>)

text \<open>A watchdog either waits or has done its work.\<close>

lemma woken:
  assumes "d \<in> set (w_dogs w)" and "status_in (site_reg w) (wd_agent d) \<noteq> None" and "wd_agent d \<noteq> ''root''"
  shows "d \<in> set (w_dogs (watchdog_wakes env stamp now k w)) \<or>
         status_in (site_reg (watchdog_wakes env stamp now k w)) (wd_agent d) = Some Terminated"
proof (cases "k < length (w_dogs w) \<and> wd_due (w_dogs w ! k) \<le> now")
  case False
  with assms(1) show ?thesis by (auto simp: watchdog_wakes_def)
next
  case True
  let ?w1 = "w\<lparr>w_dogs := take k (w_dogs w) @ drop (Suc k) (w_dogs w)\<rparr>"
  have dogs: "w_dogs (watchdog_wakes env stamp now k w) = take k (w_dogs w) @ drop (Suc k) (w_dogs w)"
    using True by (simp add: watchdog_wakes_def Let_def split_def split: option.split)
  have "w_dogs w = take k (w_dogs w) @ w_dogs w ! k # drop (Suc k) (w_dogs w)"
    using True by (intro id_take_nth_drop) simp
  with assms(1) have "d = w_dogs w ! k \<or> d \<in> set (take k (w_dogs w) @ drop (Suc k) (w_dogs w))"
    by (metis Un_iff set_append set_ConsD)
  then show ?thesis
  proof
    assume d: "d = w_dogs w ! k"
    from assms(2) obtain a where a: "dict_get (r_agents (site_reg w)) (wd_agent d) = Some a"
      by (auto simp: status_in_def)
    have st: "status_in (site_reg w) (wd_agent d) = Some (a_status a)" by (simp add: status_in_def a)
    have "status_in (site_reg (watchdog_wakes env stamp now k w)) (wd_agent d) = Some Terminated"
      using True a assms(3) st status_force [of stamp "wd_agent d" "''grace_period_exceeded''" "wd_by d" "site_reg w" "wd_agent d"]
      by (auto simp: watchdog_wakes_def Let_def split_def d [symmetric])
    then show ?thesis ..
  qed (simp add: dogs)
qed

lemma group_fold_dogs:
  "d \<in> set (w_dogs w) \<Longrightarrow> d \<in> set (w_dogs (foldl (\<lambda>w i. fst (signal_dispatch env dg now None i sig by_id grace w)) w is))"
proof (induction "is" arbitrary: w)
  case (Cons i "is")
  from Cons.prems have "d \<in> set (w_dogs (fst (signal_dispatch env dg now None i sig by_id grace w)))"
    by (auto simp: signal_dispatch_def Let_def split: option.split)
  then show ?case by (simp add: Cons.IH)
qed simp

definition doomed :: "watchdog \<Rightarrow> site \<Rightarrow> bool" where
  "doomed d w \<longleftrightarrow> d \<in> set (w_dogs w) \<and> status_in (site_reg w) (wd_agent d) \<noteq> None \<or>
     status_in (site_reg w) (wd_agent d) = Some Terminated"

lemma doomed_step:
  assumes "doomed d w" and "wd_agent d \<noteq> ''root''" and "\<not> revives x (wd_agent d)"
  shows "doomed d (site_step wo x w)"
proof (cases "status_in (site_reg w) (wd_agent d) = Some Terminated")
  case True
  then have "status_in (site_reg (site_step wo x w)) (wd_agent d) = Some Terminated"
    using assms(3) by (cases x) (simp_all add: dispatch_keeps signal_group_def Let_def group_fold(2) wakes_keeps reg_terminated_stays split_def)
  then show ?thesis by (simp add: doomed_def)
next
  case False
  with assms(1) have d: "d \<in> set (w_dogs w)" "status_in (site_reg w) (wd_agent d) \<noteq> None" by (auto simp: doomed_def)
  have there: "status_in (site_reg (site_step wo x w)) (wd_agent d) \<noteq> None"
    using d(2) by (simp add: step_domain [OF assms(3)] del: site_step.simps)
  have "d \<in> set (w_dogs (site_step wo x w)) \<or> status_in (site_reg (site_step wo x w)) (wd_agent d) = Some Terminated"
  proof (cases x)
    case (OWakes stamp now k)
    then show ?thesis using woken [OF d assms(2)] by simp
  next
    case (OSignal now mgr j sig sender grace)
    with d(1) show ?thesis by (auto simp: signal_dispatch_def Let_def split: option.split)
  qed (use d(1) in \<open>simp_all add: signal_group_def Let_def group_fold_dogs split_def\<close>)
  with there show ?thesis by (auto simp: doomed_def)
qed

lemma doomed_run:
  "doomed d w \<Longrightarrow> wd_agent d \<noteq> ''root'' \<Longrightarrow> list_all (\<lambda>x. \<not> revives x (wd_agent d)) ops \<Longrightarrow>
   doomed d (run_ops (site_step wo) ops w)"
  by (induction ops arbitrary: w) (simp_all add: doomed_step)

text \<open>
  C26: SIGTERM takes effect: once it has been accepted for an agent other than root, then in every later
  state, unless the agent is registered anew or the registry restarted, its watchdog is waiting or the
  agent is terminated; a watchdog that wakes at or after the end of the grace period terminates the
  agent, suspended and restored ones included, and nothing that happens afterwards revives it.
\<close>

theorem sg_term_takes_effect:
  assumes "site_wf w" and "i \<noteq> ''root''"
    and "snd (signal_dispatch (wo_env wo) dg now mgr i ''SIGTERM'' by_id grace w) = Inr res"
    and "list_all (\<lambda>x. \<not> revives x i) (ops @ later_ops)"
    and "w2 = run_ops (site_step wo) ops (fst (signal_dispatch (wo_env wo) dg now mgr i ''SIGTERM'' by_id grace w))"
    and "d = \<lparr>wd_agent = i, wd_by = by_id, wd_due = now + grace\<rparr>"
  shows "(d \<in> set (w_dogs w2) \<or> status_in (site_reg w2) i = Some Terminated) \<and>
    (if k < length (w_dogs w2) \<and> w_dogs w2 ! k = d \<and> now + grace \<le> t
     then status_in (site_reg (run_ops (site_step wo) later_ops (site_step wo (OWakes stamp t k) w2))) i = Some Terminated
     else True)"
proof -
  let ?w1 = "fst (signal_dispatch (wo_env wo) dg now mgr i ''SIGTERM'' by_id grace w)"
  have d [simp]: "wd_agent d = i" "wd_due d = now + grace" by (simp_all add: assms(6))
  have "status_in (site_reg w) i \<noteq> None"
    using assms(3) by (auto simp: signal_dispatch_def Let_def status_in_def split: option.splits if_splits)
  then have "status_in (site_reg ?w1) i \<noteq> None" by (simp add: dispatch_domain)
  moreover have "d \<in> set (w_dogs ?w1)"
    using assms(3,6) by (auto simp: signal_dispatch_def Let_def split: option.splits if_splits)
  ultimately have "doomed d ?w1" by (simp add: doomed_def)
  then have w2: "doomed d w2"
    unfolding assms(5) using assms(2,4) by (intro doomed_run) simp_all
  have wf: "site_wf w2"
    unfolding assms(5) by (intro site_life.inv_run wf_dispatch assms(1))
  have "status_in (site_reg (site_step wo (OWakes stamp t k) w2)) i = Some Terminated"
    if k: "k < length (w_dogs w2)" "w_dogs w2 ! k = d" "now + grace \<le> t"
  proof -
    from w2 obtain s where s: "status_in (site_reg w2) i = Some s" by (auto simp: doomed_def)
    then obtain a where a: "dict_get (r_agents (site_reg w2)) i = Some a" "s = a_status a" by (auto simp: status_in_def)
    show ?thesis
      using k s a assms(2) status_force [of stamp i "''grace_period_exceeded''" "wd_by d" "site_reg w2" i]
      by (auto simp: watchdog_wakes_def Let_def split_def)
  qed
  then have "status_in (site_reg (run_ops (site_step wo) later_ops (site_step wo (OWakes stamp t k) w2))) i = Some Terminated"
    if "k < length (w_dogs w2)" "w_dogs w2 ! k = d" "now + grace \<le> t"
    using that assms(4) by (intro site_life.final_run [OF site_life.inv_step [OF wf]]) simp_all
  moreover have "d \<in> set (w_dogs w2) \<or> status_in (site_reg w2) i = Some Terminated"
    using w2 by (auto simp: doomed_def)
  ultimately show ?thesis by simp
qed

theorem sg_term_takes_effect_witness:
  "let w2 = fst (signal_dispatch tick_env (wo_dig plain_world) 1 None ''scout'' ''SIGTERM'' ''root'' 30 small_site)
   in status_in (site_reg (run_ops (site_step plain_world) [OReg (RegResume ''scout'')]
        (site_step plain_world (OWakes ''now'' 31 0) w2))) ''scout'' = Some Terminated"
proof -
  let ?w1 = "fst (signal_dispatch tick_env (wo_dig plain_world) 1 None ''scout'' ''SIGTERM'' ''root'' 30 small_site)"
  have env: "wo_env plain_world = tick_env" by (simp add: plain_world_def)
  have wf: "site_wf small_site" by (simp add: site_wf_def small_site_def site_init_def)
  have other: "''scout'' \<noteq> ''root''" by simp
  have ok: "snd (signal_dispatch (wo_env plain_world) (wo_dig plain_world) 1 None ''scout'' ''SIGTERM'' ''root'' 30 small_site)
     = Inr (''SIGTERM'', ''scout'')" by code_simp
  have free: "list_all (\<lambda>x. \<not> revives x ''scout'') ([] @ [OReg (RegResume ''scout'')])" by simp
  have dog: "w_dogs ?w1 = [\<lparr>wd_agent = ''scout'', wd_by = ''root'', wd_due = 31\<rparr>]" by code_simp
  from sg_term_takes_effect [OF wf other ok free refl refl, where k = 0 and t = 31 and stamp = "''now''"] dog
  show ?thesis unfolding env Let_def by (simp del: site_step.simps)
qed

section \<open>Replays\<close>

lemma similarity_bounds: "0 \<le> similarity a b \<and> similarity a b \<le> 1"
proof -
  let ?a = "set (py_split (py_lower a))" and ?b = "set (py_split (py_lower b))"
  have "card (?a \<inter> ?b) \<le> card (?a \<union> ?b)" by (rule card_mono) auto
  then show ?thesis by (simp add: similarity_def Let_def divide_le_eq card_gt_0_iff)
qed

lemma mean_bounds:
  fixes xs :: "rat list"
  assumes "xs \<noteq> []" and "\<forall>x \<in> set xs. 0 \<le> x \<and> x \<le> 1"
  shows "0 \<le> sum_list xs / of_nat (length xs) \<and> sum_list xs / of_nat (length xs) \<le> 1"
proof -
  have "0 \<le> sum_list xs \<and> sum_list xs \<le> of_nat (length xs)"
    using assms(2) by (induction xs) auto
  with assms(1) show ?thesis by (simp add: divide_le_eq)
qed

lemma consistency_bounds: "0 \<le> consistency rs \<and> consistency rs \<le> 1"
proof (cases rs)
  case (Cons r others)
  then show ?thesis
    using mean_bounds [of "map (similarity r) others"] similarity_bounds by (auto simp: consistency_def)
qed (simp add: consistency_def)

lemma silent_runs:
  assumes "\<And>k v. run_response (snd (work k v)) = []"
  shows "snd (replay_runs env i cid work n w) = replicate n []"
proof -
  have run: "snd (replay_run env i cid (work k) v) = []" for k v
    using assms [of k] by (simp add: replay_run_def Let_def split_def)
  have "snd (foldl (\<lambda>(w, rs) k. let (w', r) = replay_run env i cid (work k) w in (w', rs @ [r])) st ks)
      = snd st @ replicate (length ks) []" for st ks
    by (induction ks arbitrary: st) (simp_all add: split_def Let_def run replicate_append_same)
  then show ?thesis by (simp add: replay_runs_def)
qed

lemma round_bounds:
  assumes "0 \<le> x \<and> x \<le> (1::rat)"
  shows "0 \<le> py_round_dig 4 x \<and> py_round_dig 4 x \<le> 1"
proof -
  have "0 \<le> x * 10 ^ 4" "x * 10 ^ 4 \<le> of_int 10000" using assms by simp_all
  then have "0 \<le> py_round (x * 10 ^ 4) \<and> py_round (x * 10 ^ 4) \<le> 10000"
    by (rule py_round_mono_bounds)
  then have "0 \<le> rat_of_int (py_round (x * 10 ^ 4))" "rat_of_int (py_round (x * 10 ^ 4)) \<le> 10 ^ 4" by simp_all
  then show ?thesis unfolding py_round_dig_def by (simp only: zero_le_divide_iff divide_le_eq_1) simp
qed

lemma silent_consistent: "consistency (replicate (Suc n) []) = 1 \<and> divergences (replicate (Suc n) []) = []"
proof -
  have one: "similarity [] [] = 1" by (simp add: similarity_def)
  have "filter (\<lambda>(k, r). similarity [] r < 4 / 5) (enumerate m (replicate n [])) = []" for m
    by (induction n arbitrary: m) (simp_all add: one)
  then show ?thesis by (simp add: consistency_def divergences_def one sum_list_replicate)
qed

text \<open>
  the consistency score of a replay lies between 0 and 1; but a replay none of whose runs gives a
  response, because every task fails, is cancelled or returns nothing, has the perfect score 1 and
  reports no divergence.
\<close>

theorem ck_replay_silent_perfect:
  assumes "ck_get cid w = Some chk" and "0 < n" and "\<And>k v. run_response (snd (failing k v)) = []"
  shows "(let rp = snd (ck_replay env t1 t2 cid task n failing w)
          in rp_score rp = 1 \<and> rp_divergence rp = []) \<and>
         0 \<le> rp_score (snd (ck_replay env t1 t2 cid task m work w)) \<and>
         rp_score (snd (ck_replay env t1 t2 cid task m work w)) \<le> 1"
proof -
  obtain p where p: "nat n = Suc p" using assms(2) by (cases "nat n") auto
  have "py_round_dig 4 1 = 1" by code_simp
  with silent_consistent [of p] have "let rp = snd (ck_replay env t1 t2 cid task n failing w)
      in rp_score rp = 1 \<and> rp_divergence rp = []"
    by (simp add: ck_replay_def assms(1) Let_def split_def silent_runs [OF assms(3)] p del: replicate.simps)
  then show ?thesis
    using round_bounds [OF consistency_bounds] by (simp add: ck_replay_def assms(1) Let_def split_def)
qed

theorem ck_replay_silent_perfect_witness:
  "let w = site_step plain_world (OSave ''c1'' 2 ''scout'' None) small_site
   in rp_score (snd (ck_replay tick_env 0 1 ''c1'' ''sum'' 3 (\<lambda>k v. (v, Ended TaskFailed None)) w)) = 1"
proof -
  define w where "w = site_step plain_world (OSave ''c1'' 2 ''scout'' None) small_site"
  have "ck_get ''c1'' w \<noteq> None" unfolding w_def by code_simp
  then obtain chk where "ck_get ''c1'' w = Some chk" by blast
  from ck_replay_silent_perfect [OF this, of 3 "\<lambda>k v. (v, Ended TaskFailed None)"]
  show ?thesis unfolding Let_def w_def [symmetric] by simp
qed

section \<open>Agents at work\<close>

text \<open>
  an agent that is working on a task cannot be checkpointed: the snapshot of the task raises, no
  file is written and no event is emitted, while the unread messages have already been taken from the
  inbox and are marked as read.
\<close>

theorem ck_busy_agent_never_saved:
  assumes "has_scheduler (w_subs w)" and "has_registry (w_subs w)" and "has_bus (w_subs w)"
    and "dict_get (r_agents (site_reg w)) i = Some a" and "a_task a = Some task" and "task \<noteq> ''''"
    and "sch_get_task task (w_sched w) \<noteq> None"
  shows "let (w', res) = ck_save env dg cid now i label w;
             c = w_comms w; t = clock env (c_tick c)
         in isl res \<and> w_checks w' = w_checks w \<and> c_events (w_comms w') = c_events c
            \<and> site_bus w' = fst (bus_receive t i True 200 (site_bus w))"
proof -
  have "isl (snap_task i w)" using assms by (simp add: snap_task_def)
  then obtain err where err: "snap_task i w = Inl err" by (cases "snap_task i w") auto
  have save: "ck_save env dg cid now i label w = (fst (snap_inbox env i (fst (snap_heap i w))), Inl err)"
    by (simp add: ck_save_def Let_def split_def snap_task_same err)
  show ?thesis
    using assms(3) by (simp add: save) (simp add: snap_inbox_def Let_def split_def)
qed

definition busy_site :: site where
  "busy_site = site_step plain_world (OReg (RegTask ''scout'' (Some ''t1'')))
     (small_site\<lparr>w_sched := fst (sch_submit ''t1'' 1
        \<lparr>sub_description = ''look'', sub_by = ''scout'', sub_complexity = 1, sub_context = [], sub_priority = 1,
         sub_depends = [], sub_parent = None, sub_stream = False\<rparr> (w_sched small_site))\<rparr>)"

theorem ck_busy_agent_never_saved_witness:
  "isl (snd (ck_save tick_env (wo_dig plain_world) ''c1'' 2 ''scout'' None busy_site))"
proof -
  have start: "has_scheduler (w_subs busy_site)" "has_registry (w_subs busy_site)" "has_bus (w_subs busy_site)"
    "(case dict_get (r_agents (site_reg busy_site)) ''scout'' of None \<Rightarrow> False | Some a \<Rightarrow> a_task a = Some ''t1'')"
    "sch_get_task ''t1'' (w_sched busy_site) \<noteq> None" by code_simp+
  from start(4) obtain a where "dict_get (r_agents (site_reg busy_site)) ''scout'' = Some a" "a_task a = Some ''t1''"
    by (cases "dict_get (r_agents (site_reg busy_site)) ''scout''") auto
  from ck_busy_agent_never_saved [OF start(1-3) this _ start(5)]
  show ?thesis by (simp add: Let_def split_def)
qed

end
