(* ===== verification/Audit_Log.thy ===== *)
theory Audit_Log imports Rate_Limit begin

text \<open>
  The audit kernel, \<open>agents/audit.py\<close>: the append-only log, the baseline of each role and the anomaly
  check, with the circuit breaker of the rate limiter wired in as the server does it. The log file and
  the baseline file are fields of the state. Entries are those \<open>make_entry\<close> builds, so the parameter
  \<open>role\<close> is a string. Means and standard deviations are exact, rounded to four digits as in the code;
  the rounded square root is computed on integers.

  The lemmas show that the log only grows and survives a restart, that a baseline is frozen once it has
  been computed, how the rounded root relates to the real one, and what the metric of distinct operation
  types does: its baseline is sixty times a constant sample, so that every agent is an anomaly.
\<close>

section \<open>Entries\<close>

record audit_entry =
  ae_id :: string
  ae_agent :: string
  ae_operation :: string
  ae_params :: payload
  ae_result :: string
  ae_tokens :: int
  ae_ms :: rat
  ae_time :: time
  ae_task :: "string option"
  ae_txn :: "string option"
  ae_depth :: int

text \<open>\<open>make_entry\<close> keeps the parameters except three and adds the role; \<open>i\<close> is the fresh id.\<close>

definition make_entry :: "string \<Rightarrow> time \<Rightarrow> string \<Rightarrow> string \<Rightarrow> payload \<Rightarrow> string \<Rightarrow> int \<Rightarrow> rat \<Rightarrow> string
    \<Rightarrow> string option \<Rightarrow> string option \<Rightarrow> int \<Rightarrow> audit_entry" where
  "make_entry i now agent_id op params result_code tokens ms role task txn depth =
     \<lparr>ae_id = i, ae_agent = agent_id, ae_operation = op,
      ae_params = dict_set ''role'' (PStr role)
        (filter (\<lambda>(k, v). k \<notin> {''content'', ''response'', ''token_content''}) params),
      ae_result = result_code, ae_tokens = tokens, ae_ms = ms, ae_time = now, ae_task = task,
      ae_txn = txn, ae_depth = depth\<rparr>"

definition role_key :: "audit_entry \<Rightarrow> string" where
  "role_key e = ''role:'' @ (case dict_get (ae_params e) ''role'' of Some (PStr r) \<Rightarrow> r | _ \<Rightarrow> ''worker'')"

section \<open>Statistics\<close>

text \<open>The integer part of a square root, and the root of a rational rounded to \<open>d\<close> digits, ties to even.\<close>

fun isqrt :: "nat \<Rightarrow> nat" where
  "isqrt n =
     (if n = 0 then 0
      else let r = 2 * isqrt (n div 4) in if (r + 1) * (r + 1) \<le> n then r + 1 else r)"

declare isqrt.simps [simp del]

definition root_round :: "nat \<Rightarrow> rat \<Rightarrow> rat" where
  "root_round d q =
     (let x = q * 10 ^ (2 * d); n = isqrt (nat \<lfloor>x\<rfloor>); h = of_nat n + 1 / 2
      in of_nat (if h * h < x \<or> h * h = x \<and> odd n then n + 1 else n) / 10 ^ d)"

text \<open>\<open>statistics.mean\<close> and the square of \<open>statistics.stdev\<close> (the sample variance).\<close>

definition mean :: "rat list \<Rightarrow> rat" where
  "mean xs = sum_list xs / of_nat (length xs)"

definition variance :: "rat list \<Rightarrow> rat" where
  "variance xs = sum_list (map (\<lambda>x. (x - mean xs) * (x - mean xs)) xs) / of_nat (length xs - 1)"

record stat =
  bs_mean :: rat
  bs_std :: rat

text \<open>
  \<open>round(mean * 60, 4)\<close> and \<open>round(max(stdev * 60, 0.01), 4)\<close>; rounding and taking the maximum with a
  number of two digits commute.
\<close>

definition sample_stat :: "rat list \<Rightarrow> stat" where
  "sample_stat xs =
     \<lparr>bs_mean = py_round_dig 4 (mean xs * 60),
      bs_std = max (1 / 100) (if 1 < length xs then root_round 4 (variance xs * 3600) else 1)\<rparr>"

section \<open>State\<close>

definition baseline_ops :: nat where
  "baseline_ops = 50"

definition check_every :: nat where
  "check_every = 10"

definition metrics :: "string list" where
  "metrics = [''shell_calls_per_minute'', ''tokens_per_minute'', ''unique_op_types'']"

record samples =
  sa_shell :: "rat list"
  sa_tokens :: "rat list"
  sa_unique :: "rat list"

definition no_samples :: samples where
  "no_samples = \<lparr>sa_shell = [], sa_tokens = [], sa_unique = []\<rparr>"

record baseline =
  bl_count :: nat
  bl_samples :: samples
  bl_stats :: "(string, stat) dict"

record audit =
  au_log :: "audit_entry list"
  au_file :: "audit_entry list"
  au_counts :: "(string, nat) dict"
  au_baselines :: "(string, baseline) dict"
  au_disk :: "(string, (string, stat) dict) dict option"
  au_events :: bool
  au_breaker :: bool

text \<open>The index is rebuilt from the file, one entry after the other.\<close>

definition count_entry :: "audit_entry \<Rightarrow> (string, nat) dict \<Rightarrow> (string, nat) dict" where
  "count_entry e d = dict_set (ae_agent e) (dict_get_or 0 d (ae_agent e) + 1) d"

definition load_baseline :: "(string, stat) dict \<Rightarrow> baseline" where
  "load_baseline st =
     \<lparr>bl_count = (if list_ex (\<lambda>m. dict_get st m \<noteq> None) metrics then baseline_ops + 1 else 0),
      bl_samples = no_samples, bl_stats = st\<rparr>"

definition au_init :: "audit_entry list \<Rightarrow> (string, (string, stat) dict) dict option \<Rightarrow> audit" where
  "au_init file disk =
     \<lparr>au_log = file, au_file = file, au_counts = foldl (\<lambda>d e. count_entry e d) [] file,
      au_baselines = (case disk of None \<Rightarrow> [] | Some d \<Rightarrow> dict_map (\<lambda>_ st. load_baseline st) d),
      au_disk = disk, au_events = False, au_breaker = False\<rparr>"

definition au_set_event_bus :: "audit \<Rightarrow> audit" where
  "au_set_event_bus a = a\<lparr>au_events := True\<rparr>"

definition au_set_circuit_break_callback :: "audit \<Rightarrow> audit" where
  "au_set_circuit_break_callback a = a\<lparr>au_breaker := True\<rparr>"

section \<open>Baselines\<close>

definition new_baseline :: baseline where
  "new_baseline = \<lparr>bl_count = 0, bl_samples = no_samples, bl_stats = []\<rparr>"

definition add_sample :: "audit_entry \<Rightarrow> samples \<Rightarrow> samples" where
  "add_sample e s =
     \<lparr>sa_shell = sa_shell s @ [if ae_operation e = ''shell_exec'' then 1 else 0],
      sa_tokens = sa_tokens s @ [of_int (ae_tokens e)], sa_unique = sa_unique s @ [1]\<rparr>"

definition freeze :: "samples \<Rightarrow> (string, stat) dict \<Rightarrow> (string, stat) dict" where
  "freeze s st =
     dict_set ''unique_op_types'' (sample_stat (sa_unique s))
       (dict_set ''tokens_per_minute'' (sample_stat (sa_tokens s))
         (dict_set ''shell_calls_per_minute'' (sample_stat (sa_shell s)) st))"

definition grow_baseline :: "audit_entry \<Rightarrow> baseline \<Rightarrow> baseline" where
  "grow_baseline e b =
     (let n = bl_count b + 1; b1 = b\<lparr>bl_count := n\<rparr>
      in if n \<le> baseline_ops
         then let s = add_sample e (bl_samples b)
              in b1\<lparr>bl_samples := s, bl_stats := (if n = baseline_ops then freeze s (bl_stats b) else bl_stats b)\<rparr>
         else b1)"

definition save_baselines :: "audit \<Rightarrow> audit" where
  "save_baselines a = a\<lparr>au_disk := Some (dict_map (\<lambda>_ b. bl_stats b) (au_baselines a))\<rparr>"

definition update_baseline :: "audit_entry \<Rightarrow> audit \<Rightarrow> audit" where
  "update_baseline e a =
     (let b = grow_baseline e (dict_get_or new_baseline (au_baselines a) (role_key e));
          a1 = a\<lparr>au_baselines := dict_set (role_key e) b (au_baselines a)\<rparr>
      in if bl_count b = baseline_ops then save_baselines a1 else a1)"

section \<open>Anomalies\<close>

record anomaly =
  an_agent :: string
  an_metric :: string
  an_observed :: rat
  an_baseline :: rat
  an_z :: rat

definition seen_value :: "audit_entry list \<Rightarrow> string \<Rightarrow> rat" where
  "seen_value recent m =
     (if m = ''shell_calls_per_minute''
      then of_nat (length (filter (\<lambda>e. ae_operation e = ''shell_exec'') recent))
      else if m = ''tokens_per_minute'' then of_int (sum_list (map ae_tokens recent))
      else if m = ''unique_op_types'' then of_nat (length (remdups (map ae_operation recent)))
      else 0)"

definition judge_metric :: "string \<Rightarrow> audit_entry list \<Rightarrow> (string, stat) dict \<Rightarrow> anomaly option \<Rightarrow> string
    \<Rightarrow> anomaly option" where
  "judge_metric i recent st worst m =
     (case dict_get st m of
        None \<Rightarrow> worst
      | Some bl \<Rightarrow>
          if bs_std bl < 1 / 1000 then worst
          else
            let x = seen_value recent m; z = \<bar>x - bs_mean bl\<bar> / bs_std bl
            in if 3 < z \<and> (case worst of None \<Rightarrow> True | Some w \<Rightarrow> an_z w < z)
               then Some \<lparr>an_agent = i, an_metric = m, an_observed = x, an_baseline = bs_mean bl,
                          an_z = py_round_dig 2 z\<rparr>
               else worst)"

definition check_anomaly :: "time \<Rightarrow> string \<Rightarrow> audit \<Rightarrow> anomaly option" where
  "check_anomaly now i a =
     (let es = filter (\<lambda>e. ae_agent e = i) (au_log a);
          recent = filter (\<lambda>e. now - 60 \<le> ae_time e) es
      in if length es < baseline_ops \<or> recent = [] then None
         else
           let st = (case dict_get (au_baselines a) (role_key (hd es)) of None \<Rightarrow> [] | Some b \<Rightarrow> bl_stats b)
           in foldl (judge_metric i recent st) None metrics)"

section \<open>Logging and queries\<close>

text \<open>
  \<open>log\<close>: append to file and index, count, update the baseline, and check every tenth entry of the agent;
  a score of at least 5 breaks the circuit. \<open>t1\<close> is the clock of the check, \<open>t2\<close> the one of the limiter.
\<close>

definition anomaly_effs :: "anomaly \<Rightarrow> eff list" where
  "anomaly_effs an =
     [Emit ''security.anomaly'' ''root''
        [(''agent_id'', PStr (an_agent an)), (''metric'', PStr (an_metric an)), (''seen_value'', PFlt (an_observed an)),
         (''baseline'', PFlt (an_baseline an)), (''z_score'', PFlt (an_z an))]]"

definition append_entry :: "audit_entry \<Rightarrow> audit \<Rightarrow> audit" where
  "append_entry e a =
     a\<lparr>au_file := au_file a @ [e], au_log := au_log a @ [e], au_counts := count_entry e (au_counts a)\<rparr>"

definition au_log_entry :: "time \<Rightarrow> time \<Rightarrow> audit_entry \<Rightarrow> audit \<times> limiter \<times> registry
    \<Rightarrow> (audit \<times> limiter \<times> registry) \<times> eff list" where
  "au_log_entry t1 t2 e st =
     (let (a, lr) = st;
          a2 = update_baseline e (append_entry e a);
          n = dict_get_or 0 (au_counts (append_entry e a)) (ae_agent e)
      in if n mod check_every \<noteq> 0 then ((a2, lr), [])
         else case check_anomaly t1 (ae_agent e) a2 of
                None \<Rightarrow> ((a2, lr), [])
              | Some an \<Rightarrow>
                  let (lr', effs) = (if 5 \<le> an_z an \<and> au_breaker a
                        then rl_circuit_break t2 (an_agent an)
                               (''anomaly: '' @ an_metric an @ '' z='' @ fmt_dec 1 (an_z an)) 300 lr
                        else (lr, []))
                  in ((a2, lr'), effs @ (if au_events a then anomaly_effs an else [])))"

fun query_loop :: "(audit_entry \<Rightarrow> bool) \<Rightarrow> int \<Rightarrow> nat \<Rightarrow> audit_entry list \<Rightarrow> audit_entry list" where
  "query_loop P limit n [] = []"
| "query_loop P limit n (e # es) =
     (if P e then e # (if limit \<le> int (n + 1) then [] else query_loop P limit (n + 1) es)
      else query_loop P limit n es)"

definition query_wanted :: "string option \<Rightarrow> string option \<Rightarrow> time option \<Rightarrow> time option \<Rightarrow> audit_entry \<Rightarrow> bool" where
  "query_wanted agent_id op since until e \<longleftrightarrow>
     \<not> (truthy_str agent_id \<and> Some (ae_agent e) \<noteq> agent_id) \<and>
     \<not> (truthy_str op \<and> Some (ae_operation e) \<noteq> op) \<and>
     \<not> (truthy_num since \<and> ae_time e < the since) \<and>
     \<not> (truthy_num until \<and> the until < ae_time e)"

definition au_query :: "string option \<Rightarrow> string option \<Rightarrow> time option \<Rightarrow> time option \<Rightarrow> int \<Rightarrow> audit
    \<Rightarrow> audit_entry list" where
  "au_query agent_id op since until limit a =
     query_loop (query_wanted agent_id op since until) limit 0 (rev (au_log a))"

record audit_stats =
  as_agent :: string
  as_ops :: "(string, nat) dict"
  as_tokens :: int
  as_entries :: nat
  as_score :: rat

definition au_stats :: "time \<Rightarrow> string \<Rightarrow> audit \<Rightarrow> audit_stats" where
  "au_stats now i a =
     (let es = filter (\<lambda>e. ae_agent e = i) (au_log a)
      in \<lparr>as_agent = i,
          as_ops = foldl (\<lambda>d e. dict_set (ae_operation e) (dict_get_or 0 d (ae_operation e) + 1) d) [] es,
          as_tokens = sum_list (map ae_tokens es), as_entries = length es,
          as_score = (case check_anomaly now i a of None \<Rightarrow> 0 | Some an \<Rightarrow> py_round_dig 2 (an_z an))\<rparr>)"

datatype audit_op =
    ALog time time audit_entry
  | AEvents
  | ABreaker
  | ARestart
  | AReg keying reg_op
  | AClear string

fun au_step :: "audit_op \<Rightarrow> audit \<times> limiter \<times> registry \<Rightarrow> audit \<times> limiter \<times> registry" where
  "au_step (ALog t1 t2 e) st = fst (au_log_entry t1 t2 e st)"
| "au_step AEvents st = (au_set_event_bus (fst st), snd st)"
| "au_step ABreaker st = (au_set_circuit_break_callback (fst st), snd st)"
| "au_step ARestart st = (au_init (au_file (fst st)) (au_disk (fst st)), snd st)"
| "au_step (AReg kg x) st = (fst st, fst (snd st), reg_step kg x (snd (snd st)))"
| "au_step (AClear i) st = (fst st, rl_clear i (fst (snd st)), snd (snd st))"

definition au_after :: "audit_op list \<Rightarrow> limiter \<times> registry \<Rightarrow> audit \<times> limiter \<times> registry" where
  "au_after ops lr = run_ops au_step ops (au_init [] None, lr)"

section \<open>The rounded root\<close>

lemma isqrt_spec: "isqrt n * isqrt n \<le> n \<and> n < (isqrt n + 1) * (isqrt n + 1)"
proof (induction n rule: isqrt.induct)
  case (1 n)
  show ?case
  proof (cases "n = 0")
    case False
    define m where "m = isqrt (n div 4)"
    have "m * m \<le> n div 4" "n div 4 < (m + 1) * (m + 1)" using 1 [OF False] by (simp_all add: m_def)
    then have "4 * (m * m) \<le> n" "n < 4 * ((m + 1) * (m + 1))" by linarith+
    then have b: "(2 * m) * (2 * m) \<le> n" "n < (2 * m + 2) * (2 * m + 2)" by (simp_all add: algebra_simps)
    have eq: "isqrt n = (if (2 * m + 1) * (2 * m + 1) \<le> n then 2 * m + 1 else 2 * m)"
      using False by (subst isqrt.simps) (simp add: Let_def m_def)
    have step: "(2 * m + 1 + 1) = 2 * m + 2" by simp
    show ?thesis
      unfolding eq using b by (auto simp only: step split: if_split)
  qed (simp add: isqrt.simps)
qed

lemma root_round_nearest:
  assumes "0 \<le> q"
  shows "\<bar>of_rat (root_round d q) - sqrt (of_rat q)\<bar> \<le> 1 / (2 * 10 ^ d)"
proof -
  define x where "x = q * 10 ^ (2 * d)"
  define n where "n = isqrt (nat \<lfloor>x\<rfloor>)"
  define h where "h = (of_nat n + 1 / 2 :: rat)"
  define m where "m = (if h * h < x \<or> h * h = x \<and> odd n then n + 1 else n)"
  define s where "s = sqrt (of_rat x)"
  have x0: "0 \<le> x" using assms by (simp add: x_def)
  have "n * n \<le> nat \<lfloor>x\<rfloor>" "nat \<lfloor>x\<rfloor> < (n + 1) * (n + 1)" using isqrt_spec [of "nat \<lfloor>x\<rfloor>"] by (simp_all add: n_def)
  then have fl: "int (n * n) \<le> \<lfloor>x\<rfloor>" "\<lfloor>x\<rfloor> < int ((n + 1) * (n + 1))" using x0 by linarith+
  have lo: "(of_nat n * of_nat n :: rat) \<le> x"
    using fl(1) by (metis le_floor_iff of_int_of_nat_eq of_nat_mult)
  have hi: "x < (of_nat (n + 1) * of_nat (n + 1) :: rat)"
    using fl(2) by (metis floor_less_iff of_int_of_nat_eq of_nat_mult)
  have real: "of_rat (of_nat a * of_nat a) = (real a * real a)" for a by (simp add: of_rat_mult)
  have s_lo: "real n \<le> s"
  proof -
    have "real n * real n \<le> of_rat x" using lo by (simp only: real [symmetric] of_rat_less_eq)
    then show ?thesis by (simp add: s_def real_le_rsqrt power2_eq_square)
  qed
  have s_hi: "s \<le> real n + 1"
  proof -
    have "of_rat x \<le> (real (n + 1)) * real (n + 1)" using hi by (simp only: real [symmetric] of_rat_less_eq)
    then have "sqrt (of_rat x) \<le> real (n + 1)" by (intro real_le_lsqrt) (simp_all add: power2_eq_square x0)
    then show ?thesis by (simp add: s_def)
  qed
  have hr: "of_rat (h * h) = (real n + 1 / 2) * (real n + 1 / 2)"
    by (simp add: h_def of_rat_mult of_rat_add of_rat_divide)
  have near: "\<bar>real m - s\<bar> \<le> 1 / 2"
  proof (cases "h * h < x \<or> h * h = x \<and> odd n")
    case True
    then have "of_rat (h * h) \<le> (of_rat x :: real)" by (auto simp: of_rat_less_eq)
    then have "real n + 1 / 2 \<le> s" by (simp add: hr s_def real_le_rsqrt power2_eq_square)
    with s_hi True show ?thesis by (simp add: m_def abs_le_iff)
  next
    case False
    then have "of_rat x \<le> (of_rat (h * h) :: real)" by (auto simp: of_rat_less_eq)
    then have "s \<le> real n + 1 / 2" by (simp add: hr s_def real_le_lsqrt power2_eq_square x0)
    with s_lo False show ?thesis by (simp add: m_def abs_le_iff)
  qed
  have rr: "of_rat (root_round d q) = real m / 10 ^ d"
    by (simp add: root_round_def Let_def m_def h_def n_def x_def of_rat_divide of_rat_power)
  have ss: "sqrt (of_rat q) = s / 10 ^ d"
    by (simp add: s_def x_def of_rat_mult of_rat_power real_sqrt_mult power_mult real_sqrt_power)
  have "\<bar>of_rat (root_round d q) - sqrt (of_rat q)\<bar> = \<bar>real m - s\<bar> / 10 ^ d"
    unfolding rr ss by (simp add: diff_divide_distrib [symmetric])
  also have "\<dots> \<le> (1 / 2) / 10 ^ d" using near by (intro divide_right_mono) simp_all
  finally show ?thesis by simp
qed

section \<open>Baselines are frozen\<close>

text \<open>The statistics of the constant sample: a mean of 60 per minute and the least standard deviation.\<close>

definition unique_stat :: stat where
  "unique_stat = \<lparr>bs_mean = 60, bs_std = 1 / 100\<rparr>"

lemma sample_stat_unique: "sample_stat (replicate 50 1) = unique_stat"
  by code_simp

definition audit_stats_ok :: "(string, stat) dict \<Rightarrow> bool" where
  "audit_stats_ok st \<longleftrightarrow> (if st = [] then True else dict_get st ''unique_op_types'' = Some unique_stat)"

definition baseline_ok :: "baseline \<Rightarrow> bool" where
  "baseline_ok b \<longleftrightarrow> audit_stats_ok (bl_stats b) \<and>
     (if bl_count b < baseline_ops then bl_stats b = [] \<and> sa_unique (bl_samples b) = replicate (bl_count b) 1
      else bl_stats b \<noteq> [])"

definition on_disk :: "audit \<Rightarrow> bool" where
  "on_disk a \<longleftrightarrow> (\<forall>k b. dict_get (au_baselines a) k = Some b \<longrightarrow> bl_stats b \<noteq> [] \<longrightarrow>
     (\<exists>d. au_disk a = Some d \<and> dict_get d k = Some (bl_stats b)))"

definition au_inv :: "audit \<times> limiter \<times> registry \<Rightarrow> bool" where
  "au_inv st \<longleftrightarrow> (\<forall>k b. dict_get (au_baselines (fst st)) k = Some b \<longrightarrow> baseline_ok b) \<and>
     (\<forall>d k t. au_disk (fst st) = Some d \<longrightarrow> dict_get d k = Some t \<longrightarrow> audit_stats_ok t) \<and> on_disk (fst st)"

lemma freeze_not_nil [simp]: "freeze s st \<noteq> []"
  by (metis dict_get_set freeze_def map_of.simps(1) option.distinct(1))

lemma freeze_unique: "dict_get (freeze s st) ''unique_op_types'' = Some (sample_stat (sa_unique s))"
  by (simp add: freeze_def)

lemma grow_ok: "baseline_ok b \<Longrightarrow> baseline_ok (grow_baseline e b)"
proof -
  assume b: "baseline_ok b"
  show ?thesis
  proof (cases "bl_count b + 1 \<le> baseline_ops")
    case True
    then have lt: "bl_count b < baseline_ops" by simp
    then have s: "bl_stats b = []" "sa_unique (bl_samples b) = replicate (bl_count b) 1"
      using b by (simp_all add: baseline_ok_def)
    have u: "sa_unique (add_sample e (bl_samples b)) = replicate (bl_count b + 1) 1"
      by (simp add: add_sample_def s replicate_append_same)
    show ?thesis
    proof (cases "bl_count b + 1 = baseline_ops")
      case c: True
      have "sa_unique (add_sample e (bl_samples b)) = replicate 50 1"
        using u c by (simp only: baseline_ops_def)
      then have "dict_get (freeze (add_sample e (bl_samples b)) (bl_stats b)) ''unique_op_types'' = Some unique_stat"
        by (simp only: freeze_unique sample_stat_unique)
      then show ?thesis using c
        by (simp add: grow_baseline_def Let_def baseline_ok_def audit_stats_ok_def)
    next
      case False
      with True u s show ?thesis by (simp add: grow_baseline_def Let_def baseline_ok_def audit_stats_ok_def)
    qed
  next
    case False
    with b show ?thesis by (simp add: grow_baseline_def Let_def baseline_ok_def)
  qed
qed

lemma grow_frozen: "baseline_ok b \<Longrightarrow> bl_stats b \<noteq> [] \<Longrightarrow> bl_stats (grow_baseline e b) = bl_stats b"
  by (simp add: grow_baseline_def Let_def baseline_ok_def split: if_splits)

lemma grow_fresh:
  "baseline_ok b \<Longrightarrow> bl_stats b = [] \<Longrightarrow> bl_stats (grow_baseline e b) \<noteq> [] \<Longrightarrow>
   bl_count (grow_baseline e b) = baseline_ops"
  by (simp add: grow_baseline_def Let_def split: if_splits)

lemma new_baseline_ok [simp]: "baseline_ok new_baseline"
  by (simp add: baseline_ok_def new_baseline_def audit_stats_ok_def baseline_ops_def no_samples_def)

lemma load_ok: "audit_stats_ok t \<Longrightarrow> baseline_ok (load_baseline t)"
  by (auto simp: load_baseline_def baseline_ok_def audit_stats_ok_def metrics_def baseline_ops_def no_samples_def)

lemma baseline_or_new:
  assumes "au_inv st"
  shows "baseline_ok (dict_get_or new_baseline (au_baselines (fst st)) k)"
  by (cases rule: dict_get_or_cases [of "au_baselines (fst st)" k new_baseline])
    (use assms in \<open>auto simp: au_inv_def dict_get_or_def split: option.splits\<close>)

lemma au_inv_cong:
  "au_baselines (fst st) = au_baselines (fst st') \<Longrightarrow> au_disk (fst st) = au_disk (fst st') \<Longrightarrow> au_inv st = au_inv st'"
  by (simp add: au_inv_def on_disk_def)

lemma log_entry_state:
  "fst (fst (au_log_entry t1 t2 e (a, lr))) = update_baseline e (append_entry e a)"
  by (simp add: au_log_entry_def Let_def split_def split: option.split)

lemma inv_update:
  assumes "au_inv (a, lr)"
  shows "au_inv (update_baseline e a, lr')"
proof -
  let ?k = "role_key e" and ?old = "dict_get_or new_baseline (au_baselines a) (role_key e)"
  let ?b = "grow_baseline e ?old"
  have old: "baseline_ok ?old" using baseline_or_new [OF assms] by simp
  have ok: "baseline_ok ?b" by (rule grow_ok [OF old])
  have inv: "\<And>k b. dict_get (au_baselines a) k = Some b \<Longrightarrow> baseline_ok b"
    "\<And>d k t. au_disk a = Some d \<Longrightarrow> dict_get d k = Some t \<Longrightarrow> audit_stats_ok t" "on_disk a"
    using assms by (auto simp: au_inv_def)
  have stats: "baseline_ok b \<Longrightarrow> audit_stats_ok (bl_stats b)" for b by (simp add: baseline_ok_def)
  show ?thesis
  proof (cases "bl_count ?b = baseline_ops")
    case True
    then show ?thesis
      using ok inv(1) stats
      by (auto simp: update_baseline_def Let_def save_baselines_def au_inv_def on_disk_def split: if_splits)
  next
    case False
    have same: "bl_stats ?b \<noteq> [] \<Longrightarrow> dict_get (au_baselines a) ?k = Some ?old \<and> bl_stats ?b = bl_stats ?old"
      using grow_fresh [OF old] grow_frozen [OF old] False
      by (auto simp: dict_get_or_def new_baseline_def split: option.splits)
    then show ?thesis
      using False ok inv
      by (auto simp: update_baseline_def Let_def au_inv_def on_disk_def split: if_splits)
  qed
qed

lemma inv_restart:
  assumes "au_inv (a, lr)"
  shows "au_inv (au_init (au_file a) (au_disk a), lr)"
proof (cases "au_disk a")
  case (Some d)
  have "audit_stats_ok t" if "dict_get d k = Some t" for k t
    using assms that Some by (simp add: au_inv_def)
  moreover have "bl_stats (load_baseline t) = t" for t by (simp add: load_baseline_def)
  ultimately show ?thesis
    by (auto simp: au_init_def Some au_inv_def on_disk_def load_ok)
qed (simp add: au_init_def au_inv_def on_disk_def)

definition frozen_stats :: "audit \<times> limiter \<times> registry \<Rightarrow> string \<Rightarrow> (string, stat) dict option" where
  "frozen_stats st k = map_option bl_stats (dict_get (au_baselines (fst st)) k)"

lemma frozen_update:
  assumes "au_inv (a, lr)" and "frozen_stats (a, lr) k = Some t" and "t \<noteq> []"
  shows "frozen_stats (update_baseline e a, lr') k = Some t"
proof -
  obtain b where b: "dict_get (au_baselines a) k = Some b" "bl_stats b = t"
    using assms(2) by (auto simp: frozen_stats_def)
  have "baseline_ok b" using assms(1) b by (auto simp: au_inv_def)
  then have "bl_stats (grow_baseline e b) = t" using grow_frozen assms(3) b(2) by blast
  with b show ?thesis
    by (auto simp: frozen_stats_def update_baseline_def Let_def save_baselines_def dict_get_or_def)
qed

lemma frozen_restart:
  assumes "au_inv (a, lr)" and "frozen_stats (a, lr) k = Some t" and "t \<noteq> []"
  shows "frozen_stats (au_init (au_file a) (au_disk a), lr') k = Some t"
proof -
  obtain d where "au_disk a = Some d" "dict_get d k = Some t"
    using assms by (auto simp: frozen_stats_def au_inv_def on_disk_def) blast
  then show ?thesis by (simp add: frozen_stats_def au_init_def load_baseline_def)
qed

interpretation au_life: lifecycle au_step au_inv frozen_stats "\<lambda>t. t \<noteq> []" "\<lambda>x k. False"
proof
  fix st x assume inv: "au_inv st"
  obtain a lr where st: "st = (a, lr)" by (cases st)
  show "au_inv (au_step x st)"
  proof (cases x)
    case (ALog t1 t2 e)
    have "au_inv (append_entry e a, lr)"
      using inv au_inv_cong [of "(append_entry e a, lr)" st] by (simp add: st append_entry_def)
    then have "au_inv (fst (fst (au_log_entry t1 t2 e (a, lr))), snd (fst (au_log_entry t1 t2 e (a, lr))))"
      unfolding log_entry_state by (rule inv_update)
    then show ?thesis by (simp add: ALog st)
  next
    case AEvents
    then show ?thesis using inv au_inv_cong [of "au_step x st" st] by (simp add: au_set_event_bus_def)
  next
    case ABreaker
    then show ?thesis using inv au_inv_cong [of "au_step x st" st] by (simp add: au_set_circuit_break_callback_def)
  next
    case ARestart
    then show ?thesis using inv inv_restart by (simp add: st)
  next
    case (AReg kg y)
    then show ?thesis using inv au_inv_cong [of "au_step x st" st] by simp
  next
    case (AClear i)
    then show ?thesis using inv au_inv_cong [of "au_step x st" st] by simp
  qed
next
  fix st k t x assume h: "au_inv st" "frozen_stats st k = Some t" "t \<noteq> []"
  obtain a lr where st: "st = (a, lr)" by (cases st)
  show "frozen_stats (au_step x st) k = Some t"
  proof (cases x)
    case (ALog t1 t2 e)
    have "au_inv (append_entry e a, lr)" "frozen_stats (append_entry e a, lr) k = Some t"
      using h au_inv_cong [of "(append_entry e a, lr)" st] by (simp_all add: st append_entry_def frozen_stats_def)
    then have "frozen_stats (fst (fst (au_log_entry t1 t2 e (a, lr))), snd (fst (au_log_entry t1 t2 e (a, lr)))) k = Some t"
      unfolding log_entry_state using h(3) by (rule frozen_update)
    then show ?thesis by (simp add: ALog st)
  next
    case ARestart
    then show ?thesis using h frozen_restart by (simp add: st)
  qed (use h in \<open>simp_all add: frozen_stats_def au_set_event_bus_def au_set_circuit_break_callback_def\<close>)
qed

lemma au_inv_init [simp]: "au_inv (au_init [] None, lr)"
  by (simp add: au_inv_def au_init_def on_disk_def)

lemma au_inv_after: "au_inv (au_after ops lr)"
  unfolding au_after_def by (rule au_life.inv_run) simp

text \<open>
  a baseline is frozen: once the statistics of a role have been computed, no later operation
  changes them, however many entries of the role follow and however often the server restarts.
\<close>

theorem au_baseline_frozen:
  assumes "frozen_stats (au_after ops lr) role = Some t" and "t \<noteq> []"
  shows "frozen_stats (run_ops au_step further (au_after ops lr)) role = Some t"
  by (rule au_life.final_run [OF au_inv_after assms]) (simp add: list_all_iff)

section \<open>The log\<close>

definition index_true :: "audit \<Rightarrow> bool" where
  "index_true a \<longleftrightarrow> au_log a = au_file a \<and>
     (\<forall>i. dict_get_or 0 (au_counts a) i = length (filter (\<lambda>e. ae_agent e = i) (au_file a)))"

lemma counted: "dict_get_or 0 (foldl (\<lambda>d e. count_entry e d) d es) i =
    dict_get_or 0 d i + length (filter (\<lambda>e. ae_agent e = i) es)"
  by (induction es arbitrary: d) (auto simp: count_entry_def)

lemma index_init: "index_true (au_init file disk)"
  by (simp add: index_true_def au_init_def counted) (simp add: dict_get_or_def)

lemma update_fields [simp]:
  "au_log (update_baseline e a) = au_log a" "au_file (update_baseline e a) = au_file a"
  "au_counts (update_baseline e a) = au_counts a" "au_events (update_baseline e a) = au_events a"
  "au_breaker (update_baseline e a) = au_breaker a"
  by (simp_all add: update_baseline_def Let_def save_baselines_def)

lemma index_append: "index_true a \<Longrightarrow> index_true (update_baseline e (append_entry e a))"
  by (auto simp: index_true_def append_entry_def count_entry_def)

fun logged :: "audit_op \<Rightarrow> audit_entry list" where
  "logged (ALog t1 t2 e) = [e]"
| "logged _ = []"

lemma step_file:
  assumes "index_true (fst st)"
  shows "index_true (fst (au_step x st)) \<and> au_file (fst (au_step x st)) = au_file (fst st) @ logged x"
proof (cases x)
  case (ALog t1 t2 e)
  obtain a lr where st: "st = (a, lr)" by (cases st)
  show ?thesis
    using assms index_append [of a e] by (simp add: ALog st log_entry_state append_entry_def)
next
  case ARestart
  then show ?thesis using index_init by (simp add: au_init_def)
qed (use assms in \<open>simp_all add: index_true_def au_set_event_bus_def au_set_circuit_break_callback_def\<close>)

lemma run_file:
  "index_true (fst st) \<Longrightarrow> index_true (fst (run_ops au_step ops st)) \<and>
   au_file (fst (run_ops au_step ops st)) = au_file (fst st) @ concat (map logged ops)"
  by (induction ops arbitrary: st) (simp_all add: step_file del: au_step.simps)

lemma index_after: "index_true (fst (au_after ops lr))"
  unfolding au_after_def using run_file [of "(au_init [] None, lr)"] by (simp add: index_init)

lemma query_takes: "query_loop P limit n es = take (nat (max 1 (limit - int n))) (filter P es)"
proof (induction es arbitrary: n)
  case (Cons e es)
  show ?case
  proof (cases "limit \<le> int (n + 1)")
    case True
    then have "nat (max 1 (limit - int n)) = 1" by simp
    with True show ?thesis by (simp add: Cons.IH)
  next
    case False
    then have "nat (max 1 (limit - int n)) = Suc (nat (max 1 (limit - int (n + 1))))" by simp
    with False show ?thesis by (simp add: Cons.IH)
  qed
qed simp

text \<open>
  the log is append-only and complete: in every reachable state, restarts included, the file holds
  exactly the entries that were logged, in their order, and the index that queries and counts are
  answered from agrees with it; a query returns the newest matching entries, at most \<open>limit\<close> of them
  but one for a limit of zero or less.
\<close>

theorem au_log_complete:
  "let a = fst (au_after ops lr); entries = concat (map logged ops)
   in au_file a = entries
      \<and> dict_get_or 0 (au_counts a) i = length (filter (\<lambda>e. ae_agent e = i) entries)
      \<and> au_query ag op since until limit a =
          take (nat (max 1 limit)) (filter (query_wanted ag op since until) (rev entries))"
proof -
  have "index_true (fst (au_init [] None, lr))" by (simp add: index_init)
  from run_file [OF this, of ops] have "au_file (fst (au_after ops lr)) = concat (map logged ops)"
    by (simp add: au_after_def) (simp add: au_init_def)
  then show ?thesis
    using index_after [of ops lr] by (simp add: index_true_def au_query_def query_takes)
qed

section \<open>Every agent is an anomaly\<close>

lemma round_ge_100: "100 \<le> z \<Longrightarrow> 100 \<le> py_round_dig 2 z"
proof -
  assume "100 \<le> z"
  then have "10000 \<le> \<lfloor>z * 10 ^ 2\<rfloor>" by (simp add: le_floor_iff)
  then have "10000 \<le> py_round (z * 10 ^ 2)" by (simp add: py_round_def Let_def)
  then show ?thesis by (simp add: py_round_dig_def)
qed

lemma judge_unique:
  assumes "dict_get st ''unique_op_types'' = Some unique_stat"
    and "length (remdups (map ae_operation recent)) < 60"
  shows "\<exists>an. judge_metric i recent st worst ''unique_op_types'' = Some an \<and> 100 \<le> an_z an
     \<and> an_agent an \<in> {i} \<union> (case worst of None \<Rightarrow> {} | Some w \<Rightarrow> {an_agent w})"
proof -
  let ?u = "length (remdups (map ae_operation recent))"
  define z where "z = \<bar>of_nat ?u - 60\<bar> / (1 / 100 :: rat)"
  have "of_nat ?u \<le> (59 :: rat)" using assms(2) by linarith
  then have z: "100 \<le> z" by (simp add: z_def abs_if)
  have eq: "judge_metric i recent st worst ''unique_op_types'' =
      (if 3 < z \<and> (case worst of None \<Rightarrow> True | Some w \<Rightarrow> an_z w < z)
       then Some \<lparr>an_agent = i, an_metric = ''unique_op_types'', an_observed = of_nat ?u, an_baseline = 60,
                  an_z = py_round_dig 2 z\<rparr>
       else worst)"
    unfolding z_def by (cases worst) (simp_all add: judge_metric_def assms(1) unique_stat_def Let_def seen_value_def)
  have "3 < z" using z by simp
  then show ?thesis
    unfolding eq using round_ge_100 [OF z] z by (cases worst) (auto simp: not_less)
qed

lemma judge_agent: "judge_metric i recent st worst m = Some an \<Longrightarrow>
    an_agent an \<in> {i} \<union> (case worst of None \<Rightarrow> {} | Some w \<Rightarrow> {an_agent w})"
  by (auto simp: judge_metric_def Let_def split: option.splits if_splits)

lemma check_finds:
  assumes "au_inv (a, lr)" and "frozen_stats (a, lr) (role_key (hd (filter (\<lambda>e. ae_agent e = i) (au_log a)))) = Some t"
    and "t \<noteq> []" and "50 \<le> length (filter (\<lambda>e. ae_agent e = i) (au_log a))"
    and "filter (\<lambda>e. now - 60 \<le> ae_time e) (filter (\<lambda>e. ae_agent e = i) (au_log a)) \<noteq> []"
    and "length (remdups (map ae_operation (filter (\<lambda>e. now - 60 \<le> ae_time e)
           (filter (\<lambda>e. ae_agent e = i) (au_log a))))) < 60"
  shows "\<exists>an. check_anomaly now i a = Some an \<and> 100 \<le> an_z an \<and> an_agent an = i"
proof -
  let ?es = "filter (\<lambda>e. ae_agent e = i) (au_log a)"
  let ?recent = "filter (\<lambda>e. now - 60 \<le> ae_time e) ?es"
  obtain b where b: "dict_get (au_baselines a) (role_key (hd ?es)) = Some b" "bl_stats b = t"
    using assms(2) by (auto simp: frozen_stats_def)
  have "baseline_ok b" using assms(1) b(1) by (auto simp: au_inv_def)
  then have u: "dict_get t ''unique_op_types'' = Some unique_stat"
    using b(2) assms(3) by (simp add: baseline_ok_def audit_stats_ok_def)
  let ?w = "judge_metric i ?recent t (judge_metric i ?recent t None ''shell_calls_per_minute'') ''tokens_per_minute''"
  have w: "an_agent v = i" if "?w = Some v" for v
    using judge_agent [OF that] judge_agent [of i ?recent t None "''shell_calls_per_minute''"]
    by (auto split: option.splits)
  have "check_anomaly now i a = judge_metric i ?recent t ?w ''unique_op_types''"
    using assms(4,5) by (simp only: check_anomaly_def Let_def baseline_ops_def) (simp add: b metrics_def)
  moreover obtain an where "judge_metric i ?recent t ?w ''unique_op_types'' = Some an" "100 \<le> an_z an"
    "an_agent an \<in> {i} \<union> (case ?w of None \<Rightarrow> {} | Some v \<Rightarrow> {an_agent v})"
    using judge_unique [OF u assms(6), of i ?w] by blast
  ultimately show ?thesis using w by (auto split: option.splits)
qed

text \<open>
  C27: once the baseline of a role has been computed, every agent is an anomaly: in every reachable
  state, when the tenth, twentieth, ... entry of an agent is logged, the agent has at least fifty
  entries, its first one was made in that role, and within the last minute it has done fewer than sixty
  different kinds of operation, then whatever it did the check reports a score of at least 100, and
  with the server's wiring the circuit breaker suspends the agent and cuts its limits for 300 seconds.
\<close>

theorem au_every_agent_breaks:
  assumes "au_after ops lr0 = (a, l, r)" and "rl_wired l" and "au_breaker a"
    and "ae_agent e = i" and "dict_get (r_agents r) i = Some ag" and "a_status ag = Active"
    and "es = filter (\<lambda>x. ae_agent x = i) (au_log a @ [e])"
    and "50 \<le> length es" and "length es mod 10 = 0" and "t1 - 60 \<le> ae_time e"
    and "length (remdups (map ae_operation (filter (\<lambda>x. t1 - 60 \<le> ae_time x) es))) < 60"
    and "frozen_stats (update_baseline e (append_entry e a), l, r) (role_key (hd es)) = Some t" and "t \<noteq> []"
  shows "let ((a', l', r'), effs) = au_log_entry t1 t2 e (a, l, r)
         in (\<exists>an. check_anomaly t1 i a' = Some an \<and> 100 \<le> an_z an)
            \<and> dict_get (rl_broken l') i = Some (t2 + 300)
            \<and> map_option a_status (dict_get (r_agents r') i) = Some Suspended"
proof -
  let ?b = "append_entry e a" and ?a2 = "update_baseline e (append_entry e a)"
  have inv: "au_inv (a, l, r)" using au_inv_after [of ops lr0] by (simp add: assms(1))
  have ix: "index_true a" using index_after [of ops lr0] by (simp add: assms(1))
  have invb: "au_inv (?b, l, r)"
    using inv au_inv_cong [of "(?b, l, r)" "(a, l, r)"] by (simp add: append_entry_def)
  have log: "au_log ?a2 = au_log a @ [e]" by (simp add: append_entry_def)
  have e: "e \<in> set (filter (\<lambda>x. t1 - 60 \<le> ae_time x) es)" using assms(4,7,10) by simp
  then have some: "filter (\<lambda>x. t1 - 60 \<le> ae_time x) es \<noteq> []" by (metis list.set_cases list.distinct(1))
  obtain an where an: "check_anomaly t1 i ?a2 = Some an" "100 \<le> an_z an" "an_agent an = i"
    using check_finds [OF inv_update [OF invb], of e "(l, r)" i t t1]
      some assms(8,11,12,13) by (auto simp only: log assms(7) [symmetric])
  have count: "dict_get_or 0 (au_counts ?b) i = length es"
    using ix assms(4,7) by (simp add: index_true_def append_entry_def count_entry_def)
  have st: "au_log_entry t1 t2 e (a, l, r) =
      (let (lr', effs) = rl_circuit_break t2 i (''anomaly: '' @ an_metric an @ '' z='' @ fmt_dec 1 (an_z an)) 300 (l, r)
       in ((?a2, lr'), effs @ (if au_events a then anomaly_effs an else [])))"
    using assms(3,4,9) an count by (simp add: au_log_entry_def check_every_def Let_def split_def)
  have "map_option a_status (dict_get (r_agents (fst (reg_suspend i r))) i) = Some Suspended"
    using assms(5,6) by (simp add: reg_suspend_def reg_save_def)
  then show ?thesis
    unfolding st using an assms(2) by (simp add: Let_def split_def rl_break_limiter rl_break_registry)
qed

definition quiet_entry :: audit_entry where
  "quiet_entry = make_entry ''e'' 5 ''ab12'' ''fs_read'' [] ''ok'' 10 1 ''worker'' None None 0"

text \<open>The state after \<open>k\<close> such entries, for \<open>k\<close> from 1 to 49.\<close>

definition quiet_state :: "nat \<Rightarrow> audit" where
  "quiet_state k =
     \<lparr>au_log = replicate k quiet_entry, au_file = replicate k quiet_entry, au_counts = [(''ab12'', k)],
      au_baselines = [(''role:worker'', \<lparr>bl_count = k,
         bl_samples = \<lparr>sa_shell = replicate k 0, sa_tokens = replicate k 10, sa_unique = replicate k 1\<rparr>,
         bl_stats = []\<rparr>)],
      au_disk = None, au_events = False, au_breaker = True\<rparr>"

lemma quiet_fields: "ae_agent quiet_entry = ''ab12''" "role_key quiet_entry = ''role:worker''"
  "ae_operation quiet_entry \<noteq> ''shell_exec''" "ae_tokens quiet_entry = 10"
  by code_simp+

lemma quiet_step:
  assumes "1 \<le> k" and "k < 49"
  shows "au_step (ALog 6 6 quiet_entry) (quiet_state k, lr) = (quiet_state (Suc k), lr)"
proof -
  have grown: "update_baseline quiet_entry (append_entry quiet_entry (quiet_state k)) = quiet_state (Suc k)"
    using assms by (simp add: update_baseline_def append_entry_def quiet_state_def count_entry_def quiet_fields
        grow_baseline_def add_sample_def baseline_ops_def dict_get_or_def Let_def replicate_append_same)
  have "length (filter (\<lambda>e. ae_agent e = i) (au_log (quiet_state (Suc k)))) \<le> Suc k" for i
    using length_filter_le [of "\<lambda>e. ae_agent e = i" "replicate (Suc k) quiet_entry"] by (simp add: quiet_state_def)
  moreover have "Suc k < 50" using assms(2) by simp
  ultimately have "length (filter (\<lambda>e. ae_agent e = i) (au_log (quiet_state (Suc k)))) < 50" for i
    by (rule le_less_trans)
  then have "check_anomaly 6 i (quiet_state (Suc k)) = None" for i
    by (simp add: check_anomaly_def Let_def baseline_ops_def)
  then show ?thesis by (simp add: au_log_entry_def grown Let_def split_def)
qed

lemma quiet_run: "k \<le> 48 \<Longrightarrow>
  run_ops au_step (replicate k (ALog 6 6 quiet_entry)) (quiet_state 1, lr) = (quiet_state (Suc k), lr)"
proof (induction k)
  case (Suc k)
  have "replicate (Suc k) (ALog 6 6 quiet_entry) = replicate k (ALog 6 6 quiet_entry) @ [ALog 6 6 quiet_entry]"
    by (simp add: replicate_append_same)
  with Suc show ?case by (simp add: run_ops_append quiet_step del: au_step.simps)
qed simp

lemma quiet_start:
  "run_ops au_step [ABreaker, AReg example_keying (RegRegister ''ab12'' 1 example_request), ALog 6 6 quiet_entry]
     (au_init [] None, rl_set_subsystems rl_empty, example_registry) =
   (quiet_state 1, rl_set_subsystems rl_empty, fst (reg_register example_keying ''ab12'' 1 example_request example_registry))"
proof -
  have "update_baseline quiet_entry (append_entry quiet_entry (au_set_circuit_break_callback (au_init [] None))) = quiet_state 1"
    by code_simp
  moreover have "dict_get_or 0 (au_counts (append_entry quiet_entry (au_set_circuit_break_callback (au_init [] None)))) (ae_agent quiet_entry) = 1"
    by code_simp
  ultimately show ?thesis by (simp add: au_log_entry_def check_every_def Let_def)
qed

theorem au_every_agent_breaks_witness:
  "let st = au_after ([ABreaker, AReg example_keying (RegRegister ''ab12'' 1 example_request), ALog 6 6 quiet_entry] @
              replicate 48 (ALog 6 6 quiet_entry)) (rl_set_subsystems rl_empty, example_registry);
       ((a', l', r'), effs) = au_log_entry 6 6 quiet_entry st
   in dict_get (rl_broken l') ''ab12'' = Some 306
      \<and> map_option a_status (dict_get (r_agents r') ''ab12'') = Some Suspended"
proof -
  define ops where "ops = [ABreaker, AReg example_keying (RegRegister ''ab12'' 1 example_request), ALog 6 6 quiet_entry] @
    replicate 48 (ALog 6 6 quiet_entry)"
  define l where "l = rl_set_subsystems rl_empty"
  define r where "r = fst (reg_register example_keying ''ab12'' 1 example_request example_registry)"
  have st: "au_after ops (rl_set_subsystems rl_empty, example_registry) = (quiet_state 49, l, r)"
    unfolding au_after_def ops_def run_ops_append quiet_start l_def r_def using quiet_run [of 48] by simp
  have wired: "rl_wired l" "au_breaker (quiet_state 49)"
    by (simp_all add: l_def rl_set_subsystems_def quiet_state_def)
  obtain r1 ag where reg: "reg_register example_keying ''ab12'' 1 example_request example_registry
      = (r1, [], Inr (ag, ''secret/ab12''))" using example_registered by blast
  have ag: "dict_get (r_agents r) ''ab12'' = Some ag" "a_status ag = Active"
    using reg_register_result [OF reg] by (simp_all add: r_def reg)
  let ?a2 = "update_baseline quiet_entry (append_entry quiet_entry (quiet_state 49))"
  have "frozen_stats (?a2, l, r) ''role:worker'' = frozen_stats (?a2, undefined) ''role:worker''"
    by (simp add: frozen_stats_def)
  have eval: "(case dict_get (au_baselines ?a2) ''role:worker'' of None \<Rightarrow> False | Some b \<Rightarrow> bl_stats b \<noteq> [])" by code_simp
  then obtain t where t: "frozen_stats (?a2, l, r) ''role:worker'' = Some t" "t \<noteq> []"
    by (auto simp: frozen_stats_def split: option.splits)
  have now: "(6::rat) - 60 \<le> ae_time quiet_entry" by code_simp
  have es: "replicate 50 quiet_entry = filter (\<lambda>x. ae_agent x = ''ab12'') (au_log (quiet_state 49) @ [quiet_entry])"
    by (simp add: quiet_state_def quiet_fields replicate_append_same [symmetric] numeral_eq_Suc)
  have few: "length (remdups (map ae_operation (filter (\<lambda>x. (6::rat) - 60 \<le> ae_time x) (replicate 50 quiet_entry)))) < 60"
    by code_simp
  have key: "role_key (hd (replicate 50 quiet_entry)) = ''role:worker''" by (simp add: quiet_fields)
  have len: "50 \<le> length (replicate 50 quiet_entry)" "length (replicate 50 quiet_entry) mod 10 = 0" by simp_all
  from au_every_agent_breaks [OF st wired quiet_fields(1) ag es len now few t(1) [folded key] t(2), of 6]
  show ?thesis unfolding ops_def [symmetric] st by (simp add: Let_def split_def)
qed

definition fifty_entries :: "audit_op list" where
  "fifty_entries = ([ABreaker, AReg example_keying (RegRegister ''ab12'' 1 example_request), ALog 6 6 quiet_entry] @
     replicate 48 (ALog 6 6 quiet_entry)) @ [ALog 6 6 quiet_entry]"

theorem au_baseline_frozen_witness:
  "\<exists>t. t \<noteq> [] \<and> frozen_stats (run_ops au_step [ARestart]
     (au_after fifty_entries (rl_set_subsystems rl_empty, example_registry))) ''role:worker'' = Some t"
proof -
  let ?st = "au_after fifty_entries (rl_set_subsystems rl_empty, example_registry)"
  let ?r = "fst (reg_register example_keying ''ab12'' 1 example_request example_registry)"
  have "run_ops au_step (replicate 48 (ALog 6 6 quiet_entry)) (quiet_state 1, lr) = (quiet_state 49, lr)" for lr
    using quiet_run [of 48] by simp
  then have "?st = au_step (ALog 6 6 quiet_entry) (quiet_state 49, rl_set_subsystems rl_empty, ?r)"
    unfolding au_after_def fifty_entries_def run_ops_append quiet_start by (simp only: run_ops_Cons run_ops_Nil)
  then have "fst ?st = update_baseline quiet_entry (append_entry quiet_entry (quiet_state 49))"
    by (simp add: log_entry_state)
  moreover have "case dict_get (au_baselines (update_baseline quiet_entry (append_entry quiet_entry (quiet_state 49)))) ''role:worker'' of
      None \<Rightarrow> False | Some b \<Rightarrow> bl_stats b \<noteq> []" by code_simp
  ultimately obtain t where t: "frozen_stats ?st ''role:worker'' = Some t" "t \<noteq> []"
    by (auto simp: frozen_stats_def split: option.splits)
  from au_baseline_frozen [OF t, of "[ARestart]"] t(2) show ?thesis by blast
qed

end
