(* ===== verification/Offload.thy ===== *)
theory Offload imports Goals begin

text \<open>
  The offload queue of external tasks, \<open>agents/task_queue.py\<close>, and the parts of \<open>agents/daemon.py\<close> that
  serve it: an idle agent claims a task and gets a goal for it, the goal's end marks the task completed.
  The queue is a file of lines (\<open>None\<close> when there is no file): an entry as \<open>submit_task\<close> writes it, a
  JSON value that is not an object, or a text that is not JSON. A date is the number of its minute, so
  that reading it back gives the start of the minute (no change of the time zone in between).
  The files the daemon looks at are a parameter; their texts are ASCII.

  The lemmas show what is claimed and by whom, that nothing is claimed twice, what a timeout means for
  the tasks that wait for the timed-out one, and what a corrupt line does to the queue.
\<close>

section \<open>The queue file\<close>

datatype off_status = OPending | OAssigned | OCompleted | OFailed

record offload =
  o_id :: string
  o_spec :: string
  o_files :: "string list"
  o_to :: "string option"
  o_output :: "string option"
  o_depends :: "string option"
  o_status :: off_status
  o_created :: int
  o_assigned :: "int option"
  o_done :: "int option"
  o_result :: "string option"

datatype qline = Entry offload | NotDict string | NotJson string

type_synonym qfile = "qline list option"

text \<open>What a call raises: \<open>t\<close> is not bound at the first line, or a value that is no object has no \<open>get\<close>.\<close>

datatype off_error = UnboundT | NoGet

definition stamp_time :: "int \<Rightarrow> time" where
  "stamp_time m = of_int m * 60"

text \<open>Writing back \<open>"\n".join(lines) + "\n"\<close>: of no lines this makes one empty line.\<close>

definition write_lines :: "qline list \<Rightarrow> qfile" where
  "write_lines ls = Some (if ls = [] then [NotJson []] else ls)"

definition new_offload :: "string \<Rightarrow> time \<Rightarrow> string \<Rightarrow> string list option \<Rightarrow> string option \<Rightarrow> string option \<Rightarrow> string option \<Rightarrow> offload" where
  "new_offload i now spec files assigned_to output_file depends_on =
     \<lparr>o_id = i, o_spec = spec, o_files = (case files of None \<Rightarrow> [] | Some fs \<Rightarrow> fs), o_to = assigned_to, o_output = output_file,
      o_depends = depends_on, o_status = OPending, o_created = minute_stamp now, o_assigned = None, o_done = None, o_result = None\<rparr>"

definition off_submit :: "string \<Rightarrow> time \<Rightarrow> string \<Rightarrow> string list option \<Rightarrow> string option \<Rightarrow> string option \<Rightarrow> string option \<Rightarrow> qfile \<Rightarrow> qfile" where
  "off_submit i now spec files assigned_to output_file depends_on q =
     Some ((case q of None \<Rightarrow> [] | Some ls \<Rightarrow> ls) @ [Entry (new_offload i now spec files assigned_to output_file depends_on)])"

fun get_loop :: "string \<Rightarrow> qline list \<Rightarrow> offload option" where
  "get_loop i [] = None"
| "get_loop i (Entry t # ls) = (if o_id t = i then Some t else get_loop i ls)"
| "get_loop i (l # ls) = get_loop i ls"

definition off_get :: "string \<Rightarrow> qfile \<Rightarrow> offload option" where
  "off_get i q = (case q of None \<Rightarrow> None | Some ls \<Rightarrow> get_loop i ls)"

text \<open>
  The loop shared by \<open>expire_stale_tasks\<close> and \<open>_update_task\<close>. The variable \<open>t\<close> survives the rounds: at a
  line that is not JSON it still holds the value of an earlier line, and if that was an object, the
  object is written instead of the line.
\<close>

fun rewrite_loop :: "(offload \<Rightarrow> offload) \<Rightarrow> qline option \<Rightarrow> qline list \<Rightarrow> off_error + qline list" where
  "rewrite_loop f t [] = Inr []"
| "rewrite_loop f t (l # ls) =
     (let t' = (case l of Entry e \<Rightarrow> Some (Entry (f e)) | NotDict s \<Rightarrow> Some l | NotJson s \<Rightarrow> t)
      in case t' of None \<Rightarrow> Inl UnboundT
         | Some u \<Rightarrow>
             (case rewrite_loop f t' ls of Inl e \<Rightarrow> Inl e
              | Inr r \<Rightarrow> Inr ((case u of Entry e \<Rightarrow> Entry e | _ \<Rightarrow> l) # r)))"

definition timeout_hours :: rat where
  "timeout_hours = 2"

definition hours_elapsed :: "time \<Rightarrow> int \<Rightarrow> rat" where
  "hours_elapsed now m = (now - stamp_time m) / 3600"

definition overdue :: "time \<Rightarrow> offload \<Rightarrow> bool" where
  "overdue now t =
     (o_status t = OAssigned \<and> (case o_assigned t of None \<Rightarrow> False | Some m \<Rightarrow> timeout_hours < hours_elapsed now m))"

definition expire_one :: "time \<Rightarrow> (string \<Rightarrow> time) \<Rightarrow> offload \<Rightarrow> offload" where
  "expire_one now clk t =
     (if overdue now t
      then t\<lparr>o_status := OFailed, o_done := Some (minute_stamp (clk (o_id t))),
             o_result := Some (''timed out after '' @ fmt_dec 1 (case o_assigned t of None \<Rightarrow> 0 | Some m \<Rightarrow> hours_elapsed now m) @ ''h'')\<rparr>
      else t)"

definition expired_count :: "time \<Rightarrow> qline list \<Rightarrow> nat" where
  "expired_count now ls = length (filter (\<lambda>l. case l of Entry t \<Rightarrow> overdue now t | _ \<Rightarrow> False) ls)"

definition off_expire :: "time \<Rightarrow> (string \<Rightarrow> time) \<Rightarrow> qfile \<Rightarrow> off_error + (qfile \<times> nat)" where
  "off_expire now clk q =
     (case q of None \<Rightarrow> Inr (None, 0)
      | Some ls \<Rightarrow>
          (case rewrite_loop (expire_one now clk) None ls of Inl e \<Rightarrow> Inl e
           | Inr ls' \<Rightarrow> Inr (if 0 < expired_count now ls then write_lines ls' else q, expired_count now ls)))"

text \<open>The ids of the completed tasks; a value without \<open>get\<close> raises.\<close>

fun completed_ids :: "qline list \<Rightarrow> off_error + string list" where
  "completed_ids [] = Inr []"
| "completed_ids (Entry t # ls) =
     (case completed_ids ls of Inl e \<Rightarrow> Inl e | Inr ids \<Rightarrow> Inr (if o_status t = OCompleted then o_id t # ids else ids))"
| "completed_ids (NotDict s # ls) = Inl NoGet"
| "completed_ids (NotJson s # ls) = completed_ids ls"

definition claimable :: "string \<Rightarrow> string list \<Rightarrow> offload \<Rightarrow> bool" where
  "claimable agent ids t =
     (o_status t = OPending \<and> (o_to t = None \<or> o_to t = Some agent)
      \<and> (case o_depends t of None \<Rightarrow> True | Some d \<Rightarrow> d \<in> set ids))"

definition take_task :: "string \<Rightarrow> time \<Rightarrow> offload \<Rightarrow> offload" where
  "take_task agent now t = t\<lparr>o_status := OAssigned, o_to := Some agent, o_assigned := Some (minute_stamp now)\<rparr>"

fun claim_loop :: "string \<Rightarrow> string list \<Rightarrow> time \<Rightarrow> offload option \<Rightarrow> qline list \<Rightarrow> qline list \<times> offload option" where
  "claim_loop agent ids now claimed [] = ([], claimed)"
| "claim_loop agent ids now claimed (Entry t # ls) =
     (if claimable agent ids t \<and> claimed = None
      then let t' = take_task agent now t; (r, c) = claim_loop agent ids now (Some t') ls in (Entry t' # r, c)
      else let (r, c) = claim_loop agent ids now claimed ls in (Entry t # r, c))"
| "claim_loop agent ids now claimed (l # ls) = (let (r, c) = claim_loop agent ids now claimed ls in (l # r, c))"

text \<open>What the lines read once are turned into; the lines are written only when something was claimed.\<close>

definition claim_decide :: "string \<Rightarrow> time \<Rightarrow> qline list \<Rightarrow> off_error + (qline list \<times> offload option)" where
  "claim_decide agent now ls =
     (case completed_ids ls of Inl e \<Rightarrow> Inl e | Inr ids \<Rightarrow> Inr (claim_loop agent ids now None ls))"

definition claim_write :: "qline list \<times> offload option \<Rightarrow> qfile \<Rightarrow> qfile" where
  "claim_write r q = (if snd r \<noteq> None then write_lines (fst r) else q)"

definition off_claim :: "time \<Rightarrow> (string \<Rightarrow> time) \<Rightarrow> time \<Rightarrow> string \<Rightarrow> qfile \<Rightarrow> qfile \<times> (off_error + offload option)" where
  "off_claim now clk now' agent q =
     (case q of None \<Rightarrow> (q, Inr None)
      | Some _ \<Rightarrow>
          (case off_expire now clk q of Inl e \<Rightarrow> (q, Inl e)
           | Inr (q', n) \<Rightarrow>
               (case claim_decide agent now' (case q' of None \<Rightarrow> [] | Some ls \<Rightarrow> ls) of
                  Inl e \<Rightarrow> (q', Inl e)
                | Inr r \<Rightarrow> (claim_write r q', Inr (snd r)))))"

definition off_update :: "string \<Rightarrow> (offload \<Rightarrow> offload) \<Rightarrow> qfile \<Rightarrow> off_error + qfile" where
  "off_update i f q =
     (case q of None \<Rightarrow> Inr None
      | Some ls \<Rightarrow> (case rewrite_loop (\<lambda>t. if o_id t = i then f t else t) None ls of Inl e \<Rightarrow> Inl e | Inr ls' \<Rightarrow> Inr (write_lines ls')))"

definition off_complete :: "time \<Rightarrow> string \<Rightarrow> string \<Rightarrow> qfile \<Rightarrow> off_error + qfile" where
  "off_complete now i result =
     off_update i (\<lambda>t. t\<lparr>o_status := OCompleted, o_done := Some (minute_stamp now), o_result := Some (take 500 result)\<rparr>)"

definition off_fail :: "time \<Rightarrow> string \<Rightarrow> string \<Rightarrow> qfile \<Rightarrow> off_error + qfile" where
  "off_fail now i reason =
     off_update i (\<lambda>t. t\<lparr>o_status := OFailed, o_done := Some (minute_stamp now), o_result := Some (take 200 reason)\<rparr>)"

definition pending_count :: "qfile \<Rightarrow> nat" where
  "pending_count q =
     (case q of None \<Rightarrow> 0
      | Some ls \<Rightarrow> length (filter (\<lambda>l. case l of Entry t \<Rightarrow> o_status t = OPending \<or> o_status t = OAssigned | _ \<Rightarrow> False) ls))"

definition existence_prompt_fragment :: "offload \<Rightarrow> string" where
  "existence_prompt_fragment t =
     (let q = [char_of (39 :: nat)];
          file_str = (if o_files t \<noteq> [] then py_join nl (map (\<lambda>f. ''  - '' @ f) (o_files t)) else ''  (none specified)'')
      in nl @ ''!! EXTERNAL TASK ASSIGNED (task_id='' @ o_id t @ '') !!'' @ nl
         @ ''You have been given a specific task by an external system.'' @ nl
         @ ''Your ONLY goal this cycle is to make progress on this task.'' @ nl
         @ ''Do NOT choose a self-directed goal. Do NOT drift from this spec.'' @ nl @ nl
         @ ''TASK SPEC:'' @ nl @ o_spec t @ nl @ nl
         @ ''RELEVANT FILES:'' @ nl @ file_str @ nl @ nl
         @ ''When complete: call memory_set with key='' @ q @ ''task_result_'' @ o_id t @ q @ '' ''
         @ ''and value=a summary of what you produced and where it is.'' @ nl)"

section \<open>The daemon\<close>

text \<open>
  The queue and the goals; the beginning of \<open>_assign_idle_goal\<close> for one of the core agents, up to the
  agent's self-direction.
\<close>

record 'v desk =
  k_queue :: qfile
  k_goals :: "'v goal_store"

text \<open>What one call draws: the clock readings of the claim, and the id and clock reading of the goal.\<close>

record draws =
  dr_now :: time
  dr_clk :: "string \<Rightarrow> time"
  dr_claim :: time
  dr_goal :: string
  dr_goal_now :: time

text \<open>The second component says whether the function has returned, with a goal already there or just made.\<close>

definition dm_assign :: "(string \<Rightarrow> 'v option) \<Rightarrow> draws \<Rightarrow> bool \<Rightarrow> string \<Rightarrow> 'v desk \<Rightarrow> 'v desk \<times> bool" where
  "dm_assign emb d force agent k =
     (if \<not> force \<and> gl_list_active agent 1 (k_goals k) \<noteq> [] then (k, True)
      else (case off_claim (dr_now d) (dr_clk d) (dr_claim d) agent (k_queue k) of
              (q, Inr (Some t)) \<Rightarrow>
                (k\<lparr>k_queue := q, k_goals := gl_create emb (dr_goal d) (dr_goal_now d) agent (take 200 (o_spec t)) 10 (k_goals k)\<rparr>, True)
            | (q, _) \<Rightarrow> (k\<lparr>k_queue := q\<rparr>, False)))"

definition assigned_to :: "string \<Rightarrow> offload \<Rightarrow> bool" where
  "assigned_to agent t = (o_status t = OAssigned \<and> o_to t = Some agent)"

fun task_section :: "string \<Rightarrow> qline list \<Rightarrow> string" where
  "task_section agent [] = []"
| "task_section agent (Entry t # ls) = (if assigned_to agent t then existence_prompt_fragment t else task_section agent ls)"
| "task_section agent (l # ls) = task_section agent ls"

definition dm_task_section :: "string \<Rightarrow> qfile \<Rightarrow> string" where
  "dm_task_section agent q = (case q of None \<Rightarrow> [] | Some ls \<Rightarrow> task_section agent ls)"

text \<open>The text of a finished goal, from the last thirty lines of the agent's registry; \<open>last_cap\<close> is a text.\<close>

definition goal_title :: "goal \<Rightarrow> string" where
  "goal_title g =
     (let raw = g_objective g
      in if py_contains ''Use synthesize_capability'' raw
         then ''synthesized capability ('' @
                (case dict_get (g_metrics g) ''last_cap'' of Some (PStr (c # cs)) \<Rightarrow> c # cs | _ \<Rightarrow> ''unknown'') @ '')''
         else if py_contains ''LAYER 3'' raw
         then (if py_contains em_dash raw then take 80 (py_strip (last (split_on em_dash [] raw))) else take 80 raw)
         else take 100 raw)"

definition dm_title :: "string \<Rightarrow> string \<Rightarrow> 'v goal_store \<Rightarrow> string" where
  "dm_title agent goal_id s =
     (case dict_get s agent of None \<Rightarrow> []
      | Some a \<Rightarrow> (case find (\<lambda>g. g_id g = goal_id) (py_last 30 (ag_lines a)) of None \<Rightarrow> [] | Some g \<Rightarrow> goal_title g))"

text \<open>The file system: at a path there is a file with its text, or a directory with its size.\<close>

datatype node = FileNode string | DirNode nat

definition is_letter :: "char \<Rightarrow> bool" where
  "is_letter c = (let n = of_char c :: nat in 65 \<le> n \<and> n \<le> 90 \<or> 97 \<le> n \<and> n \<le> 122)"

definition is_word :: "char \<Rightarrow> bool" where
  "is_word c = (let n = of_char c :: nat in is_letter c \<or> n = 95 \<or> 48 \<le> n \<and> n \<le> 57)"

text \<open>\<open>re.search(r'\{[a-zA-Z_]\w*\}', s)\<close>: greedy matching of \<open>\w*\<close> is exact, since \<open>}\<close> is no word character.\<close>

fun closes :: "string \<Rightarrow> bool" where
  "closes [] = False"
| "closes (c # cs) = (if is_word c then closes cs else c = CHR ''}'')"

fun has_placeholder :: "string \<Rightarrow> bool" where
  "has_placeholder [] = False"
| "has_placeholder (c # cs) =
     (c = CHR ''{'' \<and> (case cs of [] \<Rightarrow> False | x # xs \<Rightarrow> (is_letter x \<or> x = CHR ''_'') \<and> closes xs) \<or> has_placeholder cs)"

text \<open>\<open>re.sub(r'^[A-Za-z]:/Program Files/Git', '', path)\<close>\<close>

definition unix_path :: "string \<Rightarrow> string" where
  "unix_path p =
     (case p of [] \<Rightarrow> []
      | c # cs \<Rightarrow> if is_letter c \<and> starts_with '':/Program Files/Git'' cs then drop (length '':/Program Files/Git'') cs else p)"

definition output_ready :: "(string \<Rightarrow> node option) \<Rightarrow> string \<Rightarrow> bool" where
  "output_ready fs path =
     (case fs (unix_path path) of None \<Rightarrow> False
      | Some (DirNode n) \<Rightarrow> 30 < n
      | Some (FileNode txt) \<Rightarrow> 30 < length txt \<and> \<not> has_placeholder txt)"

definition task_done :: "(string \<Rightarrow> node option) \<Rightarrow> string \<Rightarrow> offload \<Rightarrow> bool" where
  "task_done fs objective t =
     (case o_output t of Some (c # cs) \<Rightarrow> output_ready fs (c # cs)
      | _ \<Rightarrow> py_contains (take 80 (o_spec t)) objective)"

text \<open>The lines are read once; a completion that raises is skipped, the first that succeeds ends the loop.\<close>

fun done_loop :: "(string \<Rightarrow> node option) \<Rightarrow> time \<Rightarrow> string \<Rightarrow> string \<Rightarrow> qline list \<Rightarrow> qfile \<Rightarrow> qfile" where
  "done_loop fs now agent objective [] q = q"
| "done_loop fs now agent objective (Entry t # ls) q =
     (if assigned_to agent t \<and> task_done fs objective t
      then (case off_complete now (o_id t) objective q of
              Inl e \<Rightarrow> done_loop fs now agent objective ls q
            | Inr q' \<Rightarrow> q')
      else done_loop fs now agent objective ls q)"
| "done_loop fs now agent objective (l # ls) q = done_loop fs now agent objective ls q"

definition dm_mark_done :: "(string \<Rightarrow> node option) \<Rightarrow> time \<Rightarrow> string \<Rightarrow> string \<Rightarrow> 'v desk \<Rightarrow> 'v desk" where
  "dm_mark_done fs now agent goal_id k =
     (case k_queue k of None \<Rightarrow> k
      | Some ls \<Rightarrow> k\<lparr>k_queue := done_loop fs now agent (dm_title agent goal_id (k_goals k)) ls (k_queue k)\<rparr>)"

text \<open>After a finished goal the agent is given its next one.\<close>

definition dm_goal_done :: "(string \<Rightarrow> 'v option) \<Rightarrow> (string \<Rightarrow> node option) \<Rightarrow> time \<Rightarrow> draws \<Rightarrow> string \<Rightarrow> string \<Rightarrow> 'v desk \<Rightarrow> 'v desk \<times> bool" where
  "dm_goal_done emb fs now d agent goal_id k = dm_assign emb d False agent (dm_mark_done fs now agent goal_id k)"

section \<open>Files without corrupt lines\<close>

fun is_entry :: "qline \<Rightarrow> bool" where
  "is_entry (Entry t) = True"
| "is_entry l = False"

fun entry_list :: "qline \<Rightarrow> offload list" where
  "entry_list (Entry t) = [t]"
| "entry_list l = []"

definition tasks_of :: "qfile \<Rightarrow> offload list" where
  "tasks_of q = (case q of None \<Rightarrow> [] | Some ls \<Rightarrow> concat (map entry_list ls))"

definition clean :: "qfile \<Rightarrow> bool" where
  "clean q = (case q of None \<Rightarrow> True | Some ls \<Rightarrow> ls \<noteq> [] \<and> list_all is_entry ls)"

definition done_ids :: "offload list \<Rightarrow> string list" where
  "done_ids ts = map o_id (filter (\<lambda>t. o_status t = OCompleted) ts)"

fun first_upd :: "('a \<Rightarrow> bool) \<Rightarrow> ('a \<Rightarrow> 'a) \<Rightarrow> 'a list \<Rightarrow> 'a list" where
  "first_upd P f [] = []"
| "first_upd P f (x # xs) = (if P x then f x # xs else x # first_upd P f xs)"

lemma tasks_map [simp]: "tasks_of (Some (map Entry ts)) = ts"
  by (induction ts) (auto simp: tasks_of_def)

lemma clean_map [simp]: "clean (Some (map Entry ts)) = (ts \<noteq> [])"
  by (auto simp: clean_def list_all_iff)

lemma tasks_None [simp]: "tasks_of None = []" "clean None"
  by (simp_all add: tasks_of_def clean_def)

lemma clean_entries: "list_all is_entry ls \<Longrightarrow> ls = map Entry (concat (map entry_list ls))"
proof (induction ls)
  case (Cons l ls)
  then show ?case by (cases l) auto
qed simp

lemma clean_cases [consumes 1, case_names no_file tasks]:
  assumes "clean q"
  obtains "q = None" | ts where "q = Some (map Entry ts)" "ts \<noteq> []"
proof (cases q)
  case (Some ls)
  with assms have "ls \<noteq> []" "ls = map Entry (concat (map entry_list ls))" by (simp_all add: clean_def clean_entries)
  with Some that(2) [of "concat (map entry_list ls)"] show ?thesis by fastforce
qed (use that in blast)

lemma rewrite_entries [simp]: "rewrite_loop f t (map Entry ts) = Inr (map Entry (map f ts))"
  by (induction ts arbitrary: t) simp_all

lemma write_entries [simp]: "ts \<noteq> [] \<Longrightarrow> write_lines (map Entry ts) = Some (map Entry ts)"
  by (simp add: write_lines_def)

lemma get_entries [simp]: "get_loop i (map Entry ts) = find (\<lambda>t. o_id t = i) ts"
  by (induction ts) auto

lemma completed_entries [simp]: "completed_ids (map Entry ts) = Inr (done_ids ts)"
  by (induction ts) (auto simp: done_ids_def)

lemma claim_none_left [simp]: "claim_loop agent ids now (Some c) (map Entry ts) = (map Entry ts, Some c)"
  by (induction ts) simp_all

lemma claim_entries [simp]:
  "claim_loop agent ids now None (map Entry ts) =
     (map Entry (first_upd (claimable agent ids) (take_task agent now) ts),
      map_option (take_task agent now) (find (claimable agent ids) ts))"
  by (induction ts) (auto simp: Let_def)

lemma first_upd_none: "find P ts = None \<Longrightarrow> first_upd P f ts = ts"
  by (induction ts) (auto split: if_splits)

lemma first_upd_empty [simp]: "first_upd P f ts = [] \<longleftrightarrow> ts = []"
  by (cases ts) auto

lemma count_entries [simp]: "expired_count now (map Entry ts) = length (filter (overdue now) ts)"
  by (induction ts) (auto simp: expired_count_def)

lemma map_expire_none: "filter (overdue now) ts = [] \<Longrightarrow> map (expire_one now clk) ts = ts"
  by (induction ts) (auto simp: expire_one_def split: if_splits)

lemma expire_entries:
  "ts \<noteq> [] \<Longrightarrow> off_expire now clk (Some (map Entry ts)) =
     Inr (Some (map Entry (map (expire_one now clk) ts)), length (filter (overdue now) ts))"
  using map_expire_none [of now ts clk] by (simp add: off_expire_def write_lines_def del: map_map)

text \<open>A claim, in full: first the expiry, then the first claimable task.\<close>

lemma claim_exact:
  assumes "ts \<noteq> []"
  shows "off_claim now clk now' agent (Some (map Entry ts)) =
     (let us = map (expire_one now clk) ts; P = claimable agent (done_ids us)
      in (Some (map Entry (first_upd P (take_task agent now') us)), Inr (map_option (take_task agent now') (find P us))))"
proof -
  define us where "us = map (expire_one now clk) ts"
  have "us \<noteq> []" using assms by (simp add: us_def)
  then show ?thesis
    unfolding off_claim_def expire_entries [OF assms] us_def [symmetric] Let_def
    by (auto simp: claim_decide_def claim_write_def first_upd_none write_lines_def)
qed

lemma update_entries:
  "ts \<noteq> [] \<Longrightarrow> off_update i f (Some (map Entry ts)) = Inr (Some (map Entry (map (\<lambda>t. if o_id t = i then f t else t) ts)))"
  by (simp add: off_update_def write_lines_def del: map_map)

lemma done_entries:
  "ts \<noteq> [] \<Longrightarrow> done_loop fs now agent objective (map Entry us) (Some (map Entry ts)) =
     (case find (\<lambda>t. assigned_to agent t \<and> task_done fs objective t) us of
        None \<Rightarrow> Some (map Entry ts)
      | Some t \<Rightarrow> Some (map Entry (map (\<lambda>x. if o_id x = o_id t then x\<lparr>o_status := OCompleted, o_done := Some (minute_stamp now),
                      o_result := Some (take 500 objective)\<rparr> else x) ts)))"
  by (induction us) (auto simp: off_complete_def update_entries simp del: map_map)

lemma submit_tasks: "tasks_of (off_submit i now spec files a out dep q) = tasks_of q @ [new_offload i now spec files a out dep]"
  by (auto simp: off_submit_def tasks_of_def split: option.split)

lemma clean_submit: "clean q \<Longrightarrow> clean (off_submit i now spec files a out dep q)"
  by (auto simp: off_submit_def clean_def split: option.split)

lemma claim_tasks:
  assumes "clean q" and "us = map (expire_one now clk) (tasks_of q)"
  shows "off_claim now clk now' agent q = (fst (off_claim now clk now' agent q),
      Inr (map_option (take_task agent now') (find (claimable agent (done_ids us)) us)))"
    and "tasks_of (fst (off_claim now clk now' agent q)) = first_upd (claimable agent (done_ids us)) (take_task agent now') us"
    and "clean (fst (off_claim now clk now' agent q))"
proof -
  from assms(1) show "off_claim now clk now' agent q = (fst (off_claim now clk now' agent q),
      Inr (map_option (take_task agent now') (find (claimable agent (done_ids us)) us)))"
    by (cases rule: clean_cases) (simp_all add: assms(2) claim_exact Let_def, simp add: off_claim_def)
  from assms(1) show "tasks_of (fst (off_claim now clk now' agent q)) = first_upd (claimable agent (done_ids us)) (take_task agent now') us"
    by (cases rule: clean_cases) (simp_all add: assms(2) claim_exact Let_def, simp add: off_claim_def)
  from assms(1) show "clean (fst (off_claim now clk now' agent q))"
    by (cases rule: clean_cases) (simp_all add: claim_exact Let_def, simp add: off_claim_def)
qed

lemma expire_id [simp]: "o_id (expire_one now clk t) = o_id t"
  by (simp add: expire_one_def)

lemma take_id [simp]: "o_id (take_task agent now t) = o_id t"
  by (simp add: take_task_def)

lemma first_upd_ids: "(\<And>x. g (f x) = g x) \<Longrightarrow> map g (first_upd P f ts) = map g ts"
  by (induction ts) auto

section \<open>Every task is handed out at most once\<close>

datatype q_op =
    QSubmit string time string "string list option" "string option" "string option" "string option"
  | QClaim time "string \<Rightarrow> time" time string
  | QComplete time string string
  | QFail time string string

fun q_step :: "q_op \<Rightarrow> qfile \<Rightarrow> qfile" where
  "q_step (QSubmit i now spec files a out dep) q = off_submit i now spec files a out dep q"
| "q_step (QClaim now clk now' agent) q = fst (off_claim now clk now' agent q)"
| "q_step (QComplete now i result) q = swallow q (off_complete now i result q)"
| "q_step (QFail now i reason) q = swallow q (off_fail now i reason q)"

fun claimed :: "q_op \<Rightarrow> qfile \<Rightarrow> offload list" where
  "claimed (QClaim now clk now' agent) q = (case snd (off_claim now clk now' agent q) of Inr (Some t) \<Rightarrow> [t] | _ \<Rightarrow> [])"
| "claimed x q = []"

fun claims :: "q_op list \<Rightarrow> qfile \<Rightarrow> offload list" where
  "claims [] q = []"
| "claims (x # xs) q = claimed x q @ claims xs (q_step x q)"

fun submitted :: "q_op list \<Rightarrow> string list" where
  "submitted [] = []"
| "submitted (QSubmit i now spec files a out dep # xs) = i # submitted xs"
| "submitted (x # xs) = submitted xs"

definition pending_ids :: "offload list \<Rightarrow> string set" where
  "pending_ids ts = o_id ` {t \<in> set ts. o_status t = OPending}"

lemma update_clean:
  assumes "clean q"
  shows "tasks_of (swallow q (off_update i f q)) = map (\<lambda>t. if o_id t = i then f t else t) (tasks_of q)"
    and "clean (swallow q (off_update i f q))"
  using assms
  by (cases rule: clean_cases, simp_all add: update_entries swallow_def off_update_def [of _ _ None] del: map_map)+

lemma clean_step: "clean q \<Longrightarrow> clean (q_step x q)"
  by (cases x) (auto simp: clean_submit claim_tasks(3) [OF _ refl] off_complete_def off_fail_def update_clean(2))

interpretation q_sys: op_system q_step clean
  by unfold_locales (rule clean_step)

lemma pending_map_le:
  "(\<And>t. o_id (f t) = o_id t) \<Longrightarrow> (\<And>t. o_status (f t) = OPending \<Longrightarrow> o_status t = OPending) \<Longrightarrow> pending_ids (map f ts) \<subseteq> pending_ids ts"
  by (auto simp: pending_ids_def)

lemma pending_expire: "pending_ids (map (expire_one now clk) ts) \<subseteq> pending_ids ts"
  by (rule pending_map_le) (auto simp: expire_one_def split: if_splits)

lemma find_in: "find P xs = Some x \<Longrightarrow> x \<in> set xs \<and> P x"
  by (auto simp: find_Some_iff)

lemma pending_taken:
  "distinct (map o_id ts) \<Longrightarrow> find P ts = Some t \<Longrightarrow> pending_ids (first_upd P (take_task agent now) ts) \<subseteq> pending_ids ts - {o_id t}"
proof (induction ts)
  case (Cons x xs)
  show ?case
  proof (cases "P x")
    case True
    with Cons.prems show ?thesis by (auto simp: pending_ids_def take_task_def image_iff)
  next
    case False
    with Cons.prems(2) have f: "find P xs = Some t" by simp
    have ih: "pending_ids (first_upd P (take_task agent now) xs) \<subseteq> pending_ids xs - {o_id t}"
      by (rule Cons.IH [OF _ f]) (use Cons.prems(1) in simp)
    have "t \<in> set xs" using find_in [OF f] by simp
    with Cons.prems(1) have "o_id t \<noteq> o_id x" by (auto simp: image_iff)
    note ih this
    with False show ?thesis by (auto simp: pending_ids_def)
  qed
qed simp


lemma step_pending:
  assumes "clean q" and "distinct (map o_id (tasks_of q))"
  shows "map o_id (tasks_of (q_step x q)) = map o_id (tasks_of q) @ submitted [x]
     \<and> pending_ids (tasks_of (q_step x q)) \<subseteq> (pending_ids (tasks_of q) - o_id ` set (claimed x q)) \<union> set (submitted [x])
     \<and> o_id ` set (claimed x q) \<subseteq> pending_ids (tasks_of q) \<and> length (claimed x q) \<le> 1"
proof (cases x)
  case (QSubmit i now spec files a out dep)
  then show ?thesis
    by (auto simp: submit_tasks pending_ids_def new_offload_def)
next
  case (QClaim now clk now' agent)
  define us where "us = map (expire_one now clk) (tasks_of q)"
  define P where "P = claimable agent (done_ids us)"
  note c = claim_tasks [OF assms(1) us_def, of now' agent, folded P_def]
  have ids: "map o_id us = map o_id (tasks_of q)" by (simp add: us_def)
  have le: "pending_ids us \<subseteq> pending_ids (tasks_of q)" unfolding us_def by (rule pending_expire)
  have ids': "map o_id (tasks_of (q_step x q)) = map o_id (tasks_of q)"
    by (simp add: QClaim c(2) first_upd_ids ids)
  show ?thesis
  proof (cases "find P us")
    case None
    have "claimed x q = []" using arg_cong [where f = snd, OF c(1)] by (simp add: QClaim None)
    then show ?thesis using ids' le by (simp add: QClaim c(2) first_upd_none [OF None])
  next
    case (Some t)
    have "claimed x q = [take_task agent now' t]" using arg_cong [where f = snd, OF c(1)] by (simp add: QClaim Some)
    moreover have "o_id t \<in> pending_ids us" using find_in [OF Some] by (auto simp: pending_ids_def claimable_def P_def)
    moreover have "pending_ids (tasks_of (q_step x q)) \<subseteq> pending_ids us - {o_id t}"
      using pending_taken [OF _ Some] assms(2) ids by (simp add: QClaim c(2))
    ultimately show ?thesis using ids' le by (auto simp: QClaim)
  qed
next
  case (QComplete now i result)
  then show ?thesis
    by (auto simp: off_complete_def update_clean(1) [OF assms(1)] pending_ids_def split: if_splits)
next
  case (QFail now i reason)
  then show ?thesis
    by (auto simp: off_fail_def update_clean(1) [OF assms(1)] pending_ids_def split: if_splits)
qed

lemmas step_ids = step_pending [THEN conjunct1]
lemmas step_pending_ids = step_pending [THEN conjunct2, THEN conjunct1]
lemmas step_claims = step_pending [THEN conjunct2, THEN conjunct2]

lemma submitted_Cons: "submitted (x # xs) = submitted [x] @ submitted xs"
  by (cases x) simp_all

lemma claims_pending:
  assumes "clean q" and "distinct (map o_id (tasks_of q) @ submitted xs)"
  shows "distinct (map o_id (claims xs q)) \<and> o_id ` set (claims xs q) \<subseteq> pending_ids (tasks_of q) \<union> set (submitted xs)"
  using assms
proof (induction xs arbitrary: q)
  case (Cons x xs)
  have d: "distinct (map o_id (tasks_of q))" using Cons.prems(2) by simp
  note s = step_ids [OF Cons.prems(1) d, of x] step_pending_ids [OF Cons.prems(1) d, of x] step_claims [OF Cons.prems(1) d, of x]
  have "distinct (map o_id (tasks_of (q_step x q)) @ submitted xs)"
    using Cons.prems(2) by (simp add: s(1) submitted_Cons [of x xs])
  from Cons.IH [OF clean_step [OF Cons.prems(1)] this]
  have ih: "distinct (map o_id (claims xs (q_step x q)))"
    "o_id ` set (claims xs (q_step x q)) \<subseteq> (pending_ids (tasks_of q) - o_id ` set (claimed x q)) \<union> set (submitted [x]) \<union> set (submitted xs)"
    using s(2) by blast+
  have "pending_ids (tasks_of q) \<subseteq> set (map o_id (tasks_of q))" by (auto simp: pending_ids_def)
  then have fresh: "pending_ids (tasks_of q) \<inter> (set (submitted [x]) \<union> set (submitted xs)) = {}"
    using Cons.prems(2) by (auto simp: submitted_Cons [of x xs])
  have "distinct (map o_id (claimed x q))" using s(3) by (cases "claimed x q") auto
  moreover have "o_id ` set (claimed x q) \<inter> o_id ` set (claims xs (q_step x q)) = {}"
    using ih(2) s(3) fresh by blast
  ultimately have "distinct (map o_id (claims (x # xs) q))" using ih(1) by auto
  moreover have "o_id ` set (claims (x # xs) q) \<subseteq> pending_ids (tasks_of q) \<union> set (submitted (x # xs))"
    using ih(2) s(3) by (auto simp: submitted_Cons [of x xs])
  ultimately show ?case by blast
qed simp


text \<open>Two agents and a task that times out and is failed: nobody gets it again.\<close>

definition relay :: "q_op list" where
  "relay =
     [QSubmit ''t1'' 0 ''Write the report'' None None None None, QSubmit ''t2'' 5 ''Check it'' None None None (Some ''t1''),
      QClaim 30 (\<lambda>_. 30) 30 ''scout'', QClaim 40 (\<lambda>_. 40) 40 ''analyst'', QClaim 9000 (\<lambda>_. 9000) 9000 ''analyst'',
      QComplete 9050 ''t1'' ''late'', QClaim 9100 (\<lambda>_. 9100) 9100 ''analyst'']"


section \<open>Timeouts\<close>

text \<open>
  A claimed task that is neither completed nor failed stays claimed for almost two hours and not much longer: with the
  date cut to the minute, an expiry within 7140 seconds of the claim leaves it alone, one after more than 7200 fails it, and in
  between it is exactly the second within the minute that decides.
\<close>

theorem off_timeout_exact:
  "(overdue now (take_task agent c t) \<longleftrightarrow> 7200 - (c - stamp_time (minute_stamp c)) < now - c)
     \<and> 0 \<le> c - stamp_time (minute_stamp c) \<and> c - stamp_time (minute_stamp c) < 60"
proof -
  have "overdue now (take_task agent c t) \<longleftrightarrow> 7200 - (c - stamp_time (minute_stamp c)) < now - c"
    by (auto simp: overdue_def take_task_def timeout_hours_def hours_elapsed_def field_simps)
  moreover have "of_int \<lfloor>c / 60\<rfloor> \<le> c / 60 \<and> c / 60 < of_int (\<lfloor>c / 60\<rfloor> + 1)"
    by (rule floor_correct)
  ultimately show ?thesis
    by (simp add: stamp_time_def minute_stamp_def field_simps)
qed

section \<open>The daemon's queue\<close>

text \<open>Whoever submits, the core agents being assigned work, and any change of the goals.\<close>

datatype desk_op =
    KSubmit string time string "string list option" "string option" "string option" "string option"
  | KAssign draws bool string
  | KDone time draws string string "string \<Rightarrow> node option"
  | KGoal goal_op

fun desk_step :: "(string \<Rightarrow> 'v option) \<Rightarrow> desk_op \<Rightarrow> 'v desk \<Rightarrow> 'v desk" where
  "desk_step emb (KSubmit i now spec files a out dep) k = k\<lparr>k_queue := off_submit i now spec files a out dep (k_queue k)\<rparr>"
| "desk_step emb (KAssign d force agent) k = fst (dm_assign emb d force agent k)"
| "desk_step emb (KDone now d agent goal_id fs) k = fst (dm_goal_done emb fs now d agent goal_id k)"
| "desk_step emb (KGoal x) k = k\<lparr>k_goals := goal_step emb x (k_goals k)\<rparr>"

fun submits :: "desk_op \<Rightarrow> string \<Rightarrow> bool" where
  "submits (KSubmit i now spec files a out dep) j = (i = j)"
| "submits x j = False"

text \<open>The only entry of an id.\<close>

definition sole :: "string \<Rightarrow> offload list \<Rightarrow> offload option" where
  "sole i ts = (case filter (\<lambda>t. o_id t = i) ts of [t] \<Rightarrow> Some t | _ \<Rightarrow> None)"

definition over :: "offload \<Rightarrow> bool" where
  "over t = (o_status t = OCompleted \<or> o_status t = OFailed)"

lemma sole_iff: "sole i ts = Some t \<longleftrightarrow> filter (\<lambda>t. o_id t = i) ts = [t]"
  by (auto simp: sole_def split: list.splits)

lemma sole_in: "sole i ts = Some t \<Longrightarrow> t \<in> set ts \<and> o_id t = i \<and> (\<forall>u. u \<in> set ts \<and> o_id u = i \<longleftrightarrow> u = t)"
proof -
  assume "sole i ts = Some t"
  then have "set (filter (\<lambda>t. o_id t = i) ts) = {t}" by (simp add: sole_iff)
  then show ?thesis by auto
qed

lemma sole_unique: "sole i ts = Some t \<Longrightarrow> u \<in> set ts \<Longrightarrow> o_id u = i \<Longrightarrow> u = t"
  using sole_in [of i ts t] by blast

lemma sole_map: "(\<And>t. o_id (f t) = o_id t) \<Longrightarrow> sole i ts = Some t \<Longrightarrow> sole i (map f ts) = Some (f t)"
  by (simp add: sole_iff filter_map comp_def)

lemma sole_find: "sole i ts = Some t \<Longrightarrow> find (\<lambda>u. o_id u = i) ts = Some t"
  by (induction ts) (auto simp: sole_iff split: if_splits)

lemma sole_append: "sole i ts = Some t \<Longrightarrow> o_id u \<noteq> i \<Longrightarrow> sole i (ts @ [u]) = Some t"
  by (simp add: sole_iff)

lemma filter_first_upd:
  "(\<And>x. o_id (f x) = o_id x) \<Longrightarrow> list_all (\<lambda>x. \<not> P x) (filter (\<lambda>x. o_id x = i) ts)
    \<Longrightarrow> filter (\<lambda>x. o_id x = i) (first_upd P f ts) = filter (\<lambda>x. o_id x = i) ts"
  by (induction ts) (auto split: if_splits)

lemma sole_first_upd:
  "(\<And>x. o_id (f x) = o_id x) \<Longrightarrow> sole i ts = Some t \<Longrightarrow> \<not> P t \<Longrightarrow> sole i (first_upd P f ts) = Some t"
  by (simp add: sole_iff filter_first_upd)

lemma assign_queue:
  "k_queue (fst (dm_assign emb d force agent k)) =
     (if \<not> force \<and> gl_list_active agent 1 (k_goals k) \<noteq> [] then k_queue k
      else fst (off_claim (dr_now d) (dr_clk d) (dr_claim d) agent (k_queue k)))"
  by (auto simp: dm_assign_def split: prod.split sum.split option.split)

lemma mark_queue:
  assumes "clean (k_queue k)" and "ts = tasks_of (k_queue k)"
  shows "tasks_of (k_queue (dm_mark_done fs now agent goal_id k)) =
     (case find (\<lambda>t. assigned_to agent t \<and> task_done fs (dm_title agent goal_id (k_goals k)) t) ts of
        None \<Rightarrow> ts
      | Some t \<Rightarrow> map (\<lambda>x. if o_id x = o_id t then x\<lparr>o_status := OCompleted, o_done := Some (minute_stamp now),
                      o_result := Some (take 500 (dm_title agent goal_id (k_goals k)))\<rparr> else x) ts)"
    and "clean (k_queue (dm_mark_done fs now agent goal_id k))"
    and "k_goals (dm_mark_done fs now agent goal_id k) = k_goals k"
proof -
  from assms(1) show "tasks_of (k_queue (dm_mark_done fs now agent goal_id k)) =
     (case find (\<lambda>t. assigned_to agent t \<and> task_done fs (dm_title agent goal_id (k_goals k)) t) ts of
        None \<Rightarrow> ts
      | Some t \<Rightarrow> map (\<lambda>x. if o_id x = o_id t then x\<lparr>o_status := OCompleted, o_done := Some (minute_stamp now),
                      o_result := Some (take 500 (dm_title agent goal_id (k_goals k)))\<rparr> else x) ts)"
    by (cases rule: clean_cases)
       (simp_all add: assms(2) dm_mark_done_def done_entries del: map_map split: option.split)
  from assms(1) show "clean (k_queue (dm_mark_done fs now agent goal_id k))"
    by (cases rule: clean_cases)
       (simp_all add: dm_mark_done_def done_entries del: map_map split: option.split)
  show "k_goals (dm_mark_done fs now agent goal_id k) = k_goals k"
    by (simp add: dm_mark_done_def split: option.split)
qed

text \<open>A task that is not assigned and not claimable is left alone by a claim, a task not assigned by an end of a goal.\<close>

lemma kept_claim:
  assumes "clean q" and s: "sole i (tasks_of q) = Some t" and "o_status t \<noteq> OAssigned"
    and n: "\<not> claimable agent (done_ids (map (expire_one now clk) (tasks_of q))) t"
  shows "sole i (tasks_of (fst (off_claim now clk now' agent q))) = Some t"
proof -
  have "expire_one now clk t = t" using assms(3) by (simp add: expire_one_def overdue_def)
  then have "sole i (map (expire_one now clk) (tasks_of q)) = Some t" by (metis expire_id s sole_map)
  then show ?thesis
    unfolding claim_tasks(2) [OF assms(1) refl] by (rule sole_first_upd [OF take_id]) (rule n)
qed

lemma kept_assign:
  "clean (k_queue k) \<Longrightarrow> sole i (tasks_of (k_queue k)) = Some t \<Longrightarrow> o_status t \<noteq> OAssigned
    \<Longrightarrow> \<not> claimable agent (done_ids (map (expire_one (dr_now d) (dr_clk d)) (tasks_of (k_queue k)))) t
    \<Longrightarrow> sole i (tasks_of (k_queue (fst (dm_assign emb d force agent k)))) = Some t"
  by (simp add: assign_queue kept_claim)

lemma kept_mark:
  assumes c: "clean (k_queue k)" and s: "sole i (tasks_of (k_queue k)) = Some t" and na: "o_status t \<noteq> OAssigned"
  shows "sole i (tasks_of (k_queue (dm_mark_done fs now agent goal_id k))) = Some t"
proof (cases "find (\<lambda>t. assigned_to agent t \<and> task_done fs (dm_title agent goal_id (k_goals k)) t) (tasks_of (k_queue k))")
  case None
  then show ?thesis by (simp add: mark_queue(1) [OF c refl] s)
next
  case (Some u)
  have u: "u \<in> set (tasks_of (k_queue k))" "assigned_to agent u" using find_in [OF Some] by simp_all
  then have "o_id u \<noteq> i" using sole_unique [OF s u(1)] na by (auto simp: assigned_to_def)
  moreover have "o_id t = i" using sole_in [OF s] by simp
  ultimately show ?thesis
    by (subst mark_queue(1) [OF c refl]) (simp add: Some, subst sole_map [OF _ s], auto)
qed

lemma clean_assign: "clean (k_queue k) \<Longrightarrow> clean (k_queue (fst (dm_assign emb d force agent k)))"
  by (simp add: assign_queue claim_tasks(3))

lemma clean_desk: "clean (k_queue k) \<Longrightarrow> clean (k_queue (desk_step emb x k))"
  by (cases x) (simp_all add: clean_submit clean_assign dm_goal_done_def mark_queue(2))

lemma over_not_claimable: "over t \<Longrightarrow> \<not> claimable agent ids t" "over t \<Longrightarrow> o_status t \<noteq> OAssigned"
  by (auto simp: over_def claimable_def)

lemma over_kept:
  assumes "clean (k_queue k)" and "sole i (tasks_of (k_queue k)) = Some t" and "over t" and "\<not> submits x i"
  shows "sole i (tasks_of (k_queue (desk_step emb x k))) = Some t"
  using assms
  by (cases x)
     (simp_all add: submit_tasks sole_append new_offload_def kept_assign kept_mark over_not_claimable dm_goal_done_def mark_queue(2))

interpretation desk_life: lifecycle "desk_step emb" "\<lambda>k. clean (k_queue k)" "\<lambda>k i. sole i (tasks_of (k_queue k))" over submits
  for emb :: "string \<Rightarrow> 'v option"
  by unfold_locales (simp_all add: clean_desk over_kept)

text \<open>A task waiting for a failed one is not touched.\<close>

definition waits_for :: "string \<Rightarrow> string \<Rightarrow> offload \<Rightarrow> 'v desk \<Rightarrow> bool" where
  "waits_for p i t k =
     (clean (k_queue k) \<and> (case sole p (tasks_of (k_queue k)) of None \<Rightarrow> False | Some u \<Rightarrow> o_status u = OFailed)
      \<and> sole i (tasks_of (k_queue k)) = Some t \<and> o_status t = OPending \<and> o_depends t = Some p)"

lemma failed_not_done: "sole p ts = Some u \<Longrightarrow> o_status u = OFailed \<Longrightarrow> p \<notin> set (done_ids ts)"
  by (auto simp: done_ids_def dest: sole_unique)

lemma waits_not_claimable:
  assumes "waits_for p i t k"
  shows "\<not> claimable agent (done_ids (map (expire_one now clk) (tasks_of (k_queue k)))) t"
proof -
  obtain u where u: "sole p (tasks_of (k_queue k)) = Some u" "o_status u = OFailed" "o_depends t = Some p"
    using assms by (auto simp: waits_for_def split: option.splits)
  have "sole p (map (expire_one now clk) (tasks_of (k_queue k))) = Some (expire_one now clk u)"
    by (rule sole_map [OF expire_id u(1)])
  moreover have "expire_one now clk u = u" using u(2) by (simp add: expire_one_def overdue_def)
  ultimately show ?thesis using failed_not_done [OF _ u(2)] u(3) by (simp add: claimable_def)
qed

lemma waits_mark: "waits_for p i t k \<Longrightarrow> waits_for p i t (dm_mark_done fs now agent goal_id k)"
  by (auto simp: waits_for_def mark_queue(2) kept_mark split: option.splits)

lemma waits_assign:
  assumes w: "waits_for p i t k"
  shows "waits_for p i t (fst (dm_assign emb d force agent k))"
proof -
  obtain u where u: "clean (k_queue k)" "sole p (tasks_of (k_queue k)) = Some u" "o_status u = OFailed"
    "sole i (tasks_of (k_queue k)) = Some t" "o_status t = OPending" "o_depends t = Some p"
    using w by (auto simp: waits_for_def split: option.splits)
  have "sole p (tasks_of (k_queue (fst (dm_assign emb d force agent k)))) = Some u"
    by (rule kept_assign [OF u(1,2)]) (simp_all add: u claimable_def)
  moreover have "sole i (tasks_of (k_queue (fst (dm_assign emb d force agent k)))) = Some t"
    by (rule kept_assign [OF u(1,4)]) (simp_all add: u waits_not_claimable [OF w])
  ultimately show ?thesis using u by (simp add: waits_for_def clean_assign)
qed

lemma waits_step:
  "waits_for p i t k \<Longrightarrow> \<not> submits x p \<Longrightarrow> \<not> submits x i \<Longrightarrow> waits_for p i t (desk_step emb x k)"
proof (cases x)
  case (KSubmit j now spec files a out dep)
  assume "waits_for p i t k" "\<not> submits x p" "\<not> submits x i"
  then show ?thesis
    by (auto simp: KSubmit waits_for_def clean_submit submit_tasks sole_append new_offload_def split: option.splits)
qed (simp_all add: waits_assign waits_mark dm_goal_done_def, simp add: waits_for_def)

lemma waits_run:
  "waits_for p i t k \<Longrightarrow> list_all (\<lambda>x. \<not> submits x p \<and> \<not> submits x i) xs \<Longrightarrow> waits_for p i t (run_ops (desk_step emb) xs k)"
  by (induction xs arbitrary: k) (auto intro: waits_step)


text \<open>The scout does not finish the first task in time; the second, which needs it, stays pending.\<close>

definition no_draws :: "time \<Rightarrow> string \<Rightarrow> draws" where
  "no_draws now i = \<lparr>dr_now = now, dr_clk = (\<lambda>_. now), dr_claim = now, dr_goal = i, dr_goal_now = now\<rparr>"

definition late_desk :: "nat desk" where
  "late_desk = run_ops (desk_step (\<lambda>_. None))
     [KSubmit ''t1'' 0 ''Write the report'' None None None None, KSubmit ''t2'' 5 ''Check it'' None None None (Some ''t1''),
      KAssign (no_draws 30 ''g1'') False ''scout'', KAssign (no_draws 9000 ''g2'') False ''analyst'']
     \<lparr>k_queue = None, k_goals = []\<rparr>"

definition waiting_task :: offload where
  "waiting_task = new_offload ''t2'' 5 ''Check it'' None None None (Some ''t1'')"


section \<open>From the claim to the completion\<close>

lemma starts_prefix: "starts_with p (p @ s)"
  by (induction p) auto

lemma contains_prefix: "py_contains p (p @ s)"
  using starts_prefix [of p s] by (cases "p @ s") (auto simp del: append_is_Nil_conv)

lemma find_first_upd:
  "find P xs = Some x \<Longrightarrow> list_all (\<lambda>y. \<not> Q y) xs \<Longrightarrow> Q (f x) \<Longrightarrow> find Q (first_upd P f xs) = Some (f x)"
  by (induction xs) (auto split: if_splits)

lemma sole_distinct: "distinct (map o_id ts) \<Longrightarrow> t \<in> set ts \<Longrightarrow> sole (o_id t) ts = Some t"
proof (induction ts)
  case (Cons u ts)
  show ?case
  proof (cases "t = u")
    case True
    with Cons.prems(1) show ?thesis by (simp add: sole_iff filter_empty_conv) (metis imageI)
  next
    case False
    with Cons show ?thesis by (auto simp: sole_iff)
  qed
qed simp

lemma find_append_new: "list_all (\<lambda>g. \<not> P g) xs \<Longrightarrow> P x \<Longrightarrow> find P (xs @ [x]) = Some x"
  by (induction xs) auto

lemma last_thirty: "py_last 30 (xs @ [x]) = py_last 29 xs @ [x]"
  by (simp add: py_last_def)

text \<open>The title of a goal just created for a task whose text contains none of the two markers.\<close>

lemma title_created:
  assumes "list_all (\<lambda>g. g_id g \<noteq> i) (ag_lines (dict_get_or no_goals s agent))"
    and "\<not> py_contains ''Use synthesize_capability'' objective" and "\<not> py_contains ''LAYER 3'' objective"
  shows "dm_title agent i (gl_create emb i now agent objective p s) = take 100 objective"
proof -
  have "list_all (\<lambda>g. \<not> g_id g = i) (py_last 29 (ag_lines (dict_get_or no_goals s agent)))"
    using assms(1) set_py_last [of 29 "ag_lines (dict_get_or no_goals s agent)"] by (auto simp: list_all_iff)
  then show ?thesis using assms(2,3)
    by (simp add: dm_title_def gl_create_def Let_def last_thirty find_append_new new_goal_def goal_title_def)
qed

lemma assigned_expire: "assigned_to agent (expire_one now clk u) \<Longrightarrow> assigned_to agent u"
  by (auto simp: assigned_to_def expire_one_def split: if_splits)


definition offered :: "nat desk" where
  "offered = \<lparr>k_queue = off_submit ''t1'' 0 ''Write the report'' None None None None None, k_goals = []\<rparr>"


text \<open>
  A task whose text asks for a new capability in the daemon's own words is never recognised as done: the finished goal's
  title is replaced by a text of the daemon, which does not contain the task's. The task is claimed, worked on, finished, and
  then fails by the timeout.
\<close>

lemma off_synthesis_task_never_done:
  "let k1 = fst (dm_assign (\<lambda>_. None) (no_draws 30 ''g1'') False ''scout''
         \<lparr>k_queue = off_submit ''t1'' 0 ''Use synthesize_capability to add a parser'' None None None None None, k_goals = [] :: nat goal_store\<rparr>);
       k2 = dm_mark_done (\<lambda>_. None) 600 ''scout'' ''g1'' (k1\<lparr>k_goals := gl_complete 590 590 ''scout'' ''g1'' (k_goals k1)\<rparr>);
       k3 = fst (dm_assign (\<lambda>_. None) (no_draws 7300 ''g2'') False ''scout'' k2)
   in map_option o_status (off_get ''t1'' (k_queue k1)) = Some OAssigned
    \<and> map g_status (gl_list_active ''scout'' 1 (k_goals k2)) = []
    \<and> k_queue k2 = k_queue k1
    \<and> map_option o_status (off_get ''t1'' (k_queue k3)) = Some OFailed"
  by code_simp

section \<open>Corrupt lines\<close>

text \<open>An update writes an entry once more for every line after it that is not JSON.\<close>

lemma rewrite_after_entry:
  "rewrite_loop f t (map Entry ts @ Entry e # NotJson s # ls) =
     (case rewrite_loop f (Some (Entry (f e))) ls of Inl x \<Rightarrow> Inl x
      | Inr r \<Rightarrow> Inr (map Entry (map f ts) @ Entry (f e) # Entry (f e) # r))"
  by (induction ts arbitrary: t) (auto split: sum.split)

lemma rewrite_some_total: "t \<noteq> None \<Longrightarrow> \<exists>r. rewrite_loop f t ls = Inr r"
proof (induction ls arbitrary: t)
  case (Cons l ls)
  then obtain u where u: "t = Some u" by blast
  have "\<exists>r. rewrite_loop f (case l of Entry e \<Rightarrow> Some (Entry (f e)) | NotDict s \<Rightarrow> Some l | NotJson s \<Rightarrow> t) ls = Inr r"
    by (rule Cons.IH) (simp add: u split: qline.split)
  then show ?case by (cases l) (auto simp: u Let_def)
qed simp

text \<open>
  A line that is not JSON is not kept but replaced by a copy of the entry before it, by the next update of any task. (A task
  so doubled while pending can then be handed out twice.)
\<close>

theorem off_corrupt_line_doubles_task:
  "\<exists>r. off_update i f (Some (map Entry ts @ Entry e # NotJson s # ls))
     = Inr (Some (map Entry (map (\<lambda>t. if o_id t = i then f t else t) ts)
         @ Entry (if o_id e = i then f e else e) # Entry (if o_id e = i then f e else e) # r))"
  using rewrite_some_total [of "Some (Entry (if o_id e = i then f e else e))" "\<lambda>t. if o_id t = i then f t else t" ls]
  by (auto simp: off_update_def rewrite_after_entry write_lines_def)

definition torn :: qfile where
  "torn = Some [Entry (new_offload ''t1'' 0 ''Write the report'' None None None None),
     Entry (new_offload ''t2'' 0 ''Tidy up'' None None None None), NotJson ''{task_id:'']"

lemma off_doubled_task_claimed_twice:
  "map o_id (claims [QComplete 10 ''t1'' ''by hand'', QClaim 20 (\<lambda>_. 20) 20 ''scout'', QClaim 30 (\<lambda>_. 30) 30 ''analyst''] torn)
     = [''t2'', ''t2'']"
  by code_simp

text \<open>
  If the first line is not JSON, the queue is dead: no task is ever handed out, completed or failed again, every
  claim raises, and submissions only make the file longer.
\<close>

theorem off_corrupt_head_stops_queue:
  assumes "q = Some (NotJson s # ls)"
  shows "claims xs q = []
    \<and> (\<exists>ts. run_ops q_step xs q = Some (NotJson s # ls @ map Entry ts) \<and> map o_id ts = submitted xs
          \<and> list_all (\<lambda>t. o_status t = OPending) ts)
    \<and> snd (off_claim now clk now' agent (run_ops q_step xs q)) = Inl UnboundT"
proof -
  have step: "claimed x (Some (NotJson s # us)) = [] \<and>
     (\<exists>ts. q_step x (Some (NotJson s # us)) = Some (NotJson s # us @ map Entry ts) \<and> map o_id ts = submitted [x]
        \<and> list_all (\<lambda>t. o_status t = OPending) ts)" for x us
  proof (cases x)
    case (QSubmit i now spec files a out dep)
    then show ?thesis
      by (intro conjI exI [of _ "[new_offload i now spec files a out dep]"]) (simp_all add: off_submit_def new_offload_def)
  qed (simp_all add: off_claim_def off_expire_def off_complete_def off_fail_def off_update_def swallow_def)
  have "claims xs (Some (NotJson s # us)) = []
    \<and> (\<exists>ts. run_ops q_step xs (Some (NotJson s # us)) = Some (NotJson s # us @ map Entry ts) \<and> map o_id ts = submitted xs
          \<and> list_all (\<lambda>t. o_status t = OPending) ts)" for us
  proof (induction xs arbitrary: us)
    case (Cons x xs)
    obtain ts where ts: "q_step x (Some (NotJson s # us)) = Some (NotJson s # us @ map Entry ts)"
      "map o_id ts = submitted [x]" "list_all (\<lambda>t. o_status t = OPending) ts" using step [of x us] by blast
    obtain ts' where ts': "run_ops q_step xs (Some (NotJson s # us @ map Entry ts)) = Some (NotJson s # (us @ map Entry ts) @ map Entry ts')"
      "map o_id ts' = submitted xs" "list_all (\<lambda>t. o_status t = OPending) ts'" "claims xs (Some (NotJson s # us @ map Entry ts)) = []"
      using Cons.IH [of "us @ map Entry ts"] by auto
    show ?case using step [of x us] ts ts'
      by (intro conjI exI [of _ "ts @ ts'"]) (simp_all add: submitted_Cons [of x xs])
  qed simp
  from this [of ls] show ?thesis
    unfolding assms by (auto simp: off_claim_def off_expire_def)
qed

lemma off_corrupt_head_stops_queue_witness:
  "claims relay (Some [NotJson ''[]{'']) = []
   \<and> (\<exists>ts. run_ops q_step relay (Some [NotJson ''[]{'']) = Some (NotJson ''[]{'' # [] @ map Entry ts) \<and> map o_id ts = submitted relay
          \<and> list_all (\<lambda>t. o_status t = OPending) ts)
   \<and> snd (off_claim 1 (\<lambda>_. 1) 1 ''scout'' (run_ops q_step relay (Some [NotJson ''[]{'']))) = Inl UnboundT"
  by (rule off_corrupt_head_stops_queue [OF refl])

section \<open>Reading and writing without a lock\<close>

text \<open>
  A claim reads the whole file and writes it back. A task submitted in between is lost, although \<open>submit_task\<close> has
  returned its id: nothing of it is in the file any more, whatever tasks were there before.
\<close>

theorem off_submission_lost:
  assumes "ts \<noteq> []" and "claim_decide agent now (map Entry ts) = Inr r" and "snd r \<noteq> None" and "i \<notin> o_id ` set ts"
  shows "off_get i (claim_write r (off_submit i c spec files a out dep (Some (map Entry ts)))) = None
    \<and> off_get i (off_submit i c spec files a out dep (Some (map Entry ts))) = Some (new_offload i c spec files a out dep)"
proof -
  have r: "fst r = map Entry (first_upd (claimable agent (done_ids ts)) (take_task agent now) ts)"
    using assms(2) by (auto simp: claim_decide_def)
  have "o_id ` set (first_upd (claimable agent (done_ids ts)) (take_task agent now) ts) = o_id ` set ts"
    using first_upd_ids [of o_id "take_task agent now" "claimable agent (done_ids ts)" ts] by (metis list.set_map take_id)
  then have "find (\<lambda>t. o_id t = i) (first_upd (claimable agent (done_ids ts)) (take_task agent now) ts) = None"
    using assms(4) by (auto simp: find_None_iff)
  then have "off_get i (claim_write r (off_submit i c spec files a out dep (Some (map Entry ts)))) = None"
    using assms(1,3) by (auto simp: claim_write_def r off_get_def)
  moreover have "find (\<lambda>t. o_id t = i) (ts @ [new_offload i c spec files a out dep]) = Some (new_offload i c spec files a out dep)"
    using assms(4) by (intro find_append_new) (auto simp: list_all_iff new_offload_def)
  then have "off_get i (off_submit i c spec files a out dep (Some (map Entry ts))) = Some (new_offload i c spec files a out dep)"
    using get_entries [of i "ts @ [new_offload i c spec files a out dep]"] by (simp add: off_submit_def off_get_def del: get_entries)
  ultimately show ?thesis by simp
qed

definition first_task :: offload where
  "first_task = new_offload ''t1'' 0 ''Write the report'' None None None None"

lemma off_submission_lost_witness:
  "off_get ''t3'' (claim_write ([Entry (take_task ''scout'' 30 first_task)], Some (take_task ''scout'' 30 first_task))
       (off_submit ''t3'' 31 ''Urgent'' None None None None (Some (map Entry [first_task])))) = None
    \<and> off_get ''t3'' (off_submit ''t3'' 31 ''Urgent'' None None None None (Some (map Entry [first_task])))
       = Some (new_offload ''t3'' 31 ''Urgent'' None None None None)"
proof (rule off_submission_lost)
  show "claim_decide ''scout'' 30 (map Entry [first_task])
      = Inr ([Entry (take_task ''scout'' 30 first_task)], Some (take_task ''scout'' 30 first_task))"
    by code_simp
qed (simp_all add: first_task_def new_offload_def)

section \<open>What a claim returns\<close>

lemma first_upd_split:
  "find P xs = Some x \<Longrightarrow> \<exists>us vs. xs = us @ x # vs \<and> list_all (\<lambda>y. \<not> P y) us \<and> P x \<and> first_upd P f xs = us @ f x # vs"
proof (induction xs)
  case (Cons y ys)
  show ?case
  proof (cases "P y")
    case True
    with Cons.prems show ?thesis by (intro exI [of _ "[]"] exI [of _ ys]) simp
  next
    case False
    with Cons obtain us vs where "ys = us @ x # vs" "list_all (\<lambda>y. \<not> P y) us" "P x" "first_upd P f ys = us @ f x # vs" by auto
    with False show ?thesis by (intro exI [of _ "y # us"] exI [of _ vs]) simp
  qed
qed simp

text \<open>
  On a file of entries a claim never fails. After the tasks that are overdue have been failed, it hands out the first
  pending task that is meant for the agent or for anyone and whose predecessor, if it has one, is completed; that entry is
  rewritten, no other one is. Without such a task nothing else changes.
\<close>

theorem off_claim_first_ready:
  "let us = map (expire_one now clk) (e # ts); ready = claimable agent (done_ids us)
   in (case off_claim now clk now' agent (Some (map Entry (e # ts))) of
         (q, Inl x) \<Rightarrow> False
       | (q, Inr None) \<Rightarrow> q = Some (map Entry us) \<and> list_all (\<lambda>t. \<not> ready t) us
       | (q, Inr (Some t)) \<Rightarrow>
           (\<exists>xs u ys. us = xs @ u # ys \<and> list_all (\<lambda>t. \<not> ready t) xs \<and> ready u
              \<and> t = take_task agent now' u \<and> q = Some (map Entry (xs @ t # ys))))"
proof -
  define us where "us = map (expire_one now clk) (e # ts)"
  define ready where "ready = claimable agent (done_ids us)"
  have c: "off_claim now clk now' agent (Some (map Entry (e # ts))) =
      (Some (map Entry (first_upd ready (take_task agent now') us)), Inr (map_option (take_task agent now') (find ready us)))"
    using claim_exact [of "e # ts" now clk now' agent] by (simp only: us_def ready_def Let_def list.distinct not_False_eq_True simp_thms)
  show ?thesis
  proof (cases "find ready us")
    case None
    then have "list_all (\<lambda>t. \<not> ready t) us" by (auto simp: find_None_iff list_all_iff)
    then show ?thesis unfolding us_def [symmetric] Let_def ready_def [symmetric] c
      by (simp add: first_upd_none None)
  next
    case (Some u)
    obtain xs ys where h: "us = xs @ u # ys" "list_all (\<lambda>t. \<not> ready t) xs" "ready u"
      "first_upd ready (take_task agent now') us = xs @ take_task agent now' u # ys"
      using first_upd_split [OF Some] by blast
    have "\<exists>xs' u' ys'. us = xs' @ u' # ys' \<and> list_all (\<lambda>t. \<not> ready t) xs' \<and> ready u'
        \<and> take_task agent now' u = take_task agent now' u'
        \<and> Some (map Entry (xs @ take_task agent now' u # ys)) = Some (map Entry (xs' @ take_task agent now' u # ys'))"
      by (intro exI [of _ xs] exI [of _ u] exI [of _ ys] conjI h refl)
    then show ?thesis unfolding us_def [symmetric] Let_def ready_def [symmetric] c h(4)
      by (simp only: Some option.map prod.case sum.case option.case)
  qed
qed

end
