(* ===== verification/Quorum.thy ===== *)
theory Quorum imports Prelude begin

text \<open>
  Votes of the agents on proposed capabilities: the file of proposals with its index and the history of
  votes, \<open>agents/agent_quorum.py\<close>; the rounds of votes the daemon starts, \<open>agents/capability_quorum.py\<close>;
  the votes remembered in the identities of the agents, \<open>agents/agent_identity.py\<close>; and the agents' own
  calls \<open>list_proposals\<close> and \<open>vote_on_proposal\<close> of \<open>agents/live_capabilities.py\<close>. What the language model
  answers is a parameter. The embedding of a proposal is computed and thrown away; it is left out.

  The lemmas show that a closed proposal stays closed, what a round of votes decides, that all
  proposals are decided after enough rounds, and where the promised supermajority is missing.
\<close>

section \<open>Proposals\<close>

datatype prop_status = PrPending | PrApproved | PrRejected | PrWithdrawn

record prop_rec =
  pr_id :: string
  pr_proposer :: string
  pr_type :: string
  pr_desc :: string
  pr_payload :: payload
  pr_votes :: "(string, bool option) dict"
  pr_required :: int
  pr_status :: prop_status
  pr_created :: time
  pr_expires :: time
  pr_final :: "time option"

record vote_log =
  vl_id :: string
  vl_voter :: string
  vl_vote :: bool
  vl_at :: time

text \<open>No lines, no index and no history when there is no file yet.\<close>

record agent_quorum =
  aq_pct :: rat
  aq_lines :: "prop_rec list"
  aq_index :: "(string, nat) dict"
  aq_history :: "vote_log list"

text \<open>An index that points behind the lines makes \<open>vote\<close> raise.\<close>

datatype aq_error = VoteIndexError

definition default_quorum :: rat where
  "default_quorum = 66 / 100"

definition empty_quorum :: agent_quorum where
  "empty_quorum = \<lparr>aq_pct = default_quorum, aq_lines = [], aq_index = [], aq_history = []\<rparr>"

definition new_proposal :: "string \<Rightarrow> time \<Rightarrow> string \<Rightarrow> string \<Rightarrow> string \<Rightarrow> payload \<Rightarrow> prop_rec" where
  "new_proposal i now proposer type desc pl =
     \<lparr>pr_id = i, pr_proposer = proposer, pr_type = type, pr_desc = desc, pr_payload = pl, pr_votes = [], pr_required = 1,
      pr_status = PrPending, pr_created = now, pr_expires = now + 7 * 86400, pr_final = None\<rparr>"

definition aq_propose :: "string \<Rightarrow> time \<Rightarrow> string \<Rightarrow> string \<Rightarrow> string \<Rightarrow> payload \<Rightarrow> agent_quorum \<Rightarrow> agent_quorum" where
  "aq_propose i now proposer type desc pl q =
     (let ls = aq_lines q @ [new_proposal i now proposer type desc pl]
      in q\<lparr>aq_lines := ls, aq_index := dict_set i (length ls - 1) (aq_index q)\<rparr>)"

definition aq_get :: "string \<Rightarrow> agent_quorum \<Rightarrow> prop_rec option" where
  "aq_get i q =
     (case dict_get (aq_index q) i of None \<Rightarrow> None
      | Some n \<Rightarrow> if length (aq_lines q) \<le> n then None else Some (aq_lines q ! n))"

definition aq_vote :: "string \<Rightarrow> string \<Rightarrow> bool \<Rightarrow> time \<Rightarrow> agent_quorum \<Rightarrow> aq_error + (agent_quorum \<times> bool)" where
  "aq_vote i voter v now q =
     (case dict_get (aq_index q) i of None \<Rightarrow> Inr (q, False)
      | Some n \<Rightarrow>
          if length (aq_lines q) \<le> n then Inl VoteIndexError
          else let p = aq_lines q ! n
               in Inr (q\<lparr>aq_lines := (aq_lines q)[n := p\<lparr>pr_votes := dict_set voter (Some v) (pr_votes p)\<rparr>],
                         aq_history := aq_history q @ [\<lparr>vl_id = i, vl_voter = voter, vl_vote = v, vl_at = now\<rparr>]\<rparr>, True))"

definition count_votes :: "bool option \<Rightarrow> prop_rec \<Rightarrow> nat" where
  "count_votes v p = length (filter (\<lambda>w. w = v) (vals (pr_votes p)))"

text \<open>\<open>None\<close> is the status \<open>"not_found"\<close>.\<close>

definition aq_voting_status :: "string \<Rightarrow> agent_quorum \<Rightarrow> nat \<times> nat \<times> nat \<times> prop_status option" where
  "aq_voting_status i q =
     (case aq_get i q of None \<Rightarrow> (0, 0, 0, None)
      | Some p \<Rightarrow> (count_votes (Some True) p, count_votes (Some False) p, count_votes None p, Some (pr_status p)))"

definition aq_pending :: "int \<Rightarrow> agent_quorum \<Rightarrow> prop_rec list" where
  "aq_pending limit q = py_take limit (sort_key pr_created (filter (\<lambda>p. pr_status p = PrPending) (aq_lines q)))"

definition approves :: "rat \<Rightarrow> prop_rec \<Rightarrow> bool" where
  "approves pct p =
     (let yes = count_votes (Some True) p; total = length (filter (\<lambda>w. w \<noteq> None) (vals (pr_votes p)))
      in pr_required p \<le> int total \<and> of_nat total * pct \<le> of_nat yes)"

text \<open>Rewriting the line of a proposal that \<open>get_proposal\<close> has just found.\<close>

definition aq_set :: "string \<Rightarrow> (prop_rec \<Rightarrow> prop_rec) \<Rightarrow> agent_quorum \<Rightarrow> agent_quorum" where
  "aq_set i f q =
     (case dict_get (aq_index q) i of None \<Rightarrow> q
      | Some n \<Rightarrow> q\<lparr>aq_lines := (aq_lines q)[n := f (aq_lines q ! n)]\<rparr>)"

definition aq_finalize :: "string \<Rightarrow> time \<Rightarrow> agent_quorum \<Rightarrow> agent_quorum \<times> bool" where
  "aq_finalize i now q =
     (case aq_get i q of None \<Rightarrow> (q, False)
      | Some p \<Rightarrow>
          if pr_status p \<noteq> PrPending then (q, False)
          else let ok = approves (aq_pct q) p
               in (aq_set i (\<lambda>p. p\<lparr>pr_status := (if ok then PrApproved else PrRejected), pr_final := Some now\<rparr>) q, ok))"

definition aq_withdraw :: "string \<Rightarrow> string \<Rightarrow> agent_quorum \<Rightarrow> agent_quorum \<times> bool" where
  "aq_withdraw i who q =
     (case aq_get i q of None \<Rightarrow> (q, False)
      | Some p \<Rightarrow>
          if pr_status p \<noteq> PrPending then (q, False)
          else if pr_proposer p \<noteq> who then (q, False)
          else (aq_set i (\<lambda>p. p\<lparr>pr_status := PrWithdrawn\<rparr>) q, True))"

definition aq_vote_history :: "string \<Rightarrow> int \<Rightarrow> agent_quorum \<Rightarrow> vote_log list" where
  "aq_vote_history i limit q = py_take limit (filter (\<lambda>v. vl_id v = i) (aq_history q))"

section \<open>The votes an agent remembers\<close>

record vote_entry =
  ve_cap :: string
  ve_vote :: bool
  ve_outcome :: string
  ve_at :: int

text \<open>\<open>record_vote\<close>, \<open>update_vote_outcome\<close>, which looks from the end, and \<open>get_vote_summary\<close>.\<close>

definition record_vote :: "string \<Rightarrow> bool \<Rightarrow> time \<Rightarrow> vote_entry list \<Rightarrow> vote_entry list" where
  "record_vote cap yes now h = py_last 60 (h @ [\<lparr>ve_cap = cap, ve_vote = yes, ve_outcome = [], ve_at = minute_stamp now\<rparr>])"

fun outcome_first :: "string \<Rightarrow> string \<Rightarrow> vote_entry list \<Rightarrow> vote_entry list" where
  "outcome_first cap outcome [] = []"
| "outcome_first cap outcome (e # es) =
     (if ve_cap e = cap \<and> ve_outcome e = [] then e\<lparr>ve_outcome := outcome\<rparr> # es else e # outcome_first cap outcome es)"

definition update_vote_outcome :: "string \<Rightarrow> string \<Rightarrow> vote_entry list \<Rightarrow> vote_entry list" where
  "update_vote_outcome cap outcome h = rev (outcome_first cap outcome (rev h))"

definition vote_summary :: "vote_entry list \<Rightarrow> string" where
  "vote_summary h =
     (if h = [] then []
      else let yes = length (filter ve_vote h); no = length h - yes;
               approved = py_last 6 (map ve_cap (filter ve_vote h));
               rejected = py_last 6 (map ve_cap (filter (\<lambda>e. \<not> ve_vote e) h))
           in py_join '' ''
                ([''Your vote history: '' @ nat_str yes @ '' approved, '' @ nat_str no @ '' rejected.'']
                 @ (if approved \<noteq> [] then [''You recently approved: '' @ py_join '', '' approved @ ''.''] else [])
                 @ (if rejected \<noteq> [] then [''You recently rejected: '' @ py_join '', '' rejected @ ''.''] else [])
                 @ (if 5 < yes \<and> (of_nat no :: rat) / of_nat (max 1 yes) < 1 / 10
                    then [''NOTICE: You have been approving almost everything. ''
                          @ ''Many approved tools turned out redundant. Be more selective.'']
                    else [])))"

section \<open>Rounds of votes\<close>

text \<open>The quorum and the vote histories of the agents' identities (none is the same as empty).\<close>

record ballot_box =
  bx_quorum :: agent_quorum
  bx_minds :: "(string, vote_entry list) dict"

record finalized =
  fp_id :: string
  fp_approved :: bool
  fp_yes :: nat
  fp_no :: nat
  fp_total :: nat

definition payload_text :: "string \<Rightarrow> string \<Rightarrow> payload \<Rightarrow> string" where
  "payload_text key other pl = (case dict_get pl key of Some (PStr s) \<Rightarrow> s | _ \<Rightarrow> other)"

definition cap_payload :: "string \<Rightarrow> string \<Rightarrow> string \<Rightarrow> payload" where
  "cap_payload cap desc code = [(''cap_id'', PStr cap), (''description'', PStr desc), (''code_preview'', PStr (take 500 code))]"

definition cq_submit :: "string \<Rightarrow> time \<Rightarrow> string \<Rightarrow> string \<Rightarrow> string \<Rightarrow> string \<Rightarrow> agent_quorum option \<Rightarrow> agent_quorum option \<times> string option" where
  "cq_submit i now proposer cap desc code quorum =
     (case quorum of None \<Rightarrow> (None, None)
      | Some q \<Rightarrow>
          (Some (aq_propose i now proposer ''capability'' (''New capability: '' @ cap @ '' '' @ em_dash @ '' '' @ take 120 desc)
                   (cap_payload cap desc code) q), Some i))"

definition cq_is_approved :: "string \<Rightarrow> agent_quorum option \<Rightarrow> bool" where
  "cq_is_approved i quorum =
     (case quorum of None \<Rightarrow> True
      | Some q \<Rightarrow> (case aq_get i q of None \<Rightarrow> False | Some p \<Rightarrow> pr_status p = PrApproved))"

text \<open>
  One agent's opinion: \<open>ask\<close> gives the text of the field \<open>vote\<close> of the model's answer to the prompt made of agent,
  proposal and vote summary (\<open>yes\<close> if the field is missing), and \<open>None\<close> when anything on the way fails. A failure
  approves, and is not remembered.
\<close>

definition agent_evaluate :: "(string \<Rightarrow> prop_rec \<Rightarrow> string \<Rightarrow> string option) \<Rightarrow> time \<Rightarrow> string \<Rightarrow> prop_rec
    \<Rightarrow> (string, vote_entry list) dict \<Rightarrow> (string, vote_entry list) dict \<times> bool" where
  "agent_evaluate ask now agent p minds =
     (let h = dict_get_or [] minds agent
      in case ask agent p (vote_summary h) of
           None \<Rightarrow> (minds, True)
         | Some txt \<Rightarrow>
             let yes = (py_strip (py_lower txt) = ''yes'')
             in (dict_set agent (record_vote (payload_text ''cap_id'' ''unknown'' (pr_payload p)) yes now h) minds, yes))"

text \<open>The agents that are not among the voters of the proposal as it was read; \<open>False\<close> when a vote has raised.\<close>

fun vote_agents :: "(string \<Rightarrow> prop_rec \<Rightarrow> string \<Rightarrow> string option) \<Rightarrow> (string \<Rightarrow> string \<Rightarrow> time) \<Rightarrow> prop_rec \<Rightarrow> string list
    \<Rightarrow> ballot_box \<Rightarrow> ballot_box \<times> bool" where
  "vote_agents ask clk p [] b = (b, True)"
| "vote_agents ask clk p (a # as) b =
     (if a \<in> set (keys (pr_votes p)) then vote_agents ask clk p as b
      else let (minds, v) = agent_evaluate ask (clk (pr_id p) a) a p (bx_minds b)
           in (case aq_vote (pr_id p) a v (clk (pr_id p) a) (bx_quorum b) of
                 Inl e \<Rightarrow> (b\<lparr>bx_minds := minds\<rparr>, False)
               | Inr (q, _) \<Rightarrow> vote_agents ask clk p as \<lparr>bx_quorum = q, bx_minds = minds\<rparr>))"

definition note_outcome :: "string \<Rightarrow> string \<Rightarrow> string list \<Rightarrow> (string, vote_entry list) dict \<Rightarrow> (string, vote_entry list) dict" where
  "note_outcome cap outcome agents minds =
     foldl (\<lambda>m a. dict_set a (update_vote_outcome cap outcome (dict_get_or [] m a)) m) minds agents"

definition outcome_text :: "bool \<Rightarrow> string" where
  "outcome_text ok = (if ok then ''approved'' else ''rejected'')"

text \<open>The end of a proposal's turn: with as many votes as there are agents it is finalized.\<close>

definition try_finalize :: "(string \<Rightarrow> time) \<Rightarrow> prop_rec \<Rightarrow> string list \<Rightarrow> ballot_box \<Rightarrow> ballot_box \<times> finalized list" where
  "try_finalize fin p agents b =
     (let (yes, no, _, _) = aq_voting_status (pr_id p) (bx_quorum b); total = yes + no
      in if max 1 (length agents) \<le> total
         then let (q, ok) = aq_finalize (pr_id p) (fin (pr_id p)) (bx_quorum b)
              in (\<lparr>bx_quorum = q,
                   bx_minds = note_outcome (payload_text ''cap_id'' (pr_id p) (pr_payload p)) (outcome_text ok) agents (bx_minds b)\<rparr>,
                  [\<lparr>fp_id = pr_id p, fp_approved = ok, fp_yes = yes, fp_no = no, fp_total = total\<rparr>])
         else (b, []))"

fun vote_props :: "(string \<Rightarrow> prop_rec \<Rightarrow> string \<Rightarrow> string option) \<Rightarrow> (string \<Rightarrow> string \<Rightarrow> time) \<Rightarrow> (string \<Rightarrow> time) \<Rightarrow> string list
    \<Rightarrow> prop_rec list \<Rightarrow> ballot_box \<Rightarrow> ballot_box \<times> (aq_error + finalized list)" where
  "vote_props ask clk fin agents [] b = (b, Inr [])"
| "vote_props ask clk fin agents (p # ps) b =
     (if pr_type p \<noteq> ''capability'' then vote_props ask clk fin agents ps b
      else (case vote_agents ask clk p agents b of
              (b', False) \<Rightarrow> (b', Inl VoteIndexError)
            | (b', True) \<Rightarrow>
                (let (b'', fs) = try_finalize fin p agents b'; (b''', r) = vote_props ask clk fin agents ps b''
                 in (b''', map_sum id (\<lambda>gs. fs @ gs) r))))"

definition vote_on_pending :: "(string \<Rightarrow> prop_rec \<Rightarrow> string \<Rightarrow> string option) \<Rightarrow> (string \<Rightarrow> string \<Rightarrow> time) \<Rightarrow> (string \<Rightarrow> time) \<Rightarrow> string list
    \<Rightarrow> ballot_box \<Rightarrow> ballot_box \<times> (aq_error + finalized list)" where
  "vote_on_pending ask clk fin agents b =
     (if agents = [] then (b, Inr []) else vote_props ask clk fin agents (aq_pending 20 (bx_quorum b)) b)"

text \<open>The daemon's turn: at most five voters, and an error is only logged.\<close>

definition quorum_turn :: "(string \<Rightarrow> prop_rec \<Rightarrow> string \<Rightarrow> string option) \<Rightarrow> (string \<Rightarrow> string \<Rightarrow> time) \<Rightarrow> (string \<Rightarrow> time) \<Rightarrow> string list
    \<Rightarrow> ballot_box \<Rightarrow> ballot_box" where
  "quorum_turn ask clk fin active b = fst (vote_on_pending ask clk fin (take 5 active) b)"

section \<open>The agents' own calls\<close>

text \<open>\<open>status\<close> is \<open>None\<close> for \<open>"all"\<close>; the newest come first. A listed proposal shows these fields.\<close>

definition listed :: "prop_rec \<Rightarrow> string \<times> string \<times> string \<times> string \<times> (string, bool option) dict \<times> prop_status \<times> time" where
  "listed p = (pr_id p, pr_proposer p, pr_type p, take 120 (pr_desc p), pr_votes p, pr_status p, pr_created p)"

definition list_proposals :: "prop_status option \<Rightarrow> int \<Rightarrow> agent_quorum
    \<Rightarrow> (string \<times> string \<times> string \<times> string \<times> (string, bool option) dict \<times> prop_status \<times> time) list \<times> nat" where
  "list_proposals status limit q =
     (let ps = filter (\<lambda>p. case status of None \<Rightarrow> True | Some s \<Rightarrow> pr_status p = s) (aq_lines q)
      in (py_take limit (map listed (sort_key (\<lambda>p. - pr_created p) ps)), length ps))"

datatype vote_answer =
    VoteError
  | VoteFinal bool
  | VoteOpen nat nat

definition vote_on_proposal :: "string \<Rightarrow> bool \<Rightarrow> time \<Rightarrow> time \<Rightarrow> agent_quorum \<Rightarrow> agent_quorum \<times> vote_answer" where
  "vote_on_proposal i approve now now' q =
     (if i = [] then (q, VoteError)
      else if \<not> starts_with ''prop-'' i \<or> 50 < length i then (q, VoteError)
      else (case aq_vote i ''agent'' approve now q of
              Inl e \<Rightarrow> (q, VoteError)
            | Inr (q', False) \<Rightarrow> (q', VoteError)
            | Inr (q', True) \<Rightarrow>
                (let (yes, no, _, status) = aq_voting_status i q'
                 in if status = Some PrPending \<and> 1 \<le> yes + no
                    then (let (q'', ok) = aq_finalize i now' q' in (q'', VoteFinal ok))
                    else (q', VoteOpen yes no))))"

section \<open>The file of proposals as a list\<close>

definition upd_id :: "string \<Rightarrow> (prop_rec \<Rightarrow> prop_rec) \<Rightarrow> prop_rec list \<Rightarrow> prop_rec list" where
  "upd_id i f ps = map (\<lambda>p. if pr_id p = i then f p else p) ps"

definition the_prop :: "string \<Rightarrow> prop_rec list \<Rightarrow> prop_rec option" where
  "the_prop i ps = find (\<lambda>p. pr_id p = i) ps"

text \<open>Nobody abstains, and every line is found under its id.\<close>

definition votes_ok :: "prop_rec \<Rightarrow> bool" where
  "votes_ok p = (wf_dict (pr_votes p) \<and> None \<notin> set (vals (pr_votes p)))"

definition aq_ok :: "agent_quorum \<Rightarrow> bool" where
  "aq_ok q =
     (aq_index q = map (\<lambda>(n, p). (pr_id p, n)) (enumerate 0 (aq_lines q)) \<and> distinct (map pr_id (aq_lines q))
      \<and> list_all votes_ok (aq_lines q))"

lemma the_prop_in: "the_prop i ps = Some p \<Longrightarrow> p \<in> set ps \<and> pr_id p = i"
  by (auto simp: the_prop_def find_Some_iff)

lemma in_the_prop: "distinct (map pr_id ps) \<Longrightarrow> p \<in> set ps \<Longrightarrow> the_prop (pr_id p) ps = Some p"
  by (induction ps) (auto simp: the_prop_def image_iff)

lemma the_prop_upd: "(\<And>p. pr_id (f p) = pr_id p) \<Longrightarrow>
    the_prop j (upd_id i f ps) = map_option (\<lambda>p. if pr_id p = i then f p else p) (the_prop j ps)"
  by (induction ps) (auto simp: the_prop_def upd_id_def)

lemma upd_id_ids: "(\<And>p. pr_id (f p) = pr_id p) \<Longrightarrow> map pr_id (upd_id i f ps) = map pr_id ps"
  by (simp add: upd_id_def)

lemma length_upd_id [simp]: "length (upd_id i f ps) = length ps"
  by (simp add: upd_id_def)

lemma upd_id_twice: "(\<And>p. pr_id (g p) = pr_id p) \<Longrightarrow> upd_id i f (upd_id i g ps) = upd_id i (\<lambda>p. f (g p)) ps"
  by (simp add: upd_id_def)

lemma upd_id_id: "upd_id i (\<lambda>p. p) ps = ps"
  by (simp add: upd_id_def)

lemma upd_id_at:
  "distinct (map pr_id ps) \<Longrightarrow> n < length ps \<Longrightarrow> pr_id (ps ! n) = i \<Longrightarrow> ps[n := f (ps ! n)] = upd_id i f ps"
  by (intro nth_equalityI) (auto simp: upd_id_def nth_list_update, metis nth_eq_iff_index_eq length_map nth_map)

lemma index_upd: "(\<And>p. pr_id (f p) = pr_id p) \<Longrightarrow>
    map (\<lambda>(n, p). (pr_id p, n)) (enumerate k (upd_id i f ps)) = map (\<lambda>(n, p). (pr_id p, n)) (enumerate k ps)"
  by (induction ps arbitrary: k) (auto simp: upd_id_def)

lemma aq_look: "aq_ok q \<Longrightarrow> dict_get (aq_index q) i = Some n \<longleftrightarrow> n < length (aq_lines q) \<and> pr_id (aq_lines q ! n) = i"
  using position_lookup [of pr_id "aq_lines q" 0 i n] by (simp add: aq_ok_def)

lemma aq_index_cases [consumes 1, case_names absent present]:
  assumes "aq_ok q"
  obtains "dict_get (aq_index q) i = None" "the_prop i (aq_lines q) = None"
  | n where "dict_get (aq_index q) i = Some n" "n < length (aq_lines q)" "pr_id (aq_lines q ! n) = i"
      "the_prop i (aq_lines q) = Some (aq_lines q ! n)"
proof (cases "dict_get (aq_index q) i")
  case None
  then have "pr_id p \<noteq> i" if "p \<in> set (aq_lines q)" for p
    using aq_look [OF assms, of i] that by (metis in_set_conv_nth option.distinct(1))
  then have "the_prop i (aq_lines q) = None" by (simp add: the_prop_def find_None_iff)
  with None that(1) show thesis by blast
next
  case (Some n)
  then have "n < length (aq_lines q)" "pr_id (aq_lines q ! n) = i" using aq_look [OF assms] by simp_all
  moreover from this have "the_prop i (aq_lines q) = Some (aq_lines q ! n)"
    using in_the_prop [of "aq_lines q" "aq_lines q ! n"] assms by (simp add: aq_ok_def)
  ultimately show thesis using that(2) Some by blast
qed

lemma aq_get_prop: "aq_ok q \<Longrightarrow> aq_get i q = the_prop i (aq_lines q)"
  by (cases rule: aq_index_cases [of q i]) (auto simp: aq_get_def)

lemma aq_ok_distinct: "aq_ok q \<Longrightarrow> distinct (map pr_id (aq_lines q))"
  by (simp add: aq_ok_def)

text \<open>Changing the line of one proposal.\<close>

lemma aq_set_lines:
  assumes "aq_ok q"
  shows "aq_set i f q = q\<lparr>aq_lines := upd_id i f (aq_lines q)\<rparr>"
  using assms
proof (cases rule: aq_index_cases [where i = i])
  case absent
  from absent(2) have "upd_id i f (aq_lines q) = aq_lines q"
    by (auto simp: the_prop_def find_None_iff upd_id_def intro: map_idI)
  then show ?thesis by (simp add: aq_set_def absent(1))
next
  case (present n)
  with assms show ?thesis by (simp add: aq_set_def upd_id_at aq_ok_distinct)
qed

lemma aq_ok_upd:
  "aq_ok q \<Longrightarrow> (\<And>p. pr_id (f p) = pr_id p) \<Longrightarrow> (\<And>p. votes_ok p \<Longrightarrow> votes_ok (f p)) \<Longrightarrow> aq_ok (q\<lparr>aq_lines := upd_id i f (aq_lines q)\<rparr>)"
  by (auto simp: aq_ok_def index_upd upd_id_ids) (auto simp: upd_id_def list_all_iff)

definition with_vote :: "string \<Rightarrow> bool \<Rightarrow> prop_rec \<Rightarrow> prop_rec" where
  "with_vote a v p = p\<lparr>pr_votes := dict_set a (Some v) (pr_votes p)\<rparr>"

lemma with_vote_simps [simp]:
  "pr_id (with_vote a v p) = pr_id p" "pr_status (with_vote a v p) = pr_status p" "pr_type (with_vote a v p) = pr_type p"
  "pr_required (with_vote a v p) = pr_required p"
  "pr_votes (with_vote a v p) = dict_set a (Some v) (pr_votes p)"
  by (simp_all add: with_vote_def)

lemma vals_dict_set: "set (vals (dict_set k v d)) \<subseteq> insert v (set (vals d))"
  by (induction d) auto

lemma votes_ok_with: "votes_ok p \<Longrightarrow> votes_ok (with_vote a v p)"
  using vals_dict_set [of a "Some v" "pr_votes p"] by (auto simp: votes_ok_def)

lemma aq_vote_lines:
  assumes "aq_ok q"
  shows "aq_vote i a v now q =
     (if the_prop i (aq_lines q) = None then Inr (q, False)
      else Inr (q\<lparr>aq_lines := upd_id i (with_vote a v) (aq_lines q),
                  aq_history := aq_history q @ [\<lparr>vl_id = i, vl_voter = a, vl_vote = v, vl_at = now\<rparr>]\<rparr>, True))"
  using assms
proof (cases rule: aq_index_cases [where i = i])
  case (present n)
  with assms upd_id_at [of "aq_lines q" n i "with_vote a v"] show ?thesis
    by (simp add: aq_vote_def Let_def aq_ok_distinct with_vote_def)
qed (simp_all add: aq_vote_def)

lemma aq_ok_vote: "aq_ok q \<Longrightarrow> aq_ok (q\<lparr>aq_lines := upd_id i (with_vote a v) (aq_lines q), aq_history := h\<rparr>)"
  using aq_ok_upd [of q "with_vote a v" i] votes_ok_with by (simp add: aq_ok_def)

definition closed_as :: "rat \<Rightarrow> time \<Rightarrow> prop_rec \<Rightarrow> prop_rec" where
  "closed_as pct now p = p\<lparr>pr_status := (if approves pct p then PrApproved else PrRejected), pr_final := Some now\<rparr>"

lemma closed_simps [simp]:
  "pr_id (closed_as pct now p) = pr_id p" "pr_votes (closed_as pct now p) = pr_votes p" "pr_type (closed_as pct now p) = pr_type p"
  "pr_required (closed_as pct now p) = pr_required p"
  "pr_status (closed_as pct now p) = (if approves pct p then PrApproved else PrRejected)"
  by (simp_all add: closed_as_def)

lemma approves_cong: "pr_votes p = pr_votes r \<Longrightarrow> pr_required p = pr_required r \<Longrightarrow> approves pct p = approves pct r"
  by (simp add: approves_def count_votes_def)

lemma upd_id_cong: "(\<And>p. p \<in> set ps \<Longrightarrow> pr_id p = i \<Longrightarrow> f p = g p) \<Longrightarrow> upd_id i f ps = upd_id i g ps"
  by (auto simp: upd_id_def)

lemma aq_finalize_lines:
  assumes ok: "aq_ok q" and p: "the_prop i (aq_lines q) = Some p" and pend: "pr_status p = PrPending"
  shows "aq_finalize i now q = (q\<lparr>aq_lines := upd_id i (closed_as (aq_pct q) now) (aq_lines q)\<rparr>, approves (aq_pct q) p)"
proof -
  have only: "r = p" if "r \<in> set (aq_lines q)" "pr_id r = i" for r
    using in_the_prop [OF aq_ok_distinct [OF ok] that(1)] that(2) p by simp
  have "upd_id i (\<lambda>p'. p'\<lparr>pr_status := (if approves (aq_pct q) p then PrApproved else PrRejected), pr_final := Some now\<rparr>) (aq_lines q)
      = upd_id i (closed_as (aq_pct q) now) (aq_lines q)"
    by (rule upd_id_cong) (auto simp: closed_as_def dest: only)
  then show ?thesis
    using pend by (simp add: aq_finalize_def aq_get_prop [OF ok] p aq_set_lines [OF ok] Let_def)
qed

lemma aq_ok_closed: "aq_ok q \<Longrightarrow> aq_ok (q\<lparr>aq_lines := upd_id i (closed_as pct now) (aq_lines q)\<rparr>)"
  by (rule aq_ok_upd) (simp_all add: votes_ok_def)

section \<open>What a round decides\<close>

fun cast :: "(string \<times> bool) list \<Rightarrow> prop_rec \<Rightarrow> prop_rec" where
  "cast [] p = p"
| "cast ((a, v) # avs) p = cast avs (with_vote a v p)"

lemma cast_simps [simp]:
  "pr_id (cast avs p) = pr_id p" "pr_status (cast avs p) = pr_status p" "pr_type (cast avs p) = pr_type p"
  "pr_required (cast avs p) = pr_required p"
  by (induction avs arbitrary: p) auto

lemma cast_votes_ok: "votes_ok p \<Longrightarrow> votes_ok (cast avs p)"
  by (induction avs arbitrary: p) (auto simp: votes_ok_with)

lemma fst_dict_set: "fst ` set (dict_set k v d) = insert k (fst ` set d)"
  using arg_cong [OF keys_set [of k v d], of set] by (auto split: if_splits)

lemma cast_keys: "set (keys (pr_votes (cast avs p))) = set (keys (pr_votes p)) \<union> fst ` set avs"
proof (induction avs arbitrary: p)
  case (Cons x avs)
  then show ?case by (cases x) (auto simp: fst_dict_set)
qed simp

lemma cast_other: "a \<notin> fst ` set avs \<Longrightarrow> dict_get (pr_votes (cast avs p)) a = dict_get (pr_votes p) a"
  by (induction avs arbitrary: p) auto

lemma vote_agents_lines:
  assumes "aq_ok (bx_quorum b)" and "the_prop (pr_id p) (aq_lines (bx_quorum b)) \<noteq> None"
  shows "\<exists>b' avs. vote_agents ask clk p as b = (b', True) \<and> aq_ok (bx_quorum b') \<and> aq_pct (bx_quorum b') = aq_pct (bx_quorum b)
     \<and> map fst avs = filter (\<lambda>a. a \<notin> set (keys (pr_votes p))) as
     \<and> aq_lines (bx_quorum b') = upd_id (pr_id p) (cast avs) (aq_lines (bx_quorum b))"
  using assms
proof (induction as arbitrary: b)
  case Nil
  then show ?case by (intro exI [of _ b] exI [of _ "[]"]) (simp add: upd_id_id)
next
  case (Cons a as)
  show ?case
  proof (cases "a \<in> set (keys (pr_votes p))")
    case True
    with Cons.IH [OF Cons.prems] show ?thesis by simp
  next
    case False
    obtain minds v where e: "agent_evaluate ask (clk (pr_id p) a) a p (bx_minds b) = (minds, v)" by fastforce
    define q where "q = (bx_quorum b)\<lparr>aq_lines := upd_id (pr_id p) (with_vote a v) (aq_lines (bx_quorum b)),
      aq_history := aq_history (bx_quorum b) @ [\<lparr>vl_id = pr_id p, vl_voter = a, vl_vote = v, vl_at = clk (pr_id p) a\<rparr>]\<rparr>"
    define b1 where "b1 = \<lparr>bx_quorum = q, bx_minds = minds\<rparr>"
    have st: "vote_agents ask clk p (a # as) b = vote_agents ask clk p as b1"
    proof -
      obtain y where "the_prop (pr_id p) (aq_lines (bx_quorum b)) = Some y" using Cons.prems(2) by blast
      with False show ?thesis by (simp add: e aq_vote_lines [OF Cons.prems(1)] q_def b1_def)
    qed
    have ok: "aq_ok (bx_quorum b1)" unfolding b1_def q_def by (simp add: aq_ok_vote [OF Cons.prems(1)])
    have lines: "aq_lines (bx_quorum b1) = upd_id (pr_id p) (with_vote a v) (aq_lines (bx_quorum b))" by (simp add: b1_def q_def)
    have "the_prop (pr_id p) (aq_lines (bx_quorum b1)) \<noteq> None"
      using Cons.prems(2) by (simp add: lines the_prop_upd)
    from Cons.IH [OF ok this] obtain b' avs where h: "vote_agents ask clk p as b1 = (b', True)" "aq_ok (bx_quorum b')"
      "aq_pct (bx_quorum b') = aq_pct (bx_quorum b1)" "map fst avs = filter (\<lambda>a. a \<notin> set (keys (pr_votes p))) as"
      "aq_lines (bx_quorum b') = upd_id (pr_id p) (cast avs) (aq_lines (bx_quorum b1))" by blast
    have "aq_pct (bx_quorum b1) = aq_pct (bx_quorum b)" by (simp add: b1_def q_def)
    then show ?thesis unfolding st using h False
      by (intro exI [of _ b'] exI [of _ "(a, v) # avs"]) (simp add: lines upd_id_twice)
  qed
qed

lemma tally_all: "None \<notin> set (vals (pr_votes p)) \<Longrightarrow> count_votes (Some True) p + count_votes (Some False) p = length (pr_votes p)"
proof -
  have "None \<notin> set (vals d) \<Longrightarrow> length (filter (\<lambda>w. w = Some True) (vals d)) + length (filter (\<lambda>w. w = Some False) (vals d)) = length d"
    for d :: "(string, bool option) dict"
    by (induction d) (auto split: if_splits, metis not_None_eq)
  then show "None \<notin> set (vals (pr_votes p)) \<Longrightarrow> count_votes (Some True) p + count_votes (Some False) p = length (pr_votes p)"
    by (simp add: count_votes_def)
qed

lemma dict_length: "wf_dict d \<Longrightarrow> length d = card (set (keys d))"
  by (simp add: wf_dict_def) (metis distinct_card length_map list.set_map)

text \<open>A proposal decided by a round: every agent is among its voters, nobody's earlier vote was changed.\<close>

definition decided_by :: "rat \<Rightarrow> string list \<Rightarrow> prop_rec \<Rightarrow> prop_rec \<Rightarrow> bool" where
  "decided_by pct agents p r =
     (pr_status r = (if approves pct r then PrApproved else PrRejected)
      \<and> set agents \<subseteq> set (keys (pr_votes r))
      \<and> list_all (\<lambda>a. dict_get (pr_votes r) a = dict_get (pr_votes p) a) (keys (pr_votes p)))"

lemma turn_decides:
  assumes ok: "aq_ok (bx_quorum b)" and p: "p \<in> set (aq_lines (bx_quorum b))" and pend: "pr_status p = PrPending"
    and agents: "agents \<noteq> []" "distinct agents"
  shows "\<exists>b1 b2 fs f. vote_agents ask clk p agents b = (b1, True) \<and> try_finalize fin p agents b1 = (b2, fs)
     \<and> aq_ok (bx_quorum b2) \<and> aq_pct (bx_quorum b2) = aq_pct (bx_quorum b) \<and> map fp_id fs = [pr_id p]
     \<and> aq_lines (bx_quorum b2) = upd_id (pr_id p) f (aq_lines (bx_quorum b))
     \<and> (\<forall>r. pr_id (f r) = pr_id r \<and> pr_type (f r) = pr_type r) \<and> decided_by (aq_pct (bx_quorum b)) agents p (f p)"
proof -
  have the: "the_prop (pr_id p) (aq_lines (bx_quorum b)) = Some p"
    by (rule in_the_prop [OF aq_ok_distinct [OF ok] p])
  obtain b1 avs where h: "vote_agents ask clk p agents b = (b1, True)" "aq_ok (bx_quorum b1)"
    "aq_pct (bx_quorum b1) = aq_pct (bx_quorum b)" "map fst avs = filter (\<lambda>a. a \<notin> set (keys (pr_votes p))) agents"
    "aq_lines (bx_quorum b1) = upd_id (pr_id p) (cast avs) (aq_lines (bx_quorum b))"
    using vote_agents_lines [OF ok, of p ask clk agents] the by auto
  have r: "the_prop (pr_id p) (aq_lines (bx_quorum b1)) = Some (cast avs p)"
    by (simp add: h(5) the_prop_upd the)
  have vok: "votes_ok p" using ok p by (auto simp: aq_ok_def list_all_iff)
  have fsts: "fst ` set avs = set agents - set (keys (pr_votes p))" using arg_cong [OF h(4), of set] by auto
  have keys: "set agents \<subseteq> set (keys (pr_votes (cast avs p)))" unfolding cast_keys fsts by blast
  have "length agents \<le> length (pr_votes (cast avs p))"
    using card_mono [OF _ keys] distinct_card [OF agents(2)] dict_length [of "pr_votes (cast avs p)"] cast_votes_ok [OF vok, of avs]
    by (simp add: votes_ok_def)
  then have enough: "max 1 (length agents) \<le> count_votes (Some True) (cast avs p) + count_votes (Some False) (cast avs p)"
    using agents(1) tally_all [of "cast avs p"] cast_votes_ok [OF vok, of avs] by (cases agents) (auto simp: votes_ok_def)
  define q2 where "q2 = (bx_quorum b1)\<lparr>aq_lines := upd_id (pr_id p) (closed_as (aq_pct (bx_quorum b)) (fin (pr_id p))) (aq_lines (bx_quorum b1))\<rparr>"
  have fin: "aq_finalize (pr_id p) (fin (pr_id p)) (bx_quorum b1) = (q2, approves (aq_pct (bx_quorum b)) (cast avs p))"
    using aq_finalize_lines [OF h(2) r] pend by (simp add: q2_def h(3))
  obtain b2 fs where t: "try_finalize fin p agents b1 = (b2, fs)" "bx_quorum b2 = q2" "map fp_id fs = [pr_id p]"
    using enough by (auto simp: try_finalize_def aq_voting_status_def aq_get_prop [OF h(2)] r fin)
  define f where "f = (\<lambda>r. closed_as (aq_pct (bx_quorum b)) (fin (pr_id p)) (cast avs r))"
  have "aq_ok q2" unfolding q2_def by (rule aq_ok_closed [OF h(2)])
  moreover have "aq_lines q2 = upd_id (pr_id p) f (aq_lines (bx_quorum b))"
    by (simp add: q2_def h(5) upd_id_twice f_def)
  moreover have "\<forall>r. pr_id (f r) = pr_id r \<and> pr_type (f r) = pr_type r" by (simp add: f_def)
  moreover have "aq_pct q2 = aq_pct (bx_quorum b)" by (simp add: q2_def h(3))
  moreover have "decided_by (aq_pct (bx_quorum b)) agents p (f p)"
  proof -
    have "a \<notin> fst ` set avs" if "a \<in> set (keys (pr_votes p))" for a using that fsts by blast
    then have "list_all (\<lambda>a. dict_get (pr_votes (f p)) a = dict_get (pr_votes p) a) (keys (pr_votes p))"
      unfolding list_all_iff by (simp add: f_def cast_other)
    then show ?thesis using keys
      by (simp add: decided_by_def f_def approves_cong [of "closed_as (aq_pct (bx_quorum b)) (fin (pr_id p)) (cast avs p)" "cast avs p"])
  qed
  ultimately show ?thesis using h(1) t(1,3) unfolding t(2) [symmetric]
    by (intro exI [of _ b1] exI [of _ b2] exI [of _ fs] exI [of _ f] conjI) assumption+
qed

definition is_cap :: "prop_rec \<Rightarrow> bool" where
  "is_cap p = (pr_type p = ''capability'')"

text \<open>What a list of turns does to the lines: exactly the capabilities among the proposals are decided.\<close>

definition decides :: "rat \<Rightarrow> string list \<Rightarrow> prop_rec list \<Rightarrow> prop_rec list \<Rightarrow> (prop_rec \<Rightarrow> prop_rec) \<Rightarrow> bool" where
  "decides pct agents ps ls F =
     ((\<forall>r. pr_id (F r) = pr_id r \<and> pr_type (F r) = pr_type r) \<and> list_all (\<lambda>r. r \<in> set (filter is_cap ps) \<or> F r = r) ls
      \<and> list_all (\<lambda>p. decided_by pct agents p (F p)) (filter is_cap ps))"

lemma same_prop:
  fixes ls :: "prop_rec list"
  shows "distinct (map pr_id ls) \<Longrightarrow> p \<in> set ls \<Longrightarrow> r \<in> set ls \<Longrightarrow> pr_id r = pr_id p \<Longrightarrow> r = p"
  using in_the_prop [of ls p] in_the_prop [of ls r] by simp

lemma decides_Cons:
  assumes d: "distinct (map pr_id ls)" and p: "p \<in> set ls" "is_cap p" and new: "pr_id p \<notin> pr_id ` set ps" and sub: "set ps \<subseteq> set ls"
    and f: "\<forall>r. pr_id (f r) = pr_id r \<and> pr_type (f r) = pr_type r" "decided_by pct agents p (f p)"
    and F: "decides pct agents ps (upd_id (pr_id p) f ls) F"
  shows "\<exists>H. decides pct agents (p # ps) ls H \<and> map F (upd_id (pr_id p) f ls) = map H ls"
proof -
  define G where "G = (\<lambda>r. if pr_id r = pr_id p then f r else r)"
  have up: "upd_id (pr_id p) f ls = map G ls" by (simp add: upd_id_def G_def)
  have Fid: "\<forall>r. pr_id (F r) = pr_id r \<and> pr_type (F r) = pr_type r" using F by (simp add: decides_def)
  have keep: "F (G r) = G r" if "r \<in> set ls" "G r \<notin> set (filter is_cap ps)" for r
    using F that by (auto simp: decides_def up list_all_iff)
  have "f p \<notin> set (filter is_cap ps)" using new f(1) by (metis filter_is_subset image_eqI subsetD)
  then have Hp: "F (G p) = f p" using keep [OF p(1)] by (simp add: G_def)
  have Gps: "G r = r" if "r \<in> set ps" for r using that new by (auto simp: G_def image_iff)
  have rest: "(r \<in> set (filter is_cap (p # ps)) \<or> F (G r) = r)" if "r \<in> set ls" for r
  proof (cases "r = p")
    case False
    then have "pr_id r \<noteq> pr_id p" using same_prop [OF d p(1) that] by blast
    then have "G r = r" by (simp add: G_def)
    then show ?thesis using keep [OF that] by auto
  qed (simp add: p(2))
  have dec: "decided_by pct agents r (F (G r))" if "r \<in> set (filter is_cap (p # ps))" for r
  proof (cases "r = p")
    case True
    then show ?thesis using Hp f(2) by simp
  next
    case False
    with that have r: "r \<in> set (filter is_cap ps)" by (auto split: if_splits)
    then have "decided_by pct agents r (F r)" using F by (simp add: decides_def list_all_iff)
    then show ?thesis using Gps [of r] r by simp
  qed
  have "decides pct agents (p # ps) ls (\<lambda>r. F (G r))"
    unfolding decides_def list_all_iff using rest dec Fid f(1) by (auto simp: G_def)
  moreover have "map F (upd_id (pr_id p) f ls) = map (\<lambda>r. F (G r)) ls" by (simp add: up)
  ultimately show ?thesis by blast
qed

lemma vote_props_lines:
  assumes "aq_ok (bx_quorum b)" and "distinct (map pr_id ps)" and "set ps \<subseteq> set (aq_lines (bx_quorum b))"
    and "list_all (\<lambda>p. pr_status p = PrPending) ps" and agents: "agents \<noteq> []" "distinct agents"
  shows "\<exists>b' fs F. vote_props ask clk fin agents ps b = (b', Inr fs) \<and> aq_ok (bx_quorum b')
     \<and> aq_pct (bx_quorum b') = aq_pct (bx_quorum b) \<and> map fp_id fs = map pr_id (filter is_cap ps)
     \<and> aq_lines (bx_quorum b') = map F (aq_lines (bx_quorum b)) \<and> decides (aq_pct (bx_quorum b)) agents ps (aq_lines (bx_quorum b)) F"
  using assms(1-4)
proof (induction ps arbitrary: b)
  case Nil
  then show ?case by (intro exI [of _ b] exI [of _ "[]"] exI [of _ "\<lambda>r. r"]) (simp add: decides_def list_all_iff)
next
  case (Cons p ps)
  show ?case
  proof (cases "is_cap p")
    case False
    with Cons show ?thesis by (auto simp: is_cap_def decides_def)
  next
    case True
    have p: "p \<in> set (aq_lines (bx_quorum b))" "pr_status p = PrPending" and new: "pr_id p \<notin> pr_id ` set ps"
      using Cons.prems by auto
    have d: "distinct (map pr_id (aq_lines (bx_quorum b)))" by (rule aq_ok_distinct [OF Cons.prems(1)])
    obtain b1 b2 fs f where h: "vote_agents ask clk p agents b = (b1, True)" "try_finalize fin p agents b1 = (b2, fs)"
      "aq_ok (bx_quorum b2)" "aq_pct (bx_quorum b2) = aq_pct (bx_quorum b)" "map fp_id fs = [pr_id p]"
      "aq_lines (bx_quorum b2) = upd_id (pr_id p) f (aq_lines (bx_quorum b))"
      "\<forall>r. pr_id (f r) = pr_id r \<and> pr_type (f r) = pr_type r" "decided_by (aq_pct (bx_quorum b)) agents p (f p)"
      using turn_decides [OF Cons.prems(1) p agents, of ask clk fin] by (elim exE conjE) (rule that; assumption)
    have "set ps \<subseteq> set (aq_lines (bx_quorum b2))"
    proof
      fix r assume r: "r \<in> set ps"
      with new have "pr_id r \<noteq> pr_id p" by (metis image_eqI)
      moreover have "r \<in> set (aq_lines (bx_quorum b))" using r Cons.prems(3) by auto
      ultimately show "r \<in> set (aq_lines (bx_quorum b2))" unfolding h(6) upd_id_def by (auto intro: rev_image_eqI)
    qed
    from Cons.IH [OF h(3) _ this] Cons.prems obtain b' gs F where ih:
      "vote_props ask clk fin agents ps b2 = (b', Inr gs)" "aq_ok (bx_quorum b')" "aq_pct (bx_quorum b') = aq_pct (bx_quorum b2)"
      "map fp_id gs = map pr_id (filter is_cap ps)" "aq_lines (bx_quorum b') = map F (aq_lines (bx_quorum b2))"
      "decides (aq_pct (bx_quorum b2)) agents ps (aq_lines (bx_quorum b2)) F" by auto
    obtain H where "decides (aq_pct (bx_quorum b)) agents (p # ps) (aq_lines (bx_quorum b)) H"
      "map F (upd_id (pr_id p) f (aq_lines (bx_quorum b))) = map H (aq_lines (bx_quorum b))"
      using decides_Cons [OF d p(1) True new _ h(7,8), of F] Cons.prems(3) ih(6) by (auto simp: h(4,6))
    moreover have "vote_props ask clk fin agents (p # ps) b = (b', Inr (fs @ gs))"
      using True by (simp add: is_cap_def h(1,2) ih(1))
    ultimately show ?thesis using ih h True
      by (intro exI [of _ b'] exI [of _ "fs @ gs"] exI [of _ H]) simp
  qed
qed

lemma pending_distinct: "aq_ok q \<Longrightarrow> distinct (map pr_id (aq_pending limit q))"
proof -
  assume "aq_ok q"
  then have "distinct (map pr_id (filter (\<lambda>p. pr_status p = PrPending) (aq_lines q)))"
    by (simp add: aq_ok_def distinct_map_filter)
  then have "distinct (map pr_id (sort_key pr_created (filter (\<lambda>p. pr_status p = PrPending) (aq_lines q))))"
    by (simp add: distinct_map)
  then show "distinct (map pr_id (aq_pending limit q))"
    by (simp add: aq_pending_def py_take_def take_map [symmetric] distinct_take)
qed

lemma pending_sub: "set (aq_pending limit q) \<subseteq> {p \<in> set (aq_lines q). pr_status p = PrPending}"
  using set_py_take [of limit "sort_key pr_created (filter (\<lambda>p. pr_status p = PrPending) (aq_lines q))"]
  by (auto simp: aq_pending_def)

text \<open>
  C16: A round of votes decides the twenty oldest pending proposals, as far as they are capabilities: with different agents, at
  least one, each of them gets a vote of every agent that had none, no earlier vote is changed, and it ends approved exactly if the
  share of its yes votes reaches the quorum of 66 percent, rejected otherwise. No other proposal is touched, no error is raised and every
  decision is reported, in the order of the proposals' age.
\<close>

theorem cq_round_decides:
  assumes "aq_ok (bx_quorum b)" and "distinct agents" and "agents \<noteq> []" and "vote_on_pending ask clk fin agents b = (b', res)"
  shows "(\<exists>fs. res = Inr fs \<and> map fp_id fs = map pr_id (filter is_cap (aq_pending 20 (bx_quorum b)))) \<and> aq_ok (bx_quorum b')
     \<and> (\<forall>p \<in> set (aq_lines (bx_quorum b)).
          if p \<in> set (aq_pending 20 (bx_quorum b)) \<and> is_cap p
          then \<exists>r. aq_get (pr_id p) (bx_quorum b') = Some r \<and> decided_by (aq_pct (bx_quorum b)) agents p r
          else aq_get (pr_id p) (bx_quorum b') = Some p)"
proof -
  let ?ps = "aq_pending 20 (bx_quorum b)" and ?ls = "aq_lines (bx_quorum b)"
  have sub: "set ?ps \<subseteq> set ?ls" "list_all (\<lambda>p. pr_status p = PrPending) ?ps"
    using pending_sub [of 20 "bx_quorum b"] by (auto simp: list_all_iff)
  obtain b2 fs F where h: "vote_props ask clk fin agents ?ps b = (b2, Inr fs)" "aq_ok (bx_quorum b2)"
    "map fp_id fs = map pr_id (filter is_cap ?ps)" "aq_lines (bx_quorum b2) = map F ?ls"
    "decides (aq_pct (bx_quorum b)) agents ?ps ?ls F"
    using vote_props_lines [OF assms(1) pending_distinct [OF assms(1)] sub assms(3,2), of ask clk fin] by blast
  have b': "b' = b2" "res = Inr fs" using assms(3,4) h(1) by (simp_all add: vote_on_pending_def)
  have Fid: "pr_id (F r) = pr_id r" for r using h(5) by (simp add: decides_def)
  have get: "aq_get (pr_id p) (bx_quorum b2) = Some (F p)" if "p \<in> set ?ls" for p
    using in_the_prop [OF aq_ok_distinct [OF h(2)], of "F p"] that by (simp add: aq_get_prop [OF h(2)] h(4) Fid)
  have "if p \<in> set ?ps \<and> is_cap p then \<exists>r. aq_get (pr_id p) (bx_quorum b2) = Some r \<and> decided_by (aq_pct (bx_quorum b)) agents p r
      else aq_get (pr_id p) (bx_quorum b2) = Some p" if "p \<in> set ?ls" for p
    using get [OF that] h(5) that by (auto simp: decides_def list_all_iff)
  then show ?thesis using h(2,3) b' by blast
qed

text \<open>A daemon's cycle, as far as the quorum is concerned: who is active, what the model answers, the clock readings.\<close>

record turn =
  tn_active :: "string list"
  tn_ask :: "string \<Rightarrow> prop_rec \<Rightarrow> string \<Rightarrow> string option"
  tn_clk :: "string \<Rightarrow> string \<Rightarrow> time"
  tn_fin :: "string \<Rightarrow> time"

definition take_turn :: "turn \<Rightarrow> ballot_box \<Rightarrow> ballot_box" where
  "take_turn t b = quorum_turn (tn_ask t) (tn_clk t) (tn_fin t) (tn_active t) b"

definition open_props :: "agent_quorum \<Rightarrow> prop_rec list" where
  "open_props q = filter (\<lambda>p. pr_status p = PrPending) (aq_lines q)"

lemma filter_rest: "distinct (xs @ ys) \<Longrightarrow> filter (\<lambda>r. r \<notin> set xs) (xs @ ys) = ys"
  by (auto intro!: filter_id_conv [THEN iffD2] simp: filter_empty_conv)

lemma decided_closed: "decided_by pct agents p r \<Longrightarrow> pr_status r \<noteq> PrPending"
  by (auto simp: decided_by_def)

lemma turn_progress:
  assumes ok: "aq_ok (bx_quorum b)" and caps: "list_all is_cap (open_props (bx_quorum b))"
    and act: "distinct (tn_active t)" "tn_active t \<noteq> []"
  shows "aq_ok (bx_quorum (take_turn t b)) \<and> list_all is_cap (open_props (bx_quorum (take_turn t b)))
    \<and> length (open_props (bx_quorum (take_turn t b))) = length (open_props (bx_quorum b)) - 20"
proof -
  let ?q = "bx_quorum b" let ?ls = "aq_lines ?q" let ?ps = "aq_pending 20 ?q"
  define S where "S = sort_key pr_created (open_props ?q)"
  have ps: "?ps = take 20 S" by (simp add: aq_pending_def S_def open_props_def)
  have sub: "set ?ps \<subseteq> set ?ls" "list_all (\<lambda>p. pr_status p = PrPending) ?ps"
    using pending_sub [of 20 ?q] by (auto simp: list_all_iff)
  have agents: "take 5 (tn_active t) \<noteq> []" "distinct (take 5 (tn_active t))" using act by (auto simp: distinct_take)
  obtain b2 fs F where h: "vote_props (tn_ask t) (tn_clk t) (tn_fin t) (take 5 (tn_active t)) ?ps b = (b2, Inr fs)" "aq_ok (bx_quorum b2)"
    "aq_lines (bx_quorum b2) = map F ?ls" "decides (aq_pct ?q) (take 5 (tn_active t)) ?ps ?ls F"
    using vote_props_lines [OF ok pending_distinct [OF ok] sub agents, of "tn_ask t" "tn_clk t" "tn_fin t"]
    by (elim exE conjE) (rule that; assumption)
  have b2: "take_turn t b = b2" using h(1) agents(1) by (simp add: take_turn_def quorum_turn_def vote_on_pending_def)
  have "set ?ps \<subseteq> set (open_props ?q)" using pending_sub [of 20 ?q] by (auto simp: open_props_def)
  then have cap: "filter is_cap ?ps = ?ps" using caps by (auto simp: list_all_iff intro: filter_True)
  have F: "if r \<in> set ?ps then pr_status (F r) \<noteq> PrPending else F r = r" if "r \<in> set ?ls" for r
    using h(4) that by (auto simp: decides_def cap list_all_iff dest: decided_closed)
  have "filter (\<lambda>p. pr_status p = PrPending) (map F rs) = filter (\<lambda>r. r \<notin> set ?ps) (filter (\<lambda>p. pr_status p = PrPending) rs)"
    if "set rs \<subseteq> set ?ls" for rs
    using that
  proof (induction rs)
    case (Cons r rs)
    then show ?case using F [of r] sub(2) by (auto simp: list_all_iff split: if_splits)
  qed simp
  then have op: "open_props (bx_quorum b2) = filter (\<lambda>r. r \<notin> set ?ps) (open_props ?q)"
    by (simp add: open_props_def h(3))
  have "distinct (open_props ?q)" using aq_ok_distinct [OF ok] by (simp add: open_props_def distinct_map)
  then have "distinct (take 20 S @ drop 20 S)" by (simp add: S_def)
  from filter_rest [OF this] have "filter (\<lambda>r. r \<notin> set ?ps) S = drop 20 S" by (simp add: ps)
  moreover have "length (filter (\<lambda>r. r \<notin> set ?ps) S) = length (filter (\<lambda>r. r \<notin> set ?ps) (open_props ?q))"
    unfolding S_def filter_sort by simp
  ultimately have "length (open_props (bx_quorum b2)) = length (open_props ?q) - 20" by (simp add: op S_def)
  moreover have "list_all is_cap (open_props (bx_quorum b2))" using caps by (auto simp: op list_all_iff)
  ultimately show ?thesis using h(2) by (simp add: b2)
qed

text \<open>
  C15: Every proposal is decided. While only capabilities are proposed, a cycle with at least one active agent closes the
  twenty oldest: after as many cycles as there are twenties, nothing is pending, whatever the model answers or whether it answers at all.
\<close>

theorem cq_all_decided:
  assumes "aq_ok (bx_quorum b)" and "list_all is_cap (open_props (bx_quorum b))"
    and "list_all (\<lambda>t. distinct (tn_active t) \<and> tn_active t \<noteq> []) ts" and "length (open_props (bx_quorum b)) \<le> 20 * length ts"
  shows "open_props (bx_quorum (run_ops take_turn ts b)) = []"
  using assms
proof (induction ts arbitrary: b)
  case (Cons t ts)
  note p = turn_progress [OF Cons.prems(1,2), of t]
  show ?case unfolding run_ops_Cons by (rule Cons.IH) (use p Cons.prems(3,4) in auto)
qed simp

section \<open>Closed proposals\<close>

datatype quorum_op =
    QuPropose string time string string string payload
  | QuVote string string bool time
  | QuFinalize string time
  | QuWithdraw string string
  | QuTurn turn
  | QuAgentVote string bool time time

definition on_quorum :: "(agent_quorum \<Rightarrow> agent_quorum) \<Rightarrow> ballot_box \<Rightarrow> ballot_box" where
  "on_quorum f b = b\<lparr>bx_quorum := f (bx_quorum b)\<rparr>"

definition voted :: "aq_error + (agent_quorum \<times> bool) \<Rightarrow> agent_quorum \<Rightarrow> agent_quorum" where
  "voted r q = (case r of Inl e \<Rightarrow> q | Inr (q', _) \<Rightarrow> q')"

fun quorum_step :: "quorum_op \<Rightarrow> ballot_box \<Rightarrow> ballot_box" where
  "quorum_step (QuPropose i now proposer type desc pl) b = on_quorum (aq_propose i now proposer type desc pl) b"
| "quorum_step (QuVote i voter v now) b = on_quorum (\<lambda>q. voted (aq_vote i voter v now q) q) b"
| "quorum_step (QuFinalize i now) b = on_quorum (\<lambda>q. fst (aq_finalize i now q)) b"
| "quorum_step (QuWithdraw i who) b = on_quorum (\<lambda>q. fst (aq_withdraw i who q)) b"
| "quorum_step (QuTurn t) b = take_turn t b"
| "quorum_step (QuAgentVote i approve now now') b = on_quorum (\<lambda>q. fst (vote_on_proposal i approve now now' q)) b"

fun proposes :: "quorum_op \<Rightarrow> string \<Rightarrow> bool" where
  "proposes (QuPropose i now proposer type desc pl) j = (i = j)"
| "proposes x j = False"

definition aq_weak :: "agent_quorum \<Rightarrow> bool" where
  "aq_weak q = list_all (\<lambda>(i, n). n < length (aq_lines q) \<and> pr_id (aq_lines q ! n) = i) (aq_index q)"

text \<open>A proposal without its votes.\<close>

definition content :: "string \<Rightarrow> agent_quorum \<Rightarrow> prop_rec option" where
  "content i q = map_option (\<lambda>p. p\<lparr>pr_votes := []\<rparr>) (aq_get i q)"

definition keeps_closed :: "string \<Rightarrow> prop_rec \<Rightarrow> agent_quorum \<Rightarrow> bool" where
  "keeps_closed i a q = (aq_weak q \<and> content i q = Some a \<and> pr_status a \<noteq> PrPending)"

lemma aq_weakD: "aq_weak q \<Longrightarrow> dict_get (aq_index q) i = Some n \<Longrightarrow> n < length (aq_lines q) \<and> pr_id (aq_lines q ! n) = i"
  by (auto simp: aq_weak_def list_all_iff dest: dict_get_in)

lemma weak_propose: "aq_weak q \<Longrightarrow> aq_weak (aq_propose i now proposer type desc pl q)"
  by (auto simp: aq_weak_def list_all_iff aq_propose_def Let_def new_proposal_def nth_append dest!: in_dict_set)

lemma weak_line: "aq_weak q \<Longrightarrow> dict_get (aq_index q) i = Some n \<Longrightarrow> pr_id r = i \<Longrightarrow> aq_weak (q\<lparr>aq_lines := (aq_lines q)[n := r]\<rparr>)"
  using aq_weakD [of q i n] by (auto simp: aq_weak_def list_all_iff nth_list_update)

lemma weak_history: "aq_weak (q\<lparr>aq_lines := ls, aq_history := h\<rparr>) = aq_weak (q\<lparr>aq_lines := ls\<rparr>)"
  by (simp add: aq_weak_def)

lemma weak_vote: "aq_weak q \<Longrightarrow> aq_weak (voted (aq_vote i a v now q) q)"
  using aq_weakD [of q i] by (auto simp: voted_def aq_vote_def Let_def weak_history intro!: weak_line split: option.split)

lemma weak_set: "aq_weak q \<Longrightarrow> (\<And>p. pr_id (f p) = pr_id p) \<Longrightarrow> aq_weak (aq_set i f q)"
  using aq_weakD [of q i] by (auto simp: aq_set_def intro!: weak_line split: option.split)

lemma weak_finalize: "aq_weak q \<Longrightarrow> aq_weak (fst (aq_finalize i now q))"
  by (auto simp: aq_finalize_def Let_def intro!: weak_set split: option.split)

lemma weak_withdraw: "aq_weak q \<Longrightarrow> aq_weak (fst (aq_withdraw i who q))"
  by (auto simp: aq_withdraw_def intro!: weak_set split: option.split)

text \<open>Votes change the votes of one proposal only, closing touches a pending proposal only.\<close>

lemma get_line:
  assumes "aq_weak q" and "dict_get (aq_index q) j = Some n" and "pr_id r = j"
  shows "aq_get i (q\<lparr>aq_lines := (aq_lines q)[n := r], aq_history := h\<rparr>) = (if i = j then Some r else aq_get i q)"
proof -
  have "m \<noteq> n" if "dict_get (aq_index q) i = Some m" "i \<noteq> j" for m
    using aq_weakD [OF assms(1) that(1)] aq_weakD [OF assms(1,2)] that(2) by auto
  then show ?thesis using aq_weakD [OF assms(1,2)] assms(2)
    by (auto simp: aq_get_def nth_list_update split: option.split)
qed

lemma content_vote: "aq_weak q \<Longrightarrow> content i (voted (aq_vote j a v now q) q) = content i q"
proof (cases "dict_get (aq_index q) j")
  case (Some n)
  assume w: "aq_weak q"
  note n = aq_weakD [OF w Some]
  then have "aq_get j q = Some (aq_lines q ! n)" by (simp add: aq_get_def Some)
  then show ?thesis using n
    by (cases "i = j") (simp_all add: voted_def aq_vote_def Let_def Some content_def get_line [OF w Some] not_le)
qed (simp add: voted_def aq_vote_def)

lemma get_set:
  assumes "aq_weak q" and "\<And>p. pr_id (f p) = pr_id p" and "aq_get j q \<noteq> None"
  shows "aq_get i (aq_set j f q) = (if i = j then map_option f (aq_get j q) else aq_get i q)"
proof (cases "dict_get (aq_index q) j")
  case (Some n)
  from aq_weakD [OF assms(1) Some] get_line [OF assms(1) Some, of "f (aq_lines q ! n)" i "aq_history q"] assms(2) show ?thesis
    by (auto simp: aq_set_def Some aq_get_def)
qed (use assms(3) in \<open>simp add: aq_get_def\<close>)

lemma content_finalize:
  "keeps_closed i a q \<Longrightarrow> content i (fst (aq_finalize j now q)) = Some a"
  by (auto simp: keeps_closed_def content_def aq_finalize_def Let_def get_set split: option.split)

lemma content_withdraw:
  "keeps_closed i a q \<Longrightarrow> content i (fst (aq_withdraw j who q)) = Some a"
  by (auto simp: keeps_closed_def content_def aq_withdraw_def get_set split: option.split)

lemma closed_vote: "keeps_closed i a q \<Longrightarrow> keeps_closed i a (voted (aq_vote j x v now q) q)"
  by (simp add: keeps_closed_def weak_vote content_vote)

lemma closed_finalize: "keeps_closed i a q \<Longrightarrow> keeps_closed i a (fst (aq_finalize j now q))"
  using content_finalize [of i a q j now] by (simp add: keeps_closed_def weak_finalize)

lemma closed_withdraw: "keeps_closed i a q \<Longrightarrow> keeps_closed i a (fst (aq_withdraw j who q))"
  using content_withdraw [of i a q j who] by (simp add: keeps_closed_def weak_withdraw)

lemma closed_propose: "keeps_closed i a q \<Longrightarrow> j \<noteq> i \<Longrightarrow> keeps_closed i a (aq_propose j now proposer type desc pl q)"
  by (auto simp: keeps_closed_def weak_propose content_def)
     (auto simp: aq_get_def aq_propose_def Let_def nth_append split: option.splits if_splits)

text \<open>What votes and closings keep is kept by a whole turn.\<close>

lemma agents_keep:
  assumes "P (bx_quorum b)" and "\<And>j x v now q. P q \<Longrightarrow> P (voted (aq_vote j x v now q) q)"
  shows "P (bx_quorum (fst (vote_agents ask clk p as b)))"
  using assms(1)
proof (induction as arbitrary: b)
  case (Cons a as)
  show ?case
  proof (cases "a \<in> set (keys (pr_votes p))")
    case False
    obtain minds v where e: "agent_evaluate ask (clk (pr_id p) a) a p (bx_minds b) = (minds, v)" by fastforce
    have "P (voted (aq_vote (pr_id p) a v (clk (pr_id p) a) (bx_quorum b)) (bx_quorum b))" by (rule assms(2) [OF Cons.prems])
    with False Cons show ?thesis
      by (cases "aq_vote (pr_id p) a v (clk (pr_id p) a) (bx_quorum b)") (auto simp: e voted_def split: prod.split)
  qed (use Cons in simp)
qed simp

lemma finalize_keep:
  assumes "P (bx_quorum b)" and "\<And>j now q. P q \<Longrightarrow> P (fst (aq_finalize j now q))"
  shows "P (bx_quorum (fst (try_finalize fin p agents b)))"
  using assms(1) assms(2) [OF assms(1), of "pr_id p" "fin (pr_id p)"] by (auto simp: try_finalize_def Let_def split: prod.split)

lemma props_keep:
  assumes "P (bx_quorum b)" and vote: "\<And>j x v now q. P q \<Longrightarrow> P (voted (aq_vote j x v now q) q)"
    and fin: "\<And>j now q. P q \<Longrightarrow> P (fst (aq_finalize j now q))"
  shows "P (bx_quorum (fst (vote_props ask clk fn agents ps b)))"
  using assms(1)
proof (induction ps arbitrary: b)
  case (Cons p ps)
  obtain b1 ok where b1: "vote_agents ask clk p agents b = (b1, ok)" by fastforce
  obtain b2 fs where b2: "try_finalize fn p agents b1 = (b2, fs)" by fastforce
  have "P (bx_quorum b1)" using agents_keep [of P b ask clk p agents] Cons.prems vote by (simp add: b1)
  moreover from finalize_keep [of P b1 fn p agents] this fin have "P (bx_quorum b2)" by (simp add: b2)
  ultimately have "P (bx_quorum (fst (vote_props ask clk fn agents ps b2)))" "P (bx_quorum b1)" by (simp_all add: Cons.IH)
  moreover obtain b3 r where "vote_props ask clk fn agents ps b2 = (b3, r)" by fastforce
  ultimately show ?case using Cons.IH [OF Cons.prems] by (cases ok) (simp_all add: b1 b2)
qed simp

lemma turn_keep:
  assumes "P (bx_quorum b)" and "\<And>j x v now q. P q \<Longrightarrow> P (voted (aq_vote j x v now q) q)"
    and "\<And>j now q. P q \<Longrightarrow> P (fst (aq_finalize j now q))"
  shows "P (bx_quorum (take_turn t b))"
  using assms props_keep [of P b] by (auto simp: take_turn_def quorum_turn_def vote_on_pending_def)

lemma agent_vote_keep:
  assumes "P q" and "\<And>j x v now q. P q \<Longrightarrow> P (voted (aq_vote j x v now q) q)"
    and "\<And>j now q. P q \<Longrightarrow> P (fst (aq_finalize j now q))"
  shows "P (fst (vote_on_proposal i approve now now' q))"
proof (cases "aq_vote i ''agent'' approve now q")
  case (Inr r)
  obtain q' ok where r: "r = (q', ok)" by (cases r)
  have "P q'" using assms(2) [OF assms(1), of i "''agent''" approve now] by (simp add: voted_def Inr r)
  then show ?thesis using assms(1) assms(3) [of q' i now'] by (cases ok) (auto simp: vote_on_proposal_def Inr r Let_def split: prod.split)
qed (use assms(1) in \<open>simp add: vote_on_proposal_def\<close>)

lemma closed_step:
  "keeps_closed i a (bx_quorum b) \<Longrightarrow> \<not> proposes x i \<Longrightarrow> keeps_closed i a (bx_quorum (quorum_step x b))"
proof (cases x)
  case (QuTurn t)
  assume "keeps_closed i a (bx_quorum b)"
  then show ?thesis unfolding QuTurn quorum_step.simps by (rule turn_keep) (simp_all add: closed_vote closed_finalize)
next
  case (QuAgentVote j approve now now')
  assume "keeps_closed i a (bx_quorum b)"
  then have "keeps_closed i a (fst (vote_on_proposal j approve now now' (bx_quorum b)))"
    by (rule agent_vote_keep) (simp_all add: closed_vote closed_finalize)
  then show ?thesis by (simp add: QuAgentVote on_quorum_def)
qed (auto simp: on_quorum_def closed_propose closed_vote closed_finalize closed_withdraw)

lemma weak_step: "aq_weak (bx_quorum b) \<Longrightarrow> aq_weak (bx_quorum (quorum_step x b))"
proof (cases x)
  case (QuTurn t)
  assume "aq_weak (bx_quorum b)"
  then show ?thesis unfolding QuTurn quorum_step.simps by (rule turn_keep) (simp_all add: weak_vote weak_finalize)
next
  case (QuAgentVote j approve now now')
  assume "aq_weak (bx_quorum b)"
  then have "aq_weak (fst (vote_on_proposal j approve now now' (bx_quorum b)))"
    by (rule agent_vote_keep) (simp_all add: weak_vote weak_finalize)
  then show ?thesis by (simp add: QuAgentVote on_quorum_def)
qed (auto simp: on_quorum_def weak_propose weak_vote weak_finalize weak_withdraw)

interpretation quorum_life: lifecycle quorum_step "\<lambda>b. aq_weak (bx_quorum b)" "\<lambda>b i. content i (bx_quorum b)" "\<lambda>p. pr_status p \<noteq> PrPending" proposes
proof unfold_locales
  show "aq_weak (bx_quorum b) \<Longrightarrow> aq_weak (bx_quorum (quorum_step x b))" for b x by (rule weak_step)
  show "aq_weak (bx_quorum b) \<Longrightarrow> content i (bx_quorum b) = Some a \<Longrightarrow> pr_status a \<noteq> PrPending \<Longrightarrow> \<not> proposes x i
      \<Longrightarrow> content i (bx_quorum (quorum_step x b)) = Some a" for b i a x
    using closed_step [of i a b x] by (simp add: keeps_closed_def)
qed


section \<open>The promised supermajority\<close>

text \<open>
  One vote is enough. On a pending proposal nobody has voted on, a single call of \<open>vote_on_proposal\<close> by any agent, also by the
  proposer itself, decides it at once, and as the call says: no supermajority of the agents is asked for. The vote is entered under the name
  \<open>agent\<close>, whoever calls.
\<close>

theorem cq_one_vote_decides:
  assumes "aq_ok q" and "the_prop i (aq_lines q) = Some p" and "pr_status p = PrPending" and "pr_votes p = []" and "pr_required p = 1"
    and "starts_with ''prop-'' i" and "length i \<le> 50" and "0 < aq_pct q" and "aq_pct q \<le> 1"
  shows "snd (vote_on_proposal i approve now now' q) = VoteFinal approve
    \<and> (case aq_get i (fst (vote_on_proposal i approve now now' q)) of None \<Rightarrow> False
        | Some r \<Rightarrow> pr_status r = (if approve then PrApproved else PrRejected) \<and> pr_votes r = [(''agent'', Some approve)])"
proof -
  define q' where "q' = q\<lparr>aq_lines := upd_id i (with_vote ''agent'' approve) (aq_lines q),
    aq_history := aq_history q @ [\<lparr>vl_id = i, vl_voter = ''agent'', vl_vote = approve, vl_at = now\<rparr>]\<rparr>"
  define r where "r = with_vote ''agent'' approve p"
  have ok': "aq_ok q'" unfolding q'_def by (rule aq_ok_vote [OF assms(1)])
  have pid: "pr_id p = i" using the_prop_in [OF assms(2)] by simp
  have r: "the_prop i (aq_lines q') = Some r" by (simp add: q'_def the_prop_upd assms(2) pid r_def)
  have votes: "pr_votes r = [(''agent'', Some approve)]" "pr_status r = PrPending" "pr_required r = 1"
    using assms(3,4,5) by (simp_all add: r_def)
  have app: "approves (aq_pct q') r = approve"
    using votes assms(8,9) by (cases approve) (simp_all add: approves_def count_votes_def q'_def ex_bool_eq)
  note fin = aq_finalize_lines [OF ok' r votes(2), of now', unfolded app]
  have vote: "aq_vote i ''agent'' approve now q = Inr (q', True)"
    using assms(2) by (simp add: aq_vote_lines [OF assms(1)] q'_def)
  have status: "aq_voting_status i q' = (if approve then 1 else 0, if approve then 0 else 1, 0, Some PrPending)"
    using votes by (simp add: aq_voting_status_def aq_get_prop [OF ok'] r count_votes_def)
  define q2 where "q2 = q'\<lparr>aq_lines := upd_id i (closed_as (aq_pct q') now') (aq_lines q')\<rparr>"
  have "i \<noteq> []" using assms(6) by auto
  then have res: "vote_on_proposal i approve now now' q = (q2, VoteFinal approve)"
    using assms(6,7) by (simp add: vote_on_proposal_def vote status fin q2_def)
  have "aq_ok q2" unfolding q2_def by (rule aq_ok_closed [OF ok'])
  moreover have "the_prop i (aq_lines q2) = Some (closed_as (aq_pct q') now' r)"
    by (simp add: q2_def the_prop_upd r r_def pid)
  ultimately show ?thesis by (simp add: res aq_get_prop app votes(1))
qed

definition sample_quorum :: agent_quorum where
  "sample_quorum = aq_propose ''prop-1'' 0 ''builder'' ''capability'' ''New capability: parse'' (cap_payload ''parse'' ''parses'' ''def parse(): ...'') empty_quorum"

text \<open>
  A vote on a closed proposal is still recorded, and a later vote under the same name replaces the earlier one: a capability
  approved by one call stays approved although the next call has turned its only vote into a no.
\<close>

lemma cq_approved_without_yes:
  "let q1 = fst (vote_on_proposal ''prop-1'' True 1 2 sample_quorum); (q2, answer) = vote_on_proposal ''prop-1'' False 3 4 q1
   in answer = VoteOpen 0 1 \<and> cq_is_approved ''prop-1'' (Some q2) \<and> aq_voting_status ''prop-1'' q2 = (0, 1, 0, Some PrApproved)"
  by code_simp

text \<open>Witnesses: a round of two agents on two proposals, of which the model answers for one.\<close>

definition sample_box :: ballot_box where
  "sample_box = \<lparr>bx_quorum = aq_propose ''prop-2'' 5 ''scout'' ''policy'' ''Log less'' [] sample_quorum, bx_minds = []\<rparr>"

definition no_voice :: "string \<Rightarrow> prop_rec \<Rightarrow> string \<Rightarrow> string option" where
  "no_voice agent p summary = (if agent = ''analyst'' then Some '' No'' else None)"

lemma cq_round_decides_witness:
  "let b' = fst (vote_on_pending no_voice (\<lambda>_ _. 7) (\<lambda>_. 8) [''analyst'', ''builder''] sample_box)
   in aq_ok (bx_quorum b')
     \<and> (\<exists>r. aq_get ''prop-1'' (bx_quorum b') = Some r \<and> decided_by default_quorum [''analyst'', ''builder'']
          (hd (aq_lines (bx_quorum sample_box))) r)"
proof -
  obtain b' res where v: "vote_on_pending no_voice (\<lambda>_ _. 7) (\<lambda>_. 8) [''analyst'', ''builder''] sample_box = (b', res)" by fastforce
  have "aq_ok (bx_quorum sample_box)" by code_simp
  from cq_round_decides [OF this _ _ v] have ok: "aq_ok (bx_quorum b')" and
    all: "\<forall>p \<in> set (aq_lines (bx_quorum sample_box)).
          if p \<in> set (aq_pending 20 (bx_quorum sample_box)) \<and> is_cap p
          then \<exists>r. aq_get (pr_id p) (bx_quorum b') = Some r \<and> decided_by (aq_pct (bx_quorum sample_box)) [''analyst'', ''builder''] p r
          else aq_get (pr_id p) (bx_quorum b') = Some p" by simp_all
  define p where "p = hd (aq_lines (bx_quorum sample_box))"
  have "p \<in> set (aq_lines (bx_quorum sample_box))" "p \<in> set (aq_pending 20 (bx_quorum sample_box))" "is_cap p" "pr_id p = ''prop-1''"
    "aq_pct (bx_quorum sample_box) = default_quorum"
    unfolding p_def by code_simp+
  with all have "\<exists>r. aq_get ''prop-1'' (bx_quorum b') = Some r \<and> decided_by default_quorum [''analyst'', ''builder''] p r" by metis
  with ok show ?thesis by (simp add: v p_def)
qed

definition quiet_turn :: turn where
  "quiet_turn = \<lparr>tn_active = [''scout'', ''analyst''], tn_ask = (\<lambda>_ _ _. None), tn_clk = (\<lambda>_ _. 9), tn_fin = (\<lambda>_. 10)\<rparr>"

lemma cq_all_decided_witness:
  "open_props (bx_quorum (run_ops take_turn [quiet_turn] \<lparr>bx_quorum = sample_quorum, bx_minds = []\<rparr>)) = []"
proof (rule cq_all_decided)
  show "aq_ok (bx_quorum \<lparr>bx_quorum = sample_quorum, bx_minds = []\<rparr>)"
    "list_all is_cap (open_props (bx_quorum \<lparr>bx_quorum = sample_quorum, bx_minds = []\<rparr>))" by code_simp+
  show "length (open_props (bx_quorum \<lparr>bx_quorum = sample_quorum, bx_minds = []\<rparr>)) \<le> 20 * length [quiet_turn]" by code_simp
qed (simp add: quiet_turn_def)


lemma cq_one_vote_decides_witness:
  "snd (vote_on_proposal ''prop-1'' True 1 2 sample_quorum) = VoteFinal True
    \<and> (case aq_get ''prop-1'' (fst (vote_on_proposal ''prop-1'' True 1 2 sample_quorum)) of None \<Rightarrow> False
        | Some r \<Rightarrow> pr_status r = (if True then PrApproved else PrRejected) \<and> pr_votes r = [(''agent'', Some True)])"
proof (rule cq_one_vote_decides)
  show "aq_ok sample_quorum" by code_simp
  show "the_prop ''prop-1'' (aq_lines sample_quorum) = Some (hd (aq_lines sample_quorum))" by code_simp
  show "pr_status (hd (aq_lines sample_quorum)) = PrPending" "pr_votes (hd (aq_lines sample_quorum)) = []"
    "pr_required (hd (aq_lines sample_quorum)) = 1" "0 < aq_pct sample_quorum" "aq_pct sample_quorum \<le> 1" by code_simp+
qed simp_all

end
