(* ===== verification/Execution.thy ===== *)
theory Execution imports Suffering_Behaviour begin

text \<open>
  The execution engine, \<open>agents/execution_engine.py\<close>: the capabilities registered by name, with timeout, flags
  and implementation, and the log of their executions. An implementation is a value of any type; what calling it
  does (how long it takes, if it ends at all, and what comes out) and the names of its parameters are
  parameters of the model. What it returns is a JSON value, as the log is written with \<open>json.dumps\<close>. The lock of a
  capability by suffering is that of Suffering.

  The lemmas show that registrations stay, that a locked capability is not called, and what a timeout is worth.
\<close>

section \<open>The engine\<close>

datatype exec_status = ExSuccess | ExFailed | ExTimeout

record exec_ctx =
  ec_id :: string
  ec_agent :: string
  ec_cap :: string
  ec_params :: payload
  ec_result :: "pyval option"
  ec_error :: "pyval option"
  ec_status :: exec_status
  ec_duration :: rat
  ec_time :: time

record 'f engine =
  en_impls :: "(string, 'f) dict"
  en_timeouts :: "(string, rat) dict"
  en_approval :: "(string, bool) dict"
  en_enabled :: "(string, bool) dict"
  en_history :: "(string, exec_ctx list) dict"

definition new_engine :: "'f engine" where
  "new_engine = \<lparr>en_impls = [], en_timeouts = [], en_approval = [], en_enabled = [], en_history = []\<rparr>"

definition en_put :: "string \<Rightarrow> 'f \<Rightarrow> rat \<Rightarrow> bool \<Rightarrow> 'f engine \<Rightarrow> 'f engine" where
  "en_put cap f timeout approval e =
     e\<lparr>en_impls := dict_set cap f (en_impls e), en_timeouts := dict_set cap timeout (en_timeouts e),
       en_approval := dict_set cap approval (en_approval e), en_enabled := dict_set cap True (en_enabled e)\<rparr>"

definition en_register :: "string \<Rightarrow> 'f \<Rightarrow> rat \<Rightarrow> bool \<Rightarrow> 'f engine \<Rightarrow> 'f engine \<times> bool" where
  "en_register cap f timeout approval e =
     (if cap \<in> set (keys (en_impls e)) then (e, False) else (en_put cap f timeout approval e, True))"

definition en_set_enabled :: "bool \<Rightarrow> string \<Rightarrow> 'f engine \<Rightarrow> 'f engine \<times> bool" where
  "en_set_enabled on cap e =
     (if cap \<notin> set (keys (en_impls e)) then (e, False) else (e\<lparr>en_enabled := dict_set cap on (en_enabled e)\<rparr>, True))"

text \<open>\<open>disable_capability\<close> and \<open>enable_capability\<close>\<close>

definition en_disable :: "string \<Rightarrow> 'f engine \<Rightarrow> 'f engine \<times> bool" where
  "en_disable = en_set_enabled False"

definition en_enable :: "string \<Rightarrow> 'f engine \<Rightarrow> 'f engine \<times> bool" where
  "en_enable = en_set_enabled True"

definition en_list :: "'f engine \<Rightarrow> string list" where
  "en_list e = keys (en_impls e)"

section \<open>Calls\<close>

text \<open>What comes out of a call, and after how many milliseconds (\<open>None\<close>: it does not end).\<close>

datatype call_end = Returned pyval | RaisedTimeout | Raised string string

text \<open>
  \<open>accepts\<close>: the names of the parameters, or \<open>None\<close> for a function with \<open>**kwargs\<close>. Empty parameters are not
  passed at all, others are filtered.
\<close>

definition passed :: "string list option \<Rightarrow> payload \<Rightarrow> payload" where
  "passed accepts params =
     (case accepts of None \<Rightarrow> params | Some ps \<Rightarrow> if params = [] then [] else filter (\<lambda>(k, v). k \<in> set ps) params)"

definition timeout_text :: "rat \<Rightarrow> string" where
  "timeout_text timeout = ''Execution exceeded '' @ int_str \<lfloor>timeout\<rfloor> @ ''ms timeout''"

text \<open>
  The pool of the call is left only when the function has ended: the result is there after the function's own time,
  whatever the timeout says. Timeouts are whole milliseconds.
\<close>

definition call_with_timeout :: "('f \<Rightarrow> string list option) \<Rightarrow> ('f \<Rightarrow> payload \<Rightarrow> (rat \<times> call_end) option) \<Rightarrow> 'f \<Rightarrow> payload \<Rightarrow> rat
    \<Rightarrow> (rat \<times> call_end) option" where
  "call_with_timeout accepts call f params timeout =
     map_option (\<lambda>(d, out). (d, if timeout < d then RaisedTimeout else out)) (call f (passed (accepts f) params))"

text \<open>Result, error and status of an execution, from what came out of the call.\<close>

definition as_dict :: "pyval \<Rightarrow> (string \<times> pyval) list" where
  "as_dict v = (case v of PDict d \<Rightarrow> d | _ \<Rightarrow> [(''output'', v)])"

definition judge_outcome :: "rat \<Rightarrow> call_end \<Rightarrow> pyval option \<times> pyval option \<times> exec_status" where
  "judge_outcome timeout out =
     (case out of
        Returned v \<Rightarrow>
          (let d = as_dict v
           in if dict_get d ''ok'' = Some (PBool False)
              then (Some (PDict d), Some (dict_get_or (PStr ''capability returned ok=False'') d ''error''), ExFailed)
              else (Some (PDict d), None, ExSuccess))
      | RaisedTimeout \<Rightarrow> (None, Some (PStr (timeout_text timeout)), ExTimeout)
      | Raised msg tb \<Rightarrow> (Some (PDict [(''error'', PStr msg), (''traceback'', PStr tb)]), Some (PStr msg), ExFailed))"

datatype exec_answer =
    NotFound
  | Disabled
  | Locked string
  | Done "pyval option" exec_status

text \<open>The readings an execution draws: its id, the clock at its start and before the call.\<close>

record exec_draws =
  ed_id :: string
  ed_start :: time
  ed_now :: time

definition log_execution :: "string \<Rightarrow> exec_ctx \<Rightarrow> 'f engine \<Rightarrow> 'f engine" where
  "log_execution agent c e = e\<lparr>en_history := dict_set agent (dict_get_or [] (en_history e) agent @ [c]) (en_history e)\<rparr>"

text \<open>
  \<open>gate\<close> is the answer of \<open>get_capability_status\<close>, \<open>None\<close> if it raises. A flag or timeout that is missing is a
  \<open>KeyError\<close>. \<open>None\<close> as a whole: the call never returns.
\<close>

definition en_execute :: "('f \<Rightarrow> string list option) \<Rightarrow> ('f \<Rightarrow> payload \<Rightarrow> (rat \<times> call_end) option) \<Rightarrow> (bool \<times> string) option \<Rightarrow> exec_draws
    \<Rightarrow> string \<Rightarrow> string \<Rightarrow> payload \<Rightarrow> 'f engine \<Rightarrow> ('f engine \<times> (py_error + exec_answer)) option" where
  "en_execute accepts call gate d agent cap params e =
     (case dict_get (en_impls e) cap of None \<Rightarrow> Some (e, Inr NotFound)
      | Some f \<Rightarrow>
          (case dict_get (en_enabled e) cap of None \<Rightarrow> Some (e, Inl (KeyError cap))
           | Some False \<Rightarrow> Some (e, Inr Disabled)
           | Some True \<Rightarrow>
               (case dict_get (en_timeouts e) cap of None \<Rightarrow> Some (e, Inl (KeyError cap))
                | Some timeout \<Rightarrow>
                    if (case gate of None \<Rightarrow> False | Some (ok, _) \<Rightarrow> \<not> ok) then Some (e, Inr (Locked (snd (the gate))))
                    else (case call_with_timeout accepts call f params timeout of None \<Rightarrow> None
                          | Some (dur, out) \<Rightarrow>
                              let (result, err, status) = judge_outcome timeout out
                              in Some (log_execution agent \<lparr>ec_id = ed_id d, ec_agent = agent, ec_cap = cap, ec_params = params,
                                     ec_result = result, ec_error = err, ec_status = status,
                                     ec_duration = (ed_now d + dur / 1000 - ed_start d) * 1000, ec_time = ed_now d\<rparr> e,
                                   Inr (Done result status))))))"

section \<open>The log\<close>

definition en_get_history :: "string \<Rightarrow> int \<Rightarrow> 'f engine \<Rightarrow> exec_ctx list" where
  "en_get_history agent limit e = py_take limit (sort_key (\<lambda>c. - ec_time c) (dict_get_or [] (en_history e) agent))"

record exec_stats =
  es_total :: nat
  es_success :: nat
  es_rate :: rat
  es_failed :: nat
  es_average :: rat

definition count_state :: "exec_status \<Rightarrow> exec_ctx list \<Rightarrow> nat" where
  "count_state s cs = length (filter (\<lambda>c. ec_status c = s) cs)"

definition en_stats :: "string \<Rightarrow> 'f engine \<Rightarrow> exec_stats" where
  "en_stats agent e =
     (let h = en_get_history agent 1000 e; n = length h
      in if h = [] then \<lparr>es_total = 0, es_success = 0, es_rate = 0, es_failed = 0, es_average = 0\<rparr>
         else \<lparr>es_total = n, es_success = count_state ExSuccess h, es_rate = of_nat (count_state ExSuccess h) / of_nat n,
               es_failed = count_state ExFailed h, es_average = sum_list (map ec_duration h) / of_nat n\<rparr>)"

section \<open>Registrations\<close>

datatype 'f engine_op =
    EnRegister string 'f rat bool
  | EnDisable string
  | EnEnable string
  | EnExecute exec_draws "(bool \<times> string) option" string string payload

text \<open>An execution that does not return changes nothing.\<close>

fun engine_step :: "('f \<Rightarrow> string list option) \<Rightarrow> ('f \<Rightarrow> payload \<Rightarrow> (rat \<times> call_end) option) \<Rightarrow> 'f engine_op \<Rightarrow> 'f engine \<Rightarrow> 'f engine" where
  "engine_step accepts call (EnRegister cap f timeout approval) e = fst (en_register cap f timeout approval e)"
| "engine_step accepts call (EnDisable cap) e = fst (en_disable cap e)"
| "engine_step accepts call (EnEnable cap) e = fst (en_enable cap e)"
| "engine_step accepts call (EnExecute d gate agent cap params) e =
     (case en_execute accepts call gate d agent cap params e of None \<Rightarrow> e | Some (e', _) \<Rightarrow> e')"

definition en_ok :: "'f engine \<Rightarrow> bool" where
  "en_ok e =
     (set (keys (en_timeouts e)) = set (keys (en_impls e)) \<and> set (keys (en_approval e)) = set (keys (en_impls e))
      \<and> set (keys (en_enabled e)) = set (keys (en_impls e)))"

lemma dict_set_fst: "fst ` set (dict_set k v d) = insert k (fst ` set d)"
  using arg_cong [OF keys_set [of k v d], of set] by (auto split: if_splits)

lemma en_ok_put: "en_ok e \<Longrightarrow> en_ok (en_put cap f timeout approval e)"
  by (simp add: en_ok_def en_put_def dict_set_fst)

lemma en_ok_enabled: "en_ok e \<Longrightarrow> en_ok (fst (en_set_enabled on cap e))"
  by (auto simp: en_ok_def en_set_enabled_def dict_set_fst)

lemma en_ok_log: "en_ok (log_execution agent c e) = en_ok e"
  by (simp add: en_ok_def log_execution_def)

lemma execute_cases:
  assumes "en_execute accepts call gate d agent cap params e = Some (e', r)"
  shows "e' = e \<or> (\<exists>c. e' = log_execution agent c e)"
  using assms
  by (simp add: en_execute_def Let_def split: option.splits bool.splits if_split_asm prod.splits) blast+

lemma engine_step_ok: "en_ok e \<Longrightarrow> en_ok (engine_step accepts call x e)"
proof (cases x)
  case (EnExecute d gate agent cap params)
  assume "en_ok e"
  then show ?thesis using execute_cases [of accepts call gate d agent cap params e]
    by (cases "en_execute accepts call gate d agent cap params e") (auto simp: EnExecute en_ok_log)
qed (simp_all add: en_register_def en_ok_put en_disable_def en_enable_def en_ok_enabled)

lemma engine_step_keeps: "dict_get (en_impls e) cap = Some f \<Longrightarrow> dict_get (en_impls (engine_step accepts call x e)) cap = Some f"
proof (cases x)
  case (EnRegister c g timeout approval)
  assume "dict_get (en_impls e) cap = Some f"
  then show ?thesis using dict_get_None [of "en_impls e" c] by (auto simp: EnRegister en_register_def en_put_def)
next
  case (EnExecute d gate agent c params)
  assume "dict_get (en_impls e) cap = Some f"
  then show ?thesis using execute_cases [of accepts call gate d agent c params e]
    by (cases "en_execute accepts call gate d agent c params e") (auto simp: EnExecute log_execution_def)
qed (simp_all add: en_disable_def en_enable_def en_set_enabled_def)

interpretation engine_life: lifecycle "engine_step accepts call" en_ok "\<lambda>e cap. dict_get (en_impls e) cap" "\<lambda>_. True" "\<lambda>_ _. False"
  for accepts :: "'f \<Rightarrow> string list option" and call :: "'f \<Rightarrow> payload \<Rightarrow> (rat \<times> call_end) option"
  by unfold_locales (simp_all add: engine_step_ok engine_step_keeps)

text \<open>
  The first registration of a name wins and stays: whatever is registered, enabled, disabled and executed afterwards, the name keeps its
  implementation, and an execution never fails for want of a flag or a timeout.
\<close>

theorem en_first_registration_stays:
  assumes "en_ok e" and "cap \<notin> set (keys (en_impls e))"
  shows "dict_get (en_impls (run_ops (engine_step accepts call) xs (fst (en_register cap f timeout approval e)))) cap = Some f
    \<and> (case en_execute accepts call gate d agent cap' params (run_ops (engine_step accepts call) xs (fst (en_register cap f timeout approval e))) of
         None \<Rightarrow> True | Some (_, r) \<Rightarrow> \<not> isl r)"
proof -
  define e1 where "e1 = fst (en_register cap f timeout approval e)"
  have "dict_get (en_impls e1) cap = Some f" using assms(2) by (simp add: e1_def en_register_def en_put_def)
  moreover have ok1: "en_ok e1" using assms by (simp add: e1_def en_register_def en_ok_put)
  ultimately have impl: "dict_get (en_impls (run_ops (engine_step accepts call) xs e1)) cap = Some f"
    by (intro engine_life.final_run) (simp_all add: list_all_iff)
  define e2 where "e2 = run_ops (engine_step accepts call) xs e1"
  have ok2: "en_ok e2" unfolding e2_def by (rule engine_life.inv_run [OF ok1])
  have keys: "dict_get (en_impls e2) cap' = Some g \<Longrightarrow> dict_get (en_enabled e2) cap' \<noteq> None \<and> dict_get (en_timeouts e2) cap' \<noteq> None" for g
    using ok2 dict_get_None [of "en_enabled e2" cap'] dict_get_None [of "en_timeouts e2" cap'] dict_get_None [of "en_impls e2" cap']
    by (auto simp: en_ok_def)
  have "case en_execute accepts call gate d agent cap' params e2 of None \<Rightarrow> True | Some (_, r) \<Rightarrow> \<not> isl r"
    using keys by (auto simp: en_execute_def Let_def split: option.split bool.split prod.split)
  with impl show ?thesis by (simp add: e1_def e2_def)
qed

section \<open>Locks, timeouts and approvals\<close>

text \<open>A capability that can be executed.\<close>

definition callable :: "string \<Rightarrow> 'f \<Rightarrow> rat \<Rightarrow> 'f engine \<Rightarrow> bool" where
  "callable cap f timeout e =
     (en_ok e \<and> dict_get (en_enabled e) cap = Some True \<and> dict_get (en_timeouts e) cap = Some timeout
      \<and> (case dict_get (en_impls e) cap of None \<Rightarrow> False | Some g \<Rightarrow> g = f))"

lemma callable_execute:
  assumes "callable cap f timeout e" and "case gate of None \<Rightarrow> True | Some (ok, _) \<Rightarrow> ok"
  shows "en_execute accepts call gate d agent cap params e =
     (case call f (passed (accepts f) params) of None \<Rightarrow> None
      | Some (dur, out) \<Rightarrow>
          let (result, err, status) = judge_outcome timeout (if timeout < dur then RaisedTimeout else out)
          in Some (log_execution agent \<lparr>ec_id = ed_id d, ec_agent = agent, ec_cap = cap, ec_params = params,
                     ec_result = result, ec_error = err, ec_status = status,
                     ec_duration = (ed_now d + dur / 1000 - ed_start d) * 1000, ec_time = ed_now d\<rparr> e,
                   Inr (Done result status)))"
  using assms by (auto simp: callable_def en_execute_def call_with_timeout_def split: option.splits)

text \<open>
  C31: Suffering locks: at a load that reaches the threshold of a capability (for instance 0.75 for writing files), an
  execution of it is refused before anything is called or logged, whatever the implementation would do.
\<close>

theorem en_suffering_locks:
  assumes "callable cap f timeout e" and "dict_get load_lock_thresholds cap = Some threshold" and "threshold \<le> suf_load_sum s"
  shows "\<exists>why. en_execute accepts call (Some (capability_status agent v cap s)) d agent cap params e = Some (e, Inr (Locked why))"
proof -
  have "dict_get earned_capabilities cap = None"
    using assms(2) by (auto simp: load_lock_thresholds_def earned_capabilities_def split: if_splits)
  then obtain why where "capability_status agent v cap s = (False, why)"
    using assms(2,3) by (simp add: capability_status_def)
  with assms(1) show ?thesis by (auto simp: callable_def en_execute_def split: option.splits)
qed


text \<open>
  The flag that a capability needs an approval is recorded and never looked at: an execution answers the same whatever the flags are.
\<close>

theorem en_approval_ignored:
  "en_execute accepts call gate d agent cap params (e\<lparr>en_approval := flags\<rparr>) =
     map_option (map_prod (\<lambda>e'. e'\<lparr>en_approval := flags\<rparr>) (\<lambda>r. r)) (en_execute accepts call gate d agent cap params e)"
  by (simp add: en_execute_def log_execution_def Let_def split: option.split bool.split prod.split)

text \<open>
  The statistics add up: successes, failures and timeouts are the executions counted, which are at most the thousand latest, and
  the success rate is a share.
\<close>

theorem en_stats_add_up:
  "es_total (en_stats agent e) = es_success (en_stats agent e) + es_failed (en_stats agent e)
       + count_state ExTimeout (en_get_history agent 1000 e)
   \<and> es_total (en_stats agent e) = min 1000 (length (dict_get_or [] (en_history e) agent))
   \<and> 0 \<le> es_rate (en_stats agent e) \<and> es_rate (en_stats agent e) \<le> 1"
proof -
  define h where "h = en_get_history agent 1000 e"
  have "length h = count_state ExSuccess h + count_state ExFailed h + count_state ExTimeout h"
  proof -
    have "length cs = count_state ExSuccess cs + count_state ExFailed cs + count_state ExTimeout cs" for cs
      by (induction cs) (auto simp: count_state_def intro: exec_status.exhaust)
    then show ?thesis .
  qed
  moreover have "length h = min 1000 (length (dict_get_or [] (en_history e) agent))"
    by (simp add: h_def en_get_history_def)
  moreover have "count_state ExSuccess h \<le> length h" by (simp add: count_state_def)
  ultimately show ?thesis
    by (cases "h = []") (auto simp: en_stats_def h_def [symmetric] Let_def count_state_def divide_le_eq)
qed

section \<open>An engine with two capabilities\<close>

definition any_params :: "nat \<Rightarrow> string list option" where
  "any_params f = None"

text \<open>Capability 0 takes twenty seconds, the other one never ends.\<close>

definition slow :: "nat \<Rightarrow> payload \<Rightarrow> (rat \<times> call_end) option" where
  "slow f params = (if f = 0 then Some (20000, Returned (PStr ''late'')) else None)"

definition two_caps :: "nat engine" where
  "two_caps = fst (en_register ''watch'' 1 5000 False (fst (en_register ''fs_write'' 0 5000 True new_engine)))"

definition at_ten :: exec_draws where
  "at_ten = \<lparr>ed_id = ''exec-1'', ed_start = 10, ed_now = 10\<rparr>"

lemma two_caps_callable: "callable ''fs_write'' 0 5000 two_caps"
  by code_simp

lemma en_first_registration_stays_witness:
  "dict_get (en_impls (run_ops (engine_step any_params slow) [EnRegister ''fs_write'' 1 1 False, EnDisable ''fs_write''] two_caps)) ''fs_write''
     = Some 0"
proof -
  have "two_caps = fst (en_register ''watch'' 1 5000 False (fst (en_register ''fs_write'' 0 5000 True new_engine)))"
    by (simp add: two_caps_def)
  moreover have "en_ok (new_engine :: nat engine)" "''fs_write'' \<notin> set (keys (en_impls (new_engine :: nat engine)))"
    by (simp_all add: en_ok_def new_engine_def)
  from en_first_registration_stays [OF this, where xs = "[EnRegister ''watch'' 1 5000 False, EnRegister ''fs_write'' 1 1 False, EnDisable ''fs_write'']"
      and accepts = any_params and call = slow and f = 0 and timeout = 5000 and approval = True]
  have "dict_get (en_impls (run_ops (engine_step any_params slow)
      [EnRegister ''watch'' 1 5000 False, EnRegister ''fs_write'' 1 1 False, EnDisable ''fs_write'']
      (fst (en_register ''fs_write'' 0 5000 True new_engine)))) ''fs_write'' = Some 0" by blast
  ultimately show ?thesis by simp
qed

definition crushed :: suffering where
  "crushed = \<lparr>su_active = [\<lparr>sf_type = ''futility'', sf_desc = '''', sf_sev = 80 / 100, sf_onset = 0, sf_rate = 0, sf_cond = '''',
     sf_resolved = False, sf_resolved_at = None, sf_note = '''', sf_peak = 80 / 100\<rparr>], su_history = [], su_last = None, su_disk = None\<rparr>"

lemma en_suffering_locks_witness:
  "\<exists>why. en_execute any_params slow (Some (capability_status ''scout'' \<lparr>pv_calls = 0, pv_senders = [], pv_name = '''', pv_objectives = []\<rparr>
      ''fs_write'' crushed)) at_ten ''scout'' ''fs_write'' [] two_caps = Some (two_caps, Inr (Locked why))"
proof (rule en_suffering_locks [OF two_caps_callable])
  show "dict_get load_lock_thresholds ''fs_write'' = Some thr_dominant" by code_simp
  show "thr_dominant \<le> suf_load_sum crushed" by code_simp
qed


end
