(* ===== verification/Self_Mod.thy ===== *)
theory Self_Mod imports Quorum Execution "HOL-Library.List_Lexorder" "HOL-Library.Char_ord" begin

text \<open>
  Self modification, \<open>agents/self_modification.py\<close>, over the models of Quorum and Execution, with the quorum's part of
  the daemon's cycle: a gap of the agents' capabilities is filled by code of the language model, tried out, proposed to
  the quorum, and deployed into the engine once approved. The files of the class are dictionaries by agent or by
  proposal, the pending files in the order they were written; the tools directory maps a module's name to its text.
  Parameters: the answer of the language model, whether a text parses, what the test run says, the functions a module
  has after its import, and the helper functions put into every module. An execution engine is attached, a capability
  graph is not, as the daemon does it. The inputs and outputs of a test run are left out of its record.

  The lemmas show that nothing is deployed that was not approved, what is deployed nevertheless, and what becomes of
  the proposals.
\<close>

section \<open>Records\<close>

record gap =
  gp_id :: string
  gp_agent :: string
  gp_intent :: string
  gp_reason :: string
  gp_at :: time
  gp_status :: string
  gp_syn :: "string option"
  gp_dep :: "string option"

record synth =
  sy_id :: string
  sy_agent :: string
  sy_name :: string
  sy_desc :: string
  sy_input :: string
  sy_output :: string
  sy_sketch :: string
  sy_conf :: rat
  sy_code :: string
  sy_gap :: "string option"
  sy_at :: time

record test_result =
  te_id :: string
  te_syn :: string
  te_agent :: string
  te_passed :: nat
  te_failed :: nat
  te_rate :: rat
  te_at :: time

record deployment =
  dp_id :: string
  dp_agent :: string
  dp_syn :: string
  dp_cap :: string
  dp_name :: string
  dp_desc :: string
  dp_at :: time
  dp_runs :: nat

record pending_dep =
  pe_agent :: string
  pe_syn :: string
  pe_cap :: synth
  pe_at :: time

record 'f selfmod =
  sm_engine :: "'f engine"
  sm_attached :: bool
  sm_box :: ballot_box
  sm_gaps :: "(string, gap list) dict"
  sm_syns :: "(string, synth list) dict"
  sm_tests :: "(string, test_result list) dict"
  sm_deploys :: "(string, deployment list) dict"
  sm_pending :: "(string, pending_dep) dict"
  sm_tools :: "(string, string) dict"
  sm_ok :: "string list"
  sm_failed :: "string list"

text \<open>Python and the modules: \<open>pf_funs\<close> is \<open>None\<close> when the import of a text raises.\<close>

record 'f platform =
  pf_parses :: "string \<Rightarrow> bool"
  pf_smoke :: "string \<Rightarrow> string \<Rightarrow> bool"
  pf_funs :: "string \<Rightarrow> (string \<times> 'f) list option"
  pf_helpers :: "(string \<times> 'f) list"

definition log_append :: "string \<Rightarrow> 'a \<Rightarrow> (string, 'a list) dict \<Rightarrow> (string, 'a list) dict" where
  "log_append agent x d = dict_set agent (dict_get_or [] d agent @ [x]) d"

definition record_gap :: "string \<Rightarrow> gap \<Rightarrow> 'f selfmod \<Rightarrow> 'f selfmod" where
  "record_gap agent g s = s\<lparr>sm_gaps := log_append agent g (sm_gaps s)\<rparr>"

definition record_synthesis :: "string \<Rightarrow> synth \<Rightarrow> 'f selfmod \<Rightarrow> 'f selfmod" where
  "record_synthesis agent c s = s\<lparr>sm_syns := log_append agent c (sm_syns s)\<rparr>"

definition record_test :: "string \<Rightarrow> test_result \<Rightarrow> 'f selfmod \<Rightarrow> 'f selfmod" where
  "record_test agent r s = s\<lparr>sm_tests := log_append agent r (sm_tests s)\<rparr>"

definition record_deployment :: "string \<Rightarrow> deployment \<Rightarrow> 'f selfmod \<Rightarrow> 'f selfmod" where
  "record_deployment agent r s = s\<lparr>sm_deploys := log_append agent r (sm_deploys s)\<rparr>"

text \<open>\<open>_update_gap\<close>: the first line of the gap; empty ids are not written.\<close>

fun gap_first :: "string \<Rightarrow> (gap \<Rightarrow> gap) \<Rightarrow> gap list \<Rightarrow> gap list" where
  "gap_first i f [] = []"
| "gap_first i f (g # gs) = (if gp_id g = i then f g # gs else g # gap_first i f gs)"

definition update_gap :: "string \<Rightarrow> string \<Rightarrow> string \<Rightarrow> string \<Rightarrow> string \<Rightarrow> 'f selfmod \<Rightarrow> 'f selfmod" where
  "update_gap agent i status syn dep s =
     s\<lparr>sm_gaps := dict_upd agent
         (gap_first i (\<lambda>g. g\<lparr>gp_status := status, gp_syn := (if syn \<noteq> [] then Some syn else gp_syn g),
                             gp_dep := (if dep \<noteq> [] then Some dep else gp_dep g)\<rparr>)) (sm_gaps s)\<rparr>"

definition get_deployed :: "string \<Rightarrow> 'f selfmod \<Rightarrow> deployment list" where
  "get_deployed agent s = dict_get_or [] (sm_deploys s) agent"

definition get_syntheses :: "string \<Rightarrow> 'f selfmod \<Rightarrow> synth list" where
  "get_syntheses agent s = dict_get_or [] (sm_syns s) agent"

definition get_gaps :: "string \<Rightarrow> 'f selfmod \<Rightarrow> gap list" where
  "get_gaps agent s = dict_get_or [] (sm_gaps s) agent"

section \<open>Synthesis and test\<close>

definition synth_name :: "string \<Rightarrow> string" where
  "synth_name intent = ''synth_'' @ replace_char (CHR ''-'') (CHR ''_'') (take 30 (py_join ''_'' (take 3 (py_split (py_lower intent)))))"

definition fence :: string where
  "fence = replicate 3 (char_of (96 :: nat))"

text \<open>The model's answer, if there is one: without code fences, if it parses and names the function.\<close>

definition generated :: "'f platform \<Rightarrow> string option \<Rightarrow> string \<Rightarrow> string \<times> rat" where
  "generated pf answer name =
     (case answer of None \<Rightarrow> ([], 0)
      | Some txt \<Rightarrow>
          let raw = py_strip txt;
              code = (if starts_with fence raw
                      then py_strip (py_join nl (filter (\<lambda>l. \<not> starts_with fence l) (split_on nl [] raw))) else raw)
          in if \<not> pf_parses pf code then ([], 0)
             else if \<not> py_contains (''def '' @ name) code then ([], 0)
             else (code, 85 / 100))"

definition synthesize :: "'f platform \<Rightarrow> string option \<Rightarrow> string \<Rightarrow> string \<Rightarrow> string \<Rightarrow> string \<Rightarrow> time \<Rightarrow> synth" where
  "synthesize pf answer agent intent gap_id syn now =
     (let (code, conf) = generated pf answer (synth_name intent)
      in \<lparr>sy_id = syn, sy_agent = agent, sy_name = synth_name intent, sy_desc = ''synthesized: '' @ take 80 intent,
          sy_input = ''dict of parameters inferred from intent'',
          sy_output = ''{'' @ [char_of (34::nat)] @ ''ok'' @ [char_of (34::nat)] @ '': bool, '' @ [char_of (34::nat)] @ ''result'' @ [char_of (34::nat)] @ '': <value>}'',
          sy_sketch = (if code \<noteq> [] then code else ''# Capability to '' @ intent @ nl @ ''# TODO: implement logic''),
          sy_conf = conf, sy_code = code, sy_gap = Some gap_id, sy_at = now\<rparr>)"

text \<open>Without code the test counts as half a success; with code it is one smoke test.\<close>

definition test_capability :: "'f platform \<Rightarrow> string \<Rightarrow> string \<Rightarrow> synth \<Rightarrow> time \<Rightarrow> test_result" where
  "test_capability pf agent i c now =
     (let (p, f, r) = (if sy_code c = [] then (0, 0, 1 / 2) else if pf_smoke pf (sy_code c) (sy_name c) then (1, 0, 1) else (0, 1, 0))
      in \<lparr>te_id = i, te_syn = sy_id c, te_agent = agent, te_passed = p, te_failed = f, te_rate = r, te_at = now\<rparr>)"

section \<open>Deployment\<close>

definition stub_signals :: "string list" where
  "stub_signals = [''...'', ''pass'' @ nl @ ''    pass'', ''# TODO'', ''# placeholder'',
     ''{'' @ [char_of (34::nat)] @ ''ok'' @ [char_of (34::nat)] @ '': true'', ''raise NotImplementedError'']"

definition cap_id_of :: "string \<Rightarrow> string" where
  "cap_id_of syn = ''synth_'' @ take 8 syn"

text \<open>
  The public functions of a module, ordered by name: the helpers are put into it before its own text runs and
  count as its functions.
\<close>

definition public_funs :: "(string \<times> 'f) list \<Rightarrow> (string \<times> 'f) list \<Rightarrow> (string \<times> 'f) list" where
  "public_funs helpers own =
     filter (\<lambda>(n, f). \<not> starts_with ''_'' n) (sort_key fst (foldl (\<lambda>d (n, f). dict_set n f d) helpers own))"

definition module_text :: "string \<Rightarrow> string \<Rightarrow> string \<Rightarrow> string" where
  "module_text name desc code = ''# Auto-synthesized capability: '' @ name @ nl @ ''# Description: '' @ desc @ nl @ code"

text \<open>The function to register and its name: the one named like the capability, or else the first.\<close>

definition pick_fun :: "string \<Rightarrow> (string \<times> 'f) list \<Rightarrow> (string \<times> 'f) option" where
  "pick_fun name fs = (case filter (\<lambda>(n, f). n = name) fs of x # _ \<Rightarrow> Some x | [] \<Rightarrow> (case fs of [] \<Rightarrow> None | x # _ \<Rightarrow> Some x))"

text \<open>The module is written and imported; \<open>None\<close> when there is no code, it is refused or its import fails.\<close>

definition load_module :: "'f platform \<Rightarrow> string \<Rightarrow> string \<Rightarrow> string \<Rightarrow> string \<Rightarrow> 'f selfmod \<Rightarrow> 'f selfmod \<times> (string \<times> 'f) option" where
  "load_module pf cap name desc code s =
     (if code = [] then (s, None)
      else if list_ex (\<lambda>sig. py_contains sig code) stub_signals then (s, None)
      else if \<not> pf_parses pf code then (s, None)
      else let txt = module_text name desc code; s' = s\<lparr>sm_tools := dict_set cap txt (sm_tools s)\<rparr>
           in (s', case pf_funs pf txt of None \<Rightarrow> None | Some own \<Rightarrow> pick_fun name (public_funs (pf_helpers pf) own)))"

definition register_both :: "string \<Rightarrow> string \<Rightarrow> 'f \<Rightarrow> 'f engine \<Rightarrow> 'f engine" where
  "register_both cap fn f e =
     (let e' = fst (en_register cap f 5000 False e) in if fn \<noteq> cap then en_put fn f 10000 False e' else e')"

definition deploy :: "'f platform \<Rightarrow> string \<Rightarrow> time \<Rightarrow> string \<Rightarrow> string \<Rightarrow> string \<Rightarrow> string \<Rightarrow> string \<Rightarrow> 'f selfmod
    \<Rightarrow> 'f selfmod \<times> (string \<times> string) option" where
  "deploy pf dep now agent syn name desc code s =
     (case load_module pf (cap_id_of syn) name desc code s of
        (s', None) \<Rightarrow> (s', None)
      | (s', Some (fn, f)) \<Rightarrow>
          (record_deployment agent \<lparr>dp_id = dep, dp_agent = agent, dp_syn = syn, dp_cap = fn, dp_name = name, dp_desc = desc,
               dp_at = now, dp_runs = 0\<rparr> (s'\<lparr>sm_engine := register_both (cap_id_of syn) fn f (sm_engine s')\<rparr>), Some (dep, fn)))"

section \<open>A gap\<close>

text \<open>
  The ids and clock readings of one call, in the order they are drawn, and whether the quorum's files cannot be
  read (the submission then raises before it has written anything).
\<close>

record gap_draws =
  gd_gap :: string
  gd_syn :: string
  gd_test :: string
  gd_prop :: string
  gd_dep :: string
  gd_clk :: "nat \<Rightarrow> time"
  gd_raises :: bool

text \<open>An error of the submission is answered like a missing quorum.\<close>

definition propose_to_quorum :: "bool \<Rightarrow> string \<Rightarrow> time \<Rightarrow> string \<Rightarrow> string \<Rightarrow> synth \<Rightarrow> 'f selfmod \<Rightarrow> 'f selfmod \<times> string option" where
  "propose_to_quorum raises i now agent syn c s =
     (if \<not> sm_attached s \<or> raises then (s, None)
      else let (q, r) = cq_submit i now agent (cap_id_of syn)
                 (''New capability: '' @ sy_name c @ '' '' @ em_dash @ '' '' @ take 120 (sy_desc c)) (sy_code c) (Some (bx_quorum (sm_box s)))
           in (s\<lparr>sm_box := (sm_box s)\<lparr>bx_quorum := the q\<rparr>\<rparr>, r))"

definition process_gap :: "'f platform \<Rightarrow> string option \<Rightarrow> gap_draws \<Rightarrow> string \<Rightarrow> string \<Rightarrow> string \<Rightarrow> 'f selfmod
    \<Rightarrow> 'f selfmod \<times> bool \<times> string option" where
  "process_gap pf answer d agent intent reason s =
     (let s1 = record_gap agent \<lparr>gp_id = gd_gap d, gp_agent = agent, gp_intent = intent, gp_reason = reason, gp_at = gd_clk d 0,
                 gp_status = ''open'', gp_syn = None, gp_dep = None\<rparr> s;
          c = synthesize pf answer agent intent (gd_gap d) (gd_syn d) (gd_clk d 1);
          s2 = record_synthesis agent c s1;
          t = test_capability pf agent (gd_test d) c (gd_clk d 2);
          s3 = record_test agent t s2
      in if te_rate t < 1 / 2 then (s3, False, None)
         else (case propose_to_quorum (gd_raises d) (gd_prop d) (gd_clk d 3) agent (gd_syn d) c s3 of
                 (s4, Some pid) \<Rightarrow>
                   (s4\<lparr>sm_pending := dict_set pid \<lparr>pe_agent = agent, pe_syn = gd_syn d, pe_cap = c, pe_at = gd_clk d 4\<rparr> (sm_pending s4)\<rparr>,
                    False, None)
               | (s4, None) \<Rightarrow>
                   (case deploy pf (gd_dep d) (gd_clk d 3) agent (gd_syn d) (sy_name c) (sy_desc c) (sy_code c) s4 of
                      (s5, None) \<Rightarrow> (s5, False, None)
                    | (s5, Some (dep, fn)) \<Rightarrow> (update_gap agent (gd_gap d) ''deployed'' (gd_syn d) dep s5, True, Some fn))))"

section \<open>Deploying what was approved\<close>

text \<open>The ids and clock readings of the deployments, by proposal, of the two passes.\<close>

record flush_draws =
  fl_dep :: "string \<Rightarrow> string"
  fl_now :: "string \<Rightarrow> time"
  fl_dep2 :: "string \<Rightarrow> string"
  fl_now2 :: "string \<Rightarrow> time"

definition flush_pending :: "'f platform \<Rightarrow> flush_draws \<Rightarrow> 'f selfmod \<times> string list \<Rightarrow> string \<times> pending_dep \<Rightarrow> 'f selfmod \<times> string list" where
  "flush_pending pf d st x =
     (let (s, out) = st; (pid, pe) = x; c = pe_cap pe
      in if \<not> (sm_attached s \<and> cq_is_approved pid (Some (bx_quorum (sm_box s)))) then st
         else (case deploy pf (fl_dep d pid) (fl_now d pid) (pe_agent pe) (pe_syn pe) (sy_name c) (sy_desc c) (sy_code c) s of
                 (s', None) \<Rightarrow> (s'\<lparr>sm_pending := dict_del pid (sm_pending s')\<rparr>, out)
               | (s', Some (dep, fn)) \<Rightarrow>
                   let s'' = update_gap (pe_agent pe) (case sy_gap c of None \<Rightarrow> [] | Some g \<Rightarrow> g) ''deployed'' (pe_syn pe) dep s'
                   in (s''\<lparr>sm_pending := dict_del pid (sm_pending s'')\<rparr>, out @ [fn])))"

definition still_there :: "prop_rec \<Rightarrow> 'f selfmod \<Rightarrow> bool" where
  "still_there p s =
     (let pl = pr_payload p
      in list_ex (\<lambda>x. x \<in> set (keys (sm_tools s))) [cap_id_of (payload_text ''synthesis_id'' (pr_id p) pl), payload_text ''cap_id'' [] pl])"

definition flush_approved :: "'f platform \<Rightarrow> flush_draws \<Rightarrow> 'f selfmod \<times> string list \<Rightarrow> prop_rec \<Rightarrow> 'f selfmod \<times> string list" where
  "flush_approved pf d st p =
     (let (s, out) = st; pid = pr_id p; pl = pr_payload p
      in if pr_type p \<noteq> ''capability'' \<or> pr_status p \<noteq> PrApproved then st
         else if pid \<in> set (sm_failed s) then st
         else if pid \<in> set (sm_ok s) \<and> still_there p s then st
         else (case deploy pf (fl_dep2 d pid) (fl_now2 d pid) (payload_text ''agent_id'' ''root'' pl)
                      (payload_text ''synthesis_id'' pid pl) (payload_text ''cap_id'' (''synth_'' @ take 8 pid) pl)
                      (payload_text ''description'' (pr_desc p) pl) (payload_text ''implementation_code'' [] pl) s of
                 (s', None) \<Rightarrow> (s'\<lparr>sm_failed := List.insert pid (sm_failed s')\<rparr>, out)
               | (s', Some (dep, fn)) \<Rightarrow> (s'\<lparr>sm_ok := List.insert pid (sm_ok s')\<rparr>, out @ [fn])))"

definition flush_approved_proposals :: "'f platform \<Rightarrow> flush_draws \<Rightarrow> 'f selfmod \<Rightarrow> 'f selfmod \<times> string list" where
  "flush_approved_proposals pf d s =
     (let st = foldl (flush_pending pf d) (s, []) (sm_pending s)
      in foldl (flush_approved pf d) st (aq_lines (bx_quorum (sm_box (fst st)))))"

text \<open>The daemon's cycle: with active agents, a round of votes and then the deployments.\<close>

definition govern_turn :: "'f platform \<Rightarrow> flush_draws \<Rightarrow> turn \<Rightarrow> 'f selfmod \<Rightarrow> 'f selfmod" where
  "govern_turn pf d t s =
     (if tn_active t = [] then s
      else fst (flush_approved_proposals pf d (s\<lparr>sm_box := take_turn t (sm_box s)\<rparr>)))"

section \<open>Nothing without an approval\<close>

text \<open>What the operations of the quorum keep of a proposal that is not proposed again: its payload, its type, an approval.\<close>

definition stands :: "string \<Rightarrow> payload \<Rightarrow> string \<Rightarrow> bool \<Rightarrow> agent_quorum \<Rightarrow> bool" where
  "stands i pl ty ap q =
     (aq_weak q \<and> (case aq_get i q of None \<Rightarrow> False
        | Some p \<Rightarrow> pr_payload p = pl \<and> pr_type p = ty \<and> (if ap then pr_status p = PrApproved else True)))"

lemma stands_vote: "stands i pl ty ap q \<Longrightarrow> stands i pl ty ap (voted (aq_vote j a v now q) q)"
proof -
  assume s: "stands i pl ty ap q"
  then have w: "aq_weak q" by (simp add: stands_def)
  have "content i (voted (aq_vote j a v now q) q) = content i q" by (rule content_vote [OF w])
  then have "map_option (\<lambda>p. (pr_payload p, pr_type p, pr_status p)) (aq_get i (voted (aq_vote j a v now q) q))
      = map_option (\<lambda>p. (pr_payload p, pr_type p, pr_status p)) (aq_get i q)"
    by (auto simp: content_def) (cases "aq_get i q"; cases "aq_get i (voted (aq_vote j a v now q) q)"; auto dest!: arg_cong [where f = "\<lambda>p. (pr_payload p, pr_type p, pr_status p)"])
  with s show ?thesis using weak_vote [OF w, of j a v now]
    by (auto simp: stands_def split: option.splits)
qed

lemma stands_finalize: "stands i pl ty ap q \<Longrightarrow> stands i pl ty ap (fst (aq_finalize j now q))"
  by (auto simp: stands_def weak_finalize) (auto simp: aq_finalize_def Let_def get_set split: option.splits if_splits)

lemma stands_withdraw: "stands i pl ty ap q \<Longrightarrow> stands i pl ty ap (fst (aq_withdraw j who q))"
  by (auto simp: stands_def weak_withdraw) (auto simp: aq_withdraw_def get_set split: option.splits if_splits)

lemma stands_propose: "stands i pl ty ap q \<Longrightarrow> j \<noteq> i \<Longrightarrow> stands i pl ty ap (aq_propose j now proposer type desc pl' q)"
  by (auto simp: stands_def weak_propose) (auto simp: aq_get_def aq_propose_def Let_def nth_append split: option.splits if_splits)

lemma stands_step: "stands i pl ty ap (bx_quorum b) \<Longrightarrow> \<not> proposes x i \<Longrightarrow> stands i pl ty ap (bx_quorum (quorum_step x b))"
proof (cases x)
  case (QuTurn t)
  assume "stands i pl ty ap (bx_quorum b)"
  then show ?thesis unfolding QuTurn quorum_step.simps by (rule turn_keep) (simp_all add: stands_vote stands_finalize)
next
  case (QuAgentVote j approve now now')
  assume "stands i pl ty ap (bx_quorum b)"
  then have "stands i pl ty ap (fst (vote_on_proposal j approve now now' (bx_quorum b)))"
    by (rule agent_vote_keep) (simp_all add: stands_vote stands_finalize)
  then show ?thesis by (simp add: QuAgentVote on_quorum_def)
qed (auto simp: on_quorum_def stands_propose stands_vote stands_finalize stands_withdraw)

text \<open>The file keeps its ids, but for new proposals.\<close>

definition filed :: "string list \<Rightarrow> agent_quorum \<Rightarrow> bool" where
  "filed ids q = (aq_ok q \<and> map pr_id (aq_lines q) = ids)"

lemma filed_vote: "filed ids q \<Longrightarrow> filed ids (voted (aq_vote j a v now q) q)"
proof -
  assume f: "filed ids q"
  then have ok: "aq_ok q" by (simp add: filed_def)
  show ?thesis using f by (simp add: filed_def voted_def aq_vote_lines [OF ok] upd_id_ids aq_ok_vote [OF ok])
qed

lemma filed_finalize: "filed ids q \<Longrightarrow> filed ids (fst (aq_finalize j now q))"
proof -
  assume f: "filed ids q"
  then have ok: "aq_ok q" by (simp add: filed_def)
  show ?thesis
  proof (cases "the_prop j (aq_lines q)")
    case None
    then show ?thesis using f by (simp add: aq_finalize_def aq_get_prop [OF ok])
  next
    case (Some p)
    then show ?thesis using f aq_ok_closed [OF ok] aq_finalize_lines [OF ok Some]
      by (cases "pr_status p = PrPending") (simp_all add: filed_def upd_id_ids, simp add: aq_finalize_def aq_get_prop [OF ok])
  qed
qed

lemma filed_withdraw: "filed ids q \<Longrightarrow> filed ids (fst (aq_withdraw j who q))"
proof -
  assume f: "filed ids q"
  then have ok: "aq_ok q" by (simp add: filed_def)
  have "aq_ok (q\<lparr>aq_lines := upd_id j (\<lambda>p. p\<lparr>pr_status := PrWithdrawn\<rparr>) (aq_lines q)\<rparr>)"
    by (rule aq_ok_upd [OF ok]) (simp_all add: votes_ok_def)
  then show ?thesis using f by (simp add: aq_withdraw_def filed_def aq_set_lines [OF ok] upd_id_ids split: option.split)
qed

lemma filed_propose: "filed ids q \<Longrightarrow> i \<notin> set ids \<Longrightarrow> filed (ids @ [i]) (aq_propose i now proposer type desc pl q)"
proof -
  assume f: "filed ids q" and new: "i \<notin> set ids"
  then have "dict_set i (length (aq_lines q)) (aq_index q) = aq_index q @ [(i, length (aq_lines q))]"
    by (intro dict_set_new) (auto simp: filed_def aq_ok_def in_set_enumerate_eq)
  with f new show ?thesis
    by (auto simp: filed_def aq_propose_def Let_def aq_ok_def new_proposal_def enumerate_append_eq votes_ok_def)
qed

fun proposed :: "quorum_op \<Rightarrow> string list" where
  "proposed (QuPropose i now proposer type desc pl) = [i]"
| "proposed x = []"

lemma filed_step: "filed ids (bx_quorum b) \<Longrightarrow> set (proposed x) \<inter> set ids = {} \<Longrightarrow> filed (ids @ proposed x) (bx_quorum (quorum_step x b))"
proof (cases x)
  case (QuTurn t)
  assume "filed ids (bx_quorum b)"
  then show ?thesis unfolding QuTurn quorum_step.simps proposed.simps append_Nil2 by (rule turn_keep) (simp_all add: filed_vote filed_finalize)
next
  case (QuAgentVote j approve now now')
  assume "filed ids (bx_quorum b)"
  then have "filed ids (fst (vote_on_proposal j approve now now' (bx_quorum b)))"
    by (rule agent_vote_keep) (simp_all add: filed_vote filed_finalize)
  then show ?thesis by (simp add: QuAgentVote on_quorum_def)
qed (auto simp: on_quorum_def filed_propose filed_vote filed_finalize filed_withdraw)

lemma aq_ok_weak: "aq_ok q \<Longrightarrow> aq_weak q"
  by (auto simp: aq_ok_def aq_weak_def list_all_iff in_set_enumerate_eq)

lemma proposes_proposed: "proposes x i \<longleftrightarrow> i \<in> set (proposed x)"
  by (cases x) auto

text \<open>A proposal that backs what was synthesized under an id; approved, if asked for.\<close>

definition backs :: "bool \<Rightarrow> string \<Rightarrow> string \<Rightarrow> prop_rec \<Rightarrow> bool" where
  "backs ap pid syn p =
     (pr_type p = ''capability'' \<and> (if ap then pr_status p = PrApproved else True)
      \<and> (payload_text ''cap_id'' [] (pr_payload p) = cap_id_of syn \<or> payload_text ''synthesis_id'' pid (pr_payload p) = syn))"

definition backed :: "bool \<Rightarrow> string \<Rightarrow> agent_quorum \<Rightarrow> bool" where
  "backed ap syn q = list_ex (\<lambda>pid. case aq_get pid q of None \<Rightarrow> False | Some p \<Rightarrow> backs ap pid syn p) (map pr_id (aq_lines q))"

lemma backedI: "aq_ok q \<Longrightarrow> aq_get pid q = Some p \<Longrightarrow> backs ap pid syn p \<Longrightarrow> backed ap syn q"
  using the_prop_in [of pid "aq_lines q" p] by (auto simp: backed_def list_ex_iff aq_get_prop intro!: bexI [of _ p])

lemma backed_step:
  assumes "backed ap syn (bx_quorum b)" and "filed ids (bx_quorum b)" and "set (proposed x) \<inter> set ids = {}"
  shows "backed ap syn (bx_quorum (quorum_step x b))"
proof -
  obtain pid p where p: "aq_get pid (bx_quorum b) = Some p" "backs ap pid syn p" "pid \<in> set ids"
    using assms(1,2) by (auto simp: backed_def list_ex_iff filed_def split: option.splits)
  have "stands pid (pr_payload p) ''capability'' ap (bx_quorum b)"
    using p assms(2) by (simp add: stands_def backs_def filed_def aq_ok_weak)
  moreover have "\<not> proposes x pid" using p(3) assms(3) by (auto simp: proposes_proposed)
  ultimately have "stands pid (pr_payload p) ''capability'' ap (bx_quorum (quorum_step x b))" by (rule stands_step)
  then obtain p' where p': "aq_get pid (bx_quorum (quorum_step x b)) = Some p'" "pr_payload p' = pr_payload p"
    "pr_type p' = ''capability''" "ap \<longrightarrow> pr_status p' = PrApproved" by (auto simp: stands_def split: option.splits)
  then have "backs ap pid syn p'" using p(2) by (auto simp: backs_def)
  moreover have "aq_ok (bx_quorum (quorum_step x b))" using filed_step [OF assms(2,3)] by (simp add: filed_def)
  ultimately show ?thesis using backedI p'(1) by blast
qed

definition pend_ok :: "agent_quorum \<Rightarrow> string \<times> pending_dep \<Rightarrow> bool" where
  "pend_ok q x =
     (case aq_get (fst x) q of None \<Rightarrow> False
      | Some p \<Rightarrow> pr_type p = ''capability'' \<and> payload_text ''cap_id'' [] (pr_payload p) = cap_id_of (pe_syn (snd x)))"

lemma pend_ok_step:
  assumes "pend_ok (bx_quorum b) y" and "filed ids (bx_quorum b)" and "set (proposed x) \<inter> set ids = {}"
  shows "pend_ok (bx_quorum (quorum_step x b)) y"
proof -
  obtain p where p: "aq_get (fst y) (bx_quorum b) = Some p" "pr_type p = ''capability''"
    "payload_text ''cap_id'' [] (pr_payload p) = cap_id_of (pe_syn (snd y))"
    using assms(1) by (auto simp: pend_ok_def split: option.splits)
  have "fst y \<in> set ids" using p(1) assms(2) the_prop_in [of "fst y" "aq_lines (bx_quorum b)" p] by (auto simp: filed_def aq_get_prop image_iff intro!: bexI [of _ p])
  then have "\<not> proposes x (fst y)" using assms(3) by (auto simp: proposes_proposed)
  moreover have "stands (fst y) (pr_payload p) ''capability'' False (bx_quorum b)"
    using p assms(2) by (simp add: stands_def filed_def aq_ok_weak)
  ultimately have "stands (fst y) (pr_payload p) ''capability'' False (bx_quorum (quorum_step x b))" by (intro stands_step)
  then show ?thesis using p(3) by (auto simp: stands_def pend_ok_def split: option.splits)
qed

text \<open>
  The invariant: pending files belong to proposals, every deployment is backed by an approved proposal, and the engine has no
  names but the given ones and those of deployments.
\<close>

definition deployed_name :: "string \<Rightarrow> deployment \<Rightarrow> bool" where
  "deployed_name n d = (n = dp_cap d \<or> n = cap_id_of (dp_syn d))"

definition all_deploys :: "'f selfmod \<Rightarrow> deployment list" where
  "all_deploys s = concat (vals (sm_deploys s))"

definition sound :: "string list \<Rightarrow> string list \<Rightarrow> 'f selfmod \<Rightarrow> bool" where
  "sound names ids s =
     (sm_attached s \<and> filed ids (bx_quorum (sm_box s)) \<and> wf_dict (sm_deploys s)
      \<and> list_all (pend_ok (bx_quorum (sm_box s))) (sm_pending s)
      \<and> list_all (\<lambda>d. backed True (dp_syn d) (bx_quorum (sm_box s))) (all_deploys s)
      \<and> list_all (\<lambda>n. n \<in> set names \<or> list_ex (deployed_name n) (all_deploys s)) (keys (en_impls (sm_engine s))))"

lemma log_append_all: "wf_dict d \<Longrightarrow> set (concat (vals (log_append k x d))) = insert x (set (concat (vals d))) \<and> wf_dict (log_append k x d)"
proof (induction d)
  case (Cons p d)
  obtain k' v where p: "p = (k', v)" by (cases p)
  from Cons have d: "wf_dict d" "k' \<notin> fst ` set d" by (auto simp: wf_dict_def p)
  show ?case
  proof (cases "k' = k")
    case False
    then have "log_append k x (p # d) = p # log_append k x d" by (simp add: log_append_def dict_get_or_def p)
    with Cons.IH [OF d(1)] d(2) False show ?thesis
      by (auto simp: wf_dict_def p log_append_def dict_set_fst)
  qed (use d in \<open>auto simp: wf_dict_def p log_append_def dict_get_or_def\<close>)
qed (simp add: log_append_def dict_get_or_def wf_dict_def)

lemma register_both_keys: "set (keys (en_impls (register_both cap fn f e))) \<subseteq> insert cap (insert fn (set (keys (en_impls e))))"
  by (auto simp: register_both_def Let_def en_register_def en_put_def dict_set_fst)

lemma load_module_same:
  "fst (load_module pf cap name desc code s) = s \<or> (\<exists>t. fst (load_module pf cap name desc code s) = s\<lparr>sm_tools := t\<rparr>)"
  by (auto simp: load_module_def Let_def)

lemma sound_deploy:
  assumes s: "sound names ids s" and b: "backed True syn (bx_quorum (sm_box s))"
  shows "sound names ids (fst (deploy pf dep now agent syn name desc code s))"
    and "sm_box (fst (deploy pf dep now agent syn name desc code s)) = sm_box s"
    and "sm_pending (fst (deploy pf dep now agent syn name desc code s)) = sm_pending s"
proof -
  obtain s1 r where l: "load_module pf (cap_id_of syn) name desc code s = (s1, r)" by fastforce
  have s1: "s1 = s \<or> (\<exists>t. s1 = s\<lparr>sm_tools := t\<rparr>)" using load_module_same [of pf "cap_id_of syn" name desc code s] by (simp add: l)
  then have same: "sm_box s1 = sm_box s" "sm_pending s1 = sm_pending s" "sm_engine s1 = sm_engine s" "sm_deploys s1 = sm_deploys s"
    "sm_attached s1 = sm_attached s" by auto
  have sound1: "sound names ids s1" using s same by (simp add: sound_def all_deploys_def)
  show "sm_box (fst (deploy pf dep now agent syn name desc code s)) = sm_box s"
    and "sm_pending (fst (deploy pf dep now agent syn name desc code s)) = sm_pending s"
    using same by (cases r; auto simp: deploy_def l record_deployment_def)+
  show "sound names ids (fst (deploy pf dep now agent syn name desc code s))"
  proof (cases r)
    case None
    then show ?thesis using sound1 by (simp add: deploy_def l)
  next
    case (Some x)
    obtain fn f where x: "x = (fn, f)" by (cases x)
    define rec where "rec = \<lparr>dp_id = dep, dp_agent = agent, dp_syn = syn, dp_cap = fn, dp_name = name, dp_desc = desc, dp_at = now, dp_runs = 0\<rparr>"
    have e: "fst (deploy pf dep now agent syn name desc code s) =
        record_deployment agent rec (s1\<lparr>sm_engine := register_both (cap_id_of syn) fn f (sm_engine s1)\<rparr>)"
      by (simp add: deploy_def l Some x rec_def)
    have wf: "wf_dict (sm_deploys s1)" using sound1 by (simp add: sound_def)
    have all: "set (all_deploys (record_deployment agent rec (s1\<lparr>sm_engine := E\<rparr>))) = insert rec (set (all_deploys s1))" for E
      using log_append_all [OF wf, of agent rec] by (simp add: all_deploys_def record_deployment_def)
    have wf': "wf_dict (sm_deploys (record_deployment agent rec (s1\<lparr>sm_engine := E\<rparr>)))" for E
      using log_append_all [OF wf, of agent rec] by (simp add: record_deployment_def)
    have keys: "n = cap_id_of syn \<or> n = fn \<or> n \<in> set (keys (en_impls (sm_engine s1)))"
      if "n \<in> set (keys (en_impls (register_both (cap_id_of syn) fn f (sm_engine s1))))" for n
      using register_both_keys [of "cap_id_of syn" fn f "sm_engine s1"] that by blast
    have new: "n \<in> set names \<or> (\<exists>d \<in> insert rec (set (all_deploys s1)). deployed_name n d)"
      if "n \<in> set (keys (en_impls (register_both (cap_id_of syn) fn f (sm_engine s1))))" for n
      using keys [OF that] sound1 by (auto simp: sound_def list_all_iff list_ex_iff deployed_name_def rec_def)
    have "backed True (dp_syn d) (bx_quorum (sm_box s))" if "d \<in> insert rec (set (all_deploys s1))" for d
      using that sound1 same b by (auto simp: sound_def list_all_iff rec_def)
    then show ?thesis unfolding e sound_def list_all_iff list_ex_iff all
      using sound1 wf' same new by (auto simp: sound_def record_deployment_def list_all_iff)
  qed
qed

lemma backs_pending: "pend_ok q (pid, pe) \<Longrightarrow> cq_is_approved pid (Some q) \<Longrightarrow> aq_ok q \<Longrightarrow> backed True (pe_syn pe) q"
  using backedI [of q pid _ True "pe_syn pe"]
  by (auto simp: pend_ok_def cq_is_approved_def backs_def split: option.splits)

lemma sound_gap: "sound names ids s \<Longrightarrow> sound names ids (update_gap agent i status syn dep s)"
  by (simp add: sound_def update_gap_def all_deploys_def)

lemma sound_unlink: "sound names ids s \<Longrightarrow> sound names ids (s\<lparr>sm_pending := dict_del pid (sm_pending s)\<rparr>)"
  by (auto simp: sound_def all_deploys_def list_all_iff AList.delete_eq)

lemma sound_flush_pending:
  assumes "sound names ids s" and "pend_ok (bx_quorum (sm_box s)) x"
  shows "sound names ids (fst (flush_pending pf d (s, out) x)) \<and> sm_box (fst (flush_pending pf d (s, out) x)) = sm_box s"
proof -
  obtain pid pe where x: "x = (pid, pe)" by (cases x)
  show ?thesis
  proof (cases "cq_is_approved pid (Some (bx_quorum (sm_box s)))")
    case True
    have "backed True (pe_syn pe) (bx_quorum (sm_box s))"
      using backs_pending [of _ pid pe] assms True by (auto simp: x sound_def filed_def)
    note dep = sound_deploy [OF assms(1) this, of pf "fl_dep d pid" "fl_now d pid" "pe_agent pe" "sy_name (pe_cap pe)" "sy_desc (pe_cap pe)" "sy_code (pe_cap pe)"]
    obtain s' r where r: "deploy pf (fl_dep d pid) (fl_now d pid) (pe_agent pe) (pe_syn pe) (sy_name (pe_cap pe)) (sy_desc (pe_cap pe))
        (sy_code (pe_cap pe)) s = (s', r)" by fastforce
    from dep have s': "sound names ids s'" "sm_box s' = sm_box s" by (simp_all add: r)
    show ?thesis using assms(1) s' sound_unlink [OF s'(1)] sound_unlink [OF sound_gap [OF s'(1)]]
      by (cases r) (auto simp: flush_pending_def x r Let_def update_gap_def)
  qed (use assms(1) in \<open>simp add: flush_pending_def x\<close>)
qed

lemma sound_flush_pendings:
  "sound names ids s \<Longrightarrow> list_all (pend_ok (bx_quorum (sm_box s))) xs
    \<Longrightarrow> sound names ids (fst (foldl (flush_pending pf d) (s, out) xs)) \<and> sm_box (fst (foldl (flush_pending pf d) (s, out) xs)) = sm_box s"
proof (induction xs arbitrary: s out)
  case (Cons x xs)
  obtain s' out' where st: "flush_pending pf d (s, out) x = (s', out')" by fastforce
  from sound_flush_pending [OF Cons.prems(1), of x pf d out] Cons.prems(2) have "sound names ids s'" "sm_box s' = sm_box s"
    by (simp_all add: st)
  with Cons.IH [of s' out'] Cons.prems(2) show ?case by (simp add: st)
qed simp

lemma sound_flush_approved:
  assumes "sound names ids s" and "p \<in> set (aq_lines (bx_quorum (sm_box s)))"
  shows "sound names ids (fst (flush_approved pf d (s, out) p)) \<and> sm_box (fst (flush_approved pf d (s, out) p)) = sm_box s"
proof (cases "pr_type p = ''capability'' \<and> pr_status p = PrApproved")
  case True
  let ?syn = "payload_text ''synthesis_id'' (pr_id p) (pr_payload p)"
  have ok: "aq_ok (bx_quorum (sm_box s))" using assms(1) by (simp add: sound_def filed_def)
  have "aq_get (pr_id p) (bx_quorum (sm_box s)) = Some p"
    by (simp add: aq_get_prop [OF ok] in_the_prop [OF aq_ok_distinct [OF ok] assms(2)])
  then have "backed True ?syn (bx_quorum (sm_box s))" by (rule backedI [OF ok]) (simp add: backs_def True)
  note dep = sound_deploy [OF assms(1) this, of pf "fl_dep2 d (pr_id p)" "fl_now2 d (pr_id p)" "payload_text ''agent_id'' ''root'' (pr_payload p)"
    "payload_text ''cap_id'' (''synth_'' @ take 8 (pr_id p)) (pr_payload p)" "payload_text ''description'' (pr_desc p) (pr_payload p)"
    "payload_text ''implementation_code'' [] (pr_payload p)"]
  have keep: "sound names ids (s'\<lparr>sm_failed := fl\<rparr>)" "sound names ids (s'\<lparr>sm_ok := fl\<rparr>)" if "sound names ids s'" for s' fl
    using that by (simp_all add: sound_def all_deploys_def)
  show ?thesis using dep assms(1) keep
    by (auto simp: flush_approved_def Let_def split: prod.split option.split)
qed (use assms(1) in \<open>auto simp: flush_approved_def\<close>)

lemma sound_flush_all:
  "sound names ids s \<Longrightarrow> set ps \<subseteq> set (aq_lines (bx_quorum (sm_box s)))
    \<Longrightarrow> sound names ids (fst (foldl (flush_approved pf d) (s, out) ps)) \<and> sm_box (fst (foldl (flush_approved pf d) (s, out) ps)) = sm_box s"
proof (induction ps arbitrary: s out)
  case (Cons p ps)
  obtain s' out' where st: "flush_approved pf d (s, out) p = (s', out')" by fastforce
  from sound_flush_approved [OF Cons.prems(1), of p pf d out] Cons.prems(2) have "sound names ids s'" "sm_box s' = sm_box s"
    by (simp_all add: st)
  with Cons.IH [of s' out'] Cons.prems(2) show ?case by (simp add: st)
qed simp

lemma sound_flush: "sound names ids s \<Longrightarrow> sound names ids (fst (flush_approved_proposals pf d s))"
proof -
  assume s: "sound names ids s"
  obtain s1 out where st: "foldl (flush_pending pf d) (s, []) (sm_pending s) = (s1, out)" by fastforce
  have "list_all (pend_ok (bx_quorum (sm_box s))) (sm_pending s)" using s by (simp add: sound_def)
  from sound_flush_pendings [OF s this, of pf d "[]"] have "sound names ids s1" by (simp add: st)
  from sound_flush_all [OF this order_refl, of pf d out] show ?thesis by (simp add: flush_approved_proposals_def st)
qed

lemma sound_quorum:
  assumes "sound names ids s" and "set (proposed x) \<inter> set ids = {}"
  shows "sound names (ids @ proposed x) (s\<lparr>sm_box := quorum_step x (sm_box s)\<rparr>)"
proof -
  have f: "filed ids (bx_quorum (sm_box s))" using assms(1) by (simp add: sound_def)
  show ?thesis
    using assms(1) filed_step [OF f assms(2)] backed_step [OF _ f assms(2)] pend_ok_step [OF _ f assms(2)]
    by (auto simp: sound_def list_all_iff all_deploys_def)
qed

lemma submit_is_proposal:
  "propose_to_quorum False i now agent syn c s =
     (if sm_attached s
      then (s\<lparr>sm_box := quorum_step (QuPropose i now agent ''capability''
                (''New capability: '' @ cap_id_of syn @ '' '' @ em_dash @ '' '' @
                  take 120 (''New capability: '' @ sy_name c @ '' '' @ em_dash @ '' '' @ take 120 (sy_desc c)))
                (cap_payload (cap_id_of syn) (''New capability: '' @ sy_name c @ '' '' @ em_dash @ '' '' @ take 120 (sy_desc c)) (sy_code c)))
              (sm_box s)\<rparr>, Some i)
      else (s, None))"
  by (simp add: propose_to_quorum_def cq_submit_def on_quorum_def)

lemma payload_cap [simp]: "payload_text ''cap_id'' x (cap_payload cap desc code) = cap"
  by (simp add: payload_text_def cap_payload_def)

lemma the_prop_append: "i \<notin> pr_id ` set ps \<Longrightarrow> pr_id p = i \<Longrightarrow> the_prop i (ps @ [p]) = Some p"
  by (induction ps) (auto simp: the_prop_def)

lemma propose_lines: "aq_lines (aq_propose i now proposer type desc pl q) = aq_lines q @ [new_proposal i now proposer type desc pl]"
  by (simp add: aq_propose_def Let_def)

lemma sound_process:
  assumes s: "sound names ids s" and new: "gd_prop d \<notin> set ids" and ok: "\<not> gd_raises d"
  shows "sound names ids (fst (process_gap pf answer d agent intent reason s))
    \<or> sound names (ids @ [gd_prop d]) (fst (process_gap pf answer d agent intent reason s))"
proof -
  define c where "c = synthesize pf answer agent intent (gd_gap d) (gd_syn d) (gd_clk d 1)"
  define s3 where "s3 = record_test agent (test_capability pf agent (gd_test d) c (gd_clk d 2)) (record_synthesis agent c
    (record_gap agent \<lparr>gp_id = gd_gap d, gp_agent = agent, gp_intent = intent, gp_reason = reason, gp_at = gd_clk d 0,
                 gp_status = ''open'', gp_syn = None, gp_dep = None\<rparr> s))"
  have s3: "sound names ids s3" using s by (simp add: s3_def sound_def record_test_def record_synthesis_def record_gap_def all_deploys_def)
  show ?thesis
  proof (cases "te_rate (test_capability pf agent (gd_test d) c (gd_clk d 2)) < 1 / 2")
    case True
    then have "fst (process_gap pf answer d agent intent reason s) = s3" by (simp add: process_gap_def Let_def c_def s3_def)
    then show ?thesis using s3 by simp
  next
    case False
    define x where "x = QuPropose (gd_prop d) (gd_clk d 3) agent ''capability''
      (''New capability: '' @ cap_id_of (gd_syn d) @ '' '' @ em_dash @ '' '' @
        take 120 (''New capability: '' @ sy_name c @ '' '' @ em_dash @ '' '' @ take 120 (sy_desc c)))
      (cap_payload (cap_id_of (gd_syn d)) (''New capability: '' @ sy_name c @ '' '' @ em_dash @ '' '' @ take 120 (sy_desc c)) (sy_code c))"
    define s4 where "s4 = s3\<lparr>sm_box := quorum_step x (sm_box s3)\<rparr>"
    have p: "propose_to_quorum False (gd_prop d) (gd_clk d 3) agent (gd_syn d) c s3 = (s4, Some (gd_prop d))"
      using s3 unfolding submit_is_proposal s4_def x_def by (simp add: sound_def)
    have s4: "sound names (ids @ [gd_prop d]) s4"
      using sound_quorum [OF s3, of x] new by (simp add: x_def s4_def)
    have e: "fst (process_gap pf answer d agent intent reason s) =
        s4\<lparr>sm_pending := dict_set (gd_prop d) \<lparr>pe_agent = agent, pe_syn = gd_syn d, pe_cap = c, pe_at = gd_clk d 4\<rparr> (sm_pending s4)\<rparr>"
      unfolding process_gap_def Let_def c_def [symmetric] s3_def [symmetric] using False ok p by simp
    have okq: "aq_ok (bx_quorum (sm_box s4))" using s4 by (simp add: sound_def filed_def)
    have f3: "filed ids (bx_quorum (sm_box s3))" using s3 by (simp add: sound_def)
    have new3: "gd_prop d \<notin> pr_id ` set (aq_lines (bx_quorum (sm_box s3)))" using f3 new by (auto simp: filed_def)
    then have "the_prop (gd_prop d) (aq_lines (bx_quorum (sm_box s4))) =
        Some (new_proposal (gd_prop d) (gd_clk d 3) agent ''capability''
          (''New capability: '' @ cap_id_of (gd_syn d) @ '' '' @ em_dash @ '' '' @
            take 120 (''New capability: '' @ sy_name c @ '' '' @ em_dash @ '' '' @ take 120 (sy_desc c)))
          (cap_payload (cap_id_of (gd_syn d)) (''New capability: '' @ sy_name c @ '' '' @ em_dash @ '' '' @ take 120 (sy_desc c)) (sy_code c)))"
      unfolding s4_def x_def by (simp add: on_quorum_def propose_lines the_prop_append [OF new3] new_proposal_def)
    then have "pend_ok (bx_quorum (sm_box s4)) (gd_prop d, \<lparr>pe_agent = agent, pe_syn = gd_syn d, pe_cap = c, pe_at = gd_clk d 4\<rparr>)"
      by (simp add: pend_ok_def aq_get_prop [OF okq] new_proposal_def)
    then have "sound names (ids @ [gd_prop d]) (fst (process_gap pf answer d agent intent reason s))"
      using s4 unfolding e by (auto simp: sound_def all_deploys_def list_all_iff dest!: in_dict_set)
    then show ?thesis ..
  qed
qed

text \<open>The whole of it: gaps, any use of the quorum, the daemon's cycles and deployments of their own.\<close>

datatype selfmod_op =
    SmGap "string option" gap_draws string string string
  | SmQuorum quorum_op
  | SmTurn flush_draws turn
  | SmFlush flush_draws

fun sm_step :: "'f platform \<Rightarrow> selfmod_op \<Rightarrow> 'f selfmod \<Rightarrow> 'f selfmod" where
  "sm_step pf (SmGap answer d agent intent reason) s = fst (process_gap pf answer d agent intent reason s)"
| "sm_step pf (SmQuorum x) s = s\<lparr>sm_box := quorum_step x (sm_box s)\<rparr>"
| "sm_step pf (SmTurn d t) s = govern_turn pf d t s"
| "sm_step pf (SmFlush d) s = fst (flush_approved_proposals pf d s)"

fun new_ids :: "selfmod_op \<Rightarrow> string list" where
  "new_ids (SmGap answer d agent intent reason) = [gd_prop d]"
| "new_ids (SmQuorum x) = proposed x"
| "new_ids x = []"

fun reaches_quorum :: "selfmod_op \<Rightarrow> bool" where
  "reaches_quorum (SmGap answer d agent intent reason) = (\<not> gd_raises d)"
| "reaches_quorum x = True"

lemma sound_step:
  "sound names ids s \<Longrightarrow> set (new_ids x) \<inter> set ids = {} \<Longrightarrow> reaches_quorum x
    \<Longrightarrow> sound names ids (sm_step pf x s) \<or> sound names (ids @ new_ids x) (sm_step pf x s)"
proof (cases x)
  case (SmGap answer d agent intent reason)
  assume "sound names ids s" "set (new_ids x) \<inter> set ids = {}" "reaches_quorum x"
  then show ?thesis using sound_process [of names ids s d pf answer agent intent reason] by (simp add: SmGap)
next
  case (SmTurn d t)
  assume s: "sound names ids s"
  have "sound names ids (s\<lparr>sm_box := take_turn t (sm_box s)\<rparr>)" using sound_quorum [OF s, of "QuTurn t"] by simp
  from sound_flush [OF this] show ?thesis using s by (simp add: SmTurn govern_turn_def)
qed (simp_all add: sound_quorum sound_flush)

lemma sound_run:
  "sound names ids s \<Longrightarrow> distinct (ids @ concat (map new_ids xs)) \<Longrightarrow> list_all reaches_quorum xs
    \<Longrightarrow> \<exists>ids'. sound names ids' (run_ops (sm_step pf) xs s)"
proof (induction xs arbitrary: s ids)
  case (Cons x xs)
  from Cons.prems have "set (new_ids x) \<inter> set ids = {}" "reaches_quorum x" by auto
  then consider "sound names ids (sm_step pf x s)" | "sound names (ids @ new_ids x) (sm_step pf x s)"
    using sound_step [OF Cons.prems(1)] by blast
  then show ?case
  proof cases
    case 1
    from Cons.prems(2) have "distinct (ids @ concat (map new_ids xs))" by auto
    then show ?thesis using Cons.IH [OF 1] Cons.prems(3) by simp
  next
    case 2
    from Cons.prems(2) have "distinct ((ids @ new_ids x) @ concat (map new_ids xs))" by simp
    then show ?thesis using Cons.IH [OF 2] Cons.prems(3) by simp
  qed
qed auto

text \<open>A cycle that starts with some capabilities and nothing else.\<close>

definition fresh_selfmod :: "'f engine \<Rightarrow> 'f selfmod" where
  "fresh_selfmod e = \<lparr>sm_engine = e, sm_attached = True, sm_box = \<lparr>bx_quorum = empty_quorum, bx_minds = []\<rparr>, sm_gaps = [], sm_syns = [],
     sm_tests = [], sm_deploys = [], sm_pending = [], sm_tools = [], sm_ok = [], sm_failed = []\<rparr>"

lemma sound_fresh: "sound (keys (en_impls e)) [] (fresh_selfmod e)"
  by (simp add: sound_def fresh_selfmod_def filed_def aq_ok_def empty_quorum_def all_deploys_def list_all_iff)


section \<open>What becomes of proposals\<close>

lemma deploy_keeps:
  "sm_box (fst (deploy pf dep now agent syn name desc code s)) = sm_box s"
  "sm_ok (fst (deploy pf dep now agent syn name desc code s)) = sm_ok s"
  "sm_failed (fst (deploy pf dep now agent syn name desc code s)) = sm_failed s"
proof -
  obtain s1 r where l: "load_module pf (cap_id_of syn) name desc code s = (s1, r)" by fastforce
  have "s1 = s \<or> (\<exists>t. s1 = s\<lparr>sm_tools := t\<rparr>)" using load_module_same [of pf "cap_id_of syn" name desc code s] by (simp add: l)
  then have "sm_box s1 = sm_box s" "sm_ok s1 = sm_ok s" "sm_failed s1 = sm_failed s" by auto
  then show "sm_box (fst (deploy pf dep now agent syn name desc code s)) = sm_box s"
    "sm_ok (fst (deploy pf dep now agent syn name desc code s)) = sm_ok s"
    "sm_failed (fst (deploy pf dep now agent syn name desc code s)) = sm_failed s"
    by (cases r; auto simp: deploy_def l record_deployment_def)+
qed

lemma flush_pending_keeps:
  "sm_box (fst (flush_pending pf d st x)) = sm_box (fst st) \<and> sm_ok (fst (flush_pending pf d st x)) = sm_ok (fst st)"
proof -
  obtain s out pid pe where st: "st = (s, out)" "x = (pid, pe)" by (cases st, cases x)
  obtain s' r where r: "deploy pf (fl_dep d pid) (fl_now d pid) (pe_agent pe) (pe_syn pe) (sy_name (pe_cap pe)) (sy_desc (pe_cap pe))
      (sy_code (pe_cap pe)) s = (s', r)" by fastforce
  have "sm_box s' = sm_box s" "sm_ok s' = sm_ok s"
    using deploy_keeps(1,2) [of pf "fl_dep d pid" "fl_now d pid" "pe_agent pe" "pe_syn pe" "sy_name (pe_cap pe)" "sy_desc (pe_cap pe)" "sy_code (pe_cap pe)" s]
    by (simp_all add: r)
  then show ?thesis by (cases r) (auto simp: flush_pending_def st r Let_def update_gap_def)
qed

lemma flush_pendings_keep:
  "sm_box (fst (foldl (flush_pending pf d) st xs)) = sm_box (fst st) \<and> sm_ok (fst (foldl (flush_pending pf d) st xs)) = sm_ok (fst st)"
  by (induction xs arbitrary: st) (simp_all add: flush_pending_keeps)

lemma flush_approved_sets:
  "set (sm_ok (fst (flush_approved pf d st p))) \<subseteq> insert (pr_id p) (set (sm_ok (fst st)))
    \<and> set (sm_failed (fst st)) \<subseteq> set (sm_failed (fst (flush_approved pf d st p)))"
proof -
  obtain s out where st: "st = (s, out)" by (cases st)
  note kept = deploy_keeps(2,3) [of pf "fl_dep2 d (pr_id p)" "fl_now2 d (pr_id p)" "payload_text ''agent_id'' ''root'' (pr_payload p)"
      "payload_text ''synthesis_id'' (pr_id p) (pr_payload p)" "payload_text ''cap_id'' (''synth_'' @ take 8 (pr_id p)) (pr_payload p)"
      "payload_text ''description'' (pr_desc p) (pr_payload p)" "payload_text ''implementation_code'' [] (pr_payload p)" s]
  show ?thesis using kept by (auto simp: flush_approved_def st Let_def split: prod.split option.split)
qed

lemma flush_all_sets:
  "set (sm_ok (fst (foldl (flush_approved pf d) st ps))) \<subseteq> pr_id ` set ps \<union> set (sm_ok (fst st))
    \<and> set (sm_failed (fst st)) \<subseteq> set (sm_failed (fst (foldl (flush_approved pf d) st ps)))"
proof (induction ps arbitrary: st)
  case (Cons p ps)
  from Cons.IH [of "flush_approved pf d st p"] flush_approved_sets [of pf d st p] show ?case by auto
qed simp

text \<open>
  A proposal made by this class carries no code. When it is approved, the second pass of the deployments tries to deploy that missing
  code and records the proposal as failed for good, also when the first pass has just deployed the capability.
\<close>

theorem sm_approved_marked_failed:
  assumes "distinct (map pr_id (aq_lines (bx_quorum (sm_box s))))" and "p \<in> set (aq_lines (bx_quorum (sm_box s)))"
    and "pr_type p = ''capability''" and "pr_status p = PrApproved" and "payload_text ''implementation_code'' [] (pr_payload p) = []"
    and "pr_id p \<notin> set (sm_ok s)"
  shows "pr_id p \<in> set (sm_failed (fst (flush_approved_proposals pf d s)))"
proof -
  obtain us vs where lines: "aq_lines (bx_quorum (sm_box s)) = us @ p # vs" using assms(2) by (auto simp: in_set_conv_decomp)
  define st where "st = foldl (flush_pending pf d) (s, []) (sm_pending s)"
  define st1 where "st1 = foldl (flush_approved pf d) st us"
  have keep: "sm_box (fst st) = sm_box s" "sm_ok (fst st) = sm_ok s" by (simp_all add: st_def flush_pendings_keep)
  have "pr_id p \<notin> pr_id ` set us" using assms(1) by (simp add: lines)
  then have "pr_id p \<notin> set (sm_ok (fst st1))"
    using flush_all_sets [of pf d st us] keep(2) assms(6) by (auto simp: st1_def)
  then have "pr_id p \<in> set (sm_failed (fst (flush_approved pf d st1 p)))"
    using assms(3,4,5) by (cases st1) (auto simp: flush_approved_def Let_def deploy_def load_module_def)
  then have "pr_id p \<in> set (sm_failed (fst (foldl (flush_approved pf d) (flush_approved pf d st1 p) vs)))"
    using flush_all_sets [of pf d "flush_approved pf d st1 p" vs] by blast
  then show ?thesis by (simp add: flush_approved_proposals_def Let_def st_def [symmetric] keep(1) lines st1_def)
qed

text \<open>
  When the language model fails to write any code, an empty capability passes its test (half a success is enough) and is proposed to the
  agents all the same.
\<close>

theorem sm_failure_is_proposed:
  assumes "sm_attached s" and "\<not> gd_raises d" and "aq_ok (bx_quorum (sm_box s))" and "gd_prop d \<notin> pr_id ` set (aq_lines (bx_quorum (sm_box s)))"
  shows "(case process_gap pf None d agent intent reason s of
      (s', ok, r) \<Rightarrow> \<not> ok \<and> r = None
        \<and> map_option (\<lambda>pe. sy_code (pe_cap pe)) (dict_get (sm_pending s') (gd_prop d)) = Some []
        \<and> map_option (\<lambda>p. (pr_status p, payload_text ''code_preview'' ''?'' (pr_payload p))) (the_prop (gd_prop d) (aq_lines (bx_quorum (sm_box s'))))
            = Some (PrPending, []))"
proof -
  have raises: "gd_raises d = False" using assms(2) by simp
  show ?thesis
    by (simp add: process_gap_def Let_def synthesize_def generated_def test_capability_def raises submit_is_proposal assms(1)
        record_test_def record_synthesis_def record_gap_def on_quorum_def propose_lines
        the_prop_append [OF assms(4)] new_proposal_def payload_text_def cap_payload_def)
qed

section \<open>A capability for parsing\<close>

definition helper_names :: "string list" where
  "helper_names = [''shell_exec'', ''fs_read'', ''fs_write'', ''ollama_chat'', ''memory_get'', ''memory_set'']"

definition plain_platform :: "string platform" where
  "plain_platform = \<lparr>pf_parses = (\<lambda>_. True), pf_smoke = (\<lambda>_ _. True), pf_funs = (\<lambda>_. Some [(''synth_parse_files'', ''own code'')]),
     pf_helpers = map (\<lambda>n. (n, ''helper'')) helper_names\<rparr>"

definition parse_draws :: "bool \<Rightarrow> gap_draws" where
  "parse_draws raises = \<lparr>gd_gap = ''gap-1'', gd_syn = ''syn-1234abcd'', gd_test = ''test-1'', gd_prop = ''prop-1'', gd_dep = ''deploy-1'',
     gd_clk = (\<lambda>_. 1), gd_raises = raises\<rparr>"

definition parse_gap :: "bool \<Rightarrow> selfmod_op" where
  "parse_gap raises = SmGap (Some ''def synth_parse_files(x): return x'') (parse_draws raises) ''builder'' ''parse'' ''missing''"

definition plain_flush :: flush_draws where
  "plain_flush = \<lparr>fl_dep = (\<lambda>i. ''d-'' @ i), fl_now = (\<lambda>_. 5), fl_dep2 = (\<lambda>i. ''e-'' @ i), fl_now2 = (\<lambda>_. 6)\<rparr>"

definition with_reader :: "string engine" where
  "with_reader = fst (en_register ''fs_read'' ''built in'' 10000 False new_engine)"

definition parse_run :: "string selfmod" where
  "parse_run = run_ops (sm_step plain_platform) [parse_gap False, SmTurn plain_flush quiet_turn] (fresh_selfmod with_reader)"

text \<open>
  A deployment can replace a built-in capability. The name of the function need only begin like the expected one; with no function of the
  exact name, the first by the alphabet is registered, and that is one of the helpers put into the module: the approved parser becomes the
  capability \<open>fs_read\<close>, in place of the built-in one, and the parser itself is not registered at all.
\<close>

lemma sm_replaces_builtin:
  "map dp_cap (all_deploys parse_run) = [''fs_read''] \<and> dict_get (en_impls (sm_engine parse_run)) ''fs_read'' = Some ''helper''
    \<and> ''own code'' \<notin> set (vals (en_impls (sm_engine parse_run))) \<and> sm_failed parse_run = [''prop-1'']"
  by code_simp

text \<open>
  If the quorum cannot be reached, its approval is not waited for: an error while the proposal is written counts like a missing quorum,
  and the capability is deployed at once, without any proposal.
\<close>

lemma sm_error_deploys:
  "let s = sm_step plain_platform (parse_gap True) (fresh_selfmod with_reader)
   in sm_attached s \<and> map dp_syn (all_deploys s) = [''syn-1234abcd''] \<and> aq_lines (bx_quorum (sm_box s)) = []"
  by code_simp


definition approved_parser :: "string selfmod" where
  "approved_parser = (let s = sm_step plain_platform (parse_gap False) (fresh_selfmod with_reader) in s\<lparr>sm_box := take_turn quiet_turn (sm_box s)\<rparr>)"

lemma sm_approved_marked_failed_witness:
  "''prop-1'' \<in> set (sm_failed (fst (flush_approved_proposals plain_platform plain_flush approved_parser)))"
proof -
  define p where "p = hd (aq_lines (bx_quorum (sm_box approved_parser)))"
  have "pr_id p \<in> set (sm_failed (fst (flush_approved_proposals plain_platform plain_flush approved_parser)))"
  proof (rule sm_approved_marked_failed)
    show "distinct (map pr_id (aq_lines (bx_quorum (sm_box approved_parser))))" by code_simp
    show "p \<in> set (aq_lines (bx_quorum (sm_box approved_parser)))" "pr_type p = ''capability''" "pr_status p = PrApproved"
      "payload_text ''implementation_code'' [] (pr_payload p) = []" "pr_id p \<notin> set (sm_ok approved_parser)" unfolding p_def by code_simp+
  qed
  moreover have "pr_id p = ''prop-1''" unfolding p_def by code_simp
  ultimately show ?thesis by simp
qed

lemma sm_failure_is_proposed_witness:
  "case process_gap plain_platform None (parse_draws False) ''builder'' ''parse'' ''missing'' (fresh_selfmod with_reader) of
      (s', ok, r) \<Rightarrow> \<not> ok \<and> r = None
        \<and> map_option (\<lambda>pe. sy_code (pe_cap pe)) (dict_get (sm_pending s') ''prop-1'') = Some []
        \<and> map_option (\<lambda>p. (pr_status p, payload_text ''code_preview'' ''?'' (pr_payload p))) (the_prop ''prop-1'' (aq_lines (bx_quorum (sm_box s'))))
            = Some (PrPending, [])"
  using sm_failure_is_proposed [of "fresh_selfmod with_reader" "parse_draws False" plain_platform "''builder''" "''parse''" "''missing''"]
  by (simp add: fresh_selfmod_def parse_draws_def empty_quorum_def aq_ok_def)

end
