(* ===== verification/Standards.thy ===== *)
theory Standards imports Prelude begin

text \<open>
  The project's conventions, \<open>agents/standards.py\<close>, with their routes of \<open>api/server.py\<close>: named texts in one
  file, and the choice of those that fit a task, by the similarity of embedding vectors or, without vectors, by common
  words. Parameters: the embedding (\<open>None\<close> when the model server does not answer) and the square sqr.

  The lemmas show that the file is a keyed store that keeps the date of creation, which conventions are chosen for a
  task, and what is lost by a damaged file and by overlapping writes.
\<close>

section \<open>The file\<close>

record standard =
  sd_name :: string
  sd_desc :: string
  sd_content :: string
  sd_tags :: "string list"
  sd_created :: time
  sd_updated :: time
  sd_vec :: "rat list option"

text \<open>A file whose text is not JSON counts as empty.\<close>

datatype std_file = NoFile | Damaged | Stored "(string, standard) dict"

fun std_load :: "std_file \<Rightarrow> (string, standard) dict" where
  "std_load NoFile = []"
| "std_load Damaged = []"
| "std_load (Stored d) = d"

text \<open>The record, from the data that were read before the embedding was asked for; \<open>n1\<close> and \<open>n2\<close> are the clock readings.\<close>

definition std_make :: "(string \<Rightarrow> rat list option) \<Rightarrow> time \<Rightarrow> time \<Rightarrow> string \<Rightarrow> string \<Rightarrow> string list \<Rightarrow> string
    \<Rightarrow> (string, standard) dict \<Rightarrow> standard" where
  "std_make emb n1 n2 name content tags desc data =
     \<lparr>sd_name = name, sd_desc = (if desc = [] then name else desc), sd_content = content, sd_tags = tags,
      sd_created = (case dict_get data name of None \<Rightarrow> n1 | Some s \<Rightarrow> sd_created s), sd_updated = n2,
      sd_vec = emb (name @ '' '' @ desc @ '' '' @ content)\<rparr>"

text \<open>\<open>set_standard\<close> in its two steps, as nothing is locked: the data are read, and written back with the new record.\<close>

definition std_write :: "(string \<Rightarrow> rat list option) \<Rightarrow> time \<Rightarrow> time \<Rightarrow> string \<Rightarrow> string \<Rightarrow> string list \<Rightarrow> string
    \<Rightarrow> (string, standard) dict \<Rightarrow> std_file" where
  "std_write emb n1 n2 name content tags desc data =
     Stored (dict_set name (std_make emb n1 n2 name content tags desc data) data)"

definition std_set :: "(string \<Rightarrow> rat list option) \<Rightarrow> time \<Rightarrow> time \<Rightarrow> string \<Rightarrow> string \<Rightarrow> string list \<Rightarrow> string
    \<Rightarrow> std_file \<Rightarrow> std_file" where
  "std_set emb n1 n2 name content tags desc f = std_write emb n1 n2 name content tags desc (std_load f)"

text \<open>What callers see of a record: everything but the vector.\<close>

definition shown :: "standard \<Rightarrow> standard" where
  "shown s = s\<lparr>sd_vec := None\<rparr>"

definition std_get :: "string \<Rightarrow> std_file \<Rightarrow> standard option" where
  "std_get name f = map_option shown (dict_get (std_load f) name)"

definition std_list :: "std_file \<Rightarrow> standard list" where
  "std_list f = map shown (vals (std_load f))"

definition std_delete :: "string \<Rightarrow> std_file \<Rightarrow> std_file \<times> bool" where
  "std_delete name f =
     (if name \<notin> set (keys (std_load f)) then (f, False) else (Stored (dict_del name (std_load f)), True))"

section \<open>The conventions for a task\<close>

definition cosine :: "(rat \<Rightarrow> rat) \<Rightarrow> rat list \<Rightarrow> rat list \<Rightarrow> rat" where
  "cosine sqr a b =
     (let dot = sum_list (map (\<lambda>(x, y). x * y) (zip a b));
          na = sqr (sum_list (map (\<lambda>x. x * x) a)); nb = sqr (sum_list (map (\<lambda>x. x * x) b))
      in if na = 0 \<or> nb = 0 then 0 else dot / (na * nb))"

definition keyword_score :: "string \<Rightarrow> string \<Rightarrow> rat" where
  "keyword_score query txt =
     (let q = remdups (py_split (py_lower query)); t = py_split (py_lower txt)
      in if q = [] then 0 else of_nat (length (filter (\<lambda>w. w \<in> set t) q)) / of_nat (length q))"

definition fit :: "(rat \<Rightarrow> rat) \<Rightarrow> rat list option \<Rightarrow> string \<Rightarrow> standard \<Rightarrow> rat" where
  "fit sqr query_vec task s =
     (case (query_vec, sd_vec s) of
        (Some q, Some v) \<Rightarrow> if q \<noteq> [] \<and> v \<noteq> [] then cosine sqr q v
                           else keyword_score task (sd_name s @ '' '' @ sd_desc s @ '' '' @ sd_content s)
      | _ \<Rightarrow> keyword_score task (sd_name s @ '' '' @ sd_desc s @ '' '' @ sd_content s))"

record hit =
  ht_name :: string
  ht_desc :: string
  ht_content :: string
  ht_tags :: "string list"
  ht_score :: rat

definition std_relevant :: "(string \<Rightarrow> rat list option) \<Rightarrow> (rat \<Rightarrow> rat) \<Rightarrow> string \<Rightarrow> int \<Rightarrow> rat \<Rightarrow> std_file \<Rightarrow> hit list" where
  "std_relevant emb sqr task top_k min_score f =
     (let q = emb task; data = std_load f
      in py_take top_k (sort_key (\<lambda>h. - ht_score h)
           (map (\<lambda>(name, s). \<lparr>ht_name = name, ht_desc = sd_desc s, ht_content = sd_content s, ht_tags = sd_tags s,
                              ht_score = py_round_dig 4 (fit sqr q task s)\<rparr>)
             (filter (\<lambda>(name, s). min_score \<le> fit sqr q task s) data))))"

text \<open>\<open>get_relevant_standards_text\<close>: what goes into a prompt.\<close>

definition hit_lines :: "hit \<Rightarrow> string list" where
  "hit_lines h = [''### '' @ ht_name h] @ (if ht_desc h \<noteq> [] then [''_'' @ ht_desc h @ ''_''] else []) @ [ht_content h, []]"

definition std_text :: "(string \<Rightarrow> rat list option) \<Rightarrow> (rat \<Rightarrow> rat) \<Rightarrow> string \<Rightarrow> int \<Rightarrow> std_file \<Rightarrow> string" where
  "std_text emb sqr task top_k f =
     (let hs = std_relevant emb sqr task top_k (3 / 10) f
      in if hs = [] then [] else py_join nl ((''## Project Standards'' @ nl) # concat (map hit_lines hs)))"

section \<open>A keyed store\<close>

lemma load_delete: "dict_get (std_load (fst (std_delete k f))) k' = (if k' = k then None else dict_get (std_load f) k')"
  using dict_get_None [of "std_load f" k] by (cases "k \<in> set (keys (std_load f))") (simp_all add: std_delete_def)

interpretation standards_file: keyed_store "\<lambda>f k. dict_get (std_load f) k" "\<lambda>k s f. Stored (dict_set k s (std_load f))" "\<lambda>k f. fst (std_delete k f)" "\<lambda>_. True"
  by unfold_locales (simp_all add: load_delete)

datatype std_op =
    StSet "rat list option" time time string string "string list" string
  | StDelete string

fun std_step :: "std_op \<Rightarrow> std_file \<Rightarrow> std_file" where
  "std_step (StSet vec n1 n2 name content tags desc) f = std_set (\<lambda>_. vec) n1 n2 name content tags desc f"
| "std_step (StDelete name) f = fst (std_delete name f)"

fun touches :: "std_op \<Rightarrow> string \<Rightarrow> bool" where
  "touches (StSet vec n1 n2 name content tags desc) k = (name = k)"
| "touches (StDelete name) k = (name = k)"

interpretation standards_life: lifecycle std_step "\<lambda>_. True" "\<lambda>f k. dict_get (std_load f) k" "\<lambda>_. True" touches
proof unfold_locales
  show "dict_get (std_load (std_step x f)) k = Some a" if "dict_get (std_load f) k = Some a" "\<not> touches x k" for f k a x
    using that by (cases x) (auto simp: std_set_def std_write_def load_delete)
qed simp

text \<open>
  A convention stays as it was stored whatever is stored and deleted under other names; storing it again keeps the date of
  its creation.
\<close>

theorem st_set_then_get:
  assumes "list_all (\<lambda>x. \<not> touches x name) xs"
  shows "std_get name (run_ops std_step xs (std_set emb n1 n2 name content tags desc f)) =
    Some \<lparr>sd_name = name, sd_desc = (if desc = [] then name else desc), sd_content = content, sd_tags = tags,
      sd_created = (case std_get name f of None \<Rightarrow> n1 | Some s \<Rightarrow> sd_created s), sd_updated = n2, sd_vec = None\<rparr>"
proof -
  have "dict_get (std_load (run_ops std_step xs (std_set emb n1 n2 name content tags desc f))) name
      = Some (std_make emb n1 n2 name content tags desc (std_load f))"
    by (rule standards_life.final_run) (use assms in \<open>simp_all add: std_set_def std_write_def\<close>)
  then show ?thesis by (simp add: std_get_def shown_def std_make_def split: option.split)
qed

section \<open>The best conventions\<close>

definition eligible :: "(string \<Rightarrow> rat list option) \<Rightarrow> (rat \<Rightarrow> rat) \<Rightarrow> string \<Rightarrow> rat \<Rightarrow> std_file \<Rightarrow> (string \<times> standard) list" where
  "eligible emb sqr task min_score f = filter (\<lambda>(name, s). min_score \<le> fit sqr (emb task) task s) (std_load f)"

definition as_hit :: "(string \<Rightarrow> rat list option) \<Rightarrow> (rat \<Rightarrow> rat) \<Rightarrow> string \<Rightarrow> string \<times> standard \<Rightarrow> hit" where
  "as_hit emb sqr task x = \<lparr>ht_name = fst x, ht_desc = sd_desc (snd x), ht_content = sd_content (snd x), ht_tags = sd_tags (snd x),
     ht_score = py_round_dig 4 (fit sqr (emb task) task (snd x))\<rparr>"

lemma relevant_hits:
  "std_relevant emb sqr task top_k min_score f = py_take top_k (sort_key (\<lambda>h. - ht_score h) (map (as_hit emb sqr task) (eligible emb sqr task min_score f)))"
  by (simp add: std_relevant_def Let_def eligible_def as_hit_def [abs_def] case_prod_beta')

text \<open>
  For a task the conventions of sufficient score are chosen, the best first and at most as many as asked for: every one that is
  left out scores no better than any that is returned.
\<close>

theorem st_relevant_best:
  assumes "0 \<le> top_k"
  shows "length (std_relevant emb sqr task top_k min_score f) = min (nat top_k) (length (eligible emb sqr task min_score f))
    \<and> sorted_wrt (\<lambda>a b. ht_score b \<le> ht_score a) (std_relevant emb sqr task top_k min_score f)
    \<and> set (std_relevant emb sqr task top_k min_score f) \<subseteq> as_hit emb sqr task ` set (eligible emb sqr task min_score f)
    \<and> list_all (\<lambda>x. as_hit emb sqr task x \<in> set (std_relevant emb sqr task top_k min_score f)
        \<or> list_all (\<lambda>h. ht_score (as_hit emb sqr task x) \<le> ht_score h) (std_relevant emb sqr task top_k min_score f)) (eligible emb sqr task min_score f)"
proof -
  define hs where "hs = sort_key (\<lambda>h. - ht_score h) (map (as_hit emb sqr task) (eligible emb sqr task min_score f))"
  have r: "std_relevant emb sqr task top_k min_score f = take (nat top_k) hs"
    using assms by (simp add: relevant_hits hs_def)
  have sorted: "sorted_wrt (\<lambda>a b. ht_score b \<le> ht_score a) hs"
    using sorted_sort_key [of "\<lambda>h. - ht_score h" "map (as_hit emb sqr task) (eligible emb sqr task min_score f)"]
    by (simp add: hs_def [symmetric] sorted_map)
  then have split: "sorted_wrt (\<lambda>a b. ht_score b \<le> ht_score a) (take (nat top_k) hs @ drop (nat top_k) hs)" by simp
  have set: "set hs = as_hit emb sqr task ` set (eligible emb sqr task min_score f)" by (simp add: hs_def)
  have part: "set hs = set (take (nat top_k) hs) \<union> set (drop (nat top_k) hs)" by (metis append_take_drop_id set_append)
  have "as_hit emb sqr task x \<in> set (take (nat top_k) hs) \<or> list_all (\<lambda>h. ht_score (as_hit emb sqr task x) \<le> ht_score h) (take (nat top_k) hs)"
    if "x \<in> set (eligible emb sqr task min_score f)" for x
  proof -
    from that set part have "as_hit emb sqr task x \<in> set (take (nat top_k) hs) \<or> as_hit emb sqr task x \<in> set (drop (nat top_k) hs)" by blast
    then show ?thesis using split [unfolded sorted_wrt_append] by (auto simp: list_all_iff)
  qed
  moreover have "length hs = length (eligible emb sqr task min_score f)" by (simp add: hs_def)
  moreover have "set (take (nat top_k) hs) \<subseteq> set hs" using part by blast
  moreover have "sorted_wrt (\<lambda>a b. ht_score b \<le> ht_score a) (take (nat top_k) hs)" using split by (simp only: sorted_wrt_append)
  ultimately show ?thesis unfolding r set by (simp add: list_all_iff min.commute)
qed

text \<open>
  A file that cannot be read is not reported: it counts as empty, and the next convention that is stored is the only one left.
\<close>

lemma st_damaged_forgets: "std_list (std_set emb n1 n2 name content tags desc Damaged) = [shown (std_make emb n1 n2 name content tags desc [])]"
  by (simp add: std_list_def std_set_def std_write_def)

text \<open>
  The file is read before the embedding is asked for and written after it: of two new conventions stored at the same time, the
  one that is written first is lost.
\<close>

lemma st_overlapping_set_lost:
  assumes "name \<noteq> name'" and "std_get name f = None"
  shows "std_get name (std_write emb n1 n2 name content tags desc (std_load f)) \<noteq> None
    \<and> std_get name (std_write emb' n3 n4 name' content' tags' desc' (std_load f)) = None"
  using assms by (simp add: std_get_def std_write_def)

lemma st_set_then_get_witness:
  "std_get ''naming'' (run_ops std_step [StSet None 3 4 ''tests'' ''write them'' [] [], StDelete ''style'']
     (std_set (\<lambda>_. None) 1 2 ''naming'' ''snake case'' [''py''] [] NoFile)) =
   Some \<lparr>sd_name = ''naming'', sd_desc = ''naming'', sd_content = ''snake case'', sd_tags = [''py''], sd_created = 1, sd_updated = 2, sd_vec = None\<rparr>"
  using st_set_then_get [of "''naming''" "[StSet None 3 4 ''tests'' ''write them'' [] [], StDelete ''style'']" "\<lambda>_. None" 1 2 "''snake case''" "[''py'']" "[]" NoFile]
  by (simp add: std_get_def)

lemma st_relevant_best_witness:
  "length (std_relevant (\<lambda>_. None) (\<lambda>x. x) ''name the tests'' 1 (3 / 10) (Stored [(''naming'', \<lparr>sd_name = ''naming'', sd_desc = ''names'',
     sd_content = ''name all tests'', sd_tags = [], sd_created = 1, sd_updated = 1, sd_vec = None\<rparr>)])) = 1"
proof -
  let ?f = "Stored [(''naming'', \<lparr>sd_name = ''naming'', sd_desc = ''names'', sd_content = ''name all tests'', sd_tags = [], sd_created = 1,
    sd_updated = 1, sd_vec = None\<rparr>)]"
  have "length (eligible (\<lambda>_. None) (\<lambda>x. x) ''name the tests'' (3 / 10) ?f) = 1" by code_simp
  then show ?thesis using st_relevant_best [of 1 "\<lambda>_. None" "\<lambda>x. x" "''name the tests''" "3 / 10" ?f] by simp
qed

lemma st_overlapping_set_lost_witness:
  "std_get ''a'' (std_write (\<lambda>_. None) 1 2 ''a'' ''x'' [] [] (std_load NoFile)) \<noteq> None
    \<and> std_get ''a'' (std_write (\<lambda>_. None) 1 2 ''b'' ''y'' [] [] (std_load NoFile)) = None"
  by (rule st_overlapping_set_lost) (simp_all add: std_get_def)

end
