(* ===== verification/Proposal_Engine.thy ===== *)
theory Proposal_Engine imports Registry Standards Goals "HOL-Library.List_Lexorder" "HOL-Library.Char_ord" begin

text \<open>
  Proposals of agents to change the system itself, \<open>agents/proposals.py\<close>, with their routes of
  \<open>api/agent_routes.py\<close>: a proposal is submitted, tried against its own test cases, approved by a quorum of agents and
  applied, as a tool or as a convention (the theory Standards). Each proposal is a file with the time of its last write. An approval
  takes the lock three times and lets it go in between, so it is modelled as a machine with a program counter, which
  other calls may interrupt between two steps; \<open>px_approve\<close> runs it without interruption.

  Parameters: the texts of JSON values that are not texts, what the file system says to the writing of a tool and of
  the conventions, the embedding. A file is read and written at once.

  The lemmas show that nothing is applied without a quorum and passed tests, however calls are interleaved, when exactly
  a proposal is approved, that a decision is final without interruptions, and how interruptions undo one.
\<close>

section \<open>Proposals\<close>

datatype xp_state = XProposed | XReview | XStaging | XApproved | XRejected

fun xp_state_str :: "xp_state \<Rightarrow> string" where
  "xp_state_str XProposed = ''proposed''"
| "xp_state_str XReview = ''in_review''"
| "xp_state_str XStaging = ''staging''"
| "xp_state_str XApproved = ''approved''"
| "xp_state_str XRejected = ''rejected''"

record case_result =
  ca_check :: pyval
  ca_passed :: bool
  ca_error :: "pyval option"

record staging =
  sn_passed :: bool
  sn_npassed :: nat
  sn_nfailed :: nat
  sn_details :: "case_result list"

record ext_prop =
  xp_id :: string
  xp_by :: string
  xp_type :: string
  xp_spec :: payload
  xp_tests :: "pyval list"
  xp_rationale :: string
  xp_status :: xp_state
  xp_created :: time
  xp_updated :: time
  xp_quorum :: int
  xp_votes :: "string list"
  xp_staging :: "staging option"
  xp_approver :: "string option"
  xp_reason :: "string option"

record prop_engine =
  pg_files :: "(string, ext_prop \<times> time) dict"
  pg_tools :: "(string, payload) dict"
  pg_events :: bool
  pg_registry :: "registry option"
  pg_standards :: "std_file option"

record px_env =
  px_str :: "pyval \<Rightarrow> string"
  px_repr :: "pyval \<Rightarrow> string"
  px_tool_fails :: "string \<Rightarrow> string option"
  px_std_fails :: "string \<Rightarrow> string option"
  px_embed :: "string \<Rightarrow> rat list option"

datatype px_error = PxValue string | PxKey string | PxAttribute | PxType | PxFile string

fun px_text :: "px_error \<Rightarrow> string" where
  "px_text (PxValue s) = s"
| "px_text (PxKey k) = py_repr k"
| "px_text (PxFile s) = s"
| "px_text PxAttribute = ''attribute''"
| "px_text PxType = ''type''"

definition valid_types :: "string list" where
  "valid_types = [''new_tool'', ''new_endpoint'', ''standard_update'', ''config_change'']"

definition show_val :: "px_env \<Rightarrow> pyval \<Rightarrow> string" where
  "show_val env v = (case v of PStr s \<Rightarrow> s | _ \<Rightarrow> px_str env v)"

definition repr_val :: "px_env \<Rightarrow> pyval \<Rightarrow> string" where
  "repr_val env v = (case v of PStr s \<Rightarrow> py_repr s | _ \<Rightarrow> px_repr env v)"

definition px_load :: "string \<Rightarrow> prop_engine \<Rightarrow> ext_prop option" where
  "px_load i g = map_option fst (dict_get (pg_files g) i)"

definition px_save :: "time \<Rightarrow> ext_prop \<Rightarrow> prop_engine \<Rightarrow> prop_engine" where
  "px_save now p g = g\<lparr>pg_files := dict_set (xp_id p) (p, now) (pg_files g)\<rparr>"

definition px_emit :: "string \<Rightarrow> payload \<Rightarrow> prop_engine \<Rightarrow> eff list" where
  "px_emit typ pl g = (if pg_events g then [Emit typ ''proposals'' pl] else [])"

definition not_found :: "string \<Rightarrow> px_error" where
  "not_found i = PxValue (''Proposal '' @ py_repr i @ '' not found'')"

definition px_submit :: "string \<Rightarrow> time \<Rightarrow> string \<Rightarrow> string \<Rightarrow> payload \<Rightarrow> pyval list \<Rightarrow> string \<Rightarrow> int \<Rightarrow> prop_engine
    \<Rightarrow> prop_engine \<times> eff list \<times> (px_error + string)" where
  "px_submit i now agent typ spec tests rationale quorum g =
     (if typ \<notin> set valid_types then (g, [], Inl (PxValue (''Unknown proposal_type: '' @ py_repr typ)))
      else (px_save now \<lparr>xp_id = i, xp_by = agent, xp_type = typ, xp_spec = spec, xp_tests = tests, xp_rationale = rationale,
              xp_status = XProposed, xp_created = now, xp_updated = now, xp_quorum = max 1 quorum, xp_votes = [], xp_staging = None,
              xp_approver = None, xp_reason = None\<rparr> g,
            px_emit ''system.proposal_submitted'' [(''proposal_id'', PStr i), (''proposal_type'', PStr typ), (''proposed_by'', PStr agent)] g,
            Inr i))"

section \<open>Test cases\<close>

text \<open>\<open>bool(spec.get(key, "").strip())\<close>, which raises for values that are not texts.\<close>

definition filled :: "payload \<Rightarrow> string \<Rightarrow> px_error + bool" where
  "filled spec key = (case dict_get_or (PStr []) spec key of PStr s \<Rightarrow> Inr (py_strip s \<noteq> []) | _ \<Rightarrow> Inl PxAttribute)"

definition checked :: "string \<Rightarrow> string \<Rightarrow> px_error + bool \<Rightarrow> px_error + case_result" where
  "checked check msg r = map_sum id (\<lambda>ok. \<lparr>ca_check = PStr check, ca_passed = ok, ca_error = (if ok then None else Some (PStr msg))\<rparr>) r"

definition has_type :: "payload \<Rightarrow> bool" where
  "has_type spec = (case dict_get_or (PDict []) spec ''inputSchema'' of PDict d \<Rightarrow> ''type'' \<in> set (keys d) | _ \<Rightarrow> False)"

definition eval_case :: "px_env \<Rightarrow> payload \<Rightarrow> pyval \<Rightarrow> px_error + case_result" where
  "eval_case env spec tc =
     (case tc of
        PDict d \<Rightarrow>
          let typ = dict_get_or (PStr ''schema_valid'') d ''type''; check = dict_get_or (PStr []) d ''check''
          in if typ = PStr ''force_fail''
             then Inr \<lparr>ca_check = PStr ''force_fail'', ca_passed = False, ca_error = Some (dict_get_or (PStr ''forced failure'') d ''message'')\<rparr>
             else if typ = PStr ''force_pass'' then Inr \<lparr>ca_check = PStr ''force_pass'', ca_passed = True, ca_error = None\<rparr>
             else if typ = PStr ''schema_valid''
             then if check = PStr ''name_exists'' then checked ''name_exists'' ''spec.name is missing or empty'' (filled spec ''name'')
                  else if check = PStr ''description_nonempty''
                  then checked ''description_nonempty'' ''spec.description is empty'' (filled spec ''description'')
                  else if check = PStr ''input_schema_valid''
                  then checked ''input_schema_valid'' (''spec.inputSchema missing or has no '' @ py_repr ''type'') (Inr (has_type spec))
                  else if check = PStr ''standard_content_valid''
                  then checked ''standard_content_valid'' ''spec.content is empty'' (filled spec ''content'')
                  else if check = PStr ''config_key_valid'' then checked ''config_key_valid'' ''spec.key is missing'' (filled spec ''key'')
                  else Inr \<lparr>ca_check = check, ca_passed = True, ca_error = None\<rparr>
             else Inr \<lparr>ca_check = typ, ca_passed = False, ca_error = Some (PStr (''unknown test case type: '' @ repr_val env typ))\<rparr>
      | _ \<Rightarrow> Inl PxAttribute)"

text \<open>The results in the order of the cases, up to the first that raises.\<close>

fun eval_cases :: "px_env \<Rightarrow> payload \<Rightarrow> pyval list \<Rightarrow> px_error + case_result list" where
  "eval_cases env spec [] = Inr []"
| "eval_cases env spec (tc # tcs) =
     (case eval_case env spec tc of Inl e \<Rightarrow> Inl e
      | Inr r \<Rightarrow> (case eval_cases env spec tcs of Inl e \<Rightarrow> Inl e | Inr rs \<Rightarrow> Inr (r # rs)))"

definition run_test_cases :: "px_env \<Rightarrow> ext_prop \<Rightarrow> px_error + staging" where
  "run_test_cases env p =
     map_sum id (\<lambda>rs. let passed = filter ca_passed rs; failed = filter (\<lambda>r. \<not> ca_passed r) rs
                 in \<lparr>sn_passed = (length failed = 0), sn_npassed = length passed, sn_nfailed = length failed, sn_details = passed @ failed\<rparr>)
       (eval_cases env (xp_spec p) (xp_tests p))"

definition px_url :: "string \<Rightarrow> string" where
  "px_url i = ''http://localhost:7777/proposals/'' @ i"

definition staging_reason :: "staging \<Rightarrow> string" where
  "staging_reason r = ''Staging failed: '' @ nat_str (sn_nfailed r) @ '' test case(s) did not pass''"

text \<open>\<open>stage\<close> answers the result of the tests; the other fields of its answer follow from it.\<close>

definition px_stage :: "px_env \<Rightarrow> time \<Rightarrow> string \<Rightarrow> prop_engine \<Rightarrow> prop_engine \<times> eff list \<times> (px_error + staging)" where
  "px_stage env now i g =
     (case px_load i g of None \<Rightarrow> (g, [], Inl (not_found i))
      | Some p \<Rightarrow>
          if xp_status p \<notin> {XProposed, XReview}
          then (g, [], Inl (PxValue (''Proposal is in status '' @ py_repr (xp_state_str (xp_status p)) @ ''; cannot stage'')))
          else (case run_test_cases env p of Inl e \<Rightarrow> (g, [], Inl e)
                | Inr r \<Rightarrow>
                    let reason = staging_reason r;
                        p' = (if sn_passed r then p\<lparr>xp_staging := Some r, xp_updated := now, xp_status := XStaging\<rparr>
                              else p\<lparr>xp_staging := Some r, xp_updated := now, xp_status := XRejected, xp_reason := Some reason\<rparr>);
                        g' = px_save now p' g
                    in (g', if sn_passed r
                            then px_emit ''system.staging_ready'' [(''proposal_id'', PStr i), (''staging_url'', PStr (px_url i))] g
                            else px_emit ''system.proposal_rejected'' [(''proposal_id'', PStr i), (''reason'', PStr reason), (''proposed_by'', PStr (xp_by p))] g,
                        Inr r)))"

section \<open>The change itself\<close>

definition tool_value :: "ext_prop \<Rightarrow> pyval" where
  "tool_value p = dict_get_or (PStr (''tool_'' @ xp_id p)) (xp_spec p) ''name''"

definition dyn_tool_spec :: "time \<Rightarrow> ext_prop \<Rightarrow> payload" where
  "dyn_tool_spec now p =
     [(''name'', tool_value p), (''description'', dict_get_or (PStr []) (xp_spec p) ''description''),
      (''inputSchema'', dict_get_or (PDict [(''type'', PStr ''object''), (''properties'', PDict [])]) (xp_spec p) ''inputSchema''),
      (''proposed_by'', PStr (xp_by p)), (''proposal_id'', PStr (xp_id p)), (''activated_at'', PFlt now)]"

fun as_text :: "pyval \<Rightarrow> string option" where
  "as_text (PStr s) = Some s"
| "as_text _ = None"

fun as_texts :: "pyval \<Rightarrow> string list option" where
  "as_texts (PList vs) = (if list_all (\<lambda>v. as_text v \<noteq> None) vs then Some (map (\<lambda>v. the (as_text v)) vs) else None)"
| "as_texts PNone = Some []"
| "as_texts _ = None"

text \<open>
  The arguments of \<open>set_standard\<close>; the store of conventions is modelled for texts, other values in their place count as
  an error of the call.
\<close>

definition standard_args :: "payload \<Rightarrow> px_error + string \<times> string \<times> string list \<times> string" where
  "standard_args spec =
     (case dict_get spec ''name'' of None \<Rightarrow> Inl (PxKey ''name'')
      | Some nm \<Rightarrow>
          (case dict_get spec ''content'' of None \<Rightarrow> Inl (PxKey ''content'')
           | Some ct \<Rightarrow>
               (case (as_text nm, as_text ct, as_texts (dict_get_or (PList []) spec ''tags''), as_text (dict_get_or nm spec ''description'')) of
                  (Some n, Some c, Some ts, Some d) \<Rightarrow> Inr (n, c, ts, d)
                | _ \<Rightarrow> Inl PxType)))"

definition apply_change :: "px_env \<Rightarrow> time \<Rightarrow> ext_prop \<Rightarrow> prop_engine \<Rightarrow> prop_engine \<times> px_error option" where
  "apply_change env now p g =
     (if xp_type p = ''new_tool'' then
        (let name = show_val env (tool_value p)
         in case px_tool_fails env name of Some e \<Rightarrow> (g, Some (PxFile e))
            | None \<Rightarrow> (g\<lparr>pg_tools := dict_set name (dyn_tool_spec now p) (pg_tools g)\<rparr>, None))
      else if xp_type p = ''standard_update'' then
        (case pg_standards g of None \<Rightarrow> (g, None)
         | Some f \<Rightarrow>
             (case standard_args (xp_spec p) of Inl e \<Rightarrow> (g, Some e)
              | Inr (n, c, ts, d) \<Rightarrow>
                  (case px_std_fails env n of Some e \<Rightarrow> (g, Some (PxFile e))
                   | None \<Rightarrow> (g\<lparr>pg_standards := Some (std_set (px_embed env) now now n c ts d f)\<rparr>, None))))
      else (g, None))"

text \<open>\<open>_credit_contribution\<close>, on the list in the metadata of the proposing agent.\<close>

definition add_contribution :: "string \<Rightarrow> agent \<Rightarrow> (agent \<times> bool) \<times> px_error option" where
  "add_contribution i a =
     (let put = (\<lambda>v. a\<lparr>a_metadata := dict_set ''contributions'' v (a_metadata a)\<rparr>)
      in case dict_get (a_metadata a) ''contributions'' of
           None \<Rightarrow> ((put (PList [PStr i]), True), None)
         | Some (PList vs) \<Rightarrow> if PStr i \<in> set vs then ((a, False), None) else ((put (PList (vs @ [PStr i])), True), None)
         | Some (PDict d) \<Rightarrow> ((a, False), if i \<in> set (keys d) then None else Some PxAttribute)
         | Some (PStr s) \<Rightarrow> ((a, False), if py_contains i s then None else Some PxAttribute)
         | Some _ \<Rightarrow> ((a, False), Some PxType))"

definition credit_contribution :: "string \<Rightarrow> string \<Rightarrow> prop_engine \<Rightarrow> prop_engine \<times> px_error option" where
  "credit_contribution agent i g =
     (case pg_registry g of None \<Rightarrow> (g, None)
      | Some r \<Rightarrow>
          (case dict_get (r_agents r) agent of None \<Rightarrow> (g, None)
           | Some a \<Rightarrow>
               (let ((a', changed), err) = add_contribution i a; r' = r\<lparr>r_agents := dict_set agent a' (r_agents r)\<rparr>
                in (g\<lparr>pg_registry := Some (if changed then reg_save r' else r')\<rparr>, err))))"

section \<open>An approval\<close>

text \<open>
  Where a call of \<open>approve\<close> is. The number is that of the votes it has counted; a proposal is the object the call holds.
\<close>

datatype px_pc =
    PcVote
  | PcReview nat int
  | PcLook nat
  | PcStage nat
  | PcStaged nat
  | PcApprove nat
  | PcApply ext_prop
  | PcRevert px_error
  | PcCredit ext_prop
  | PcDone "px_error + ext_prop"

definition voted_for :: "string \<Rightarrow> time \<Rightarrow> ext_prop \<Rightarrow> ext_prop" where
  "voted_for by now p = p\<lparr>xp_votes := (if by \<in> set (xp_votes p) then xp_votes p else xp_votes p @ [by]), xp_updated := now\<rparr>"

definition vote_step :: "time \<Rightarrow> string \<Rightarrow> string \<Rightarrow> prop_engine \<Rightarrow> prop_engine \<times> eff list \<times> px_pc" where
  "vote_step now i by g =
     (case px_load i g of None \<Rightarrow> (g, [], PcDone (Inl (not_found i)))
      | Some p \<Rightarrow>
          if xp_status p \<in> {XApproved, XRejected}
          then (g, [], PcDone (Inl (PxValue (''Proposal is already '' @ py_repr (xp_state_str (xp_status p))))))
          else let p' = voted_for by now p; n = length (xp_votes p')
               in (px_save now p' g, [], if int n < xp_quorum p then PcReview n (xp_quorum p) else PcLook n))"

definition review_step :: "time \<Rightarrow> string \<Rightarrow> string \<Rightarrow> nat \<Rightarrow> int \<Rightarrow> prop_engine \<Rightarrow> prop_engine \<times> eff list \<times> px_pc" where
  "review_step now i by n quorum g =
     (case px_load i g of None \<Rightarrow> (g, [], PcDone (Inl PxAttribute))
      | Some p \<Rightarrow>
          let p' = p\<lparr>xp_status := XReview, xp_updated := now\<rparr>
          in (px_save now p' g,
              px_emit ''consensus.vote_cast'' [(''proposal_id'', PStr i), (''voted_by'', PStr by), (''votes_cast'', PInt (int n)),
                 (''votes_needed'', PInt quorum)] g, PcDone (Inr p')))"

definition approve_step :: "time \<Rightarrow> string \<Rightarrow> string \<Rightarrow> nat \<Rightarrow> prop_engine \<Rightarrow> prop_engine \<times> eff list \<times> px_pc" where
  "approve_step now i by n g =
     (let es = px_emit ''consensus.reached'' [(''proposal_id'', PStr i), (''approved_by'', PStr by), (''votes'', PInt (int n))] g
      in case px_load i g of None \<Rightarrow> (g, es, PcDone (Inl PxAttribute))
         | Some p \<Rightarrow>
             if xp_status p \<noteq> XStaging then (g, es, PcDone (Inr p))
             else let p' = p\<lparr>xp_approver := Some by, xp_status := XApproved, xp_updated := now\<rparr>
                  in (px_save now p' g, es, PcApply p'))"

definition revert_step :: "time \<Rightarrow> string \<Rightarrow> px_error \<Rightarrow> prop_engine \<Rightarrow> prop_engine \<times> eff list \<times> px_pc" where
  "revert_step now i e g =
     (case px_load i g of None \<Rightarrow> (g, [], PcDone (Inl PxAttribute))
      | Some p \<Rightarrow> (px_save now (p\<lparr>xp_status := XStaging, xp_reason := Some (''Apply error: '' @ px_text e)\<rparr>) g, [], PcDone (Inl e)))"

definition credit_step :: "string \<Rightarrow> string \<Rightarrow> ext_prop \<Rightarrow> prop_engine \<Rightarrow> prop_engine \<times> eff list \<times> px_pc" where
  "credit_step i by p g =
     (case credit_contribution (xp_by p) i g of
        (g', Some e) \<Rightarrow> (g', [], PcDone (Inl e))
      | (g', None) \<Rightarrow>
          (g', px_emit ''system.extended'' [(''proposal_id'', PStr i), (''proposal_type'', PStr (xp_type p)), (''proposed_by'', PStr (xp_by p)),
                 (''approved_by'', PStr by), (''tool_name'', dict_get_or PNone (xp_spec p) ''name'')] g', PcDone (Inr p)))"

text \<open>One step of a call of \<open>approve\<close>: what happens under one lock, or one access to the files.\<close>

fun call_step :: "px_env \<Rightarrow> time \<Rightarrow> string \<Rightarrow> string \<Rightarrow> px_pc \<Rightarrow> prop_engine \<Rightarrow> prop_engine \<times> eff list \<times> px_pc" where
  "call_step env now i by PcVote g = vote_step now i by g"
| "call_step env now i by (PcReview n quorum) g = review_step now i by n quorum g"
| "call_step env now i by (PcLook n) g =
     (case px_load i g of None \<Rightarrow> (g, [], PcDone (Inl PxAttribute))
      | Some p \<Rightarrow> (g, [], if xp_status p \<in> {XProposed, XReview} then PcStage n else PcApprove n))"
| "call_step env now i by (PcStage n) g =
     (case px_stage env now i g of (g', es, Inl e) \<Rightarrow> (g', es, PcDone (Inl e)) | (g', es, Inr r) \<Rightarrow> (g', es, PcStaged n))"
| "call_step env now i by (PcStaged n) g =
     (case px_load i g of None \<Rightarrow> (g, [], PcDone (Inl PxAttribute))
      | Some p \<Rightarrow> (g, [], if xp_status p \<noteq> XStaging then PcDone (Inr p) else PcApprove n))"
| "call_step env now i by (PcApprove n) g = approve_step now i by n g"
| "call_step env now i by (PcApply p) g =
     (case apply_change env now p g of (g', None) \<Rightarrow> (g', [], PcCredit p) | (g', Some e) \<Rightarrow> (g', [], PcRevert e))"
| "call_step env now i by (PcRevert e) g = revert_step now i e g"
| "call_step env now i by (PcCredit p) g = credit_step i by p g"
| "call_step env now i by (PcDone r) g = (g, [], PcDone r)"

fun pc_rank :: "px_pc \<Rightarrow> nat" where
  "pc_rank PcVote = 7"
| "pc_rank (PcReview n q) = 1"
| "pc_rank (PcLook n) = 6"
| "pc_rank (PcStage n) = 5"
| "pc_rank (PcStaged n) = 4"
| "pc_rank (PcApprove n) = 3"
| "pc_rank (PcApply p) = 2"
| "pc_rank (PcRevert e) = 1"
| "pc_rank (PcCredit p) = 1"
| "pc_rank (PcDone r) = 0"

lemma pc_rank_step: "pc_rank pc \<noteq> 0 \<Longrightarrow> pc_rank (snd (snd (call_step env now i by pc g))) < pc_rank pc"
  by (cases pc) (auto simp: vote_step_def review_step_def approve_step_def revert_step_def credit_step_def Let_def split: option.split sum.split prod.split)

text \<open>A call that is not interrupted; \<open>clk\<close> is the clock before the step of a given rank.\<close>

function run_call :: "px_env \<Rightarrow> (nat \<Rightarrow> time) \<Rightarrow> string \<Rightarrow> string \<Rightarrow> px_pc \<Rightarrow> prop_engine \<Rightarrow> eff list \<Rightarrow> prop_engine \<times> eff list \<times> px_pc" where
  "run_call env clk i by pc g es =
     (if pc_rank pc = 0 then (g, es, pc)
      else let (g', es', pc') = call_step env (clk (pc_rank pc)) i by pc g in run_call env clk i by pc' g' (es @ es'))"
  by pat_completeness auto
termination
proof (relation "measure (\<lambda>(env, clk, i, by, pc, g, es). pc_rank pc)")
  fix env clk i "by" pc g es x g' y es' pc'
  assume "pc_rank pc \<noteq> 0" "x = call_step env (clk (pc_rank pc)) i by pc g" "(g', y) = x" "(es', pc') = y"
  then have pc: "pc_rank pc \<noteq> 0" and s: "call_step env (clk (pc_rank pc)) i by pc g = (g', es', pc')" by simp_all
  have "pc_rank pc' < pc_rank pc" using pc_rank_step [OF pc, of env "clk (pc_rank pc)" i "by" g] by (simp add: s)
  then show "((env, clk, i, by, pc', g', es @ es'), (env, clk, i, by, pc, g, es)) \<in> measure (\<lambda>(env, clk, i, by, pc, g, es). pc_rank pc)" by simp
qed simp

declare run_call.simps [simp del]

definition px_approve :: "px_env \<Rightarrow> (nat \<Rightarrow> time) \<Rightarrow> string \<Rightarrow> string \<Rightarrow> prop_engine \<Rightarrow> prop_engine \<times> eff list \<times> (px_error + ext_prop)" where
  "px_approve env clk i by g =
     (case run_call env clk i by PcVote g [] of (g', es, PcDone r) \<Rightarrow> (g', es, r) | (g', es, _) \<Rightarrow> (g', es, Inl PxAttribute))"

lemma run_call_done: "pc_rank (snd (snd (run_call env clk i by pc g es))) = 0"
proof (induction env clk i "by" pc g es rule: run_call.induct)
  case (1 env clk i "by" pc g es)
  show ?case
  proof (cases "pc_rank pc = 0")
    case False
    obtain g' es' pc' where s: "call_step env (clk (pc_rank pc)) i by pc g = (g', es', pc')" by (cases "call_step env (clk (pc_rank pc)) i by pc g")
    then show ?thesis using 1 [OF False s [symmetric] refl] False by (simp add: run_call.simps [of env clk i "by" pc])
  qed (simp add: run_call.simps)
qed

lemma run_call_result:
  obtains r where "snd (snd (run_call env clk i by pc g es)) = PcDone r"
  using run_call_done [of env clk i "by" pc g es] by (cases "snd (snd (run_call env clk i by pc g es))") auto

section \<open>Rejection and queries\<close>

definition px_reject :: "time \<Rightarrow> string \<Rightarrow> string \<Rightarrow> string \<Rightarrow> prop_engine \<Rightarrow> prop_engine \<times> eff list \<times> bool" where
  "px_reject now i reason by g =
     (case px_load i g of None \<Rightarrow> (g, [], False)
      | Some p \<Rightarrow>
          if xp_status p \<in> {XApproved, XRejected} then (g, [], False)
          else (px_save now (p\<lparr>xp_status := XRejected, xp_reason := Some reason, xp_updated := now\<rparr>) g,
                px_emit ''system.proposal_rejected'' [(''proposal_id'', PStr i), (''reason'', PStr reason), (''proposed_by'', PStr (xp_by p)),
                   (''rejected_by'', PStr by)] g, True))"

text \<open>The last written first; the limit is looked at after a proposal was taken.\<close>

fun list_loop :: "string option \<Rightarrow> string option \<Rightarrow> int \<Rightarrow> ext_prop list \<Rightarrow> ext_prop list \<Rightarrow> ext_prop list" where
  "list_loop status agent limit out [] = out"
| "list_loop status agent limit out (p # ps) =
     (if truthy_str status \<and> Some (xp_state_str (xp_status p)) \<noteq> status then list_loop status agent limit out ps
      else if truthy_str agent \<and> Some (xp_by p) \<noteq> agent then list_loop status agent limit out ps
      else if limit \<le> int (length (out @ [p])) then out @ [p]
      else list_loop status agent limit (out @ [p]) ps)"

definition px_list :: "string option \<Rightarrow> string option \<Rightarrow> int \<Rightarrow> prop_engine \<Rightarrow> ext_prop list" where
  "px_list status agent limit g = list_loop status agent limit [] (map fst (sort_key (\<lambda>(p, written). - written) (vals (pg_files g))))"

definition dynamic_tools :: "prop_engine \<Rightarrow> payload list" where
  "dynamic_tools g = map snd (sort_key (\<lambda>(name, t). name @ ''.json'') (pg_tools g))"

definition reload_tools :: "prop_engine \<Rightarrow> nat \<times> payload list" where
  "reload_tools g = (let ts = dynamic_tools g in (length ts, ts))"

section \<open>Requests\<close>

text \<open>The agent of a request; the entries of the audit log that follow a request are left out.\<close>

definition resolve_agent :: "keying \<Rightarrow> string option \<Rightarrow> prop_engine \<Rightarrow> agent option" where
  "resolve_agent kg auth g =
     (case (auth, pg_registry g) of
        (Some h, Some r) \<Rightarrow> if starts_with ''Bearer '' h then reg_authenticate kg (py_strip (drop 7 h)) r else None
      | _ \<Rightarrow> None)"

definition may_approve :: "agent \<Rightarrow> bool" where
  "may_approve a = (has_cap a ''admin'' \<or> a_role a \<in> {''root'', ''orchestrator''})"

definition http_of :: "px_error + 'a \<Rightarrow> 'a http" where
  "http_of r = (case r of Inl (PxValue s) \<Rightarrow> HttpError 400 | Inl e \<Rightarrow> HttpError 500 | Inr x \<Rightarrow> HttpOk x)"

definition route_submit :: "keying \<Rightarrow> string option \<Rightarrow> string \<Rightarrow> time \<Rightarrow> string \<Rightarrow> payload \<Rightarrow> pyval list \<Rightarrow> string \<Rightarrow> int option \<Rightarrow> prop_engine
    \<Rightarrow> prop_engine \<times> eff list \<times> string http" where
  "route_submit kg auth i now typ spec tests rationale quorum g =
     (case resolve_agent kg auth g of None \<Rightarrow> (g, [], HttpError 401)
      | Some a \<Rightarrow>
          (case px_submit i now (a_id a) typ spec tests rationale (case quorum of None \<Rightarrow> 1 | Some q \<Rightarrow> if q = 0 then 1 else q) g of
             (g', es, r) \<Rightarrow> (g', es, http_of r)))"

definition route_list :: "keying \<Rightarrow> string option \<Rightarrow> string option \<Rightarrow> string option \<Rightarrow> int \<Rightarrow> prop_engine \<Rightarrow> (ext_prop list \<times> nat) http" where
  "route_list kg auth status agent limit g =
     (case resolve_agent kg auth g of None \<Rightarrow> HttpError 401
      | Some a \<Rightarrow> (let ps = px_list status agent limit g in HttpOk (ps, length ps)))"

definition route_get :: "keying \<Rightarrow> string option \<Rightarrow> string \<Rightarrow> prop_engine \<Rightarrow> ext_prop http" where
  "route_get kg auth i g =
     (case resolve_agent kg auth g of None \<Rightarrow> HttpError 401
      | Some a \<Rightarrow> (case px_load i g of None \<Rightarrow> HttpError 404 | Some p \<Rightarrow> HttpOk p))"

definition route_stage :: "keying \<Rightarrow> string option \<Rightarrow> px_env \<Rightarrow> time \<Rightarrow> string \<Rightarrow> prop_engine \<Rightarrow> prop_engine \<times> eff list \<times> staging http" where
  "route_stage kg auth env now i g =
     (case resolve_agent kg auth g of None \<Rightarrow> (g, [], HttpError 401)
      | Some a \<Rightarrow> (case px_stage env now i g of (g', es, r) \<Rightarrow> (g', es, http_of r)))"

definition route_approve :: "keying \<Rightarrow> string option \<Rightarrow> px_env \<Rightarrow> (nat \<Rightarrow> time) \<Rightarrow> string \<Rightarrow> prop_engine
    \<Rightarrow> prop_engine \<times> eff list \<times> ext_prop http" where
  "route_approve kg auth env clk i g =
     (case resolve_agent kg auth g of None \<Rightarrow> (g, [], HttpError 401)
      | Some a \<Rightarrow> if \<not> may_approve a then (g, [], HttpError 403)
                   else (case px_approve env clk i (a_id a) g of (g', es, r) \<Rightarrow> (g', es, http_of r)))"

definition route_reject :: "keying \<Rightarrow> string option \<Rightarrow> time \<Rightarrow> string \<Rightarrow> string \<Rightarrow> prop_engine \<Rightarrow> prop_engine \<times> eff list \<times> unit http" where
  "route_reject kg auth now i reason g =
     (case resolve_agent kg auth g of None \<Rightarrow> (g, [], HttpError 401)
      | Some a \<Rightarrow> if \<not> may_approve a then (g, [], HttpError 403)
                   else (case px_reject now i reason (a_id a) g of (g', es, ok) \<Rightarrow> (g', es, if ok then HttpOk () else HttpError 400)))"

section \<open>Nothing without a quorum\<close>

definition cases_pass :: "px_env \<Rightarrow> ext_prop \<Rightarrow> bool" where
  "cases_pass env p = (case run_test_cases env p of Inl e \<Rightarrow> False | Inr r \<Rightarrow> sn_passed r)"

definition quorate :: "ext_prop \<Rightarrow> bool" where
  "quorate p = (xp_quorum p \<le> int (length (xp_votes p)))"

definition good_prop :: "px_env \<Rightarrow> string \<Rightarrow> ext_prop \<Rightarrow> bool" where
  "good_prop env i p =
     (xp_id p = i \<and> distinct (xp_votes p)
      \<and> (if xp_status p \<in> {XStaging, XApproved} then cases_pass env p else True)
      \<and> (if xp_status p = XApproved then quorate p else True))"

definition vouched :: "px_env \<Rightarrow> string \<Rightarrow> prop_engine \<Rightarrow> bool" where
  "vouched env i g = (case px_load i g of None \<Rightarrow> False | Some p \<Rightarrow> quorate p \<and> cases_pass env p)"

text \<open>Two states of a proposal: the content is the same, and no vote is taken back.\<close>

definition same_content :: "ext_prop \<Rightarrow> ext_prop \<Rightarrow> bool" where
  "same_content p q = (xp_id p = xp_id q \<and> xp_by p = xp_by q \<and> xp_type p = xp_type q \<and> xp_spec p = xp_spec q
     \<and> xp_tests p = xp_tests q \<and> xp_quorum p = xp_quorum q)"

definition grown :: "ext_prop \<Rightarrow> ext_prop \<Rightarrow> bool" where
  "grown p q = (same_content p q \<and> length (xp_votes p) \<le> length (xp_votes q))"

definition grows :: "prop_engine \<Rightarrow> prop_engine \<Rightarrow> bool" where
  "grows g g' = list_all (\<lambda>i. case px_load i g of None \<Rightarrow> True
     | Some p \<Rightarrow> (case px_load i g' of None \<Rightarrow> False | Some q \<Rightarrow> grown p q)) (keys (pg_files g))"

definition pc_ok :: "px_env \<Rightarrow> string \<Rightarrow> px_pc \<Rightarrow> prop_engine \<Rightarrow> bool" where
  "pc_ok env i pc g =
     (case px_load i g of None \<Rightarrow> (case pc of PcVote \<Rightarrow> True | PcDone r \<Rightarrow> True | _ \<Rightarrow> False)
      | Some p \<Rightarrow>
          (case pc of
             PcLook n \<Rightarrow> quorate p | PcStage n \<Rightarrow> quorate p | PcStaged n \<Rightarrow> quorate p | PcApprove n \<Rightarrow> quorate p
           | PcApply q \<Rightarrow> quorate p \<and> cases_pass env p \<and> same_content p q
           | PcCredit q \<Rightarrow> quorate p \<and> cases_pass env p \<and> same_content p q
           | PcRevert e \<Rightarrow> cases_pass env p
           | _ \<Rightarrow> True))"

definition tool_ok :: "px_env \<Rightarrow> prop_engine \<Rightarrow> payload \<Rightarrow> bool" where
  "tool_ok env g t = (case dict_get t ''proposal_id'' of Some (PStr i) \<Rightarrow> vouched env i g | _ \<Rightarrow> False)"

definition px_ok :: "px_env \<Rightarrow> prop_engine \<Rightarrow> bool" where
  "px_ok env g = (wf_dict (pg_files g) \<and> list_all (\<lambda>(i, p, written). good_prop env i p) (pg_files g)
     \<and> list_all (\<lambda>(n, t). tool_ok env g t) (pg_tools g))"

lemma load_save [simp]: "px_load j (px_save now p g) = (if j = xp_id p then Some p else px_load j g)"
  by (simp add: px_load_def px_save_def)

lemma save_fields [simp]:
  "pg_tools (px_save now p g) = pg_tools g" "pg_registry (px_save now p g) = pg_registry g" "pg_standards (px_save now p g) = pg_standards g"
  by (simp_all add: px_save_def)

lemma growsD: "grows g g' \<Longrightarrow> px_load i g = Some p \<Longrightarrow> \<exists>q. px_load i g' = Some q \<and> grown p q"
  using dict_get_None [of "pg_files g" i] by (force simp: grows_def list_all_iff px_load_def split: option.splits)

lemma growsI: "(\<And>i p. px_load i g = Some p \<Longrightarrow> \<exists>q. px_load i g' = Some q \<and> grown p q) \<Longrightarrow> grows g g'"
  unfolding grows_def list_all_iff by (auto split: option.split) fastforce+

lemma grown_refl [simp]: "grown p p"
  by (simp add: grown_def same_content_def)

lemma grown_trans: "grown p q \<Longrightarrow> grown q r \<Longrightarrow> grown p r"
  by (simp add: grown_def same_content_def)

lemma grows_refl [simp]: "grows g g"
  by (rule growsI) auto

lemma grows_trans: "grows g h \<Longrightarrow> grows h k \<Longrightarrow> grows g k"
proof (rule growsI)
  fix i p
  assume h: "grows g h" "grows h k" "px_load i g = Some p"
  from growsD [OF h(1,3)] obtain q where q: "px_load i h = Some q" "grown p q" by blast
  from growsD [OF h(2) q(1)] grown_trans [OF q(2)] show "\<exists>r. px_load i k = Some r \<and> grown p r" by blast
qed

lemma load_files: "pg_files g' = pg_files g \<Longrightarrow> px_load i g' = px_load i g"
  by (simp add: px_load_def)

lemma grows_files: "pg_files g' = pg_files g \<Longrightarrow> grows g g'"
  by (rule growsI) (auto simp: px_load_def intro: grown_refl)

lemma grows_save: "(case px_load (xp_id p) g of None \<Rightarrow> True | Some q \<Rightarrow> grown q p) \<Longrightarrow> grows g (px_save now p g)"
  by (rule growsI) (auto split: option.splits)

lemma same_pass: "same_content p q \<Longrightarrow> cases_pass env p = cases_pass env q"
  by (simp add: cases_pass_def run_test_cases_def same_content_def)

lemma grown_quorate: "grown p q \<Longrightarrow> quorate p \<Longrightarrow> quorate q"
  by (simp add: grown_def same_content_def quorate_def)

lemma grown_pass: "grown p q \<Longrightarrow> cases_pass env p = cases_pass env q"
  by (simp add: grown_def same_pass)

lemma vouched_grows: "vouched env i g \<Longrightarrow> grows g g' \<Longrightarrow> vouched env i g'"
  using growsD [of g g' i] by (auto simp: vouched_def grown_quorate grown_pass split: option.splits dest: growsD)

lemma tool_ok_grows: "tool_ok env g t \<Longrightarrow> grows g g' \<Longrightarrow> tool_ok env g' t"
  by (auto simp: tool_ok_def vouched_grows split: option.splits pyval.splits)

lemma pc_ok_grows:
  assumes "pc_ok env i pc g" and "grows g g'"
  shows "pc_ok env i pc g'"
proof (cases "px_load i g")
  case None
  then show ?thesis using assms(1) by (cases pc) (auto simp: pc_ok_def split: option.split)
next
  case (Some p)
  from growsD [OF assms(2) Some] obtain q where q: "px_load i g' = Some q" "grown p q" by blast
  have same: "same_content q r \<longleftrightarrow> same_content p r" for r using q(2) by (auto simp: grown_def same_content_def)
  show ?thesis using assms(1) Some q grown_quorate [OF q(2)] grown_pass [OF q(2), of env] by (cases pc) (auto simp: pc_ok_def same)
qed

lemma load_good: "px_ok env g \<Longrightarrow> px_load i g = Some p \<Longrightarrow> good_prop env i p"
  by (auto simp: px_ok_def px_load_def list_all_iff dest!: dict_get_in)

lemma ok_save:
  assumes ok: "px_ok env g" and good: "good_prop env (xp_id p) p"
    and old: "case px_load (xp_id p) g of None \<Rightarrow> True | Some q \<Rightarrow> grown q p"
  shows "px_ok env (px_save now p g) \<and> grows g (px_save now p g)"
proof -
  have gr: "grows g (px_save now p g)" by (rule grows_save [OF old])
  have "list_all (\<lambda>(i, p, written). good_prop env i p) (pg_files (px_save now p g))"
    using ok good by (auto simp: px_ok_def px_save_def list_all_iff set_dict_set split: if_splits)
  moreover have "list_all (\<lambda>(n, t). tool_ok env (px_save now p g) t) (pg_tools g)"
    using ok tool_ok_grows [OF _ gr] by (auto simp: px_ok_def list_all_iff)
  ultimately show ?thesis using ok gr by (simp add: px_ok_def) (simp add: px_save_def)
qed

lemma ok_files:
  assumes "px_ok env g" and "pg_files g' = pg_files g" and "list_all (\<lambda>(n, t). tool_ok env g t) (pg_tools g')"
  shows "px_ok env g' \<and> grows g g'"
proof -
  have "tool_ok env g' t = tool_ok env g t" for t by (simp add: tool_ok_def vouched_def load_files [OF assms(2)] split: option.split pyval.split)
  then show ?thesis using assms by (simp add: px_ok_def grows_files)
qed

text \<open>What a step keeps: the invariant, the votes and contents of the proposals, and what the call relies on.\<close>

definition keeps :: "px_env \<Rightarrow> string \<Rightarrow> prop_engine \<Rightarrow> prop_engine \<times> eff list \<times> px_pc \<Rightarrow> bool" where
  "keeps env i g r = (case r of (g', es, pc') \<Rightarrow> px_ok env g' \<and> grows g g' \<and> pc_ok env i pc' g')"

lemma keeps_save:
  assumes "px_ok env g" and "px_load i g = Some p" and "good_prop env i p'" and "grown p p'" and "pc_ok env i pc' (px_save now p' g)"
  shows "keeps env i g (px_save now p' g, es, pc')"
proof -
  from assms(3) have i: "xp_id p' = i" by (simp add: good_prop_def)
  have "px_ok env (px_save now p' g) \<and> grows g (px_save now p' g)"
    by (rule ok_save) (use assms(1-4) i in \<open>simp_all\<close>)
  with assms(5) show ?thesis by (simp add: keeps_def)
qed

lemma stage_keeps:
  assumes ok: "px_ok env g"
  shows "px_ok env (fst (px_stage env now i g)) \<and> grows g (fst (px_stage env now i g))"
proof (cases "px_load i g")
  case (Some p)
  note good = load_good [OF ok Some]
  show ?thesis
  proof (cases "run_test_cases env p")
    case (Inr r)
    define p' where "p' = (if sn_passed r then p\<lparr>xp_staging := Some r, xp_updated := now, xp_status := XStaging\<rparr>
       else p\<lparr>xp_staging := Some r, xp_updated := now, xp_status := XRejected,
              xp_reason := Some (staging_reason r)\<rparr>)"
    have "sn_passed r \<Longrightarrow> cases_pass env p" by (simp add: cases_pass_def Inr)
    then have g': "good_prop env i p'" "grown p p'"
      using good by (auto simp: p'_def good_prop_def grown_def same_content_def cases_pass_def run_test_cases_def)
    have "px_ok env (px_save now p' g) \<and> grows g (px_save now p' g)"
      using keeps_save [OF ok Some g', of "PcDone (Inl PxType)"] by (simp add: keeps_def pc_ok_def split: option.splits)
    then show ?thesis using ok by (simp add: px_stage_def Some Inr Let_def p'_def)
  qed (use ok in \<open>simp add: px_stage_def Some\<close>)
qed (use ok in \<open>simp add: px_stage_def\<close>)

lemma vote_keeps: "px_ok env g \<Longrightarrow> keeps env i g (vote_step now i by g)"
proof (cases "px_load i g")
  case (Some p)
  assume ok: "px_ok env g"
  note good = load_good [OF ok Some]
  define p' where "p' = voted_for by now p"
  have g': "good_prop env i p'" "grown p p'"
    using good by (auto simp: p'_def voted_for_def good_prop_def grown_def same_content_def cases_pass_def run_test_cases_def quorate_def)
  have id: "xp_id p' = i" using g'(1) by (simp add: good_prop_def)
  show ?thesis
  proof (cases "xp_status p \<in> {XApproved, XRejected}")
    case False
    define pc where "pc = (if int (length (xp_votes p')) < xp_quorum p then PcReview (length (xp_votes p')) (xp_quorum p) else PcLook (length (xp_votes p')))"
    have "xp_quorum p' = xp_quorum p" by (simp add: p'_def voted_for_def)
    then have "pc_ok env i pc (px_save now p' g)" by (simp add: pc_ok_def pc_def id quorate_def)
    from keeps_save [OF ok Some g' this, of "[]"] show ?thesis using False by (simp add: vote_step_def Some Let_def p'_def [symmetric] pc_def)
  qed (use ok in \<open>auto simp: vote_step_def Some keeps_def pc_ok_def\<close>)
qed (simp add: vote_step_def keeps_def pc_ok_def)

lemma review_keeps: "px_ok env g \<Longrightarrow> keeps env i g (review_step now i by n quorum g)"
proof (cases "px_load i g")
  case (Some p)
  assume ok: "px_ok env g"
  note good = load_good [OF ok Some]
  show ?thesis unfolding review_step_def Some Let_def option.case
    by (rule keeps_save [OF ok Some]) (use good in \<open>simp_all add: good_prop_def grown_def same_content_def pc_ok_def\<close>)
qed (simp add: review_step_def keeps_def pc_ok_def)

lemma approve_keeps: "px_ok env g \<Longrightarrow> pc_ok env i (PcApprove n) g \<Longrightarrow> keeps env i g (approve_step now i by n g)"
proof (cases "px_load i g")
  case (Some p)
  assume ok: "px_ok env g" and pc: "pc_ok env i (PcApprove n) g"
  note good = load_good [OF ok Some]
  show ?thesis
  proof (cases "xp_status p = XStaging")
    case True
    define p' where "p' = p\<lparr>xp_approver := Some by, xp_status := XApproved, xp_updated := now\<rparr>"
    have q: "quorate p" and c: "cases_pass env p" using pc good True by (simp_all add: pc_ok_def Some good_prop_def)
    have sc: "same_content p p'" by (simp add: p'_def same_content_def)
    have p': "good_prop env i p'" "grown p p'" "quorate p'" "cases_pass env p'"
      using good q c same_pass [OF sc, of env] by (simp_all add: p'_def good_prop_def grown_def same_content_def quorate_def)
    have "pc_ok env i (PcApply p') (px_save now p' g)" using p' by (simp add: pc_ok_def same_content_def good_prop_def)
    from keeps_save [OF ok Some p'(1,2) this] show ?thesis using True by (simp add: approve_step_def Some Let_def p'_def)
  qed (use ok in \<open>auto simp: approve_step_def Some keeps_def pc_ok_def Let_def\<close>)
qed (simp add: pc_ok_def)

lemma revert_keeps: "px_ok env g \<Longrightarrow> pc_ok env i (PcRevert e) g \<Longrightarrow> keeps env i g (revert_step now i e g)"
proof (cases "px_load i g")
  case (Some p)
  assume ok: "px_ok env g" and pc: "pc_ok env i (PcRevert e) g"
  note good = load_good [OF ok Some]
  have c: "cases_pass env p" using pc by (simp add: pc_ok_def Some)
  have "cases_pass env (p\<lparr>xp_status := XStaging, xp_reason := r\<rparr>)" for r using c by (simp add: cases_pass_def run_test_cases_def)
  then show ?thesis unfolding revert_step_def Some option.case
    by (intro keeps_save [OF ok Some]) (use good in \<open>simp_all add: good_prop_def grown_def same_content_def pc_ok_def\<close>)
qed (simp add: pc_ok_def)

lemma change_files: "pg_files (fst (apply_change env now p g)) = pg_files g"
  by (simp add: apply_change_def Let_def split: option.split sum.split)

lemma apply_tools:
  "(n, t) \<in> set (pg_tools (fst (apply_change env now p g))) \<Longrightarrow> (n, t) \<in> set (pg_tools g) \<or> dict_get t ''proposal_id'' = Some (PStr (xp_id p))"
  by (auto simp: apply_change_def Let_def dyn_tool_spec_def split: option.splits sum.splits if_splits dest!: in_dict_set)

lemma apply_keeps:
  assumes ok: "px_ok env g" and pc: "pc_ok env i (PcApply q) g"
  shows "keeps env i g (call_step env now i by (PcApply q) g)"
proof -
  from pc obtain p where p: "px_load i g = Some p" "quorate p" "cases_pass env p" "same_content p q" by (auto simp: pc_ok_def split: option.splits)
  obtain g' err where a: "apply_change env now q g = (g', err)" by fastforce
  have f: "pg_files g' = pg_files g" using change_files [of env now q g] by (simp add: a)
  have id: "xp_id q = i" using load_good [OF ok p(1)] p(4) by (simp add: good_prop_def same_content_def)
  have "vouched env i g" using p by (simp add: vouched_def)
  then have new: "dict_get t ''proposal_id'' = Some (PStr i) \<Longrightarrow> tool_ok env g t" for t by (simp add: tool_ok_def)
  have "tool_ok env g t" if "(n, t) \<in> set (pg_tools g')" for n t
    using ok apply_tools [of n t env now q g] that new [of t] by (auto simp: px_ok_def list_all_iff a id)
  then have "list_all (\<lambda>(n, t). tool_ok env g t) (pg_tools g')" by (auto simp: list_all_iff)
  from ok_files [OF ok f this] have k: "px_ok env g' \<and> grows g g'" .
  have "pc_ok env i (PcCredit q) g'" "pc_ok env i (PcRevert e) g'" for e using p by (simp_all add: pc_ok_def load_files [OF f])
  with k show ?thesis by (simp add: keeps_def a split: option.split)
qed

lemma credit_state: "fst (credit_contribution agent i g) = g \<or> (\<exists>r. fst (credit_contribution agent i g) = g\<lparr>pg_registry := Some r\<rparr>)"
  by (auto simp: credit_contribution_def Let_def split: option.split prod.split)

lemma credit_keeps: "px_ok env g \<Longrightarrow> keeps env i g (credit_step i by p g)"
proof -
  assume ok: "px_ok env g"
  obtain g' err where c: "credit_contribution (xp_by p) i g = (g', err)" by fastforce
  from credit_state [of "xp_by p" i g] have "pg_files g' = pg_files g" "pg_tools g' = pg_tools g" by (auto simp: c)
  from ok_files [OF ok this(1)] this(2) ok have "px_ok env g' \<and> grows g g'" by (simp add: px_ok_def)
  then show ?thesis by (simp add: credit_step_def c keeps_def pc_ok_def split: option.split)
qed

lemma step_keeps: "px_ok env g \<Longrightarrow> pc_ok env i pc g \<Longrightarrow> keeps env i g (call_step env now i by pc g)"
proof (cases pc)
  case (PcLook n)
  assume "px_ok env g" "pc_ok env i pc g"
  then show ?thesis by (auto simp: PcLook keeps_def pc_ok_def split: option.splits)
next
  case (PcStage n)
  assume ok: "px_ok env g" and pc: "pc_ok env i pc g"
  note k = stage_keeps [OF ok, of now i]
  have "pc_ok env i (PcStaged n) (fst (px_stage env now i g))"
  proof (rule pc_ok_grows)
    show "pc_ok env i (PcStaged n) g" using pc by (auto simp: PcStage pc_ok_def split: option.splits)
  qed (use k in simp)
  with k show ?thesis by (cases "px_stage env now i g") (auto simp: PcStage keeps_def pc_ok_def split: sum.splits option.splits)
next
  case (PcStaged n)
  assume "px_ok env g" "pc_ok env i pc g"
  then show ?thesis by (auto simp: PcStaged keeps_def pc_ok_def split: option.splits)
next
  case (PcApply q)
  assume "px_ok env g" "pc_ok env i pc g"
  then show ?thesis unfolding PcApply by (rule apply_keeps)
next
  case (PcDone r)
  assume "px_ok env g" "pc_ok env i pc g"
  then show ?thesis by (simp add: PcDone keeps_def)
qed (simp_all add: vote_keeps review_keeps approve_keeps revert_keeps credit_keeps)

lemma run_keeps:
  "px_ok env g \<Longrightarrow> pc_ok env i pc g \<Longrightarrow> px_ok env (fst (run_call env clk i by pc g es)) \<and> grows g (fst (run_call env clk i by pc g es))"
proof (induction env clk i "by" pc g es rule: run_call.induct)
  case (1 env clk i "by" pc g es)
  show ?case
  proof (cases "pc_rank pc = 0")
    case True
    then show ?thesis using 1 by (simp add: run_call.simps [of env clk i "by" pc])
  next
    case False
    obtain g' es' pc' where s: "call_step env (clk (pc_rank pc)) i by pc g = (g', es', pc')" by (cases "call_step env (clk (pc_rank pc)) i by pc g")
    from step_keeps [OF 1(2,3), of "clk (pc_rank pc)" "by"] have k: "px_ok env g'" "grows g g'" "pc_ok env i pc' g'" by (simp_all add: s keeps_def)
    from 1(1) [OF False s [symmetric] refl refl k(1,3)] k(2) False show ?thesis
      by (simp add: run_call.simps [of env clk i "by" pc] s) (blast intro: grows_trans)
  qed
qed

lemma approve_run: "fst (px_approve env clk i by g) = fst (run_call env clk i by PcVote g [])"
proof -
  obtain r where "snd (snd (run_call env clk i by PcVote g [])) = PcDone r" by (rule run_call_result)
  then show ?thesis by (cases "run_call env clk i by PcVote g []") (simp add: px_approve_def)
qed

lemma approve_ok: "px_ok env g \<Longrightarrow> px_ok env (fst (px_approve env clk i by g)) \<and> grows g (fst (px_approve env clk i by g))"
proof -
  assume ok: "px_ok env g"
  have "pc_ok env i PcVote g" by (simp add: pc_ok_def split: option.split)
  from run_keeps [OF ok this, of clk "by" "[]"] show ?thesis by (simp add: approve_run)
qed

lemma reject_keeps: "px_ok env g \<Longrightarrow> px_ok env (fst (px_reject now i reason by g)) \<and> grows g (fst (px_reject now i reason by g))"
proof (cases "px_load i g")
  case (Some p)
  assume ok: "px_ok env g"
  note good = load_good [OF ok Some]
  have "keeps env i g (px_save now (p\<lparr>xp_status := XRejected, xp_reason := Some reason, xp_updated := now\<rparr>) g, [], PcDone (Inl PxType))"
    by (rule keeps_save [OF ok Some]) (use good in \<open>simp_all add: good_prop_def grown_def same_content_def pc_ok_def\<close>)
  with ok show ?thesis by (simp add: px_reject_def Some keeps_def)
qed (simp add: px_reject_def)

lemma submit_keeps:
  assumes ok: "px_ok env g" and new: "i \<notin> set (keys (pg_files g))"
  shows "px_ok env (fst (px_submit i now agent typ spec tests rationale quorum g)) \<and> grows g (fst (px_submit i now agent typ spec tests rationale quorum g))"
proof (cases "typ \<in> set valid_types")
  case True
  define p where "p = \<lparr>xp_id = i, xp_by = agent, xp_type = typ, xp_spec = spec, xp_tests = tests, xp_rationale = rationale,
              xp_status = XProposed, xp_created = now, xp_updated = now, xp_quorum = max 1 quorum, xp_votes = [], xp_staging = None,
              xp_approver = None, xp_reason = None\<rparr>"
  have "px_load i g = None" using new by (simp add: px_load_def dict_get_None)
  then have "px_ok env (px_save now p g) \<and> grows g (px_save now p g)"
    by (intro ok_save [OF ok]) (simp_all add: p_def good_prop_def)
  then show ?thesis using True by (simp add: px_submit_def p_def)
qed (use ok in \<open>simp add: px_submit_def\<close>)

text \<open>The engine with the calls of \<open>approve\<close> that are on their way: proposal, approver and program counter of each.\<close>

record px_system =
  sy_engine :: prop_engine
  sy_calls :: "(string \<times> string \<times> px_pc) list"

datatype px_op =
    OpSubmit string time string string payload "pyval list" string int
  | OpStage time string
  | OpReject time string string string
  | OpCall string string
  | OpRun time nat

fun px_step :: "px_env \<Rightarrow> px_op \<Rightarrow> px_system \<Rightarrow> px_system" where
  "px_step env (OpSubmit i now agent typ spec tests rationale quorum) s =
     s\<lparr>sy_engine := fst (px_submit i now agent typ spec tests rationale quorum (sy_engine s))\<rparr>"
| "px_step env (OpStage now i) s = s\<lparr>sy_engine := fst (px_stage env now i (sy_engine s))\<rparr>"
| "px_step env (OpReject now i reason by) s = s\<lparr>sy_engine := fst (px_reject now i reason by (sy_engine s))\<rparr>"
| "px_step env (OpCall i by) s = s\<lparr>sy_calls := sy_calls s @ [(i, by, PcVote)]\<rparr>"
| "px_step env (OpRun now n) s =
     (if length (sy_calls s) \<le> n then s
      else (case sy_calls s ! n of
              (i, by, pc) \<Rightarrow> (case call_step env now i by pc (sy_engine s) of
                 (g', es, pc') \<Rightarrow> s\<lparr>sy_engine := g', sy_calls := (sy_calls s)[n := (i, by, pc')]\<rparr>)))"

fun px_submitted :: "px_op \<Rightarrow> string list" where
  "px_submitted (OpSubmit i now agent typ spec tests rationale quorum) = [i]"
| "px_submitted x = []"

definition fresh_engine :: "bool \<Rightarrow> registry option \<Rightarrow> std_file option \<Rightarrow> prop_engine" where
  "fresh_engine ev reg std = \<lparr>pg_files = [], pg_tools = [], pg_events = ev, pg_registry = reg, pg_standards = std\<rparr>"

definition sys_ok :: "px_env \<Rightarrow> string list \<Rightarrow> px_system \<Rightarrow> bool" where
  "sys_ok env ids s =
     (px_ok env (sy_engine s) \<and> set (keys (pg_files (sy_engine s))) \<subseteq> set ids
      \<and> list_all (\<lambda>(i, by, pc). pc_ok env i pc (sy_engine s)) (sy_calls s))"

lemma save_keys: "set (keys (pg_files (px_save now p g))) = insert (xp_id p) (set (keys (pg_files g)))"
  by (auto simp: px_save_def keys_set)

lemma load_id: "px_ok env g \<Longrightarrow> px_load i g = Some p \<Longrightarrow> xp_id p = i"
  using load_good [of env g i p] by (simp add: good_prop_def)

lemma load_keys: "px_load i g = Some p \<Longrightarrow> i \<in> set (keys (pg_files g))"
  using dict_get_None [of "pg_files g" i] by (auto simp: px_load_def)

lemma call_step_keys:
  assumes ok: "px_ok env g"
  shows "set (keys (pg_files (fst (call_step env now i by pc g)))) \<subseteq> set (keys (pg_files g))"
proof (cases pc)
  case (PcApply q)
  then show ?thesis using change_files [of env now q g] by (auto split: prod.split option.split)
next
  case (PcCredit q)
  then show ?thesis using credit_state [of "xp_by q" i g] by (auto simp: credit_step_def split: prod.split option.split)
next
  case (PcStage n)
  then show ?thesis using load_id [OF ok, of i] load_keys [of i g]
    by (auto simp: px_stage_def Let_def save_keys simp del: set_map split: option.split sum.split)
qed (use load_id [OF ok, of i] load_keys [of i g] in \<open>auto simp: vote_step_def voted_for_def review_step_def approve_step_def revert_step_def Let_def save_keys
       simp del: set_map split: option.split\<close>)

lemma calls_grow: "list_all (\<lambda>(i, by, pc). pc_ok env i pc g) cs \<Longrightarrow> grows g g' \<Longrightarrow> list_all (\<lambda>(i, by, pc). pc_ok env i pc g') cs"
  by (auto simp: list_all_iff dest: pc_ok_grows)

lemma sys_ok_grow:
  "sys_ok env ids s \<Longrightarrow> px_ok env g' \<and> grows (sy_engine s) g' \<Longrightarrow> set (keys (pg_files g')) \<subseteq> set ids' \<Longrightarrow> sys_ok env ids' (s\<lparr>sy_engine := g'\<rparr>)"
  using calls_grow [of env "sy_engine s" "sy_calls s" g'] by (simp add: sys_ok_def)

lemma sys_step_ok:
  assumes ok: "sys_ok env ids s" and new: "set (px_submitted x) \<inter> set ids = {}"
  shows "sys_ok env (ids @ px_submitted x) (px_step env x s)"
proof -
  have e: "px_ok env (sy_engine s)" and k: "set (keys (pg_files (sy_engine s))) \<subseteq> set ids" using ok by (simp_all add: sys_ok_def)
  note id = load_id [OF e] and keys = load_keys [of _ "sy_engine s"]
  show ?thesis
  proof (cases x)
    case (OpSubmit i now agent "typ" spec tests rationale quorum)
    have "set (keys (pg_files (fst (px_submit i now agent typ spec tests rationale quorum (sy_engine s))))) \<subseteq> insert i (set ids)"
      using k by (auto simp: px_submit_def save_keys simp del: set_map)
    moreover have "i \<notin> set (keys (pg_files (sy_engine s)))" using new k by (auto simp: OpSubmit)
    ultimately show ?thesis using sys_ok_grow [OF ok submit_keeps [OF e]] by (simp add: OpSubmit)
  next
    case (OpStage now i)
    have "set (keys (pg_files (fst (px_stage env now i (sy_engine s))))) \<subseteq> set ids"
      using k id keys by (auto simp: px_stage_def Let_def save_keys simp del: set_map split: option.split sum.split)
    then show ?thesis using sys_ok_grow [OF ok stage_keeps [OF e]] by (simp add: OpStage)
  next
    case (OpReject now i reason "by")
    have "set (keys (pg_files (fst (px_reject now i reason by (sy_engine s))))) \<subseteq> set ids"
      using k id keys by (auto simp: px_reject_def save_keys simp del: set_map split: option.split)
    then show ?thesis using sys_ok_grow [OF ok reject_keeps [OF e]] by (simp add: OpReject)
  next
    case (OpCall i "by")
    then show ?thesis using ok by (simp add: sys_ok_def pc_ok_def split: option.split)
  next
    case (OpRun now n)
    show ?thesis
    proof (cases "length (sy_calls s) \<le> n")
      case False
      obtain i "by" pc where c: "sy_calls s ! n = (i, by, pc)" by (cases "sy_calls s ! n")
      obtain g' es pc' where st: "call_step env now i by pc (sy_engine s) = (g', es, pc')" by (cases "call_step env now i by pc (sy_engine s)")
      have "(i, by, pc) \<in> set (sy_calls s)" using False nth_mem [of n "sy_calls s"] by (simp add: c)
      then have "pc_ok env i pc (sy_engine s)" using ok by (auto simp: sys_ok_def list_all_iff)
      from step_keeps [OF e this, of now "by"] have kp: "px_ok env g'" "grows (sy_engine s) g'" "pc_ok env i pc' g'" by (simp_all add: st keeps_def)
      have "set (keys (pg_files g')) \<subseteq> set ids" using call_step_keys [OF e, of now i "by" pc] k by (simp add: st)
      moreover have "list_all (\<lambda>(i, by, pc). pc_ok env i pc g') ((sy_calls s)[n := (i, by, pc')])"
        using calls_grow [OF _ kp(2), of env "sy_calls s"] ok kp(3) by (auto simp: sys_ok_def list_all_iff dest!: set_update_subset_insert [THEN subsetD])
      ultimately show ?thesis using kp False by (simp add: OpRun c st sys_ok_def)
    qed (use ok in \<open>simp add: OpRun\<close>)
  qed
qed

lemma sys_run_ok:
  "sys_ok env ids s \<Longrightarrow> distinct (ids @ concat (map px_submitted xs)) \<Longrightarrow> \<exists>ids'. sys_ok env ids' (run_ops (px_step env) xs s)"
proof (induction xs arbitrary: s ids)
  case (Cons x xs)
  from Cons.prems have "set (px_submitted x) \<inter> set ids = {}" by auto
  from sys_step_ok [OF Cons.prems(1) this] Cons.IH [of "ids @ px_submitted x" "px_step env x s"] Cons.prems(2) show ?case by simp
qed auto

text \<open>
  C11: Nothing is approved or installed without its quorum and its tests. Whatever is submitted, staged and rejected and however many
  calls of approve interrupt each other between their steps: an approved proposal has the votes of as many different agents as
  its quorum asks for and passes all its test cases, and every installed tool belongs to a proposal that has them. The
  ids of proposals are taken to be new.
\<close>

theorem px_nothing_without_quorum:
  assumes "distinct (concat (map px_submitted xs))"
  shows "list_all (\<lambda>(i, p, written). if xp_status p = XApproved
        then distinct (xp_votes p) \<and> xp_quorum p \<le> int (length (xp_votes p)) \<and> cases_pass env p else True)
      (pg_files (sy_engine (run_ops (px_step env) xs \<lparr>sy_engine = fresh_engine ev reg std, sy_calls = []\<rparr>)))
    \<and> list_all (\<lambda>(name, t). tool_ok env (sy_engine (run_ops (px_step env) xs \<lparr>sy_engine = fresh_engine ev reg std, sy_calls = []\<rparr>)) t)
      (pg_tools (sy_engine (run_ops (px_step env) xs \<lparr>sy_engine = fresh_engine ev reg std, sy_calls = []\<rparr>)))"
proof -
  have "sys_ok env [] \<lparr>sy_engine = fresh_engine ev reg std, sy_calls = []\<rparr>" by (simp add: sys_ok_def px_ok_def fresh_engine_def)
  from sys_run_ok [OF this, of xs] assms obtain ids where
    "sys_ok env ids (run_ops (px_step env) xs \<lparr>sy_engine = fresh_engine ev reg std, sy_calls = []\<rparr>)" by auto
  then have "px_ok env (sy_engine (run_ops (px_step env) xs \<lparr>sy_engine = fresh_engine ev reg std, sy_calls = []\<rparr>))" by (simp add: sys_ok_def)
  then show ?thesis unfolding px_ok_def by (auto simp: good_prop_def quorate_def elim!: list.pred_mono_strong split: if_splits)
qed

section \<open>Decisions are final without interruptions\<close>

text \<open>Requests that are not interrupted.\<close>

datatype px_request =
    RqSubmit "string option" string time string payload "pyval list" string "int option"
  | RqStage "string option" time string
  | RqApprove "string option" "nat \<Rightarrow> time" string
  | RqReject "string option" time string string

fun rq_step :: "keying \<Rightarrow> px_env \<Rightarrow> px_request \<Rightarrow> prop_engine \<Rightarrow> prop_engine" where
  "rq_step kg env (RqSubmit auth i now typ spec tests rationale quorum) g = fst (route_submit kg auth i now typ spec tests rationale quorum g)"
| "rq_step kg env (RqStage auth now i) g = fst (route_stage kg auth env now i g)"
| "rq_step kg env (RqApprove auth clk i) g = fst (route_approve kg auth env clk i g)"
| "rq_step kg env (RqReject auth now i reason) g = fst (route_reject kg auth now i reason g)"

fun rq_submits :: "px_request \<Rightarrow> string \<Rightarrow> bool" where
  "rq_submits (RqSubmit auth i now typ spec tests rationale quorum) j = (i = j)"
| "rq_submits x j = False"

definition named :: "prop_engine \<Rightarrow> bool" where
  "named g = (wf_dict (pg_files g) \<and> list_all (\<lambda>(i, p, written). xp_id p = i) (pg_files g))"

lemma named_load: "named g \<Longrightarrow> px_load i g = Some p \<Longrightarrow> xp_id p = i"
  by (auto simp: named_def px_load_def list_all_iff dest!: dict_get_in)

lemma named_save: "named g \<Longrightarrow> named (px_save now p g)"
  by (auto simp: named_def px_save_def list_all_iff dest!: in_dict_set)

lemma named_files: "pg_files g' = pg_files g \<Longrightarrow> named g' = named g"
  by (simp add: named_def)

text \<open>A step for one proposal leaves the others alone.\<close>

definition frames :: "string \<Rightarrow> prop_engine \<Rightarrow> prop_engine \<Rightarrow> bool" where
  "frames i g g' = (named g' \<and> list_all (\<lambda>j. j = i \<or> px_load j g' = px_load j g) (keys (pg_files g) @ keys (pg_files g')))"

lemma frames_refl [simp]: "frames i g g = named g"
  by (simp add: frames_def list_all_iff)

lemma frames_load: "frames i g g' \<Longrightarrow> j \<noteq> i \<Longrightarrow> px_load j g' = px_load j g"
  using load_keys [of j g] load_keys [of j g'] by (cases "px_load j g"; cases "px_load j g'") (auto simp: frames_def list_all_iff)

lemma framesI: "named g' \<Longrightarrow> (\<And>j. j \<noteq> i \<Longrightarrow> px_load j g' = px_load j g) \<Longrightarrow> frames i g g'"
  by (auto simp: frames_def list_all_iff)

lemma frames_trans: "frames i g h \<Longrightarrow> frames i h k \<Longrightarrow> frames i g k"
proof (rule framesI)
  assume fr: "frames i g h" "frames i h k"
  then show "named k" by (simp add: frames_def)
  show "px_load j k = px_load j g" if "j \<noteq> i" for j using frames_load [OF fr(1) that] frames_load [OF fr(2) that] by simp
qed

lemma frames_save: "named g \<Longrightarrow> xp_id p = i \<Longrightarrow> frames i g (px_save now p g)"
  by (rule framesI) (simp_all add: named_save)

lemma frames_files: "named g \<Longrightarrow> pg_files g' = pg_files g \<Longrightarrow> frames i g g'"
  by (rule framesI) (simp_all add: named_def px_load_def)

lemma step_frames:
  assumes n: "named g"
  shows "frames i g (fst (call_step env now i by pc g))"
proof (cases "px_load i g")
  case None
  show ?thesis
  proof (cases pc)
    case (PcApply q)
    then show ?thesis using frames_files [OF n change_files [of env now q g], of i] by (auto split: prod.split option.split)
  next
    case (PcCredit q)
    then show ?thesis using credit_state [of "xp_by q" i g] n
      by (auto simp: credit_step_def split: prod.split option.split intro: frames_files)
  qed (simp_all add: None n vote_step_def review_step_def approve_step_def revert_step_def px_stage_def)
next
  case (Some p)
  note id = named_load [OF n Some]
  show ?thesis
  proof (cases pc)
    case (PcApply q)
    then show ?thesis using frames_files [OF n change_files [of env now q g], of i] by (auto split: prod.split option.split)
  next
    case (PcCredit q)
    then show ?thesis using credit_state [of "xp_by q" i g] n
      by (auto simp: credit_step_def split: prod.split option.split intro: frames_files)
  next
    case (PcStage m)
    then show ?thesis by (cases "run_test_cases env p") (simp_all add: px_stage_def Some Let_def n id frames_save)
  qed (simp_all add: Some n id frames_save vote_step_def voted_for_def review_step_def approve_step_def revert_step_def Let_def)
qed

lemma run_frames: "named g \<Longrightarrow> frames i g (fst (run_call env clk i by pc g es))"
proof (induction env clk i "by" pc g es rule: run_call.induct)
  case (1 env clk i "by" pc g es)
  show ?case
  proof (cases "pc_rank pc = 0")
    case False
    obtain g' es' pc' where s: "call_step env (clk (pc_rank pc)) i by pc g = (g', es', pc')" by (cases "call_step env (clk (pc_rank pc)) i by pc g")
    have f: "frames i g g'" using step_frames [OF 1(2), of i env "clk (pc_rank pc)" "by" pc] by (simp add: s)
    then have "named g'" by (simp add: frames_def)
    from 1(1) [OF False s [symmetric] refl refl this] f False show ?thesis
      by (simp add: run_call.simps [of env clk i "by" pc] s) (blast intro: frames_trans)
  qed (use 1 in \<open>simp add: run_call.simps\<close>)
qed

lemma run_call_step: "call_step env (clk (pc_rank pc)) i by pc g = (g', es', pc') \<Longrightarrow> pc_rank pc \<noteq> 0
    \<Longrightarrow> run_call env clk i by pc g es = run_call env clk i by pc' g' (es @ es')"
  by (simp add: run_call.simps [of env clk i "by" pc])

lemma run_call_end [simp]: "run_call env clk i by (PcDone r) g es = (g, es, PcDone r)"
  by (simp add: run_call.simps)

lemma approve_decided:
  assumes "px_load i g = Some p" and "xp_status p \<in> {XApproved, XRejected}"
  shows "fst (px_approve env clk i by g) = g"
  using assms by (auto simp: approve_run run_call.simps [of env clk i "by" PcVote] vote_step_def)

lemma route_approve_state:
  "fst (route_approve kg auth env clk i g) =
     (case resolve_agent kg auth g of None \<Rightarrow> g | Some a \<Rightarrow> if may_approve a then fst (px_approve env clk i (a_id a) g) else g)"
  by (simp add: route_approve_def split: option.split prod.split)

lemma route_stage_state:
  "fst (route_stage kg auth env now i g) = (case resolve_agent kg auth g of None \<Rightarrow> g | Some a \<Rightarrow> fst (px_stage env now i g))"
  by (simp add: route_stage_def split: option.split prod.split)

lemma route_reject_state:
  "fst (route_reject kg auth now i reason g) =
     (case resolve_agent kg auth g of None \<Rightarrow> g | Some a \<Rightarrow> if may_approve a then fst (px_reject now i reason (a_id a) g) else g)"
  by (simp add: route_reject_def split: option.split prod.split)

lemma route_submit_state:
  "fst (route_submit kg auth i now typ spec tests rationale quorum g) =
     (case resolve_agent kg auth g of None \<Rightarrow> g
      | Some a \<Rightarrow> fst (px_submit i now (a_id a) typ spec tests rationale (case quorum of None \<Rightarrow> 1 | Some q \<Rightarrow> if q = 0 then 1 else q) g))"
  by (simp add: route_submit_def split: option.split prod.split)

lemmas route_states = route_submit_state route_stage_state route_approve_state route_reject_state

lemma approve_frames: "named g \<Longrightarrow> frames i g (fst (px_approve env clk i by g))"
  by (simp add: approve_run run_frames)

lemma stage_frames: "named g \<Longrightarrow> frames i g (fst (px_stage env now i g))"
  using step_frames [of g i env now "by" "PcStage 0"] by (auto split: prod.splits sum.splits)

lemma reject_frames: "named g \<Longrightarrow> frames i g (fst (px_reject now i reason by g))"
  using named_load [of g i] by (cases "px_load i g") (simp_all add: px_reject_def frames_save)

lemma submit_frames: "named g \<Longrightarrow> frames i g (fst (px_submit i now agent typ spec tests rationale quorum g))"
  by (simp add: px_submit_def frames_save)

lemma rq_named: "named g \<Longrightarrow> named (rq_step kg env x g)"
  using approve_frames [of g] stage_frames [of g] reject_frames [of g] submit_frames [of g]
  by (cases x) (auto simp: route_states frames_def split: option.split)

lemma rq_final:
  assumes n: "named g" and p: "px_load i g = Some p" "xp_status p \<in> {XApproved, XRejected}" and x: "\<not> rq_submits x i"
  shows "px_load i (rq_step kg env x g) = Some p"
proof (cases x)
  case (RqSubmit auth j now "typ" spec tests rationale quorum)
  then show ?thesis using x p frames_load [OF submit_frames [OF n, of j], of i] by (simp add: route_states split: option.split)
next
  case (RqStage auth now j)
  have "fst (px_stage env now i g) = g" using p by (auto simp: px_stage_def)
  then show ?thesis using p frames_load [OF stage_frames [OF n, of j], of i]
    by (cases "j = i") (auto simp: RqStage route_states split: option.split)
next
  case (RqApprove auth clk j)
  then show ?thesis using p approve_decided [OF p] frames_load [OF approve_frames [OF n, of j], of i]
    by (cases "j = i") (simp_all add: route_states split: option.split)
next
  case (RqReject auth now j reason)
  have "fst (px_reject now i reason by g) = g" for "by" using p by (auto simp: px_reject_def)
  then show ?thesis using p frames_load [OF reject_frames [OF n, of j], of i]
    by (cases "j = i") (auto simp: RqReject route_states split: option.split)
qed

interpretation proposal_life: lifecycle "rq_step kg env" named "\<lambda>g i. px_load i g" "\<lambda>p. xp_status p \<in> {XApproved, XRejected}" rq_submits
  for kg :: keying and env :: px_env
  by unfold_locales (simp_all add: rq_named rq_final)

text \<open>
  As long as requests do not interrupt each other a decision is final: an approved or rejected proposal stays exactly as
  it is, whatever is submitted, staged, approved and rejected afterwards.
\<close>

theorem px_decision_final:
  assumes "named g" and "px_load i g = Some p" and "xp_status p \<in> {XApproved, XRejected}" and "list_all (\<lambda>x. \<not> rq_submits x i) xs"
  shows "px_load i (run_ops (rq_step kg env) xs g) = Some p"
  using assms by (rule proposal_life.final_run)

section \<open>When a proposal is approved\<close>

definition reviewed :: "string \<Rightarrow> time \<Rightarrow> time \<Rightarrow> ext_prop \<Rightarrow> ext_prop" where
  "reviewed by t u p = (voted_for by t p)\<lparr>xp_status := XReview, xp_updated := u\<rparr>"

lemma voted_fields [simp]:
  "xp_id (voted_for by t p) = xp_id p" "xp_status (voted_for by t p) = xp_status p" "xp_quorum (voted_for by t p) = xp_quorum p"
  "xp_spec (voted_for by t p) = xp_spec p" "xp_tests (voted_for by t p) = xp_tests p" "xp_type (voted_for by t p) = xp_type p"
  "xp_by (voted_for by t p) = xp_by p"
  by (simp_all add: voted_for_def)

lemma approve_waits:
  assumes "px_load i g = Some p" and "xp_id p = i" and "xp_status p \<in> {XProposed, XReview}"
    and "int (length (xp_votes (voted_for by (clk 7) p))) < xp_quorum p"
  shows "fst (px_approve env clk i by g) = px_save (clk 1) (reviewed by (clk 7) (clk 1) p) (px_save (clk 7) (voted_for by (clk 7) p) g)"
  using assms
  by (auto simp: approve_run run_call.simps [of env clk i "by" PcVote] run_call.simps [of env clk i "by" "PcReview x y" for x y]
      vote_step_def Let_def review_step_def reviewed_def)

definition tests_result :: "px_env \<Rightarrow> ext_prop \<Rightarrow> staging" where
  "tests_result env p = (case run_test_cases env p of Inr r \<Rightarrow> r | Inl e \<Rightarrow> \<lparr>sn_passed = False, sn_npassed = 0, sn_nfailed = 0, sn_details = []\<rparr>)"

definition decided :: "px_env \<Rightarrow> string \<Rightarrow> (nat \<Rightarrow> time) \<Rightarrow> ext_prop \<Rightarrow> ext_prop" where
  "decided env by clk p =
     (voted_for by (clk 7) p)\<lparr>xp_staging := Some (tests_result env p), xp_approver := Some by, xp_status := XApproved, xp_updated := clk 3\<rparr>"

lemma run_tests_voted: "run_test_cases env (voted_for by t p) = run_test_cases env p"
  by (simp add: run_test_cases_def)

lemma run_tests_passed: "cases_pass env p \<Longrightarrow> run_test_cases env p = Inr (tests_result env p) \<and> sn_passed (tests_result env p)"
  by (simp add: cases_pass_def tests_result_def split: sum.splits)

lemma approve_reaches:
  assumes l: "px_load i g = Some p" and i: "xp_id p = i" and st: "xp_status p \<in> {XProposed, XReview}"
    and q: "xp_quorum p \<le> int (length (xp_votes (voted_for by (clk 7) p)))" and c: "cases_pass env p"
  shows "\<exists>es. run_call env clk i by PcVote g [] =
     run_call env clk i by (PcApply (decided env by clk p))
       (px_save (clk 3) (decided env by clk p) (px_save (clk 5) ((voted_for by (clk 7) p)\<lparr>xp_staging := Some (tests_result env p), xp_updated := clk 5, xp_status := XStaging\<rparr>)
         (px_save (clk 7) (voted_for by (clk 7) p) g))) es"
proof -
  define n where "n = length (xp_votes (voted_for by (clk 7) p))"
  define g1 where "g1 = px_save (clk 7) (voted_for by (clk 7) p) g"
  define p2 where "p2 = (voted_for by (clk 7) p)\<lparr>xp_staging := Some (tests_result env p), xp_updated := clk 5, xp_status := XStaging\<rparr>"
  define g2 where "g2 = px_save (clk 5) p2 g1"
  define g3 where "g3 = px_save (clk 3) (decided env by clk p) g2"
  have "call_step env (clk 7) i by PcVote g = (g1, [], PcLook n)"
    using l st q by (auto simp: vote_step_def Let_def g1_def n_def)
  moreover have "call_step env (clk 6) i by (PcLook n) g1 = (g1, [], PcStage n)"
    using st i by (simp add: g1_def)
  moreover obtain es where "call_step env (clk 5) i by (PcStage n) g1 = (g2, es, PcStaged n)"
    using st i run_tests_passed [OF c] by (simp add: px_stage_def g1_def Let_def run_tests_voted g2_def p2_def)
  moreover have "call_step env (clk 4) i by (PcStaged n) g2 = (g2, [], PcApprove n)"
    by (simp add: g2_def p2_def i)
  moreover obtain es' where "call_step env (clk 3) i by (PcApprove n) g2 = (g3, es', PcApply (decided env by clk p))"
    by (simp add: approve_step_def Let_def g2_def p2_def i g3_def decided_def)
  ultimately have "run_call env clk i by PcVote g [] = run_call env clk i by (PcApply (decided env by clk p)) g3 (es @ es')"
    by (simp add: run_call.simps [of env clk i "by" PcVote] run_call.simps [of env clk i "by" "PcLook n"] run_call.simps [of env clk i "by" "PcStage n"]
        run_call.simps [of env clk i "by" "PcStaged n"] run_call.simps [of env clk i "by" "PcApprove n"] del: call_step.simps)
  then show ?thesis by (auto simp: g3_def g2_def p2_def g1_def)
qed

text \<open>A tool that can be written, of an agent whose contributions can be noted.\<close>

definition installable :: "px_env \<Rightarrow> ext_prop \<Rightarrow> prop_engine \<Rightarrow> bool" where
  "installable env p g = (xp_type p = ''new_tool'' \<and> px_tool_fails env (show_val env (tool_value p)) = None
     \<and> snd (credit_contribution (xp_by p) (xp_id p) g) = None)"

lemma credit_registry: "pg_registry g' = pg_registry g \<Longrightarrow> snd (credit_contribution a i g') = snd (credit_contribution a i g)"
  by (simp add: credit_contribution_def Let_def split: option.split prod.split)

lemma approve_decides:
  assumes l: "px_load i g = Some p" and i: "xp_id p = i" and st: "xp_status p \<in> {XProposed, XReview}"
    and q: "xp_quorum p \<le> int (length (xp_votes (voted_for by (clk 7) p)))" and c: "cases_pass env p" and inst: "installable env p g"
  shows "px_load i (fst (px_approve env clk i by g)) = Some (decided env by clk p)
    \<and> pg_tools (fst (px_approve env clk i by g)) = dict_set (show_val env (tool_value p)) (dyn_tool_spec (clk 2) p) (pg_tools g)"
proof -
  define g3 where "g3 = px_save (clk 3) (decided env by clk p) (px_save (clk 5) ((voted_for by (clk 7) p)\<lparr>xp_staging := Some (tests_result env p), xp_updated := clk 5, xp_status := XStaging\<rparr>)
         (px_save (clk 7) (voted_for by (clk 7) p) g))"
  from approve_reaches [where clk = clk, OF assms(1-5)] obtain es where r: "run_call env clk i by PcVote g [] = run_call env clk i by (PcApply (decided env by clk p)) g3 es"
    by (auto simp: g3_def)
  have d: "xp_type (decided env by clk p) = xp_type p" "xp_spec (decided env by clk p) = xp_spec p" "xp_by (decided env by clk p) = xp_by p" "xp_id (decided env by clk p) = i"
    by (simp_all add: decided_def i)
  then have tv: "tool_value (decided env by clk p) = tool_value p" "dyn_tool_spec t (decided env by clk p) = dyn_tool_spec t p" for t
    by (simp_all add: tool_value_def dyn_tool_spec_def i)
  define g4 where "g4 = g3\<lparr>pg_tools := dict_set (show_val env (tool_value p)) (dyn_tool_spec (clk 2) p) (pg_tools g3)\<rparr>"
  have a: "call_step env (clk 2) i by (PcApply (decided env by clk p)) g3 = (g4, [], PcCredit (decided env by clk p))"
    using inst by (simp add: apply_change_def installable_def d tv g4_def)
  have "snd (credit_contribution (xp_by p) i g4) = None"
    using inst credit_registry [of g4 g] by (simp add: installable_def i g4_def g3_def)
  then obtain es' g5 where cr: "credit_contribution (xp_by p) i g4 = (g5, None)" "credit_step i by (decided env by clk p) g4 = (g5, es', PcDone (Inr (decided env by clk p)))"
    by (cases "credit_contribution (xp_by p) i g4") (auto simp: credit_step_def d)
  have b: "call_step env (clk (Suc 0)) i by (PcCredit (decided env by clk p)) g4 = (g5, es', PcDone (Inr (decided env by clk p)))" using cr(2) by simp
  have fst: "fst (px_approve env clk i by g) = g5"
    by (simp add: approve_run r run_call.simps [of env clk i "by" "PcApply (decided env by clk p)"] a
        run_call.simps [of env clk i "by" "PcCredit (decided env by clk p)"] b del: call_step.simps)
  have "pg_files g5 = pg_files g4 \<and> pg_tools g5 = pg_tools g4" using credit_state [of "xp_by p" i g4] by (auto simp: cr(1))
  then show ?thesis using d(4) by (simp add: fst load_files [of g5 g3] g4_def) (simp add: g3_def)
qed

text \<open>The agents of a list in the order of their first appearance.\<close>

definition firsts :: "'a list \<Rightarrow> 'a list" where
  "firsts xs = rev (remdups (rev xs))"

lemma firsts_append [simp]: "firsts (xs @ [x]) = (if x \<in> set xs then firsts xs else firsts xs @ [x])"
  by (simp add: firsts_def)

lemma firsts_Nil [simp]: "firsts [] = []"
  by (simp add: firsts_def)

lemma set_firsts [simp]: "set (firsts xs) = set xs"
  by (simp add: firsts_def)

definition approvals :: "px_env \<Rightarrow> string \<Rightarrow> (string \<times> (nat \<Rightarrow> time)) list \<Rightarrow> prop_engine \<Rightarrow> prop_engine" where
  "approvals env i bs g = foldl (\<lambda>g (by, clk). fst (px_approve env clk i by g)) g bs"

text \<open>What a proposal is after some approvals.\<close>

definition vote_progress :: "px_env \<Rightarrow> ext_prop \<Rightarrow> prop_engine \<Rightarrow> string list \<Rightarrow> prop_engine \<Rightarrow> bool" where
  "vote_progress env p0 g0 bs g =
     (case px_load (xp_id p0) g of None \<Rightarrow> False
      | Some p \<Rightarrow>
          same_content p0 p \<and> xp_votes p = take (nat (xp_quorum p0)) (firsts bs)
          \<and> (if nat (xp_quorum p0) \<le> length (firsts bs)
             then xp_status p = XApproved
               \<and> map_option (\<lambda>t. dict_get t ''proposal_id'') (dict_get (pg_tools g) (show_val env (tool_value p0))) = Some (Some (PStr (xp_id p0)))
             else xp_status p = (if bs = [] then XProposed else XReview) \<and> pg_tools g = pg_tools g0 \<and> pg_registry g = pg_registry g0))"

lemma installable_same: "same_content p q \<Longrightarrow> pg_registry g' = pg_registry g \<Longrightarrow> installable env p g \<Longrightarrow> installable env q g'"
  using credit_registry [of g' g "xp_by q" "xp_id q"] by (simp add: installable_def same_content_def tool_value_def)

lemma vote_progress_step:
  assumes c: "cases_pass env p0" and inst: "installable env p0 g0" and q1: "1 \<le> xp_quorum p0" and pr: "vote_progress env p0 g0 bs g"
  shows "vote_progress env p0 g0 (bs @ [by]) (fst (px_approve env clk (xp_id p0) by g))"
proof -
  let ?i = "xp_id p0" let ?k = "nat (xp_quorum p0)"
  from pr obtain p where p: "px_load ?i g = Some p" "same_content p0 p" "xp_votes p = take ?k (firsts bs)" by (auto simp: vote_progress_def split: option.splits)
  have i: "xp_id p = ?i" and q: "xp_quorum p = xp_quorum p0" using p(2) by (simp_all add: same_content_def)
  have c': "cases_pass env p" using c same_pass [OF p(2), of env] by simp
  show ?thesis
  proof (cases "?k \<le> length (firsts bs)")
    case True
    then have ap: "xp_status p = XApproved"
      "map_option (\<lambda>t. dict_get t ''proposal_id'') (dict_get (pg_tools g) (show_val env (tool_value p0))) = Some (Some (PStr ?i))"
      using pr p by (simp_all add: vote_progress_def)
    have "fst (px_approve env clk ?i by g) = g" by (rule approve_decided [OF p(1)]) (simp add: ap)
    then show ?thesis using True p ap by (simp add: vote_progress_def)
  next
    case False
    then have st: "xp_status p \<in> {XProposed, XReview}" and t: "pg_tools g = pg_tools g0" and r: "pg_registry g = pg_registry g0"
      using pr p by (auto simp: vote_progress_def split: if_splits)
    have v: "xp_votes (voted_for by u p) = firsts (bs @ [by])" for u using p(3) False by (simp add: voted_for_def)
    have len: "length (firsts (bs @ [by])) \<le> ?k" using False by simp
    show ?thesis
    proof (cases "?k \<le> length (firsts (bs @ [by]))")
      case True
      have dec: "px_load ?i (fst (px_approve env clk ?i by g)) = Some (decided env by clk p)
          \<and> pg_tools (fst (px_approve env clk ?i by g)) = dict_set (show_val env (tool_value p)) (dyn_tool_spec (clk 2) p) (pg_tools g)"
        using approve_decides [of ?i g p "by" clk env, OF p(1) i st _ c' installable_same [OF p(2) r inst]] True by (simp add: v q nat_le_iff)
      have "tool_value p = tool_value p0" using p(2) by (simp add: same_content_def tool_value_def)
      then show ?thesis using True len dec p(2) v [of "clk 7"]
        by (simp add: vote_progress_def decided_def same_content_def dyn_tool_spec_def)
    next
      case False
      have "int (length (xp_votes (voted_for by (clk 7) p))) < xp_quorum p" using False by (simp add: v q nat_le_iff)
      note w = approve_waits [of ?i g p "by" clk env, OF p(1) i st this]
      show ?thesis using False p(2) i v [of "clk 7"]
        by (simp add: vote_progress_def w reviewed_def same_content_def t r)
    qed
  qed
qed


section \<open>Who has voted\<close>

definition allowed :: "prop_engine \<Rightarrow> string \<Rightarrow> bool" where
  "allowed g v = (case pg_registry g of None \<Rightarrow> False | Some r \<Rightarrow> list_ex (\<lambda>a. a_id a = v \<and> may_approve a) (vals (r_agents r)))"

definition voters_ok :: "prop_engine \<Rightarrow> bool" where
  "voters_ok g = list_all (\<lambda>(i, p, written). list_all (allowed g) (xp_votes p)) (pg_files g)"

lemma voters_load: "voters_ok g \<Longrightarrow> px_load i g = Some p \<Longrightarrow> list_all (allowed g) (xp_votes p)"
  by (auto simp: voters_ok_def px_load_def list_all_iff dest!: dict_get_in)

lemma allowed_same: "pg_registry g' = pg_registry g \<Longrightarrow> allowed g' = allowed g"
  by (simp add: allowed_def fun_eq_iff)

lemma allowed_save [simp]: "allowed (px_save now p g) = allowed g"
  by (rule allowed_same) simp

lemma voters_save: "voters_ok g \<Longrightarrow> list_all (allowed g) (xp_votes p) \<Longrightarrow> voters_ok (px_save now p g)"
  using allowed_same [of "px_save now p g" g]
  by (auto simp: voters_ok_def list_all_iff px_save_def dest!: in_dict_set)

lemma vals_replaced: "dict_get d k = Some a \<Longrightarrow> P b = P a \<Longrightarrow> list_ex P (vals d) \<Longrightarrow> list_ex P (vals (dict_set k b d))"
  by (induction d) (auto split: if_splits)

lemma contribution_keeps: "a_id (fst (fst (add_contribution i a))) = a_id a \<and> may_approve (fst (fst (add_contribution i a))) = may_approve a"
  by (simp add: add_contribution_def Let_def may_approve_def has_cap_def split: option.split pyval.split)

lemma credit_allowed: "allowed g v \<Longrightarrow> allowed (fst (credit_contribution ag i g)) v"
proof (cases "pg_registry g")
  case (Some r)
  assume al: "allowed g v"
  show ?thesis
  proof (cases "dict_get (r_agents r) ag")
    case None
    then show ?thesis using al by (simp add: credit_contribution_def Some)
  next
    case a: (Some a)
    obtain a' ch err where c: "add_contribution i a = ((a', ch), err)" by (cases "add_contribution i a") (metis surj_pair)
    have "list_ex (\<lambda>a. a_id a = v \<and> may_approve a) (vals (dict_set ag a' (r_agents r)))"
      by (rule vals_replaced [OF a]) (use al contribution_keeps [of i a] in \<open>simp_all add: allowed_def Some c\<close>)
    then show ?thesis by (simp add: credit_contribution_def Some a c allowed_def reg_save_def Let_def)
  qed
qed (simp add: allowed_def)

lemma apply_registry: "pg_registry (fst (apply_change env now p g)) = pg_registry g"
  by (simp add: apply_change_def Let_def split: option.split sum.split)

lemma step_voters:
  assumes v: "voters_ok g" and al: "allowed g by"
  shows "voters_ok (fst (call_step env now i by pc g)) \<and> allowed (fst (call_step env now i by pc g)) by"
proof (cases pc)
  case (PcApply q)
  have "voters_ok (fst (apply_change env now q g)) \<and> allowed (fst (apply_change env now q g)) by"
    using v al by (simp add: voters_ok_def change_files allowed_same [OF apply_registry])
  then show ?thesis by (auto simp: PcApply split: prod.split option.split)
next
  case (PcCredit q)
  have "pg_files (fst (credit_contribution (xp_by q) i g)) = pg_files g" using credit_state [of "xp_by q" i g] by auto
  then have "voters_ok (fst (credit_contribution (xp_by q) i g)) \<and> allowed (fst (credit_contribution (xp_by q) i g)) by"
    using v al credit_allowed by (auto simp: voters_ok_def list_all_iff)
  then show ?thesis by (auto simp: PcCredit credit_step_def split: prod.split option.split)
next
  case (PcStage n)
  then show ?thesis using v al voters_load [OF v, of i]
    by (cases "px_load i g"; cases "run_test_cases env (the (px_load i g))") (simp_all add: px_stage_def Let_def voters_save)
qed (cases "px_load i g"; use v al voters_load [OF v, of i] in
      \<open>simp add: vote_step_def voted_for_def review_step_def approve_step_def revert_step_def Let_def voters_save\<close>)+

lemma run_voters:
  "px_ok env g \<Longrightarrow> pc_ok env i pc g \<Longrightarrow> voters_ok g \<Longrightarrow> allowed g by
    \<Longrightarrow> voters_ok (fst (run_call env clk i by pc g es)) \<and> set (keys (pg_files (fst (run_call env clk i by pc g es)))) \<subseteq> set (keys (pg_files g))"
proof (induction env clk i "by" pc g es rule: run_call.induct)
  case (1 env clk i "by" pc g es)
  show ?case
  proof (cases "pc_rank pc = 0")
    case False
    obtain g' es' pc' where s: "call_step env (clk (pc_rank pc)) i by pc g = (g', es', pc')" by (cases "call_step env (clk (pc_rank pc)) i by pc g")
    have k: "px_ok env g'" "pc_ok env i pc' g'" using step_keeps [OF 1(2,3), of "clk (pc_rank pc)" "by"] by (simp_all add: s keeps_def)
    have v: "voters_ok g'" "allowed g' by" using step_voters [OF 1(4,5), of env "clk (pc_rank pc)" i pc] by (simp_all add: s)
    have "set (keys (pg_files g')) \<subseteq> set (keys (pg_files g))" using call_step_keys [OF 1(2), of "clk (pc_rank pc)" i "by" pc] by (simp add: s)
    then show ?thesis using 1(1) [OF False s [symmetric] refl refl k v] False
      by (simp add: run_call.simps [of env clk i "by" pc] s) blast
  qed (use 1 in \<open>simp add: run_call.simps\<close>)
qed

lemma resolved_in: "resolve_agent kg auth g = Some a \<Longrightarrow> \<exists>r. pg_registry g = Some r \<and> a \<in> set (vals (r_agents r))"
  by (force simp: resolve_agent_def reg_authenticate_def split: option.splits if_splits dest!: dict_get_in)

lemma resolved_allowed: "resolve_agent kg auth g = Some a \<Longrightarrow> may_approve a \<Longrightarrow> allowed g (a_id a)"
  using resolved_in [of kg auth g a] by (force simp: allowed_def list_ex_iff)

definition rq_ok :: "px_env \<Rightarrow> string list \<Rightarrow> prop_engine \<Rightarrow> bool" where
  "rq_ok env ids g = (px_ok env g \<and> voters_ok g \<and> set (keys (pg_files g)) \<subseteq> set ids)"

fun rq_ids :: "px_request \<Rightarrow> string list" where
  "rq_ids (RqSubmit auth i now typ spec tests rationale quorum) = [i]"
| "rq_ids x = []"

lemma rq_step_ok:
  assumes ok: "rq_ok env ids g" and new: "set (rq_ids x) \<inter> set ids = {}"
  shows "rq_ok env (ids @ rq_ids x) (rq_step kg env x g)"
proof -
  have e: "px_ok env g" and v: "voters_ok g" and k: "set (keys (pg_files g)) \<subseteq> set ids" using ok by (simp_all add: rq_ok_def)
  show ?thesis
  proof (cases x)
    case (RqSubmit auth i now "typ" spec tests rationale quorum)
    have i: "i \<notin> set (keys (pg_files g))" using new k by (auto simp: RqSubmit)
    have "rq_ok env (ids @ [i]) (fst (px_submit i now ag typ spec tests rationale q g))" for ag q
      using submit_keeps [OF e i, of now ag "typ" spec tests rationale q] v k
      by (auto simp: rq_ok_def px_submit_def save_keys simp del: set_map intro!: voters_save)
    moreover have "rq_ok env (ids @ [i]) g" using ok by (auto simp: rq_ok_def)
    ultimately show ?thesis by (simp add: RqSubmit route_states split: option.split)
  next
    case (RqStage auth now i)
    have "voters_ok (fst (px_stage env now i g))" using v voters_load [OF v, of i]
      by (cases "px_load i g"; cases "run_test_cases env (the (px_load i g))") (simp_all add: px_stage_def Let_def voters_save)
    moreover have "set (keys (pg_files (fst (px_stage env now i g)))) \<subseteq> set ids"
      using call_step_keys [OF e, of now i "[]" "PcStage 0"] k by (auto split: prod.splits sum.splits)
    ultimately have "rq_ok env ids (fst (px_stage env now i g))" using stage_keeps [OF e, of now i] by (simp add: rq_ok_def)
    then show ?thesis using ok by (simp add: RqStage route_states split: option.split)
  next
    case (RqApprove auth clk i)
    have "rq_ok env ids (fst (px_approve env clk i by g))" if al: "allowed g by" for "by"
    proof -
      have "pc_ok env i PcVote g" by (simp add: pc_ok_def split: option.split)
      from run_voters [OF e this v al, of clk "[]"] approve_ok [OF e, of clk i "by"] show ?thesis
        using order_trans [OF _ k] by (simp add: rq_ok_def approve_run)
    qed
    then show ?thesis using ok resolved_allowed [of kg auth g] by (simp add: RqApprove route_states split: option.split)
  next
    case (RqReject auth now i reason)
    have "rq_ok env ids (fst (px_reject now i reason by g))" for "by"
      using reject_keeps [OF e, of now i reason "by"] v voters_load [OF v, of i] k load_id [OF e, of i] load_keys [of i g]
      by (auto simp: rq_ok_def px_reject_def save_keys simp del: set_map split: option.split intro!: voters_save)
    then show ?thesis using ok by (simp add: RqReject route_states split: option.split)
  qed
qed

lemma rq_run_ok: "rq_ok env ids g \<Longrightarrow> distinct (ids @ concat (map rq_ids xs)) \<Longrightarrow> \<exists>ids'. rq_ok env ids' (run_ops (rq_step kg env) xs g)"
proof (induction xs arbitrary: g ids)
  case (Cons x xs)
  from Cons.prems have "set (rq_ids x) \<inter> set ids = {}" by auto
  from rq_step_ok [OF Cons.prems(1) this] Cons.IH [of "ids @ rq_ids x"] Cons.prems(2) show ?case by simp
qed auto

text \<open>
  C13: Through the HTTP interface only administrators, root and orchestrators decide: after any requests every approved proposal has the
  votes of as many different agents as its quorum asks for, and each of them may approve.
\<close>

theorem px_only_allowed_approve:
  assumes "distinct (concat (map rq_ids xs))"
  shows "list_all (\<lambda>(i, p, written). list_all (allowed (run_ops (rq_step kg env) xs (fresh_engine ev reg std))) (xp_votes p)
        \<and> (if xp_status p = XApproved then distinct (xp_votes p) \<and> xp_quorum p \<le> int (length (xp_votes p)) else True))
      (pg_files (run_ops (rq_step kg env) xs (fresh_engine ev reg std)))"
proof -
  have "rq_ok env [] (fresh_engine ev reg std)" by (simp add: rq_ok_def px_ok_def voters_ok_def fresh_engine_def)
  from rq_run_ok [OF this, of xs] assms obtain ids where "rq_ok env ids (run_ops (rq_step kg env) xs (fresh_engine ev reg std))" by auto
  then have "px_ok env (run_ops (rq_step kg env) xs (fresh_engine ev reg std))" "voters_ok (run_ops (rq_step kg env) xs (fresh_engine ev reg std))"
    by (simp_all add: rq_ok_def)
  then have "list_all (\<lambda>x. (case x of (i, p, written) \<Rightarrow> good_prop env i p)
      \<and> (case x of (i, p, written) \<Rightarrow> list_all (allowed (run_ops (rq_step kg env) xs (fresh_engine ev reg std))) (xp_votes p)))
      (pg_files (run_ops (rq_step kg env) xs (fresh_engine ev reg std)))"
    by (simp add: px_ok_def voters_ok_def list_all_iff)
  then show ?thesis by (rule list.pred_mono_strong) (auto simp: good_prop_def quorate_def)
qed

section \<open>Failure and interruption\<close>

text \<open>
  When the change cannot be made the approval is taken back: the error reaches the caller, nothing is installed, and the
  proposal waits in staging with the error noted and its votes kept, ready for another approval.
\<close>

theorem px_failed_apply_reverts:
  assumes "px_load i g = Some p" and "xp_id p = i" and "xp_status p \<in> {XProposed, XReview}"
    and "xp_quorum p \<le> int (length (xp_votes (voted_for by (clk 7) p)))" and "cases_pass env p"
    and "xp_type p = ''new_tool''" and "px_tool_fails env (show_val env (tool_value p)) = Some e"
  shows "snd (snd (px_approve env clk i by g)) = Inl (PxFile e)
    \<and> pg_tools (fst (px_approve env clk i by g)) = pg_tools g
    \<and> map_option (\<lambda>p'. (xp_status p', xp_reason p', xp_votes p')) (px_load i (fst (px_approve env clk i by g)))
        = Some (XStaging, Some (''Apply error: '' @ e), xp_votes (voted_for by (clk 7) p))"
proof -
  define g3 where "g3 = px_save (clk 3) (decided env by clk p) (px_save (clk 5) ((voted_for by (clk 7) p)\<lparr>xp_staging := Some (tests_result env p), xp_updated := clk 5, xp_status := XStaging\<rparr>)
         (px_save (clk 7) (voted_for by (clk 7) p) g))"
  from approve_reaches [where clk = clk, OF assms(1-5)] obtain es where r: "run_call env clk i by PcVote g [] = run_call env clk i by (PcApply (decided env by clk p)) g3 es"
    by (auto simp: g3_def)
  define reason where "reason = ''Apply error: '' @ px_text (PxFile e)"
  define g4 where "g4 = px_save (clk 1) ((decided env by clk p)\<lparr>xp_status := XStaging, xp_reason := Some reason\<rparr>) g3"
  have d: "xp_type (decided env by clk p) = ''new_tool''" "tool_value (decided env by clk p) = tool_value p" "xp_id (decided env by clk p) = i"
    using assms(2,6) by (simp_all add: decided_def tool_value_def)
  have a: "call_step env (clk 2) i by (PcApply (decided env by clk p)) g3 = (g3, [], PcRevert (PxFile e))"
    using assms(7) by (simp add: apply_change_def d(1,2))
  have "px_load i g3 = Some (decided env by clk p)" by (simp add: g3_def d(3))
  then have b: "call_step env (clk (Suc 0)) i by (PcRevert (PxFile e)) g3 = (g4, [], PcDone (Inl (PxFile e)))"
    by (simp add: revert_step_def g4_def reason_def)
  have run: "run_call env clk i by PcVote g [] = (g4, es, PcDone (Inl (PxFile e)))"
    by (simp add: r run_call.simps [of env clk i "by" "PcApply (decided env by clk p)"] a run_call.simps [of env clk i "by" "PcRevert (PxFile e)"] b
        del: call_step.simps)
  have "xp_votes (decided env by clk p) = xp_votes (voted_for by (clk 7) p)" by (simp add: decided_def)
  then show ?thesis unfolding px_approve_def run by (simp add: g4_def d(3) reason_def) (simp add: g3_def)
qed

definition plain_env :: px_env where
  "plain_env = \<lparr>px_str = (\<lambda>_. ''value''), px_repr = (\<lambda>_. ''value''), px_tool_fails = (\<lambda>_. None), px_std_fails = (\<lambda>_. None), px_embed = (\<lambda>_. None)\<rparr>"

definition retry_spec :: payload where
  "retry_spec = [(''name'', PStr ''retry''), (''description'', PStr ''retries a call'')]"

definition retry_tests :: "pyval list" where
  "retry_tests = [PDict [(''type'', PStr ''schema_valid''), (''check'', PStr ''name_exists'')]]"

definition submit_retry :: px_op where
  "submit_retry = OpSubmit ''prop-1'' 0 ''builder'' ''new_tool'' retry_spec retry_tests ''useful'' 2"

definition no_calls :: px_system where
  "no_calls = \<lparr>sy_engine = fresh_engine False None None, sy_calls = []\<rparr>"

text \<open>The second approver's whole call, between the two steps of the first one.\<close>

definition undone_approval :: "px_op list" where
  "undone_approval = [submit_retry, OpCall ''prop-1'' ''root'', OpRun 1 0, OpCall ''prop-1'' ''scout''] @ map (\<lambda>n. OpRun (of_nat n) 1) [2..<9] @ [OpRun 10 0]"

definition undone_rejection :: "px_op list" where
  "undone_rejection = [submit_retry, OpCall ''prop-1'' ''root'', OpRun 1 0, OpReject 2 ''prop-1'' ''unsafe'' ''scout'', OpRun 3 0,
     OpCall ''prop-1'' ''analyst''] @ map (\<lambda>n. OpRun (of_nat n) 1) [4..<11]"

definition state_of :: "px_system \<Rightarrow> (xp_state \<times> string list \<times> string option) option \<times> string list" where
  "state_of s = (map_option (\<lambda>p. (xp_status p, xp_votes p, xp_reason p)) (px_load ''prop-1'' (sy_engine s)), keys (pg_tools (sy_engine s)))"


lemma px_nothing_without_quorum_witness:
  "list_all (\<lambda>(name, t). tool_ok plain_env (sy_engine (run_ops (px_step plain_env) undone_rejection no_calls)) t)
    (pg_tools (sy_engine (run_ops (px_step plain_env) undone_rejection no_calls)))"
proof -
  have "distinct (concat (map px_submitted undone_rejection))" by code_simp
  from px_nothing_without_quorum [OF this, of plain_env False None None] show ?thesis by (simp add: no_calls_def)
qed

definition retry_engine :: prop_engine where
  "retry_engine = sy_engine (px_step plain_env submit_retry no_calls)"

definition retry_prop :: ext_prop where
  "retry_prop = the (px_load ''prop-1'' retry_engine)"


definition retry_rejected :: prop_engine where
  "retry_rejected = fst (px_reject 5 ''prop-1'' ''unsafe'' ''scout'' retry_engine)"

lemma px_decision_final_witness:
  "px_load ''prop-1'' (run_ops (rq_step example_keying plain_env) [RqStage None 6 ''prop-1'', RqApprove None (\<lambda>_. 7) ''prop-1''] retry_rejected)
    = px_load ''prop-1'' retry_rejected"
proof -
  define p where "p = the (px_load ''prop-1'' retry_rejected)"
  have "named retry_rejected" by code_simp
  moreover have p: "px_load ''prop-1'' retry_rejected = Some p" "xp_status p \<in> {XApproved, XRejected}" unfolding p_def by code_simp+
  ultimately show ?thesis using px_decision_final [of retry_rejected "''prop-1''" p "[RqStage None 6 ''prop-1'', RqApprove None (\<lambda>_. 7) ''prop-1'']"] by simp
qed

lemma px_failed_apply_reverts_witness:
  "snd (snd (px_approve (plain_env\<lparr>px_tool_fails := \<lambda>_. Some ''disk full''\<rparr>) (\<lambda>_. 5) ''prop-1'' ''scout''
      (fst (px_approve plain_env (\<lambda>_. 4) ''prop-1'' ''root'' retry_engine)))) = Inl (PxFile ''disk full'')"
proof -
  define g where "g = fst (px_approve plain_env (\<lambda>_. 4) ''prop-1'' ''root'' retry_engine)"
  define p where "p = the (px_load ''prop-1'' g)"
  let ?env = "plain_env\<lparr>px_tool_fails := \<lambda>_. Some ''disk full''\<rparr>"
  have "px_load ''prop-1'' g = Some p" "xp_id p = ''prop-1''" "xp_status p \<in> {XProposed, XReview}"
    "xp_quorum p \<le> int (length (xp_votes (voted_for ''scout'' 5 p)))" "cases_pass ?env p" "xp_type p = ''new_tool''"
    "px_tool_fails ?env (show_val ?env (tool_value p)) = Some ''disk full''" unfolding p_def g_def by code_simp+
  from px_failed_apply_reverts [of "''prop-1''" g p "''scout''" "\<lambda>_. 5", OF this] show ?thesis by (simp add: g_def)
qed

definition root_requests :: "px_request list" where
  "root_requests = [RqSubmit (Some ''Bearer secret'') ''prop-1'' 0 ''new_tool'' retry_spec retry_tests ''useful'' (Some 1),
     RqApprove (Some ''Bearer wrong'') (\<lambda>_. 1) ''prop-1'', RqApprove (Some ''Bearer secret'') (\<lambda>_. 2) ''prop-1'']"

definition after_requests :: prop_engine where
  "after_requests = run_ops (rq_step example_keying plain_env) root_requests (fresh_engine True (Some example_registry) None)"

lemma px_only_allowed_approve_witness:
  "map_option (\<lambda>p. (xp_status p, xp_votes p)) (px_load ''prop-1'' after_requests) = Some (XApproved, [''root''])
    \<and> list_all (\<lambda>(i, p, written). list_all (allowed after_requests) (xp_votes p)) (pg_files after_requests)"
proof -
  have "distinct (concat (map rq_ids root_requests))" by (simp add: root_requests_def)
  from px_only_allowed_approve [OF this, of example_keying plain_env True "Some example_registry" None]
  have "list_all (\<lambda>(i, p, written). list_all (allowed after_requests) (xp_votes p)) (pg_files after_requests)"
    unfolding after_requests_def [symmetric] by (auto simp: list_all_iff)
  moreover have "map_option (\<lambda>p. (xp_status p, xp_votes p)) (px_load ''prop-1'' after_requests) = Some (XApproved, [''root''])" by code_simp
  ultimately show ?thesis by simp
qed

end
