(* ===== verification/Daemon_Loop.thy ===== *)
theory Daemon_Loop imports Message_Bus Registry Goals Proposal_Engine Self_Mod begin

text \<open>
  The main loop of the autonomy daemon, \<open>agents/daemon.py\<close>: the counters by which an agent counts as stalled
  (\<open>DaemonMetrics\<close>), a cycle of the loop over the core agents and their goals (the theory Goals), and its
  housekeeping: the cap on goals, the pruning of alerts on the disk image of the Message_Bus, and the sweep of the tools directory
  that Self_Mod and Proposal_Engine write to. The votes and deployments of the cycle are in Self_Mod, the tasks in
  Offload.

  The pursuit of a goal and the existence prompt, which ask the language model, are inputs of a cycle: what they
  do to the goals, and the result of a pursuit. A pursuit is one step, at its end; the ones that do not end in time have no
  result. The set of cooling agents has no order of its own: the order in which it is read is an input.

  The lemmas show what the counters count, what the cap leaves, that an agent can be trapped for ever,
  and that the housekeeping removes what is in use and keeps what it removes.
\<close>

section \<open>Counters\<close>

record daemon_metrics =
  dm_started :: time
  dm_cycles :: nat
  dm_completed :: nat
  dm_failed :: nat
  dm_errors :: nat
  dm_stalled :: "(string, nat) dict"
  dm_skipped :: "string list"
  dm_hist :: "(string, string list) dict"
  dm_track :: "(string, string option \<times> nat) dict"

definition new_metrics :: "time \<Rightarrow> daemon_metrics" where
  "new_metrics now = \<lparr>dm_started = now, dm_cycles = 0, dm_completed = 0, dm_failed = 0, dm_errors = 0, dm_stalled = [], dm_skipped = [],
     dm_hist = [], dm_track = []\<rparr>"

definition is_stalled :: "string \<Rightarrow> daemon_metrics \<Rightarrow> bool" where
  "is_stalled a m =
     (if 5 \<le> dict_get_or 0 (dm_stalled m) a then True
      else if (case dict_get (dm_hist m) a of None \<Rightarrow> False | Some h \<Rightarrow> 4 \<le> length h \<and> length (remdups (py_last 4 h)) = 1) then True
      else (case dict_get (dm_track m) a of None \<Rightarrow> False | Some (g, c) \<Rightarrow> 8 \<le> int (dm_cycles m) - int c))"

definition track_goal :: "string \<Rightarrow> string option \<Rightarrow> daemon_metrics \<Rightarrow> daemon_metrics" where
  "track_goal a goal m =
     (case dict_get (dm_track m) a of
        Some (g, c) \<Rightarrow> if g \<noteq> goal then m\<lparr>dm_track := dict_set a (goal, dm_cycles m) (dm_track m), dm_hist := dict_del a (dm_hist m)\<rparr> else m
      | None \<Rightarrow> m\<lparr>dm_track := dict_set a (goal, dm_cycles m) (dm_track m)\<rparr>)"

text \<open>\<open>prev\<close> is \<open>None\<close> when the goal's progress was not a number.\<close>

definition record_outcome :: "string \<Rightarrow> rat \<Rightarrow> rat option \<Rightarrow> string \<Rightarrow> string option \<Rightarrow> daemon_metrics \<Rightarrow> daemon_metrics" where
  "record_outcome a progress prev last_cap goal m =
     (if 1 \<le> progress
      then m\<lparr>dm_completed := dm_completed m + 1, dm_hist := dict_del a (dm_hist m), dm_track := dict_del a (dm_track m)\<rparr>
      else let m1 = (if last_cap \<noteq> [] then m\<lparr>dm_hist := dict_set a (py_last 5 (dict_get_or [] (dm_hist m) a @ [last_cap])) (dm_hist m)\<rparr> else m);
               m2 = track_goal a goal m1
           in if prev = Some progress then m2\<lparr>dm_stalled := dict_set a (dict_get_or 0 (dm_stalled m2) a + 1) (dm_stalled m2)\<rparr>
              else m2\<lparr>dm_stalled := dict_set a 0 (dm_stalled m2), dm_skipped := removeAll a (dm_skipped m2)\<rparr>)"

definition record_error :: "string \<Rightarrow> daemon_metrics \<Rightarrow> daemon_metrics" where
  "record_error a m = m\<lparr>dm_errors := dm_errors m + 1, dm_stalled := dict_set a (dict_get_or 0 (dm_stalled m) a + 1) (dm_stalled m)\<rparr>"

definition dm_summary :: "time \<Rightarrow> daemon_metrics \<Rightarrow> string" where
  "dm_summary now m =
     (let mins = py_int (now - dm_started m) div 60
      in ''uptime='' @ int_str (mins div 60) @ ''h'' @ int_str (mins mod 60) @ ''m cycles='' @ nat_str (dm_cycles m)
         @ '' completed='' @ nat_str (dm_completed m) @ '' failed='' @ nat_str (dm_failed m) @ '' errors='' @ nat_str (dm_errors m))"

section \<open>A cycle\<close>

definition managed_ids :: "string list" where
  "managed_ids = [''analyst'', ''builder'', ''scout'']"

datatype run_result = RunOk "string option" rat | RunFailed

record 'v daemon =
  da_metrics :: daemon_metrics
  da_goals :: "'v goal_store"

record 'v cycle_in =
  ci_status :: "string \<Rightarrow> agent_status option"
  ci_idle :: "string \<Rightarrow> 'v goal_store \<Rightarrow> 'v goal_store"
  ci_run :: "string \<Rightarrow> 'v goal_store \<Rightarrow> 'v goal_store \<times> run_result"
  ci_clk :: "string \<Rightarrow> time"
  ci_ended :: "string list"
  ci_order :: "string list \<Rightarrow> string list"

text \<open>\<open>_agents_with_goals\<close>: an agent whose requests fail is left out, a suspended one too; one without goals is given one.\<close>

fun with_goals :: "'v cycle_in \<Rightarrow> string list \<Rightarrow> 'v goal_store \<Rightarrow> 'v goal_store \<times> string list" where
  "with_goals ci [] gs = (gs, [])"
| "with_goals ci (a # as) gs =
     (case ci_status ci a of
        None \<Rightarrow> with_goals ci as gs
      | Some st \<Rightarrow>
          if st = Suspended then with_goals ci as gs
          else if 0 < length (gl_list_active a 50 gs) then (let (gs', out) = with_goals ci as gs in (gs', a # out))
          else with_goals ci as (ci_idle ci a gs))"

text \<open>A stalled agent loses its first goal, is given a new one and cools off.\<close>

definition cool_off :: "'v cycle_in \<Rightarrow> string \<Rightarrow> 'v daemon \<Rightarrow> 'v daemon" where
  "cool_off ci a d =
     (let m = da_metrics d
      in \<lparr>da_metrics = m\<lparr>dm_skipped := List.insert a (dm_skipped m), dm_stalled := dict_set a 0 (dm_stalled m)\<rparr>,
          da_goals = (case gl_list_active a 1 (da_goals d) of [] \<Rightarrow> da_goals d
                      | g # _ \<Rightarrow> ci_idle ci a (gl_abandon (ci_clk ci a) a (g_id g) (da_goals d)))\<rparr>)"

fun filter_stalled :: "'v cycle_in \<Rightarrow> string list \<Rightarrow> 'v daemon \<Rightarrow> 'v daemon \<times> string list" where
  "filter_stalled ci [] d = (d, [])"
| "filter_stalled ci (a # as) d =
     (if is_stalled a (da_metrics d) then filter_stalled ci as (cool_off ci a d)
      else (let (d', out) = filter_stalled ci as d in (d', a # out)))"

text \<open>\<open>_cap_agent_goals\<close>: of the first fifty active goals, those after the first \<open>n\<close> by priority and then by age are abandoned.\<close>

definition cap_goals :: "time \<Rightarrow> string \<Rightarrow> nat \<Rightarrow> 'v goal_store \<Rightarrow> 'v goal_store" where
  "cap_goals now a n gs =
     (let active = gl_list_active a 50 gs
      in if length active \<le> n then gs
         else foldl (\<lambda>gs g. gl_abandon now a (g_id g) gs) gs (drop n (sort_key (\<lambda>g. (- g_priority g, - g_created g)) active)))"

definition num_of :: "pyval \<Rightarrow> rat option" where
  "num_of v = (case v of PInt n \<Rightarrow> Some (of_int n) | PFlt x \<Rightarrow> Some x | PBool b \<Rightarrow> Some (if b then 1 else 0) | _ \<Rightarrow> None)"

definition first_metric :: "string \<Rightarrow> pyval \<Rightarrow> string \<Rightarrow> 'v goal_store \<Rightarrow> pyval" where
  "first_metric key other a gs = (case gl_list_active a 1 gs of [] \<Rightarrow> other | g # _ \<Rightarrow> dict_get_or other (g_metrics g) key)"

definition text_or_empty :: "pyval \<Rightarrow> string" where
  "text_or_empty v = (case v of PStr s \<Rightarrow> s | _ \<Rightarrow> [])"

text \<open>The run of an agent and what the loop does with its result.\<close>

definition run_one :: "'v cycle_in \<Rightarrow> string \<Rightarrow> 'v daemon \<Rightarrow> 'v daemon" where
  "run_one ci a d =
     (let gs = cap_goals (ci_clk ci a) a 2 (da_goals d);
          prev = num_of (first_metric ''progress'' (PFlt 0) a gs)
      in case ci_run ci a gs of
           (gs', RunFailed) \<Rightarrow> d\<lparr>da_metrics := record_error a (da_metrics d), da_goals := gs'\<rparr>
         | (gs', RunOk goal progress) \<Rightarrow>
             d\<lparr>da_metrics := record_outcome a progress prev (text_or_empty (first_metric ''last_cap'' (PStr []) a gs')) goal (da_metrics d),
               da_goals := (if 1 \<le> progress then ci_idle ci a gs' else gs')\<rparr>)"

text \<open>In every tenth cycle two of the cooling agents come back.\<close>

definition release :: "(string list \<Rightarrow> string list) \<Rightarrow> daemon_metrics \<Rightarrow> daemon_metrics" where
  "release order m =
     (if dm_cycles m mod 10 = 0
      then foldl (\<lambda>m a. m\<lparr>dm_skipped := removeAll a (dm_skipped m), dm_stalled := dict_set a 0 (dm_stalled m)\<rparr>) m (take 2 (order (dm_skipped m)))
      else m)"

definition cycle_start :: "'v cycle_in \<Rightarrow> 'v daemon \<Rightarrow> 'v daemon \<times> string list" where
  "cycle_start ci d =
     (let m = da_metrics d; m1 = m\<lparr>dm_cycles := dm_cycles m + 1\<rparr>; (gs, as) = with_goals ci managed_ids (da_goals d)
      in filter_stalled ci (filter (\<lambda>a. a \<notin> set (dm_skipped m1)) as) \<lparr>da_metrics = m1, da_goals = gs\<rparr>)"

definition daemon_cycle :: "'v cycle_in \<Rightarrow> 'v daemon \<Rightarrow> 'v daemon" where
  "daemon_cycle ci d =
     (let (d1, runnable) = cycle_start ci d;
          d2 = foldl (\<lambda>d a. run_one ci a d) d1 (filter (\<lambda>a. a \<in> set runnable) (remdups (ci_ended ci)))
      in d2\<lparr>da_metrics := release (ci_order ci) (da_metrics d2)\<rparr>)"

section \<open>Trapped agents\<close>

text \<open>An agent whose goal was taken up so long ago that it counts as stalled in the next cycle.\<close>

definition trapped :: "string \<Rightarrow> daemon_metrics \<Rightarrow> bool" where
  "trapped a m = (case dict_get (dm_track m) a of None \<Rightarrow> False | Some (g, c) \<Rightarrow> c + 8 \<le> dm_cycles m + 1)"

fun cycles :: "'v cycle_in list \<Rightarrow> 'v daemon \<Rightarrow> 'v daemon" where
  "cycles [] d = d"
| "cycles (ci # inputs) d = cycles inputs (daemon_cycle ci d)"

text \<open>The agents that run, cycle by cycle.\<close>

fun runs :: "'v cycle_in list \<Rightarrow> 'v daemon \<Rightarrow> string list list" where
  "runs [] d = []"
| "runs (ci # inputs) d = snd (cycle_start ci d) # runs inputs (daemon_cycle ci d)"

lemma filter_stalled_frame:
  "dm_track (da_metrics (fst (filter_stalled ci as d))) = dm_track (da_metrics d)
    \<and> dm_hist (da_metrics (fst (filter_stalled ci as d))) = dm_hist (da_metrics d)
    \<and> dm_cycles (da_metrics (fst (filter_stalled ci as d))) = dm_cycles (da_metrics d)"
  by (induction as arbitrary: d) (simp_all add: cool_off_def Let_def case_prod_beta)

lemma stalled_cong:
  "dict_get (dm_track m) a = dict_get (dm_track m') a \<Longrightarrow> dm_cycles m = dm_cycles m' \<Longrightarrow> dict_get (dm_track m') a = Some (g, c) \<Longrightarrow> c + 8 \<le> dm_cycles m'
    \<Longrightarrow> is_stalled a m"
  by (simp add: is_stalled_def)

lemma filter_stalled_drops:
  "dict_get (dm_track (da_metrics d)) a = Some (g, c) \<Longrightarrow> c + 8 \<le> dm_cycles (da_metrics d) \<Longrightarrow> a \<notin> set (snd (filter_stalled ci as d))"
proof (induction as arbitrary: d)
  case (Cons b as)
  have kept: "dm_track (da_metrics (cool_off ci b d)) = dm_track (da_metrics d)" "dm_cycles (da_metrics (cool_off ci b d)) = dm_cycles (da_metrics d)"
    by (simp_all add: cool_off_def Let_def)
  show ?case
  proof (cases "is_stalled b (da_metrics d)")
    case True
    then show ?thesis using Cons.IH [of "cool_off ci b d"] Cons.prems kept by simp
  next
    case False
    then have "b \<noteq> a" using stalled_cong [OF refl refl Cons.prems] by auto
    then show ?thesis using False Cons.IH [OF Cons.prems] by (cases "filter_stalled ci as d") simp
  qed
qed simp

lemma outcome_frame:
  "a \<noteq> b \<Longrightarrow> dict_get (dm_track (record_outcome b p pv l g m)) a = dict_get (dm_track m) a"
  "dm_cycles (record_outcome b p pv l g m) = dm_cycles m"
  by (simp_all add: record_outcome_def Let_def track_goal_def split: option.split)

lemma run_one_frame:
  "a \<noteq> b \<Longrightarrow> dict_get (dm_track (da_metrics (run_one ci b d))) a = dict_get (dm_track (da_metrics d)) a"
  "dm_cycles (da_metrics (run_one ci b d)) = dm_cycles (da_metrics d)"
  by (simp_all add: run_one_def Let_def record_error_def outcome_frame split: prod.split run_result.split)

lemma run_all_frame:
  "a \<notin> set bs \<Longrightarrow> dict_get (dm_track (da_metrics (foldl (\<lambda>d a. run_one ci a d) d bs))) a = dict_get (dm_track (da_metrics d)) a
    \<and> dm_cycles (da_metrics (foldl (\<lambda>d a. run_one ci a d) d bs)) = dm_cycles (da_metrics d)"
  by (induction bs arbitrary: d) (simp_all add: run_one_frame)

lemma release_fold:
  "dm_track (foldl (\<lambda>m a. m\<lparr>dm_skipped := removeAll a (dm_skipped m), dm_stalled := dict_set a 0 (dm_stalled m)\<rparr>) m xs) = dm_track m
    \<and> dm_cycles (foldl (\<lambda>m a. m\<lparr>dm_skipped := removeAll a (dm_skipped m), dm_stalled := dict_set a 0 (dm_stalled m)\<rparr>) m xs) = dm_cycles m"
  by (induction xs arbitrary: m) simp_all

lemma release_frame: "dm_track (release order m) = dm_track m \<and> dm_cycles (release order m) = dm_cycles m"
  by (simp add: release_def release_fold)

lemma start_frame:
  "dm_track (da_metrics (fst (cycle_start ci d))) = dm_track (da_metrics d)
    \<and> dm_cycles (da_metrics (fst (cycle_start ci d))) = dm_cycles (da_metrics d) + 1"
  by (simp add: cycle_start_def Let_def filter_stalled_frame split: prod.split)

lemma trapped_cycle:
  assumes "trapped a (da_metrics d)"
  shows "a \<notin> set (snd (cycle_start ci d)) \<and> trapped a (da_metrics (daemon_cycle ci d))"
proof -
  from assms obtain g c where t: "dict_get (dm_track (da_metrics d)) a = Some (g, c)" and c: "c + 8 \<le> dm_cycles (da_metrics d) + 1"
    by (auto simp: trapped_def split: option.splits)
  have out: "a \<notin> set (snd (cycle_start ci d))"
    using filter_stalled_drops [of _ a g c ci] t c by (simp add: cycle_start_def Let_def split: prod.split)
  obtain d1 rs where s: "cycle_start ci d = (d1, rs)" by fastforce
  have f: "dict_get (dm_track (da_metrics d1)) a = Some (g, c)" "dm_cycles (da_metrics d1) = dm_cycles (da_metrics d) + 1"
    using start_frame [of ci d] t by (simp_all add: s)
  have "a \<notin> set (filter (\<lambda>b. b \<in> set rs) (remdups (ci_ended ci)))" using out by (simp add: s)
  from run_all_frame [OF this, of ci d1] f c
  have "trapped a (da_metrics (daemon_cycle ci d))" by (simp add: daemon_cycle_def s Let_def trapped_def release_frame)
  with out show ?thesis by simp
qed

text \<open>
  C18: An agent can be trapped. Once eight cycles have gone by since an agent took up the goal it was last seen with, it never works
  again: it counts as stalled in every cycle, its goals are taken from it and it is sent to cool off, and when it comes
  back nothing has been reset that would let it run - whatever goals it is given, whatever the other agents do, however long the
  daemon runs.
\<close>

theorem dm_trapped_for_ever:
  assumes "trapped a (da_metrics d)"
  shows "a \<notin> set (concat (runs inputs d)) \<and> trapped a (da_metrics (cycles inputs d))"
  using assms
proof (induction inputs arbitrary: d)
  case (Cons ci inputs)
  from trapped_cycle [OF Cons.prems, of ci] Cons.IH [of "daemon_cycle ci d"] show ?case by auto
qed simp

text \<open>An agent that works at a goal of twenty steps and gets one further in every cycle.\<close>

definition steady_run :: "string \<Rightarrow> unit goal_store \<Rightarrow> unit goal_store \<times> run_result" where
  "steady_run a gs =
     (case gl_list_active a 1 gs of [] \<Rightarrow> (gs, RunFailed)
      | g # _ \<Rightarrow>
          let p = (case dict_get (g_metrics g) ''progress'' of Some (PFlt x) \<Rightarrow> x | _ \<Rightarrow> 0) + 1 / 20
          in (gl_update_progress 1 1 a (g_id g) [(''progress'', PFlt p)] gs, RunOk (Some (g_id g)) p))"

definition next_goal :: "string \<Rightarrow> unit goal_store \<Rightarrow> unit goal_store" where
  "next_goal a gs = gl_create (\<lambda>_. None) (CHR ''g'' # nat_str (length (ag_lines (dict_get_or no_goals gs a)))) 1 a ''explore'' 5 gs"

definition steady :: "unit cycle_in" where
  "steady = \<lparr>ci_status = (\<lambda>a. if a = ''scout'' then Some Active else None), ci_idle = next_goal, ci_run = steady_run, ci_clk = (\<lambda>_. 1),
     ci_ended = [''scout''], ci_order = (\<lambda>s. s)\<rparr>"

definition first_day :: "unit daemon" where
  "first_day = \<lparr>da_metrics = new_metrics 0, da_goals = next_goal ''scout'' []\<rparr>"

text \<open>
  Steady work is punished: an agent whose goal takes more than eight cycles counts as stalled although it advances in each of
  them. The goal is abandoned at two fifths, and the agent never runs again.
\<close>

lemma dm_steady_worker_trapped:
  "runs (replicate 25 steady) first_day = replicate 8 [''scout''] @ replicate 17 []
    \<and> map (\<lambda>g. (g_status g, dict_get (g_metrics g) ''progress'')) (take 1 (ag_lines (dict_get_or no_goals (da_goals (cycles (replicate 9 steady) first_day)) ''scout'')))
       = [(GAbandoned, Some (PFlt (2 / 5)))]"
  by code_simp

lemma dm_trapped_for_ever_witness: "''scout'' \<notin> set (concat (runs (replicate 100 steady) (cycles (replicate 8 steady) first_day)))"
proof -
  have "trapped ''scout'' (da_metrics (cycles (replicate 8 steady) first_day))" by code_simp
  from dm_trapped_for_ever [OF this, of "replicate 100 steady"] show ?thesis by simp
qed

section \<open>What the counter counts\<close>

text \<open>What the loop learns of an agent: an error, or progress before and after.\<close>

datatype report = Trouble | Moved rat "rat option" string "string option"

fun note_report :: "string \<Rightarrow> report \<Rightarrow> daemon_metrics \<Rightarrow> daemon_metrics" where
  "note_report a Trouble m = record_error a m"
| "note_report a (Moved p prev last_cap goal) m = record_outcome a p prev last_cap goal m"

fun completes :: "report \<Rightarrow> bool" where
  "completes Trouble = False"
| "completes (Moved p prev last_cap goal) = (1 \<le> p)"

fun no_progress :: "report \<Rightarrow> bool" where
  "no_progress Trouble = True"
| "no_progress (Moved p prev last_cap goal) = (prev = Some p)"

lemma track_stalled: "dm_stalled (track_goal a goal m) = dm_stalled m"
  by (simp add: track_goal_def split: option.split)

lemma note_stalled:
  "dict_get_or 0 (dm_stalled (note_report a r m)) a =
     (if completes r then dict_get_or 0 (dm_stalled m) a else if no_progress r then dict_get_or 0 (dm_stalled m) a + 1 else 0)"
  by (cases r) (simp_all add: record_error_def record_outcome_def Let_def track_stalled)

lemma note_other: "b \<noteq> a \<Longrightarrow> dict_get (dm_stalled (note_report b r m)) a = dict_get (dm_stalled m) a"
  by (cases r) (simp_all add: record_error_def record_outcome_def Let_def track_stalled)



section \<open>The cap on goals\<close>

definition abandoned :: "time \<Rightarrow> goal \<Rightarrow> goal" where
  "abandoned now g = g\<lparr>g_status := GAbandoned, g_updated := now\<rparr>"

definition excess :: "string \<Rightarrow> nat \<Rightarrow> 'v goal_store \<Rightarrow> goal list" where
  "excess a n gs = drop n (sort_key (\<lambda>g. (- g_priority g, - g_created g)) (gl_list_active a 50 gs))"

lemma abandon_several:
  assumes "goals_ok gs"
  shows "goals_ok (foldl (\<lambda>gs g. gl_abandon now a (g_id g) gs) gs xs)
    \<and> gl_get ag i (foldl (\<lambda>gs g. gl_abandon now a (g_id g) gs) gs xs)
       = (if ag = a \<and> i \<in> g_id ` set xs then map_option (abandoned now) (gl_get ag i gs) else gl_get ag i gs)"
  using assms
proof (induction xs arbitrary: gs)
  case (Cons x xs)
  have eq: "gl_abandon now a (g_id x) gs = gl_apply (abandoned now) a (g_id x) gs"
    by (simp add: gl_abandon_def gl_apply_def abandoned_def [abs_def])
  have f: "g_id (abandoned now g) = g_id g" "abandoned now (abandoned now g) = abandoned now g" for g by (simp_all add: abandoned_def)
  note ch = change_ok [OF Cons.prems, of "abandoned now" a "g_id x" ag i, OF f(1)]
  with Cons.IH [of "gl_apply (abandoned now) a (g_id x) gs"] show ?case
    by (auto simp: eq f(2) option.map_comp comp_def)
qed simp

text \<open>
  The cap abandons the goals it means to and no others: those of the first fifty active goals of the agent that come after the
  first \<open>n\<close> by priority and, among equals, by youth. Every goal of the fifty that stays has a priority at least as high as every goal
  that goes; the goals of other agents, and those past the fifty, keep their state.
\<close>

theorem dm_cap_exact:
  assumes "goals_ok gs"
  shows "gl_get ag i (cap_goals now a n gs)
      = (if ag = a \<and> i \<in> g_id ` set (excess a n gs) then map_option (abandoned now) (gl_get ag i gs) else gl_get ag i gs)
    \<and> (\<forall>g \<in> set (take n (sort_key (\<lambda>g. (- g_priority g, - g_created g)) (gl_list_active a 50 gs))). \<forall>h \<in> set (excess a n gs).
         g_priority h < g_priority g \<or> g_priority h = g_priority g \<and> g_created h \<le> g_created g)"
proof
  show "gl_get ag i (cap_goals now a n gs)
      = (if ag = a \<and> i \<in> g_id ` set (excess a n gs) then map_option (abandoned now) (gl_get ag i gs) else gl_get ag i gs)"
    using abandon_several [OF assms, of now a "excess a n gs" ag i] by (auto simp: cap_goals_def excess_def Let_def)
next
  define k where "k = (\<lambda>g :: goal. (- g_priority g, - g_created g))"
  define xs where "xs = sort_key k (gl_list_active a 50 gs)"
  have "sorted (map k (take n xs @ drop n xs))" unfolding append_take_drop_id by (simp add: xs_def)
  then have "\<forall>g \<in> set (take n xs). \<forall>h \<in> set (drop n xs). k g \<le> k h" by (simp only: map_append sorted_append) auto
  then show "\<forall>g \<in> set (take n (sort_key (\<lambda>g. (- g_priority g, - g_created g)) (gl_list_active a 50 gs))). \<forall>h \<in> set (excess a n gs).
         g_priority h < g_priority g \<or> g_priority h = g_priority g \<and> g_created h \<le> g_created g"
    unfolding excess_def xs_def [symmetric, unfolded k_def] by (fastforce simp: k_def less_eq_prod_def)
qed

definition busy :: "unit goal_store" where
  "busy = gl_create (\<lambda>_. None) ''g3'' 3 ''scout'' ''read'' 5 (gl_create (\<lambda>_. None) ''g2'' 2 ''scout'' ''write'' 7 (gl_create (\<lambda>_. None) ''g1'' 1 ''scout'' ''rest'' 5 []))"

lemma dm_cap_exact_witness:
  "gl_get ''scout'' ''g1'' (cap_goals 9 ''scout'' 2 busy) = map_option (abandoned 9) (gl_get ''scout'' ''g1'' busy)
    \<and> gl_get ''scout'' ''g3'' (cap_goals 9 ''scout'' 2 busy) = gl_get ''scout'' ''g3'' busy"
proof -
  have ok: "goals_ok busy" and x: "map g_id (excess ''scout'' 2 busy) = [''g1'']" by code_simp+
  have "g_id ` set (excess ''scout'' 2 busy) = {''g1''}" using arg_cong [OF x, of set] by simp
  with dm_cap_exact [OF ok, of "''scout''" "''g1''" 9 "''scout''" 2] dm_cap_exact [OF ok, of "''scout''" "''g3''" 9 "''scout''" 2]
  show ?thesis by simp
qed

section \<open>Stale alerts\<close>

text \<open>\<open>_prune_stale_root_alerts\<close> rewrites the file of the message bus; the bus itself is in another process.\<close>

definition stale_alert :: "time \<Rightarrow> rat \<Rightarrow> message \<Rightarrow> bool" where
  "stale_alert now max_age m = (dict_get (m_content m) ''decision_type'' = Some (PStr ''circuit_break_review'') \<and> max_age < now - m_timestamp m)"

definition prune_alerts :: "time \<Rightarrow> rat \<Rightarrow> bus \<Rightarrow> bus \<times> nat" where
  "prune_alerts now max_age b =
     (case b_disk b of None \<Rightarrow> (b, 0)
      | Some qs \<Rightarrow>
          (let queue = dict_get_or [] qs ''root''; survivors = filter (\<lambda>m. \<not> stale_alert now max_age m) queue;
               pruned = length queue - length survivors
           in if pruned = 0 then (b, 0) else (b\<lparr>b_disk := Some (dict_set ''root'' survivors qs)\<rparr>, pruned)))"

text \<open>The messages of an agent in the file.\<close>

definition bus_disk :: "bus \<Rightarrow> string \<Rightarrow> message list" where
  "bus_disk b a = (case b_disk b of None \<Rightarrow> [] | Some qs \<Rightarrow> dict_get_or [] qs a)"

lemma unfiltered: "length xs - length (filter P xs) = 0 \<Longrightarrow> filter P xs = xs"
  by (metis diff_is_0_eq filter_id_conv le_antisym length_filter_le length_filter_less less_irrefl)

lemma prune_frame: "b_objs (fst (prune_alerts now k b)) = b_objs b" "b_queues (fst (prune_alerts now k b)) = b_queues b" "b_all (fst (prune_alerts now k b)) = b_all b"
  by (simp_all add: prune_alerts_def Let_def split: option.split)

lemma bus_disk_save: "wf_dict (b_queues b) \<Longrightarrow> bus_disk (bus_save b) a = inbox b a"
  by (simp add: bus_disk_def bus_save_def inbox_def dict_get_or_def split: option.split)

text \<open>
  Pruning does not last. It removes exactly the stale alerts from the file; but the bus never reads the file again while it
  runs, and the next message that is sent, to whomever, writes all of them back.
\<close>

theorem dm_prune_undone:
  assumes ok: "bus_wf b" and saved: "b_disk b = b_disk (bus_save b)" and to: "to_id \<noteq> ''broadcast''"
  shows "bus_disk (fst (prune_alerts now k b)) ''root'' = filter (\<lambda>m. \<not> stale_alert now k m) (inbox b ''root'')
    \<and> bus_disk (fst (bus_send mid t1 t2 f to_id c mt rt ttl (fst (prune_alerts now k b)))) ''root''
      = inbox b ''root'' @ (if to_id = ''root'' then [sent_msg mid t1 t2 f to_id c mt rt ttl] else [])"
proof
  have d: "bus_disk b ''root'' = inbox b ''root''"
    using bus_disk_save [OF bus_wfD(1) [OF ok], of "''root''"] saved by (simp add: bus_disk_def)
  obtain qs where qs: "b_disk b = Some qs" using saved by (simp add: bus_save_def)
  with d have q: "dict_get_or [] qs ''root'' = inbox b ''root''" by (simp add: bus_disk_def)
  show "bus_disk (fst (prune_alerts now k b)) ''root'' = filter (\<lambda>m. \<not> stale_alert now k m) (inbox b ''root'')"
    using unfiltered [of "inbox b ''root''" "\<lambda>m. \<not> stale_alert now k m"]
    by (cases "length (inbox b ''root'') - length (filter (\<lambda>m. \<not> stale_alert now k m) (inbox b ''root'')) = 0")
      (simp_all add: prune_alerts_def bus_disk_def qs q Let_def)
next
  let ?b = "fst (prune_alerts now k b)"
  have wf: "bus_wf ?b" using ok by (simp add: bus_wf_def prune_frame)
  have "bus_disk (fst (bus_send mid t1 t2 f to_id c mt rt ttl ?b)) ''root'' = inbox (fst (bus_send mid t1 t2 f to_id c mt rt ttl ?b)) ''root''"
    using bus_disk_save bus_wfD(1) [OF bus_wf_send [OF wf]] by (simp add: bus_send_state)
  also have "\<dots> = inbox ?b ''root'' @ (if to_id = ''root'' then [sent_msg mid t1 t2 f to_id c mt rt ttl] else [])"
    using inbox_send_direct [OF wf to] by simp
  finally show "bus_disk (fst (bus_send mid t1 t2 f to_id c mt rt ttl ?b)) ''root''
      = inbox b ''root'' @ (if to_id = ''root'' then [sent_msg mid t1 t2 f to_id c mt rt ttl] else [])"
    by (simp add: inbox_def prune_frame)
qed

definition old_alert :: bus where
  "old_alert = fst (bus_send ''m2'' 4000 4000 ''scout'' ''root'' [(''text'', PStr ''hello'')] ''data'' None None
     (fst (bus_send ''m1'' 0 0 ''system'' ''root'' [(''decision_type'', PStr ''circuit_break_review'')] ''alert'' None None bus_empty)))"

lemma dm_prune_undone_witness:
  "map m_id (bus_disk (fst (prune_alerts 5000 3600 old_alert)) ''root'') = [''m2'']
    \<and> map m_id (bus_disk (fst (bus_send ''m3'' 5001 5001 ''scout'' ''builder'' [] ''ping'' None None (fst (prune_alerts 5000 3600 old_alert)))) ''root'') = [''m1'', ''m2'']"
proof -
  have "bus_wf old_alert" by (simp add: old_alert_def)
  moreover have "b_disk old_alert = b_disk (bus_save old_alert)" by code_simp
  moreover have "map m_id (filter (\<lambda>m. \<not> stale_alert 5000 3600 m) (inbox old_alert ''root'')) = [''m2'']" "map m_id (inbox old_alert ''root'') = [''m1'', ''m2'']" by code_simp+
  ultimately show ?thesis
    using dm_prune_undone [of old_alert "''builder''" 5000 3600 "''m3''" 5001 5001 "''scout''" "[]" "''ping''" None None] by simp
qed

section \<open>The sweep of the tools\<close>

text \<open>
  In every fifth cycle the modules and specifications of tools that are listed as broken are removed, and then every specification
  without a module. \<open>py\<close> holds the names of the modules of the directory, \<open>pg_tools\<close> its specifications.
\<close>

definition sweep_tools :: "string list \<Rightarrow> string list \<Rightarrow> prop_engine \<Rightarrow> string list \<times> prop_engine" where
  "sweep_tools broken py g =
     (let removed = filter (\<lambda>s. s \<in> set broken) py; py' = filter (\<lambda>s. s \<notin> set broken) py;
          kept = foldl (\<lambda>ts s. dict_del s ts) (pg_tools g) removed
      in (py', g\<lparr>pg_tools := filter (\<lambda>(name, t). name \<in> set py') kept\<rparr>))"

lemma sweep_named: "(n, t) \<in> set (pg_tools (snd (sweep_tools broken py g))) \<Longrightarrow> n \<in> set py \<and> n \<notin> set broken"
  by (auto simp: sweep_tools_def Let_def)

text \<open>
  C38: What agents decide about tools does not last. An approval that completes the quorum of a proposal for a tool installs its
  specification, and nothing else; the next sweep of the daemon finds no module of that name and removes it, while the proposal stays
  approved - so that no further approval can bring the tool back.
\<close>

theorem dm_sweep_removes_tools:
  assumes "px_load i g = Some p" and "xp_id p = i" and "xp_status p \<in> {XProposed, XReview}"
    and "xp_quorum p \<le> int (length (xp_votes (voted_for by (clk 7) p)))" and "cases_pass env p" and "installable env p g"
    and "show_val env (tool_value p) \<notin> set py"
  shows "dict_get (pg_tools (fst (px_approve env clk i by g))) (show_val env (tool_value p)) = Some (dyn_tool_spec (clk 2) p)
    \<and> dict_get (pg_tools (snd (sweep_tools broken py (fst (px_approve env clk i by g))))) (show_val env (tool_value p)) = None
    \<and> fst (px_approve env clk2 i by2 (snd (sweep_tools broken py (fst (px_approve env clk i by g)))))
        = snd (sweep_tools broken py (fst (px_approve env clk i by g)))"
proof -
  let ?g = "fst (px_approve env clk i by g)" and ?n = "show_val env (tool_value p)"
  note dec = approve_decides [of i g p "by" clk env, OF assms(1-6)]
  have out: "dict_get (pg_tools (snd (sweep_tools broken py ?g))) ?n = None"
    using sweep_named [of ?n _ broken py ?g] assms(7) by (cases "dict_get (pg_tools (snd (sweep_tools broken py ?g))) ?n") (auto dest: dict_get_in)
  have "px_load i (snd (sweep_tools broken py ?g)) = Some (decided env by clk p)"
    using dec by (simp add: px_load_def sweep_tools_def Let_def)
  from approve_decided [OF this, of env clk2 by2] dec out show ?thesis by (simp add: decided_def)
qed

section \<open>Notes to agents\<close>

text \<open>\<open>_send_message\<close> and \<open>_read_inbox\<close>: one file of lines per agent, read and then emptied; the two steps of a reader are apart.\<close>

record mail =
  nt_from :: string
  nt_to :: string
  nt_text :: string
  nt_time :: time

datatype note_op = NoteSend string string string time | NoteLook string | NoteWipe string

fun note_step :: "note_op \<Rightarrow> (string, mail list) dict \<Rightarrow> (string, mail list) dict \<times> mail list" where
  "note_step (NoteSend from_agent to_agent text now) d =
     (dict_set to_agent (dict_get_or [] d to_agent @ [\<lparr>nt_from = from_agent, nt_to = to_agent, nt_text = text, nt_time = now\<rparr>]) d, [])"
| "note_step (NoteLook a) d = (d, dict_get_or [] d a)"
| "note_step (NoteWipe a) d = ((case dict_get d a of None \<Rightarrow> d | Some q \<Rightarrow> dict_set a [] d), [])"

text \<open>The message of the host goes to the inboxes of all core agents, and the file it stood in is emptied.\<close>

definition host_message :: "time \<Rightarrow> string option \<Rightarrow> (string, mail list) dict \<Rightarrow> string option \<times> (string, mail list) dict" where
  "host_message now file d =
     (case file of None \<Rightarrow> (None, d)
      | Some text \<Rightarrow>
          if py_strip text = [] then (Some text, d)
          else (Some [], foldl (\<lambda>d a. fst (note_step (NoteSend ''host'' a (py_strip text) now) d)) d managed_ids))"

fun note_sent :: "string \<Rightarrow> note_op \<Rightarrow> mail list" where
  "note_sent a (NoteSend f t x now) = (if t = a then [\<lparr>nt_from = f, nt_to = t, nt_text = x, nt_time = now\<rparr>] else [])"
| "note_sent a _ = []"

fun note_read :: "string \<Rightarrow> note_op list \<Rightarrow> (string, mail list) dict \<Rightarrow> mail list" where
  "note_read a [] d = []"
| "note_read a (x # xs) d = (if x = NoteLook a then snd (note_step x d) else []) @ note_read a xs (fst (note_step x d))"

text \<open>The notes for \<open>a\<close> that are not sent between the two steps of a reader; \<open>mid\<close> says that a reader is there.\<close>

fun note_kept :: "string \<Rightarrow> bool \<Rightarrow> note_op list \<Rightarrow> mail list" where
  "note_kept a mid [] = []"
| "note_kept a mid (NoteLook b # xs) = note_kept a (mid \<or> b = a) xs"
| "note_kept a mid (NoteWipe b # xs) = note_kept a (mid \<and> b \<noteq> a) xs"
| "note_kept a mid (x # xs) = (if mid then [] else note_sent a x) @ note_kept a mid xs"

text \<open>One reader of \<open>a\<close> at a time, and each of them does both steps.\<close>

fun note_paired :: "string \<Rightarrow> bool \<Rightarrow> note_op list \<Rightarrow> bool" where
  "note_paired a mid [] = (\<not> mid)"
| "note_paired a mid (NoteLook b # xs) = ((b = a \<longrightarrow> \<not> mid) \<and> note_paired a (mid \<or> b = a) xs)"
| "note_paired a mid (NoteWipe b # xs) = ((b = a \<longrightarrow> mid) \<and> note_paired a (mid \<and> b \<noteq> a) xs)"
| "note_paired a mid (x # xs) = note_paired a mid xs"

definition notes_after :: "note_op list \<Rightarrow> (string, mail list) dict \<Rightarrow> (string, mail list) dict" where
  "notes_after xs d = run_ops (\<lambda>x d. fst (note_step x d)) xs d"

lemma note_history:
  "note_paired a mid xs \<Longrightarrow>
    note_read a xs d @ dict_get_or [] (notes_after xs d) a = (if mid then [] else dict_get_or [] d a) @ note_kept a mid xs"
proof (induction a mid xs arbitrary: d rule: note_paired.induct)
  case (2 a mid b xs)
  then show ?case by (cases "b = a") (auto simp: notes_after_def)
next
  case (3 a mid b xs)
  then show ?case by (cases "b = a") (auto simp: notes_after_def dict_get_or_def split: option.split)
qed (auto simp: notes_after_def dict_get_or_def)

text \<open>
  A note is read once, in the order of sending, unless it arrives between the two steps of a reader: what \<open>a\<close> has read, and then what is
  still in its file, are the notes sent to it less the ones that arrived while a reader had read the file and not yet emptied it. Those are
  lost.
\<close>

theorem dm_notes_exact:
  assumes "note_paired a False xs"
  shows "note_read a xs [] @ dict_get_or [] (notes_after xs []) a = note_kept a False xs"
  using note_history [OF assms, of "[]"] by (simp add: dict_get_or_def)

definition note_race :: "note_op list" where
  "note_race = [NoteSend ''scout'' ''builder'' ''one'' 1, NoteLook ''builder'', NoteSend ''analyst'' ''builder'' ''two'' 2, NoteWipe ''builder'',
     NoteSend ''scout'' ''builder'' ''three'' 3, NoteLook ''builder'', NoteWipe ''builder'']"

lemma dm_notes_exact_witness: "map nt_text (note_read ''builder'' note_race [] @ dict_get_or [] (notes_after note_race []) ''builder'') = [''one'', ''three'']"
proof -
  have "note_paired ''builder'' False note_race" by code_simp
  moreover have "map nt_text (note_kept ''builder'' False note_race) = [''one'', ''three'']" by code_simp
  ultimately show ?thesis using dm_notes_exact by simp
qed

lemma dm_sweep_removes_tools_witness:
  "dict_get (pg_tools (snd (sweep_tools [] [] (fst (px_approve plain_env (\<lambda>_. 5) ''prop-1'' ''scout'' (fst (px_approve plain_env (\<lambda>_. 4) ''prop-1'' ''root'' retry_engine))))))) ''retry'' = None"
proof -
  define g where "g = fst (px_approve plain_env (\<lambda>_. 4) ''prop-1'' ''root'' retry_engine)"
  define p where "p = the (px_load ''prop-1'' g)"
  have "px_load ''prop-1'' g = Some p" "xp_id p = ''prop-1''" "xp_status p \<in> {XProposed, XReview}" "xp_quorum p \<le> int (length (xp_votes (voted_for ''scout'' 5 p)))"
    "cases_pass plain_env p" "installable plain_env p g" "show_val plain_env (tool_value p) = ''retry''"
    unfolding p_def g_def by code_simp+
  then show ?thesis using dm_sweep_removes_tools [of "''prop-1''" g p "''scout''" "\<lambda>_. 5" plain_env "[]" "[]"] by (simp add: g_def)
qed

end
