(* ===== verification/Spec2Isabelle.thy ===== *)
theory Spec2Isabelle imports Prelude Message_Bus Event_Bus Comms Registry Consensus Rate_Limit Memory_Heap Transactions Model_Manager Router Task_Queue Scheduler Scheduler_Behaviour Suffering_Behaviour Lineage Goals Delegation Checkpoint Audit_Log Offload Quorum Execution Self_Mod Standards Proposal_Engine Daemon_Loop begin

text \<open>
  A verification library of an operating system for language-model agents. The program is a set of
  Python classes, one per service, each guarded by a lock, persisted to JSON files and wired together by
  the HTTP server; agents call them through the server, the daemon drives the agents.

  Parts and theories, in the order of their dependencies:
  Prelude: clock readings, JSON-like payloads, events and effects, ordered dictionaries (Python's
  \<open>dict\<close>), slices, rounding, string primitives; the interfaces shared by all components, as locales: a
  keyed store, an operation system with an invariant, objects with a final status.
  Message_Bus (\<open>agents/bus.py\<close>) and Event_Bus (\<open>agents/events.py\<close>): mailboxes with shared message
  objects; subscriptions by \<open>fnmatch\<close> patterns, modelled in full and proved equivalent to the language
  of a pattern. Comms composes the two the way the server wires them: sending emits events, events are
  delivered as messages, and there is no cascade.
  Registry (\<open>agents/registry.py\<close>): identities, tokens, budgets, leases, lineage, termination.
  Rate_Limit (\<open>agents/ratelimit.py\<close>) uses it: token buckets and the circuit breaker.
  Consensus (\<open>agents/consensus.py\<close>): quorum votes.
  Memory_Heap (\<open>memory/heap.py\<close>) and Transactions (\<open>agents/transaction.py\<close>), which writes to heaps,
  files and mailboxes.
  Model_Manager (\<open>agents/model_manager.py\<close>), Router (\<open>agents/adaptive_router.py\<close>), Task_Queue and
  Scheduler (\<open>agents/scheduler.py\<close>): the scheduler's state contains the registry, the model manager and
  the router, and its steps interleave submissions, workers, stream lines and cancellations.
  Scheduler_Behaviour holds the consequences for reachable states.
  Suffering (\<open>agents/suffering.py\<close> and parts of \<open>agents/daemon.py\<close>) and Suffering_Behaviour: the
  stressors of an agent, their escalation, what they lock, and the daemon's use of them.
  Lineage (\<open>agents/lineage.py\<close>): the call and dependency graphs, what a failure reaches, critical paths.
  Goals (\<open>agents/persistent_goal.py\<close>, \<open>api/goal_routes.py\<close>): goals per agent in a log file with a row
  index, refined to a map; the choice of the goal to work on.
  Delegation (\<open>agents/delegation.py\<close>, \<open>agents/shared_goal.py\<close>) uses Goals: handed-over goals, their
  completion checks, and composite goals split among agents.
  Checkpoint (\<open>agents/checkpoint.py\<close>, \<open>agents/signals.py\<close>): saving and restoring an agent over the models of the heap, the
  registry, the message bus and the scheduler; the signals that pause, wake and terminate it.
  Audit_Log (\<open>agents/audit.py\<close>): the append-only log, the baselines and the circuit breaker behind the anomaly check.
  Offload (\<open>agents/task_queue.py\<close> and the claims of \<open>agents/daemon.py\<close>): the shared file of tasks, over Goals.
  Quorum (\<open>agents/agent_quorum.py\<close>, \<open>agents/capability_quorum.py\<close>, the votes of \<open>agents/agent_identity.py\<close> and the calls of
  \<open>agents/live_capabilities.py\<close>): proposals of capabilities, the rounds of votes of the daemon and the votes of agents.
  Execution (\<open>agents/execution_engine.py\<close>): registered capabilities, calls with a time limit, the gate of suffering.
  Self_Mod (\<open>agents/self_modification.py\<close>) uses both: from a gap over synthesis, test and proposal to a deployed capability.
  Standards (\<open>agents/standards.py\<close>): stored conventions and their choice for a task. Proposal_Engine (\<open>agents/proposals.py\<close> and
  its routes in \<open>api/agent_routes.py\<close>) applies approved proposals to Standards and to the directory of tools. It has no
  lock: a call of \<open>approve\<close> is a program counter with one step per reading or writing of the file, and calls interleave.
  Daemon_Loop (\<open>agents/daemon.py\<close>): the main loop, its counters, the agents it stops and its housekeeping on the message
  bus, the goals and the tools.

  Correspondence. A class is a record of its attributes; the file a class writes is a field, so that a
  restart is an operation. A method is a definition with the name of the method behind a prefix of the
  component; it takes the clock readings and identifiers it draws as arguments, returns the new state,
  and hands events and messages over as effects in program order. A raised error is a value of a result
  type. Loops are structural recursions or folds; the ancestor chain of the registry and the graph walks of the lineage have a
  measure, the number of unvisited nodes, and a call of \<open>approve\<close> the rank of its program counter. No fuel is used. Steps of the scheduler and of the message traffic are explicit sequences of operations:
  a lock makes a method one step, a method that gives its lock up (the commit of a transaction, the
  compression of an object, the execution of a task) is split where the code does so.

  Parameters of the model: the keyed digests, the answers of the model server and of the language model, embeddings and the square
  root, what the import of a generated module defines, how long a capability runs and how it ends, the texts of JSON
  values that are not texts, the errors of the file system, fresh identifiers, the files that the assessment of an
  agent reads. In Daemon_Loop the pursuit of a goal and the existence prompt are arbitrary functions on the goals, so its
  theorems hold whatever these do. Floats are rationals, without rounding; characters are bytes.

  What the lemmas show, by kind. Invariants: every reachable state of a component is well formed.
  Safety: locks are exclusive, authentication finds exactly the holder of a live token, the first
  committer wins, stagnation cannot be dismissed, nothing is deployed or installed without its quorum, also when calls
  interleave, and only agents with the right take part. Termination: the ancestor chain ends, also on cycles. Liveness: rounds
  of votes decide every proposal, a claimed task is completed, untouched goals starve, a stopped agent stays stopped. Functional behaviour and refinement: exactly-once
  delivery, the heap as a store, the priority queue as a stable sort, moving averages against a
  reference definition. Round trips: restarts restore the state. Several theorems state behaviour that
  differs from what comments promise: preempted tasks run twice, a failed commit loses files, a
  protection never acts, a decision is undone, an approved tool is swept away.

  Not modelled: threads other than as interleavings, directories and file permissions, the HTTP and MCP
  servers other than the routes named above, the panels and the installer, the planning of goals, which consists of prompts to a
  language model and the reading of its answers, and the components of the repository that the core does not call.
\<close>

end
